(* ===== verification/Prelude.thy ===== *)
theory Prelude
  imports Main "HOL-Library.Word"
begin

text \<open>
  Shared material of the development: the machine integer types of the Rust sources, byte strings,
  the endianness conversions of \<^verbatim>\<open>to_be_bytes\<close> and its relatives, a result type for
  \<^verbatim>\<open>Result\<close>, and the list facts the component proofs share. The locale
  \<open>fixed_width\<close> is the interface of every fixed-width integer codec; it is interpreted here on
  the five codecs the protocol uses.
\<close>

section \<open>Collections of facts\<close>

named_theorems bytes_simps \<open>lengths and round trips of the byte-level codecs\<close>
named_theorems reader_simps \<open>how a read moves the cursor over what it recognises\<close>

section \<open>Machine integers and byte strings\<close>

type_synonym u8 = "8 word"
type_synonym u16 = "16 word"
type_synonym u32 = "32 word"
type_synonym u64 = "64 word"
type_synonym bytes = "8 word list"

type_synonym ('e, 'a) result = "'e + 'a"

text \<open>The operator \<^verbatim>\<open>?\<close>: an error returns at once, a value is handed on.\<close>

definition res_bind :: "('e, 'a) result \<Rightarrow> ('a \<Rightarrow> ('e, 'b) result) \<Rightarrow> ('e, 'b) result" where
  "res_bind r f = (case r of Inl e \<Rightarrow> Inl e | Inr a \<Rightarrow> f a)"

definition is_ok :: "('e, 'a) result \<Rightarrow> bool" where
  "is_ok r = (case r of Inl _ \<Rightarrow> False | Inr _ \<Rightarrow> True)"

definition ok :: "('e, 'a) result \<Rightarrow> 'a option" where
  "ok r = (case r of Inl _ \<Rightarrow> None | Inr a \<Rightarrow> Some a)"

lemma res_bind_simps [simp]:
  "res_bind (Inl e) f = Inl e" "res_bind (Inr a) f = f a"
  by (simp_all add: res_bind_def)

lemma ok_simps [simp]:
  "ok (Inl e) = None" "ok (Inr a) = Some a" "is_ok (Inl e) = False" "is_ok (Inr a) = True"
  by (simp_all add: ok_def is_ok_def)

lemma unat_u8_less [simp]: "unat (b :: u8) < 256"
  using unsigned_less [of b, where ?'a = nat] by simp

lemma unat_u8_le [simp]: "unat (b :: u8) \<le> 255"
  using unat_u8_less [of b] by linarith

lemma unat_of_nat_u8 [simp]: "unat (of_nat n :: u8) = n mod 256"
  by (simp add: unat_of_nat)

text \<open>The byte of a number, the cast \<^verbatim>\<open>as u8\<close>.\<close>

definition byte :: "nat \<Rightarrow> u8" where
  "byte n = of_nat n"

lemma unat_byte [simp]: "unat (byte n) = n mod 256"
  by (simp add: byte_def)

lemma byte_unat [simp]: "byte (unat b) = b"
  by (simp add: byte_def)

lemma unat_of_nat_u16: "unat (of_nat n :: u16) = n mod 65536"
  by (simp add: unat_of_nat)

lemma unat_of_nat_u32: "unat (of_nat n :: u32) = n mod 4294967296"
  by (simp add: unat_of_nat)

section \<open>Endianness\<close>

text \<open>
  \<open>be_enc n x\<close> is the low \<open>n\<close> bytes of \<open>x\<close>, most significant first, and \<open>le_enc\<close> the same
  bytes least significant first. \<open>be_dec\<close> and \<open>le_dec\<close> read a byte string as a number.
\<close>

fun le_enc :: "nat \<Rightarrow> nat \<Rightarrow> bytes" where
  "le_enc 0 x = []"
| "le_enc (Suc n) x = of_nat x # le_enc n (x div 256)"

fun le_dec :: "bytes \<Rightarrow> nat" where
  "le_dec [] = 0"
| "le_dec (b # bs) = unat b + 256 * le_dec bs"

definition be_enc :: "nat \<Rightarrow> nat \<Rightarrow> bytes" where
  "be_enc n x = rev (le_enc n x)"

definition be_dec :: "bytes \<Rightarrow> nat" where
  "be_dec bs = le_dec (rev bs)"

lemma length_le_enc [simp, bytes_simps]: "length (le_enc n x) = n"
  by (induction n arbitrary: x) auto

lemma length_be_enc [simp, bytes_simps]: "length (be_enc n x) = n"
  by (simp add: be_enc_def)

lemma small_Suc:
  "(2 :: nat) = Suc (Suc 0)" "(4 :: nat) = Suc (Suc (Suc (Suc 0)))"
  "(8 :: nat) = Suc (Suc (Suc (Suc (Suc (Suc (Suc (Suc 0)))))))"
  by simp_all

lemma le_enc_2: "le_enc 2 x = [of_nat x, of_nat (x div 256)]"
  by (simp only: small_Suc le_enc.simps)

lemma le_enc_4:
  "le_enc 4 x = [of_nat x, of_nat (x div 256), of_nat (x div 256 div 256),
     of_nat (x div 256 div 256 div 256)]"
  by (simp only: small_Suc le_enc.simps)

lemma be_enc_2: "be_enc 2 x = [of_nat (x div 256), of_nat x]"
  by (simp add: be_enc_def le_enc_2)

lemma be_enc_4:
  "be_enc 4 x = [of_nat (x div 256 div 256 div 256), of_nat (x div 256 div 256),
     of_nat (x div 256), of_nat x]"
  by (simp add: be_enc_def le_enc_4)

lemma le_enc_8:
  "le_enc 8 x = le_enc 4 x @ le_enc 4 (x div 256 div 256 div 256 div 256)"
  by (simp only: small_Suc le_enc.simps append.simps)

lemma be_enc_8:
  "be_enc 8 x = be_enc 4 (x div 256 div 256 div 256 div 256) @ be_enc 4 x"
  by (simp only: be_enc_def le_enc_8 rev_append)

lemma le_dec_enc: "le_dec (le_enc n x) = x mod 256 ^ n"
proof (induction n arbitrary: x)
  case 0
  then show ?case by simp
next
  case (Suc n)
  have "x mod 256 ^ Suc n = 256 * (x div 256 mod 256 ^ n) + x mod 256"
    by (simp add: mod_mult2_eq)
  with Suc show ?case by simp
qed

lemma be_dec_enc: "be_dec (be_enc n x) = x mod 256 ^ n"
  by (simp add: be_dec_def be_enc_def le_dec_enc)

lemma le_dec_less: "le_dec bs < 256 ^ length bs"
proof (induction bs)
  case Nil
  then show ?case by simp
next
  case (Cons b bs)
  then have "256 * (le_dec bs + 1) \<le> 256 * 256 ^ length bs" by simp
  moreover have "unat b < 256" by simp
  ultimately show ?case by (simp del: unat_u8_less)
qed

lemma le_enc_dec: "le_enc (length bs) (le_dec bs) = bs"
proof (induction bs)
  case Nil
  then show ?case by simp
next
  case (Cons b bs)
  have "(unat b + 256 * le_dec bs) div 256 = le_dec bs"
    by (simp add: div_add1_eq)
  moreover have "(of_nat (unat b + 256 * le_dec bs) :: u8) = b"
    by (rule word_unat_eq_iff [THEN iffD2]) (simp only: unat_of_nat_u8, simp)
  ultimately show ?case using Cons by simp
qed

lemma be_enc_dec: "be_enc (length bs) (be_dec bs) = bs"
  using le_enc_dec [of "rev bs"] by (simp add: be_enc_def be_dec_def)

lemma be_dec_less: "be_dec bs < 256 ^ length bs"
  using le_dec_less [of "rev bs"] by (simp add: be_dec_def)

text \<open>The conversions of the source at their widths.\<close>

definition be32 :: "u32 \<Rightarrow> bytes" where "be32 v = be_enc 4 (unat v)"
definition be64 :: "u64 \<Rightarrow> bytes" where "be64 v = be_enc 8 (unat v)"
definition be16 :: "u16 \<Rightarrow> bytes" where "be16 v = be_enc 2 (unat v)"
definition le32 :: "u32 \<Rightarrow> bytes" where "le32 v = le_enc 4 (unat v)"
definition le16 :: "u16 \<Rightarrow> bytes" where "le16 v = le_enc 2 (unat v)"
definition le64 :: "u64 \<Rightarrow> bytes" where "le64 v = le_enc 8 (unat v)"

definition of_be32 :: "bytes \<Rightarrow> u32" where "of_be32 bs = of_nat (be_dec bs)"
definition of_be64 :: "bytes \<Rightarrow> u64" where "of_be64 bs = of_nat (be_dec bs)"
definition of_be16 :: "bytes \<Rightarrow> u16" where "of_be16 bs = of_nat (be_dec bs)"
definition of_le32 :: "bytes \<Rightarrow> u32" where "of_le32 bs = of_nat (le_dec bs)"
definition of_le16 :: "bytes \<Rightarrow> u16" where "of_le16 bs = of_nat (le_dec bs)"
definition of_le64 :: "bytes \<Rightarrow> u64" where "of_le64 bs = of_nat (le_dec bs)"

lemmas enc_unfold = be16_def be32_def be64_def le16_def le32_def le64_def
  be_enc_2 be_enc_4 be_enc_8 le_enc_2 le_enc_4 le_enc_8

text \<open>
  The interface every one of them meets: a fixed width, a decoder that inverts the encoder, and an
  encoder that inverts the decoder on byte strings of that width.
\<close>

locale fixed_width =
  fixes enc :: "'a \<Rightarrow> bytes" and dec :: "bytes \<Rightarrow> 'a" and w :: nat
  assumes length_enc: "length (enc x) = w"
    and dec_enc: "dec (enc x) = x"
    and enc_dec: "length bs = w \<Longrightarrow> enc (dec bs) = bs"
begin

lemma take_enc: "take w (enc x @ r) = enc x"
  by (simp add: length_enc)

lemma drop_enc: "drop w (enc x @ r) = r"
  by (simp add: length_enc)

lemma dec_take_enc: "dec (take w (enc x @ r)) = x"
  by (simp only: take_enc dec_enc)

lemma enc_inject: "enc x = enc y \<longleftrightarrow> x = y"
  by (metis dec_enc)

lemma enc_append_inject: "enc x @ r = enc y @ s \<longleftrightarrow> x = y \<and> r = s"
  by (metis append_eq_append_conv enc_inject length_enc)

lemma enc_dec_take: "w \<le> length bs \<Longrightarrow> enc (dec (take w bs)) @ drop w bs = bs"
  by (simp add: enc_dec)

lemma dec_surj_on: "length bs = w \<Longrightarrow> \<exists>x. bs = enc x"
  by (metis enc_dec)

end

lemma unat_mod_self:
  "unat (v :: u32) mod 256 ^ 4 = unat v" "unat (v' :: u64) mod 256 ^ 8 = unat v'"
  "unat (v'' :: u16) mod 256 ^ 2 = unat v''"
  using unsigned_less [of v, where ?'a = nat] unsigned_less [of v', where ?'a = nat]
    unsigned_less [of v'', where ?'a = nat] by simp_all

lemma dec_bounds:
  "length bs = 4 \<Longrightarrow> unat (of_nat (be_dec bs) :: u32) = be_dec bs"
  "length bs = 8 \<Longrightarrow> unat (of_nat (be_dec bs) :: u64) = be_dec bs"
  "length bs = 2 \<Longrightarrow> unat (of_nat (be_dec bs) :: u16) = be_dec bs"
  "length bs = 4 \<Longrightarrow> unat (of_nat (le_dec bs) :: u32) = le_dec bs"
  "length bs = 8 \<Longrightarrow> unat (of_nat (le_dec bs) :: u64) = le_dec bs"
  "length bs = 2 \<Longrightarrow> unat (of_nat (le_dec bs) :: u16) = le_dec bs"
  using be_dec_less [of bs] le_dec_less [of bs] by (simp_all add: unat_of_nat)

interpretation be32: fixed_width be32 of_be32 4
proof
  show "be32 (of_be32 bs) = bs" if "length bs = 4" for bs
    using that be_enc_dec [of bs] by (simp add: be32_def of_be32_def dec_bounds)
qed (simp_all only: be32_def of_be32_def length_be_enc be_dec_enc unat_mod_self of_nat_unat ucast_id)

interpretation be64: fixed_width be64 of_be64 8
proof
  show "be64 (of_be64 bs) = bs" if "length bs = 8" for bs
    using that be_enc_dec [of bs] by (simp add: be64_def of_be64_def dec_bounds)
qed (simp_all only: be64_def of_be64_def length_be_enc be_dec_enc unat_mod_self of_nat_unat ucast_id)

interpretation be16: fixed_width be16 of_be16 2
proof
  show "be16 (of_be16 bs) = bs" if "length bs = 2" for bs
    using that be_enc_dec [of bs] by (simp add: be16_def of_be16_def dec_bounds)
qed (simp_all only: be16_def of_be16_def length_be_enc be_dec_enc unat_mod_self of_nat_unat ucast_id)

interpretation le32: fixed_width le32 of_le32 4
proof
  show "le32 (of_le32 bs) = bs" if "length bs = 4" for bs
    using that le_enc_dec [of bs] by (simp add: le32_def of_le32_def dec_bounds)
qed (simp_all only: le32_def of_le32_def length_le_enc le_dec_enc unat_mod_self of_nat_unat ucast_id)

interpretation le16: fixed_width le16 of_le16 2
proof
  show "le16 (of_le16 bs) = bs" if "length bs = 2" for bs
    using that le_enc_dec [of bs] by (simp add: le16_def of_le16_def dec_bounds)
qed (simp_all only: le16_def of_le16_def length_le_enc le_dec_enc unat_mod_self of_nat_unat ucast_id)

interpretation le64: fixed_width le64 of_le64 8
proof
  show "le64 (of_le64 bs) = bs" if "length bs = 8" for bs
    using that le_enc_dec [of bs] by (simp add: le64_def of_le64_def dec_bounds)
qed (simp_all only: le64_def of_le64_def length_le_enc le_dec_enc unat_mod_self of_nat_unat ucast_id)

lemmas width_simps [simp, bytes_simps] =
  be32.length_enc be64.length_enc be16.length_enc le32.length_enc le16.length_enc le64.length_enc
  be32.dec_enc be64.dec_enc be16.dec_enc le32.dec_enc le16.dec_enc le64.dec_enc

section \<open>Lists\<close>

text \<open>\<open>sub_slice i j\<close> is the Rust sub_slice \<^verbatim>\<open>&xs[i..j]\<close> and \<open>get_slice\<close> its checked form.\<close>

definition sub_slice :: "nat \<Rightarrow> nat \<Rightarrow> 'a list \<Rightarrow> 'a list" where
  "sub_slice i j xs = take (j - i) (drop i xs)"

definition get_slice :: "'a list \<Rightarrow> nat \<Rightarrow> nat \<Rightarrow> 'a list option" where
  "get_slice xs i j = (if i \<le> j \<and> j \<le> length xs then Some (sub_slice i j xs) else None)"

definition get_at :: "'a list \<Rightarrow> nat \<Rightarrow> 'a option" where
  "get_at xs i = (if i < length xs then Some (xs ! i) else None)"

lemma length_sub_slice [simp]: "length (sub_slice i j xs) = min (j - i) (length xs - i)"
  by (simp add: sub_slice_def)

lemma sub_slice_append_len [simp]:
  "sub_slice (length xs) (length xs + n) (xs @ ys) = take n ys"
  by (simp add: sub_slice_def)

lemma length_get_slice: "get_slice xs i j = Some ys \<Longrightarrow> length ys = j - i"
  by (auto simp: get_slice_def split: if_splits)

end
