(* ===== verification/Text.thy ===== *)
theory Text
  imports Prelude
begin

text \<open>
  Rust strings. A \<^verbatim>\<open>String\<close> is its list of Unicode scalar values (\<open>str\<close>); its bytes are
  the UTF-8 encoding \<open>utf8_enc\<close>. The validating decoder \<open>utf8_dec\<close> is
  \<^verbatim>\<open>String::from_utf8\<close> and \<open>utf8_lossy\<close> is \<^verbatim>\<open>String::from_utf8_lossy\<close>, both built on one
  step function that follows the table of well-formed sequences of the standard library. The
  second half holds the \<^verbatim>\<open>str\<close> methods the sources call: trimming, splitting, prefix tests and
  integer parsing.
\<close>

section \<open>UTF-8\<close>

type_synonym str = "nat list"

definition is_scalar :: "nat \<Rightarrow> bool" where
  "is_scalar c \<longleftrightarrow> c < 0xD800 \<or> (0xE000 \<le> c \<and> c \<le> 0x10FFFF)"

definition wf_str :: "str \<Rightarrow> bool" where
  "wf_str s \<longleftrightarrow> list_all is_scalar s"

definition utf8_enc1 :: "nat \<Rightarrow> bytes" where
  "utf8_enc1 c =
     (if c < 0x80 then [byte c]
      else if c < 0x800 then [byte (192 + c div 64), byte (128 + c mod 64)]
      else if c < 0x10000 then
        [byte (224 + c div 4096), byte (128 + c div 64 mod 64), byte (128 + c mod 64)]
      else
        [byte (240 + c div 262144), byte (128 + c div 4096 mod 64),
         byte (128 + c div 64 mod 64), byte (128 + c mod 64)])"

definition utf8_enc :: "str \<Rightarrow> bytes" where
  "utf8_enc s = concat (map utf8_enc1 s)"

text \<open>A byte of the buffer, 0 past its end: 0 is no continuation byte, so it stops a sequence.\<close>

definition peek :: "bytes \<Rightarrow> nat \<Rightarrow> nat" where
  "peek bs i = (if i < length bs then unat (bs ! i) else 0)"

definition is_cont :: "nat \<Rightarrow> bool" where
  "is_cont y \<longleftrightarrow> 128 \<le> y \<and> y \<le> 191"

text \<open>The second bytes the table allows after a three-byte and a four-byte lead.\<close>

definition second3 :: "nat \<Rightarrow> nat \<Rightarrow> bool" where
  "second3 x y \<longleftrightarrow> is_cont y \<and> (x = 224 \<longrightarrow> 160 \<le> y) \<and> (x = 237 \<longrightarrow> y \<le> 159)"

definition second4 :: "nat \<Rightarrow> nat \<Rightarrow> bool" where
  "second4 x y \<longleftrightarrow> is_cont y \<and> (x = 240 \<longrightarrow> 144 \<le> y) \<and> (x = 244 \<longrightarrow> y \<le> 143)"

text \<open>
  One step over a non-empty buffer: the scalar and its width, or \<open>None\<close> and the length of the
  maximal ill-formed prefix that \<^verbatim>\<open>from_utf8_lossy\<close> replaces by one U+FFFD.
\<close>

definition utf8_step :: "bytes \<Rightarrow> nat option \<times> nat" where
  "utf8_step bs =
     (let x = peek bs 0; y = peek bs 1; z = peek bs 2; w = peek bs 3 in
      if x < 128 then (Some x, 1)
      else if 194 \<le> x \<and> x \<le> 223 then
        (if is_cont y then (Some ((x - 192) * 64 + (y - 128)), 2) else (None, 1))
      else if 224 \<le> x \<and> x \<le> 239 then
        (if second3 x y then
           (if is_cont z
            then (Some ((x - 224) * 4096 + (y - 128) * 64 + (z - 128)), 3) else (None, 2))
         else (None, 1))
      else if 240 \<le> x \<and> x \<le> 244 then
        (if second4 x y then
           (if is_cont z then
              (if is_cont w
               then (Some ((x - 240) * 262144 + (y - 128) * 4096 + (z - 128) * 64 + (w - 128)), 4)
               else (None, 3))
            else (None, 2))
         else (None, 1))
      else (None, 1))"

lemma utf8_step_pos: "0 < snd (utf8_step bs)"
  by (simp add: utf8_step_def Let_def)

function utf8_dec :: "bytes \<Rightarrow> str option" where
  "utf8_dec bs =
     (if bs = [] then Some []
      else case fst (utf8_step bs) of
             None \<Rightarrow> None
           | Some c \<Rightarrow> map_option (Cons c) (utf8_dec (drop (snd (utf8_step bs)) bs)))"
  by pat_completeness auto
termination
  by (relation "measure length") (auto simp: utf8_step_pos)

function utf8_lossy :: "bytes \<Rightarrow> str" where
  "utf8_lossy bs =
     (if bs = [] then []
      else (case fst (utf8_step bs) of None \<Rightarrow> 0xFFFD | Some c \<Rightarrow> c)
             # utf8_lossy (drop (snd (utf8_step bs)) bs))"
  by pat_completeness auto
termination
  by (relation "measure length") (auto simp: utf8_step_pos)

declare utf8_dec.simps [simp del] utf8_lossy.simps [simp del]

lemma utf8_dec_Nil [simp]: "utf8_dec [] = Some []"
  by (simp add: utf8_dec.simps)

lemma utf8_lossy_Nil [simp]: "utf8_lossy [] = []"
  by (simp add: utf8_lossy.simps)

lemma utf8_enc_simps [simp]:
  "utf8_enc [] = []" "utf8_enc (c # s) = utf8_enc1 c @ utf8_enc s"
  "utf8_enc (s @ t) = utf8_enc s @ utf8_enc t"
  by (simp_all add: utf8_enc_def)

lemma utf8_enc1_nonempty [simp]: "utf8_enc1 c \<noteq> []"
  by (simp add: utf8_enc1_def)

lemma wf_str_simps [simp]:
  "wf_str []" "wf_str (c # s) \<longleftrightarrow> is_scalar c \<and> wf_str s"
  "wf_str (s @ t) \<longleftrightarrow> wf_str s \<and> wf_str t"
  by (simp_all add: wf_str_def)

lemma peek_Cons [simp]:
  "peek (b # bs) 0 = unat b" "peek (b # bs) (Suc i) = peek bs i"
  by (simp_all add: peek_def)

lemma peek_numeral [simp]:
  "peek (b # bs) 1 = peek bs 0" "peek (b # bs) 2 = peek bs 1" "peek (b # bs) 3 = peek bs 2"
  by (simp_all add: peek_def numeral_eq_Suc)

lemma base64_3: "c div 4096 * 4096 + c div 64 mod 64 * 64 + c mod 64 = (c :: nat)"
proof -
  have "c div 4096 = c div 64 div 64" by (simp flip: div_mult2_eq)
  moreover have "c div 64 div 64 * 64 + c div 64 mod 64 = c div 64" by (rule div_mult_mod_eq)
  moreover have "c div 64 * 64 + c mod 64 = c" by (rule div_mult_mod_eq)
  ultimately show ?thesis by linarith
qed

lemma base64_4:
  "c div 262144 * 262144 + c div 4096 mod 64 * 4096 + c div 64 mod 64 * 64 + c mod 64 = (c :: nat)"
proof -
  have "c div 262144 = c div 4096 div 64" by (simp flip: div_mult2_eq)
  moreover have "c div 4096 div 64 * 64 + c div 4096 mod 64 = c div 4096" by (rule div_mult_mod_eq)
  moreover note base64_3 [of c]
  ultimately show ?thesis by linarith
qed

text \<open>The digits of a number written in base 64.\<close>

lemma base64_digits:
  fixes p q r s :: nat
  assumes "q < 64" "r < 64" "s < 64"
  shows "(p * 4096 + q * 64 + r) div 4096 = p" "(p * 4096 + q * 64 + r) div 64 mod 64 = q"
    "(p * 4096 + q * 64 + r) mod 64 = r"
    "(p * 262144 + q * 4096 + r * 64 + s) div 262144 = p"
    "(p * 262144 + q * 4096 + r * 64 + s) div 4096 mod 64 = q"
    "(p * 262144 + q * 4096 + r * 64 + s) div 64 mod 64 = r"
    "(p * 262144 + q * 4096 + r * 64 + s) mod 64 = s"
proof -
  have a: "p * 4096 + q * 64 + r = r + 64 * (q + 64 * p)" by simp
  have b: "p * 262144 + q * 4096 + r * 64 + s = s + 64 * (r + 64 * (q + 64 * p))" by simp
  have d1: "(r + 64 * n) div 64 = n" "(r + 64 * n) mod 64 = r"
    "(s + 64 * n) div 64 = n" "(s + 64 * n) mod 64 = s"
    "(q + 64 * n) div 64 = n" "(q + 64 * n) mod 64 = q" for n
    using assms by simp_all
  have d4096: "n div 4096 = n div 64 div 64" "n div 262144 = n div 64 div 64 div 64" for n :: nat
    by (simp_all flip: div_mult2_eq)
  show "(p * 4096 + q * 64 + r) div 4096 = p" "(p * 4096 + q * 64 + r) div 64 mod 64 = q"
    "(p * 4096 + q * 64 + r) mod 64 = r"
    "(p * 262144 + q * 4096 + r * 64 + s) div 262144 = p"
    "(p * 262144 + q * 4096 + r * 64 + s) div 4096 mod 64 = q"
    "(p * 262144 + q * 4096 + r * 64 + s) div 64 mod 64 = r"
    "(p * 262144 + q * 4096 + r * 64 + s) mod 64 = s"
    unfolding a b d4096 by (simp_all only: d1)
qed

lemma utf8_step_enc1:
  assumes "is_scalar c"
  shows "utf8_step (utf8_enc1 c @ r) = (Some c, length (utf8_enc1 c))"
proof -
  consider "c < 128" | "128 \<le> c" "c < 0x800" | "0x800 \<le> c" "c < 0x10000"
    | "0x10000 \<le> c" "c \<le> 0x10FFFF"
    using assms unfolding is_scalar_def by linarith
  then show ?thesis
  proof cases
    case 1
    then show ?thesis by (simp add: utf8_enc1_def utf8_step_def Let_def)
  next
    case 2
    then have "c div 64 < 32" "2 \<le> c div 64" by auto
    with 2 show ?thesis
      by (simp add: utf8_enc1_def utf8_step_def is_cont_def Let_def)
  next
    case 3
    define p q r where d: "p = c div 4096" "q = c div 64 mod 64" "r = c mod 64"
    have e: "p * 4096 + q * 64 + r = c" unfolding d by (rule base64_3)
    have b: "q < 64" "r < 64" by (simp_all add: d)
    have p: "p < 16" using 3 by (simp add: d)
    have "p = 0 \<longrightarrow> 32 \<le> q" using e b 3 by linarith
    moreover have "p = 13 \<longrightarrow> q \<le> 31"
      using e b assms unfolding is_scalar_def by linarith
    ultimately have s: "second3 (224 + p) (128 + q)"
      using b by (simp add: second3_def is_cont_def)
    from 3 p b s e show ?thesis
      by (simp add: utf8_enc1_def utf8_step_def is_cont_def Let_def flip: d)
  next
    case 4
    define p q r s where d: "p = c div 262144" "q = c div 4096 mod 64" "r = c div 64 mod 64"
      "s = c mod 64"
    have e: "p * 262144 + q * 4096 + r * 64 + s = c" unfolding d by (rule base64_4)
    have b: "q < 64" "r < 64" "s < 64" by (simp_all add: d)
    have p: "p < 5" using 4 by (simp add: d)
    have "p = 0 \<longrightarrow> 16 \<le> q" using e b 4 by linarith
    moreover have "p = 4 \<longrightarrow> q \<le> 15" using e b 4 by linarith
    ultimately have sc: "second4 (240 + p) (128 + q)"
      using b by (simp add: second4_def is_cont_def)
    from 4 p b sc e show ?thesis
      by (simp add: utf8_enc1_def utf8_step_def is_cont_def Let_def flip: d)
  qed
qed

lemma utf8_dec_enc: "wf_str s \<Longrightarrow> utf8_dec (utf8_enc s) = Some s"
proof (induction s)
  case Nil
  then show ?case by simp
next
  case (Cons c s)
  then show ?case
    by (subst utf8_dec.simps) (simp add: utf8_step_enc1)
qed

lemma utf8_lossy_enc: "wf_str s \<Longrightarrow> utf8_lossy (utf8_enc s) = s"
proof (induction s)
  case Nil
  then show ?case by simp
next
  case (Cons c s)
  then show ?case
    by (subst utf8_lossy.simps) (simp add: utf8_step_enc1)
qed

text \<open>Conversely, what a step recognises is the encoding of the scalar it returns.\<close>

lemma is_cont_peek: "is_cont (peek bs i) \<Longrightarrow> i < length bs \<and> byte (peek bs i) = bs ! i"
  by (simp add: is_cont_def peek_def split: if_splits)

lemma second_is_cont: "second3 x y \<Longrightarrow> is_cont y" "second4 x y \<Longrightarrow> is_cont y"
  by (simp_all add: second3_def second4_def)

lemma take_2_nth: "1 < length bs \<Longrightarrow> take 2 bs = [bs ! 0, bs ! 1]"
  by (cases bs; cases "tl bs") auto

lemma take_3_nth: "2 < length bs \<Longrightarrow> take 3 bs = [bs ! 0, bs ! 1, bs ! 2]"
  by (rule nth_equalityI) (auto simp: nth_Cons' less_Suc_eq numeral_eq_Suc)

lemma take_4_nth: "3 < length bs \<Longrightarrow> take 4 bs = [bs ! 0, bs ! 1, bs ! 2, bs ! 3]"
  by (rule nth_equalityI) (auto simp: nth_Cons' less_Suc_eq numeral_eq_Suc)

lemma peek0_nth: "bs \<noteq> [] \<Longrightarrow> byte (peek bs 0) = bs ! 0"
  by (simp add: peek_def)

lemma utf8_step_Some:
  assumes "utf8_step bs = (Some c, n)" and ne: "bs \<noteq> []"
  shows "is_scalar c \<and> take n bs = utf8_enc1 c \<and> n \<le> length bs"
proof -
  define x y z w where d: "x = peek bs 0" "y = peek bs 1" "z = peek bs 2" "w = peek bs 3"
  note h = assms(1) [unfolded utf8_step_def Let_def, folded d]
  from ne have l1: "0 < length bs" by simp
  have x0: "byte x = bs ! 0" using ne by (simp add: d peek0_nth)
  consider
      (one) "x < 128" "c = x" "n = 1"
    | (two) "194 \<le> x" "x \<le> 223" "is_cont y" "c = (x - 192) * 64 + (y - 128)" "n = 2"
    | (three) "224 \<le> x" "x \<le> 239" "second3 x y" "is_cont z"
        "c = (x - 224) * 4096 + (y - 128) * 64 + (z - 128)" "n = 3"
    | (four) "240 \<le> x" "x \<le> 244" "second4 x y" "is_cont z" "is_cont w"
        "c = (x - 240) * 262144 + (y - 128) * 4096 + (z - 128) * 64 + (w - 128)" "n = 4"
    using h by (auto split: if_splits)
  then show ?thesis
  proof cases
    case one
    then show ?thesis
      using x0 ne by (cases bs) (auto simp: is_scalar_def utf8_enc1_def)
  next
    case two
    then have y: "1 < length bs" "byte y = bs ! 1"
      using is_cont_peek [of bs 1] d by auto
    from two have b: "128 \<le> y" "y \<le> 191" by (auto simp: is_cont_def)
    obtain p q where pq: "x = 192 + p" "y = 128 + q"
      using le_Suc_ex [of 192 x] le_Suc_ex [of 128 y] two(1) b(1) by auto
    then have cp: "c = p * 64 + q" "q < 64" "2 \<le> p" "p < 32" using two b by auto
    then have c: "c div 64 = x - 192" "c mod 64 = y - 128" "128 \<le> c" "c < 0x800" using pq by auto
    from two(1,2,5) b c y x0 show ?thesis
      by (simp add: is_scalar_def utf8_enc1_def take_2_nth)
  next
    case three
    note t = second_is_cont(1) [OF three(3)]
    have y: "1 < length bs" "byte y = bs ! 1" and z: "2 < length bs" "byte z = bs ! 2"
      using is_cont_peek [of bs 1] is_cont_peek [of bs 2] d t three by auto
    from three have b: "128 \<le> y" "y \<le> 191" "128 \<le> z" "z \<le> 191"
      "x = 224 \<longrightarrow> 160 \<le> y" "x = 237 \<longrightarrow> y \<le> 159"
      by (auto simp: is_cont_def second3_def)
    obtain p q r where pq: "x = 224 + p" "y = 128 + q" "z = 128 + r"
      using le_Suc_ex [of 224 x] le_Suc_ex [of 128 y] le_Suc_ex [of 128 z] three(1) b(1,3) by auto
    have cp: "c = p * 4096 + q * 64 + r" "q < 64" "r < 64" using three pq b by auto
    then have c: "c div 4096 = x - 224" "c div 64 mod 64 = y - 128" "c mod 64 = z - 128"
      using pq base64_digits(1-3) [of q r 0 p] by auto
    have c': "0x800 \<le> c" "c < 0x10000" using cp pq b three by auto
    moreover have "is_scalar c"
    proof -
      consider "p \<le> 12" | "p = 13" "q \<le> 31" | "14 \<le> p" "p \<le> 15"
        using pq b three by linarith
      then show ?thesis by cases (use cp in \<open>auto simp: is_scalar_def\<close>)
    qed
    ultimately show ?thesis
      using three b y z x0 c by (simp add: utf8_enc1_def take_3_nth)
  next
    case four
    note t = second_is_cont(2) [OF four(3)]
    have y: "1 < length bs" "byte y = bs ! 1" and z: "2 < length bs" "byte z = bs ! 2"
      and w: "3 < length bs" "byte w = bs ! 3"
      using is_cont_peek [of bs 1] is_cont_peek [of bs 2] is_cont_peek [of bs 3] d t four by auto
    from four have b: "128 \<le> y" "y \<le> 191" "128 \<le> z" "z \<le> 191" "128 \<le> w" "w \<le> 191"
      "x = 240 \<longrightarrow> 144 \<le> y" "x = 244 \<longrightarrow> y \<le> 143"
      by (auto simp: is_cont_def second4_def)
    obtain p q r s where pq: "x = 240 + p" "y = 128 + q" "z = 128 + r" "w = 128 + s"
      using le_Suc_ex [of 240 x] le_Suc_ex [of 128 y] le_Suc_ex [of 128 z] le_Suc_ex [of 128 w]
        four(1) b(1,3,5) by auto
    have cp: "c = p * 262144 + q * 4096 + r * 64 + s" "q < 64" "r < 64" "s < 64"
      using four pq b by auto
    then have c: "c div 262144 = x - 240" "c div 4096 mod 64 = y - 128"
      "c div 64 mod 64 = z - 128" "c mod 64 = w - 128"
      using pq base64_digits(4-7) [of q r s p] by auto
    have "0x10000 \<le> c" "c \<le> 0x10FFFF" using cp pq b four by auto
    with c show ?thesis
      using four(1,7) b y z w x0 by (simp add: utf8_enc1_def take_4_nth is_scalar_def)
  qed
qed

lemma utf8_dec_Some: "utf8_dec bs = Some s \<Longrightarrow> utf8_enc s = bs \<and> wf_str s"
proof (induction bs arbitrary: s rule: utf8_dec.induct)
  case (1 bs)
  show ?case
  proof (cases "bs = []")
    case True
    with "1.prems" show ?thesis by simp
  next
    case False
    obtain o' n where o': "utf8_step bs = (o', n)" by fastforce
    from False have u: "utf8_dec bs =
        (case o' of None \<Rightarrow> None | Some c \<Rightarrow> map_option (Cons c) (utf8_dec (drop n bs)))"
      by (cases o') (simp_all add: utf8_dec.simps [of bs] o')
    with "1.prems" obtain c t where st: "utf8_step bs = (Some c, n)"
      and t: "utf8_dec (drop n bs) = Some t" and s: "s = c # t"
      using o' by (auto split: option.splits)
    from "1.IH" [OF False, of c t] st t have "utf8_enc t = drop n bs" "wf_str t" by auto
    moreover from utf8_step_Some [OF st False] have "is_scalar c" "take n bs = utf8_enc1 c" by auto
    ultimately show ?thesis using s by (simp, metis append_take_drop_id)
  qed
qed

lemma utf8_dec_iff: "utf8_dec bs = Some s \<longleftrightarrow> wf_str s \<and> bs = utf8_enc s"
  using utf8_dec_enc utf8_dec_Some by blast

lemma utf8_enc_inject: "wf_str s \<Longrightarrow> wf_str t \<Longrightarrow> utf8_enc s = utf8_enc t \<longleftrightarrow> s = t"
  by (metis utf8_dec_enc option.inject)

text \<open>What a lossy reading gives is text: scalar values only.\<close>

lemma utf8_lossy_wf: "wf_str (utf8_lossy bs)"
proof (induction bs rule: utf8_lossy.induct)
  case (1 bs)
  show ?case
  proof (cases "bs = []")
    case False
    obtain x n where st: "utf8_step bs = (x, n)" by fastforce
    have "wf_str (utf8_lossy (drop n bs))" using "1.IH" [OF False] st by simp
    moreover have "is_scalar (case x of None \<Rightarrow> 0xFFFD | Some c \<Rightarrow> c)"
      using utf8_step_Some [of bs _ n] st False by (cases x) (auto simp: is_scalar_def)
    ultimately show ?thesis using False st by (subst utf8_lossy.simps) (simp split: option.splits)
  qed simp
qed

lemma wf_str_subset: "wf_str s \<Longrightarrow> set t \<subseteq> set s \<Longrightarrow> wf_str t"
  by (auto simp: wf_str_def list_all_iff)

text \<open>An ASCII byte stands for its character alone.\<close>

lemma enc1_ne: "is_scalar c \<Longrightarrow> c \<noteq> d \<Longrightarrow> d < 128 \<Longrightarrow> byte d \<notin> set (utf8_enc1 c)"
proof
  assume a: "is_scalar c" "c \<noteq> d" "d < 128" and "byte d \<in> set (utf8_enc1 c)"
  then have "unat (byte d) \<in> unat ` set (utf8_enc1 c)" by blast
  then show False using a by (auto simp: utf8_enc1_def is_scalar_def split: if_splits)
qed

lemma enc_ne: "wf_str s \<Longrightarrow> d \<notin> set s \<Longrightarrow> d < 128 \<Longrightarrow> byte d \<notin> set (utf8_enc s)"
  by (induction s) (auto simp: enc1_ne)

end
