(* ===== verification/Float64.thy ===== *)
theory Float64
  imports Prelude Complex_Main
begin

text \<open>
  The part of \<^verbatim>\<open>f64\<close> the protocol code computes with. A finite double is a dyadic number
  \<open>Fin m e\<close>, standing for \<open>m * 2^e\<close>; the sign of zero is not represented, as no operation
  modelled here observes it. Multiplying or dividing by a power of two only moves the exponent
  (an overflow to infinity is later saturated in the same way as the exact product). The cast from
  an integer rounds to 53 significant bits, ties to even; the cast to \<^verbatim>\<open>i64\<close> saturates and
  sends NaN to 0. The fixed-point formats of the wire, Q42 and 16.16, are built from these.
\<close>

section \<open>Dyadic doubles\<close>

datatype f64 = NaN | Inf bool | Fin int int

fun bitlen :: "nat \<Rightarrow> nat" where
  "bitlen n = (if n = 0 then 0 else Suc (bitlen (n div 2)))"

declare bitlen.simps [simp del]

text \<open>\<open>n / 2^k\<close> rounded to the nearest integer, ties to even.\<close>

definition rne :: "nat \<Rightarrow> nat \<Rightarrow> nat" where
  "rne n k =
     (let q = n div 2 ^ k; r = n mod 2 ^ k in
      if 2 ^ k < 2 * r \<or> (2 * r = 2 ^ k \<and> odd q) then Suc q else q)"

text \<open>An integer rounded to 53 significant bits.\<close>

definition round53 :: "nat \<Rightarrow> nat" where
  "round53 n = (let k = bitlen n - 53 in rne n k * 2 ^ k)"

text \<open>The cast \<^verbatim>\<open>as f64\<close> of an integer.\<close>

definition f64_of_int :: "int \<Rightarrow> f64" where
  "f64_of_int i = Fin (sgn i * int (round53 (nat \<bar>i\<bar>))) 0"

text \<open>Multiplication by \<open>2^k\<close>.\<close>

fun f64_scale :: "int \<Rightarrow> f64 \<Rightarrow> f64" where
  "f64_scale k NaN = NaN"
| "f64_scale k (Inf s) = Inf s"
| "f64_scale k (Fin m e) = Fin m (e + k)"

text \<open>\<^verbatim>\<open>f64::round\<close>: to the nearest integer, ties away from zero.\<close>

definition round_away :: "int \<Rightarrow> int \<Rightarrow> int" where
  "round_away m e =
     (if 0 \<le> e then m * 2 ^ nat e
      else (let d = 2 ^ nat (- e) in sgn m * ((2 * \<bar>m\<bar> + d) div (2 * d))))"

definition i64_max :: int where "i64_max = 2 ^ 63 - 1"
definition i64_min :: int where "i64_min = - (2 ^ 63)"

text \<open>\<^verbatim>\<open>x.round() as i64\<close>, the saturating cast.\<close>

fun f64_round_as_i64 :: "f64 \<Rightarrow> int" where
  "f64_round_as_i64 NaN = 0"
| "f64_round_as_i64 (Inf s) = (if s then i64_min else i64_max)"
| "f64_round_as_i64 (Fin m e) = max i64_min (min i64_max (round_away m e))"

text \<open>Addition: the exact sum of two dyadic numbers, rounded to 53 significant bits.\<close>

fun f64_add :: "f64 \<Rightarrow> f64 \<Rightarrow> f64" where
  "f64_add (Fin m e) (Fin n d) =
     (let k = min e d; s = m * 2 ^ nat (e - k) + n * 2 ^ nat (d - k)
      in Fin (sgn s * int (round53 (nat \<bar>s\<bar>))) k)"
| "f64_add (Inf s) (Inf t) = (if s = t then Inf s else NaN)"
| "f64_add (Inf s) (Fin m e) = Inf s"
| "f64_add (Fin m e) (Inf s) = Inf s"
| "f64_add NaN y = NaN"
| "f64_add (Fin m e) NaN = NaN"
| "f64_add (Inf s) NaN = NaN"

section \<open>Rounding facts\<close>

lemma bitlen_le: "n < 2 ^ k \<Longrightarrow> bitlen n \<le> k"
proof (induction k arbitrary: n)
  case 0
  then show ?case by (simp add: bitlen.simps)
next
  case (Suc k)
  then have "n div 2 < 2 ^ k" by auto
  with Suc.IH show ?case by (subst bitlen.simps) simp
qed

lemma rne_zero [simp]: "rne n 0 = n"
  by (simp add: rne_def)

lemma rne_error:
  assumes "0 < k"
  shows "\<bar>int (rne n k * 2 ^ k) - int n\<bar> \<le> 2 ^ (k - 1)"
proof -
  define q r where d: "q = n div 2 ^ k" "r = n mod 2 ^ k"
  have n: "n = q * 2 ^ k + r" unfolding d by (rule div_mult_mod_eq [symmetric])
  have r: "r < 2 ^ k" unfolding d by simp
  have k: "(2 :: nat) ^ k = 2 * 2 ^ (k - 1)" using assms by (simp flip: power_Suc)
  define h :: nat where "h = 2 ^ (k - 1)"
  have r': "r < 2 * h" using r k by (simp add: h_def)
  have rne: "rne n k = Suc q \<and> h \<le> r \<or> rne n k = q \<and> r \<le> h"
    unfolding rne_def d [symmetric] Let_def using k by (auto simp: h_def)
  have "\<bar>int (rne n k * (2 * h)) - int (q * (2 * h) + r)\<bar> \<le> int h"
    using rne
  proof (elim disjE conjE)
    assume a: "rne n k = Suc q" "h \<le> r"
    have "int (Suc q * (2 * h)) - int (q * (2 * h) + r) = int (2 * h) - int r" by simp
    with a(2) r' show ?thesis unfolding a(1) by linarith
  next
    assume "rne n k = q" "r \<le> h"
    then show ?thesis by simp
  qed
  moreover have k2: "(2 :: nat) ^ k = 2 * h" using k by (simp add: h_def)
  moreover have "n = q * (2 * h) + r" using n k2 by simp
  moreover have "int h = 2 ^ (k - 1)" by (simp add: h_def)
  ultimately show ?thesis by (metis (no_types))
qed

lemma round53_small: "n < 2 ^ 53 \<Longrightarrow> round53 n = n"
  using bitlen_le [of n 53] by (simp add: round53_def)

lemma round53_error:
  assumes "n \<le> 2 ^ 63"
  shows "\<bar>int (round53 n) - int n\<bar> \<le> 1024"
proof -
  have "n < 2 ^ 64" using assms by simp
  then have k: "bitlen n - 53 \<le> 11" using bitlen_le [of n 64] by simp
  show ?thesis
  proof (cases "bitlen n - 53 = 0")
    case True
    then show ?thesis by (simp add: round53_def)
  next
    case False
    then have "\<bar>int (round53 n) - int n\<bar> \<le> 2 ^ (bitlen n - 53 - 1)"
      using rne_error [of "bitlen n - 53" n] by (simp add: round53_def Let_def)
    also have "\<dots> \<le> 2 ^ 10" using k by (intro power_increasing) auto
    finally show ?thesis by simp
  qed
qed

lemma f64_of_int_small: "\<bar>i\<bar> < 2 ^ 53 \<Longrightarrow> f64_of_int i = Fin i 0"
  by (simp add: f64_of_int_def round53_small nat_less_iff sgn_mult_abs)

lemma f64_scale_scale [simp]: "f64_scale a (f64_scale b x) = f64_scale (b + a) x"
  by (cases x) auto

lemma f64_scale_0 [simp]: "f64_scale 0 x = x"
  by (cases x) auto

lemma round_away_0 [simp]: "round_away m 0 = m"
  by (simp add: round_away_def)

lemma f64_round_as_i64_range: "i64_min \<le> f64_round_as_i64 x \<and> f64_round_as_i64 x \<le> i64_max"
  by (cases x) (auto simp: i64_min_def i64_max_def)

section \<open>The fixed-point formats\<close>

text \<open>\<^verbatim>\<open>tlv.rs\<close>: \<open>Q42_SCALE\<close> is \<open>2^42\<close>, and a 16.16 body is divided by \<open>65536.0\<close>.\<close>

definition q42_encode :: "f64 \<Rightarrow> u64" where
  "q42_encode mm = of_int (f64_round_as_i64 (f64_scale 42 mm))"

definition q42_decode :: "u64 \<Rightarrow> f64" where
  "q42_decode w = f64_scale (-42) (f64_of_int (sint w))"

definition fixed16_decode :: "u32 \<Rightarrow> f64" where
  "fixed16_decode w = f64_scale (-16) (f64_of_int (sint w))"

lemma sint_of_int_i64:
  "i64_min \<le> i \<Longrightarrow> i \<le> i64_max \<Longrightarrow> sint (of_int i :: u64) = i"
  by (simp add: i64_min_def i64_max_def signed_of_int signed_take_bit_int_eq_self)

lemma sint_i64_bounds: "i64_min \<le> sint (w :: u64) \<and> sint w \<le> i64_max"
  using sint_greater_eq [of w] sint_less [of w] by (simp add: i64_min_def i64_max_def)

lemma q42_encode_decode_sint:
  "sint (q42_encode (q42_decode w)) =
     max i64_min (min i64_max (sgn (sint w) * int (round53 (nat \<bar>sint w\<bar>))))"
proof -
  have "f64_scale 42 (q42_decode w) = f64_of_int (sint w)"
    by (simp add: q42_decode_def)
  moreover have "sint (q42_encode x) = f64_round_as_i64 (f64_scale 42 x)" for x
    using f64_round_as_i64_range [of "f64_scale 42 x"]
    by (simp add: q42_encode_def sint_of_int_i64)
  ultimately show ?thesis by (simp add: f64_of_int_def)
qed

lemma q42_roundtrip_exact: "\<bar>sint w\<bar> < 2 ^ 53 \<Longrightarrow> q42_encode (q42_decode w) = w"
proof -
  assume "\<bar>sint w\<bar> < 2 ^ 53"
  then have "f64_of_int (sint w) = Fin (sint w) 0" by (rule f64_of_int_small)
  then show ?thesis
    using sint_i64_bounds [of w] by (simp add: q42_encode_def q42_decode_def)
qed

lemma q42_roundtrip_error: "\<bar>sint (q42_encode (q42_decode w)) - sint w\<bar> \<le> 1024"
proof -
  define i where "i = sint w"
  have b: "i64_min \<le> i" "i \<le> i64_max" using sint_i64_bounds [of w] by (simp_all add: i_def)
  then have "nat \<bar>i\<bar> \<le> 2 ^ 63" by (auto simp: i64_min_def i64_max_def nat_le_iff)
  then have e: "\<bar>int (round53 (nat \<bar>i\<bar>)) - \<bar>i\<bar>\<bar> \<le> 1024" using round53_error by force
  have "\<bar>sgn i * int (round53 (nat \<bar>i\<bar>)) - i\<bar> \<le> 1024"
    using e by (auto simp: sgn_if)
  then show ?thesis
    using b unfolding q42_encode_decode_sint i_def [symmetric] by (auto simp: max_def min_def)
qed

lemma fixed16_decode_exact: "fixed16_decode w = Fin (sint w) (-16)"
proof -
  have "\<bar>sint w\<bar> \<le> 2 ^ 31" using sint_greater_eq [of w] sint_less [of w] by simp
  then have "\<bar>sint w\<bar> < 2 ^ 53" by simp
  then show ?thesis by (simp add: fixed16_decode_def f64_of_int_small)
qed

section \<open>Accuracy\<close>

text \<open>The number a finite double stands for.\<close>

fun f64_val :: "f64 \<Rightarrow> rat" where
  "f64_val (Fin m e) = of_int m * power_int 2 e"
| "f64_val _ = 0"

lemma round_away_error:
  "\<bar>of_int (round_away m e) - of_int m * power_int 2 e\<bar> \<le> (1 / 2 :: rat)"
proof (cases "0 \<le> e")
  case True
  then have "power_int (2 :: rat) e = 2 ^ nat e" by (metis nat_0_le power_int_of_nat)
  with True show ?thesis by (simp add: round_away_def)
next
  case False
  define d :: int where "d = 2 ^ nat (- e)"
  define n where "n = \<bar>m\<bar>"
  have d0: "0 < d" by (simp add: d_def)
  have "e = - int (nat (- e))" using False by simp
  then have p: "power_int (2 :: rat) e = 1 / of_int d"
    by (metis d_def power_int_minus_divide power_int_of_nat of_int_numeral of_int_power)
  define q where "q = (2 * n + d) div (2 * d)"
  define r where "r = (2 * n + d) mod (2 * d)"
  have "2 * n + d = 2 * d * q + r" "0 \<le> r" "r < 2 * d"
    using d0 by (simp_all add: q_def r_def)
  then have "\<bar>2 * d * q - 2 * n\<bar> \<le> d" by (simp only: abs_le_iff) linarith
  then have b: "\<bar>2 * of_int d * of_int q - 2 * of_int n\<bar> \<le> (of_int d :: rat)"
    by (metis (no_types, opaque_lifting) of_int_abs of_int_diff of_int_le_iff of_int_mult of_int_numeral)
  have "\<bar>of_int q - of_int n / of_int d\<bar> \<le> (1 / 2 :: rat)"
  proof -
    have d1: "(0 :: rat) < of_int d" using d0 by simp
    then have "of_int q - of_int n / of_int d = (2 * of_int d * of_int q - 2 * of_int n) / (2 * of_int d :: rat)"
      by (simp add: field_simps)
    then have "\<bar>of_int q - of_int n / of_int d\<bar> =
        \<bar>2 * of_int d * of_int q - 2 * of_int n\<bar> / (2 * of_int d :: rat)"
      using d1 by (simp add: abs_divide)
    also have "\<dots> \<le> of_int d / (2 * of_int d)" using b d1 by (intro divide_right_mono) simp_all
    finally show ?thesis using d0 by simp
  qed
  moreover have "round_away m e = sgn m * q" using False by (simp add: round_away_def d_def q_def n_def Let_def)
  moreover have "m = sgn m * n" by (simp add: n_def sgn_mult_abs)
  ultimately show ?thesis unfolding p
    by (cases "m = 0"; cases "0 < m") (auto simp: abs_minus_commute add.commute q_def n_def)
qed

lemma q42_accuracy:
  assumes "\<bar>f64_val (Fin m e)\<bar> \<le> 2047"
  shows "\<bar>f64_val (q42_decode (q42_encode (Fin m e))) - f64_val (Fin m e)\<bar> \<le> 1 / 2 ^ 43"
proof -
  define i where "i = round_away m (e + 42)"
  define v where "v = f64_val (Fin m e)"
  have s: "of_int m * power_int 2 (e + 42) = v * 2 ^ 42"
    by (simp add: v_def power_int_add)
  have err: "\<bar>of_int i - v * 2 ^ 42\<bar> \<le> 1 / 2"
    using round_away_error [of m "e + 42"] unfolding s i_def .
  have "\<bar>v\<bar> \<le> 2047" using assms by (simp add: v_def)
  then have "\<bar>v * 2 ^ 42\<bar> \<le> 2047 * 2 ^ 42" by (simp add: abs_mult)
  moreover have "\<bar>of_int i :: rat\<bar> \<le> \<bar>of_int i - v * 2 ^ 42\<bar> + \<bar>v * 2 ^ 42\<bar>"
    using abs_triangle_ineq [of "of_int i - v * 2 ^ 42" "v * 2 ^ 42"] by simp
  ultimately have "\<bar>of_int i :: rat\<bar> \<le> 1 / 2 + 2047 * 2 ^ 42" using err by linarith
  then have "\<bar>of_int i :: rat\<bar> < of_int (2 ^ 53)" by simp
  then have i: "\<bar>i\<bar> < 2 ^ 53" by (metis of_int_abs of_int_less_iff)
  then have si: "sint (q42_encode (Fin m e)) = i"
    by (simp add: q42_encode_def i_def [symmetric] sint_of_int_i64 i64_min_def i64_max_def)
  have "f64_val (q42_decode (q42_encode (Fin m e))) = of_int i / 2 ^ 42"
    using i by (simp add: q42_decode_def si f64_of_int_small power_int_minus divide_simps)
  then have "f64_val (q42_decode (q42_encode (Fin m e))) - v = (of_int i - v * 2 ^ 42) / 2 ^ 42"
    by (simp add: field_simps)
  then have "\<bar>f64_val (q42_decode (q42_encode (Fin m e))) - v\<bar> = \<bar>of_int i - v * 2 ^ 42\<bar> / 2 ^ 42"
    by (simp only: abs_divide) simp
  with err show ?thesis by (simp add: v_def)
qed

end
