(* ===== verification/Tlv.thy ===== *)
theory Tlv
  imports Text Float64
begin

unbundle bit_operations_syntax

text \<open>
  The byte writer and the TLV codec of \<^verbatim>\<open>tobii-protocol\<close> (\<^verbatim>\<open>bytes.rs\<close>,
  \<^verbatim>\<open>error.rs\<close>, \<^verbatim>\<open>tlv.rs\<close>). A reader operation is a function from the cursor to a result and the
  moved cursor; an error leaves the cursor where the source leaves it. The locales
  \<open>field_reader\<close> and \<open>exact_field\<close> are the contract a TLV field offers the decoders built on it:
  what was written is read back, and what is read was written that way.
\<close>

section \<open>The writer\<close>

record writer = wbuf :: bytes

definition writer_new :: writer where
  "writer_new = \<lparr>wbuf = []\<rparr>"

definition push_u8 :: "u8 \<Rightarrow> writer \<Rightarrow> writer" where
  "push_u8 v w = w\<lparr>wbuf := wbuf w @ [v]\<rparr>"

definition push_be32 :: "u32 \<Rightarrow> writer \<Rightarrow> writer" where
  "push_be32 v w = w\<lparr>wbuf := wbuf w @ be32 v\<rparr>"

definition push_be64 :: "u64 \<Rightarrow> writer \<Rightarrow> writer" where
  "push_be64 v w = w\<lparr>wbuf := wbuf w @ be64 v\<rparr>"

definition push_le32 :: "u32 \<Rightarrow> writer \<Rightarrow> writer" where
  "push_le32 v w = w\<lparr>wbuf := wbuf w @ le32 v\<rparr>"

definition push_bytes :: "bytes \<Rightarrow> writer \<Rightarrow> writer" where
  "push_bytes b w = w\<lparr>wbuf := wbuf w @ b\<rparr>"

definition into_vec :: "writer \<Rightarrow> bytes" where
  "into_vec w = wbuf w"

lemma writer_simps [simp]:
  "wbuf writer_new = []" "wbuf (push_u8 v w) = wbuf w @ [v]"
  "wbuf (push_be32 x w) = wbuf w @ be32 x" "wbuf (push_be64 y w) = wbuf w @ be64 y"
  "wbuf (push_le32 x w) = wbuf w @ le32 x" "wbuf (push_bytes b w) = wbuf w @ b"
  "into_vec w = wbuf w"
  by (simp_all add: writer_new_def push_u8_def push_be32_def push_be64_def push_le32_def
      push_bytes_def into_vec_def)

section \<open>Errors and tags\<close>

datatype protocol_error =
    ShortRead
  | WrongType u8 u8
  | WrongSize u32 u32
  | WrongTag u32 u32
  | BadDirection u8
  | BadLength u32
  | Overflow

definition TAG_XDS_ROW_MASK :: u32 where "TAG_XDS_ROW_MASK = 0x0bb8"
definition TAG_XDS_COLUMN :: u32 where "TAG_XDS_COLUMN = 0x020bb9"
definition TAG_POINT2D :: u32 where "TAG_POINT2D = 0x021f40"
definition TAG_POINT3D :: u32 where "TAG_POINT3D = 0x031f41"

definition split_tag :: "u32 \<Rightarrow> u32 \<times> u32" where
  "split_tag tag = (drop_bit 16 tag, tag AND 0xffff)"

section \<open>Writing fields\<close>

definition write_tag :: "u32 \<Rightarrow> writer \<Rightarrow> writer" where
  "write_tag tag w = push_be32 tag (push_be32 4 (push_u8 5 w))"

definition write_u32 :: "u32 \<Rightarrow> writer \<Rightarrow> writer" where
  "write_u32 v w = push_be32 v (push_be32 4 (push_u8 2 w))"

definition write_f64_q42 :: "f64 \<Rightarrow> writer \<Rightarrow> writer" where
  "write_f64_q42 v w = push_be64 (q42_encode v) (push_be32 8 (push_u8 4 w))"

definition write_point :: "f64 \<Rightarrow> f64 \<Rightarrow> f64 \<Rightarrow> writer \<Rightarrow> writer" where
  "write_point x y z w =
     write_f64_q42 z (write_f64_q42 y (write_f64_q42 x (write_tag TAG_POINT3D w)))"

text \<open>The bytes each of them appends.\<close>

definition tag_bytes :: "u32 \<Rightarrow> bytes" where "tag_bytes tag = 5 # be32 4 @ be32 tag"
definition u32_bytes :: "u32 \<Rightarrow> bytes" where "u32_bytes v = 2 # be32 4 @ be32 v"
definition q42_bytes :: "u64 \<Rightarrow> bytes" where "q42_bytes v = 4 # be32 8 @ be64 v"

lemma write_simps [simp]:
  "wbuf (write_tag t w) = wbuf w @ tag_bytes t" "wbuf (write_u32 v w) = wbuf w @ u32_bytes v"
  "wbuf (write_f64_q42 x w) = wbuf w @ q42_bytes (q42_encode x)"
  "wbuf (write_point x y z w) = wbuf w @ tag_bytes TAG_POINT3D @ q42_bytes (q42_encode x) @
     q42_bytes (q42_encode y) @ q42_bytes (q42_encode z)"
  by (simp_all add: write_tag_def write_u32_def write_f64_q42_def write_point_def tag_bytes_def
      u32_bytes_def q42_bytes_def)

lemma field_lengths [simp, bytes_simps]:
  "length (tag_bytes t) = 9" "length (u32_bytes v) = 9" "length (q42_bytes q) = 13"
  by (simp_all add: tag_bytes_def u32_bytes_def q42_bytes_def)

section \<open>The reader\<close>

record reader =
  rbuf :: bytes
  rpos :: nat

type_synonym 'a rd = "reader \<Rightarrow> (protocol_error, 'a) result \<times> reader"

definition rd_return :: "'a \<Rightarrow> 'a rd" where
  "rd_return a r = (Inr a, r)"

definition rd_fail :: "protocol_error \<Rightarrow> 'a rd" where
  "rd_fail e r = (Inl e, r)"

definition rd_bind :: "'a rd \<Rightarrow> ('a \<Rightarrow> 'b rd) \<Rightarrow> 'b rd" where
  "rd_bind m f r = (case m r of (Inl e, r') \<Rightarrow> (Inl e, r') | (Inr a, r') \<Rightarrow> f a r')"

definition reader_new :: "bytes \<Rightarrow> reader" where
  "reader_new b = \<lparr>rbuf = b, rpos = 0\<rparr>"

definition remaining :: "reader \<Rightarrow> nat" where
  "remaining r = length (rbuf r) - rpos r"

definition rd_skip :: "nat \<Rightarrow> reader \<Rightarrow> reader" where
  "rd_skip n r = r\<lparr>rpos := min (rpos r + n) (length (rbuf r))\<rparr>"

definition rd_u8 :: "u8 rd" where
  "rd_u8 r =
     (if remaining r < 1 then (Inl ShortRead, r)
      else (Inr (rbuf r ! rpos r), r\<lparr>rpos := rpos r + 1\<rparr>))"

definition rd_take :: "nat \<Rightarrow> bytes rd" where
  "rd_take n r =
     (if remaining r < n then (Inl ShortRead, r)
      else (Inr (sub_slice (rpos r) (rpos r + n) (rbuf r)), r\<lparr>rpos := rpos r + n\<rparr>))"

definition u32_be :: "u32 rd" where
  "u32_be = rd_bind (rd_take 4) (\<lambda>b. rd_return (of_be32 b))"

definition i32_be :: "u32 rd" where
  "i32_be = rd_bind (rd_take 4) (\<lambda>b. rd_return (of_be32 b))"

definition i64_be :: "u64 rd" where
  "i64_be = rd_bind (rd_take 8) (\<lambda>b. rd_return (of_be64 b))"

definition read_header_var :: "u8 \<Rightarrow> u32 rd" where
  "read_header_var expected_type =
     rd_bind rd_u8 (\<lambda>t. if t \<noteq> expected_type then rd_fail (WrongType expected_type t) else u32_be)"

definition read_header :: "u8 \<Rightarrow> u32 \<Rightarrow> unit rd" where
  "read_header expected_type expected_size =
     rd_bind (read_header_var expected_type)
       (\<lambda>s. if s \<noteq> expected_size then rd_fail (WrongSize expected_size s) else rd_return ())"

definition read_prolog_tag :: "u32 rd" where
  "read_prolog_tag = rd_bind (read_header 5 4) (\<lambda>_. u32_be)"

definition read_u32 :: "u32 rd" where
  "read_u32 = rd_bind (read_header 2 4) (\<lambda>_. u32_be)"

definition read_enum4 :: "u32 rd" where
  "read_enum4 = rd_bind (read_header 1 4) (\<lambda>_. u32_be)"

definition saturating_add32 :: "u32 \<Rightarrow> u32 \<Rightarrow> u32" where
  "saturating_add32 a b = (if unat a + unat b < 2 ^ 32 then a + b else - 1)"

definition read_string :: "str rd" where
  "read_string =
     rd_bind (read_header_var 0x14) (\<lambda>size.
     rd_bind u32_be (\<lambda>count.
       let expected = saturating_add32 count 4 in
       if size \<noteq> expected then rd_fail (WrongSize expected size)
       else rd_bind (rd_take (unat count)) (\<lambda>body. rd_return (utf8_lossy body))))"

definition read_fixed16x16 :: "f64 rd" where
  "read_fixed16x16 =
     rd_bind (read_header 3 4) (\<lambda>_. rd_bind i32_be (\<lambda>v. rd_return (fixed16_decode v)))"

definition read_fixed22x42 :: "f64 rd" where
  "read_fixed22x42 =
     rd_bind (read_header 4 8) (\<lambda>_. rd_bind i64_be (\<lambda>v. rd_return (q42_decode v)))"

definition read_s64 :: "u64 rd" where
  "read_s64 = rd_bind (read_header 6 8) (\<lambda>_. i64_be)"

definition read_xds_row :: "u32 rd" where
  "read_xds_row =
     rd_bind read_prolog_tag (\<lambda>tag.
       case split_tag tag of (count, type_id) \<Rightarrow>
         if type_id \<noteq> TAG_XDS_ROW_MASK then rd_fail (WrongTag TAG_XDS_ROW_MASK tag)
         else rd_return count)"

definition read_xds_column :: "u32 rd" where
  "read_xds_column =
     rd_bind read_prolog_tag (\<lambda>tag.
       if tag \<noteq> TAG_XDS_COLUMN then rd_fail (WrongTag TAG_XDS_COLUMN tag) else read_u32)"

type_synonym point3 = "f64 \<times> f64 \<times> f64"
type_synonym point2 = "f64 \<times> f64"

definition read_point3d :: "point3 rd" where
  "read_point3d =
     rd_bind read_prolog_tag (\<lambda>tag.
       if tag \<noteq> TAG_POINT3D then rd_fail (WrongTag TAG_POINT3D tag)
       else rd_bind read_fixed22x42 (\<lambda>x. rd_bind read_fixed22x42 (\<lambda>y.
            rd_bind read_fixed22x42 (\<lambda>z. rd_return (x, y, z)))))"

definition read_point2d :: "point2 rd" where
  "read_point2d =
     rd_bind read_prolog_tag (\<lambda>tag.
       if tag \<noteq> TAG_POINT2D then rd_fail (WrongTag TAG_POINT2D tag)
       else rd_bind read_fixed22x42 (\<lambda>x. rd_bind read_fixed22x42 (\<lambda>y. rd_return (x, y))))"

section \<open>Where the cursor is\<close>

text \<open>The unread bytes, and the cursor moved on.\<close>

definition rest :: "reader \<Rightarrow> bytes" where
  "rest r = drop (rpos r) (rbuf r)"

definition adv :: "nat \<Rightarrow> reader \<Rightarrow> reader" where
  "adv n r = r\<lparr>rpos := rpos r + n\<rparr>"

lemma rest_adv [simp]: "rest (adv n r) = drop n (rest r)"
  by (simp add: rest_def adv_def add.commute)

lemma adv_adv [simp]: "adv m (adv n r) = adv (n + m) r"
  by (simp add: adv_def add.assoc)

lemma adv_0 [simp]: "adv 0 r = r"
  by (simp add: adv_def)

lemma adv_sel [simp]: "rbuf (adv n r) = rbuf r" "rpos (adv n r) = rpos r + n"
  by (simp_all add: adv_def)

lemma rest_new [simp]: "rest (reader_new b) = b"
  by (simp add: rest_def reader_new_def)

lemma remaining_rest: "remaining r = length (rest r)"
  by (simp add: remaining_def rest_def)

lemma rd_skip_rest: "n \<le> length (rest r) \<Longrightarrow> 0 < n \<Longrightarrow> rd_skip n r = adv n r"
  by (auto simp: rd_skip_def adv_def rest_def)

lemma rd_take_rest:
  "rd_take n r =
     (if length (rest r) < n then (Inl ShortRead, r) else (Inr (take n (rest r)), adv n r))"
  by (simp add: rd_take_def remaining_rest sub_slice_def adv_def) (simp add: rest_def)

lemma rd_u8_rest:
  "rd_u8 r = (case rest r of [] \<Rightarrow> (Inl ShortRead, r) | b # _ \<Rightarrow> (Inr b, adv 1 r))"
proof (cases "rest r")
  case Nil
  then show ?thesis by (simp add: rd_u8_def remaining_rest)
next
  case (Cons b t)
  then have "rbuf r ! rpos r = b"
    by (metis rest_def hd_drop_conv_nth list.sel(1) drop_eq_Nil2 linorder_not_le list.distinct(1))
  with Cons show ?thesis by (simp add: rd_u8_def remaining_rest adv_def)
qed

lemma rd_simps [simp]:
  "rd_return a r = (Inr a, r)" "rd_fail e r = (Inl e, r)"
  by (simp_all add: rd_return_def rd_fail_def)

lemma rd_bind_Inr:
  "rd_bind m f r = (Inr b, r') \<longleftrightarrow> (\<exists>a r1. m r = (Inr a, r1) \<and> f a r1 = (Inr b, r'))"
  by (auto simp: rd_bind_def split: sum.splits prod.splits)

lemma rd_bind_step [simp]:
  "m r = (Inr a, r1) \<Longrightarrow> rd_bind m f r = f a r1" "m r = (Inl e, r1) \<Longrightarrow> rd_bind m f r = (Inl e, r1)"
  by (simp_all add: rd_bind_def)

section \<open>Safety of the cursor\<close>

text \<open>No read leaves the buffer: the cursor only moves forward and never past the end.\<close>

definition rd_safe :: "'a rd \<Rightarrow> bool" where
  "rd_safe m \<longleftrightarrow> (\<forall>r. rpos r \<le> length (rbuf r) \<longrightarrow>
     rbuf (snd (m r)) = rbuf r \<and> rpos r \<le> rpos (snd (m r)) \<and>
     rpos (snd (m r)) \<le> length (rbuf r))"

named_theorems rd_safe_intros \<open>safety of the reader operations\<close>

lemma rd_safeD:
  "rd_safe m \<Longrightarrow> m r = (a, r') \<Longrightarrow> rpos r \<le> length (rbuf r) \<Longrightarrow>
    rbuf r' = rbuf r \<and> rpos r \<le> rpos r' \<and> rpos r' \<le> length (rbuf r)"
  by (metis rd_safe_def snd_conv)

lemma rd_safe_return [rd_safe_intros]: "rd_safe (rd_return a)"
  by (simp add: rd_safe_def)

lemma rd_safe_fail [rd_safe_intros]: "rd_safe (rd_fail e)"
  by (simp add: rd_safe_def)

lemma rd_safe_bind [rd_safe_intros]:
  assumes m: "rd_safe m" and f: "\<And>a. rd_safe (f a)"
  shows "rd_safe (rd_bind m f)"
  unfolding rd_safe_def
proof (intro allI impI)
  fix r :: reader assume r: "rpos r \<le> length (rbuf r)"
  obtain x r1 where mr: "m r = (x, r1)" by fastforce
  note s1 = rd_safeD [OF m mr r]
  show "rbuf (snd (rd_bind m f r)) = rbuf r \<and> rpos r \<le> rpos (snd (rd_bind m f r)) \<and>
      rpos (snd (rd_bind m f r)) \<le> length (rbuf r)"
  proof (cases x)
    case (Inl e)
    with mr s1 show ?thesis by (simp add: rd_bind_def)
  next
    case (Inr a)
    obtain y r2 where fr: "f a r1 = (y, r2)" by fastforce
    have "rpos r1 \<le> length (rbuf r1)" using s1 by simp
    from rd_safeD [OF f fr this] s1 mr fr Inr show ?thesis by (auto simp: rd_bind_def)
  qed
qed

lemma rd_safe_if [rd_safe_intros]: "rd_safe m \<Longrightarrow> rd_safe n \<Longrightarrow> rd_safe (if b then m else n)"
  by simp

lemma rd_safe_u8 [rd_safe_intros]: "rd_safe rd_u8"
  by (auto simp: rd_safe_def rd_u8_def remaining_def)

lemma rd_safe_take [rd_safe_intros]: "rd_safe (rd_take n)"
  by (auto simp: rd_safe_def rd_take_def remaining_def)

lemma rd_safe_u32_be [rd_safe_intros]: "rd_safe u32_be" "rd_safe i32_be" "rd_safe i64_be"
  by (auto simp: u32_be_def i32_be_def i64_be_def intro!: rd_safe_intros)

lemma rd_safe_header [rd_safe_intros]:
  "rd_safe (read_header_var t)" "rd_safe (read_header t s)"
  by (auto simp: read_header_def read_header_var_def intro!: rd_safe_intros)

lemma rd_safe_fields [rd_safe_intros]:
  "rd_safe read_prolog_tag" "rd_safe read_u32" "rd_safe read_enum4" "rd_safe read_s64"
  "rd_safe read_fixed16x16" "rd_safe read_fixed22x42" "rd_safe read_string"
  unfolding read_prolog_tag_def read_u32_def read_enum4_def read_s64_def read_fixed16x16_def
    read_fixed22x42_def read_string_def Let_def
  by (intro rd_safe_intros)+

lemma rd_safe_composites [rd_safe_intros]:
  "rd_safe read_xds_row" "rd_safe read_xds_column" "rd_safe read_point3d" "rd_safe read_point2d"
  unfolding read_xds_row_def read_xds_column_def read_point3d_def read_point2d_def split_tag_def
    prod.case
  by (intro rd_safe_intros)+

section \<open>Fields: what was written is read back\<close>

text \<open>
  \<open>field_reader\<close>: where the unread bytes start with the encoding of \<open>a\<close>, the read succeeds with
  the value \<open>a\<close> stands for and consumes exactly those bytes. \<open>exact_field\<close> adds the converse, so
  its encoding is prefix free and a truncated field never reads.
\<close>

locale field_reader =
  fixes read :: "'v rd" and enc :: "'a \<Rightarrow> bytes" and val :: "'a \<Rightarrow> 'v" and valid :: "'a \<Rightarrow> bool"
  assumes read_enc:
    "valid a \<Longrightarrow> rest r = enc a @ t \<Longrightarrow> read r = (Inr (val a), adv (length (enc a)) r)"
begin

lemma read_new: "valid a \<Longrightarrow> read (reader_new (enc a)) = (Inr (val a), adv (length (enc a)) (reader_new (enc a)))"
  using read_enc [of a "reader_new (enc a)" "[]"] by simp

lemma rest_read: "valid a \<Longrightarrow> rest r = enc a @ t \<Longrightarrow> rest (snd (read r)) = t"
  by (simp add: read_enc)

lemma bind_read:
  "valid a \<Longrightarrow> rest r = enc a @ t \<Longrightarrow> rd_bind read f r = f (val a) (adv (length (enc a)) r)"
  by (simp add: read_enc)

end

locale exact_field =
  fixes read :: "'v rd" and enc :: "'a \<Rightarrow> bytes" and val :: "'a \<Rightarrow> 'v"
  assumes read_iff:
    "read r = (Inr v, r') \<longleftrightarrow>
       (\<exists>a t. v = val a \<and> rest r = enc a @ t \<and> r' = adv (length (enc a)) r)"
    and prefix_free: "enc a @ t = enc b @ s \<Longrightarrow> a = b \<and> t = s"
begin

sublocale field_reader read enc val "\<lambda>_. True"
  by unfold_locales (auto simp: read_iff)

lemma enc_eq_iff: "enc a = enc b \<longleftrightarrow> a = b"
  using prefix_free [of a "[]" b "[]"] by auto

lemma read_sound:
  assumes "read r = (Inr v, r')"
  obtains a where "v = val a" "rest r = enc a @ rest r'"
  using assms by (auto simp: read_iff)

lemma truncated:
  assumes "rest r = take k (enc a)" and "k < length (enc a)"
  shows "\<exists>e. fst (read r) = Inl e"
proof (cases "fst (read r)")
  case (Inr v)
  then obtain b t where "rest r = enc b @ t" by (metis prod.collapse read_iff)
  with assms(1) have "enc b @ t @ drop k (enc a) = enc a @ []"
    by (metis append.assoc append_take_drop_id append_Nil2)
  then have "t @ drop k (enc a) = []" using prefix_free by blast
  with assms(2) show ?thesis by simp
qed auto

end

lemma rd_take_Inr:
  "rd_take n r = (Inr b, r') \<longleftrightarrow> (\<exists>t. rest r = b @ t \<and> length b = n) \<and> r' = adv n r"
  by (auto simp: rd_take_rest) (metis append_take_drop_id length_take min.absorb2 not_less)

lemma rd_u8_Inr: "rd_u8 r = (Inr b, r') \<longleftrightarrow> (\<exists>t. rest r = b # t) \<and> r' = adv 1 r"
  by (auto simp: rd_u8_rest split: list.splits)

lemma u32_be_Inr: "u32_be r = (Inr v, r') \<longleftrightarrow> (\<exists>t. rest r = be32 v @ t) \<and> r' = adv 4 r"
  unfolding u32_be_def rd_bind_Inr rd_take_Inr
  by (auto simp: be32.enc_dec)

lemma i32_be_Inr: "i32_be r = (Inr v, r') \<longleftrightarrow> (\<exists>t. rest r = be32 v @ t) \<and> r' = adv 4 r"
  using u32_be_Inr by (simp add: i32_be_def u32_be_def)

lemma i64_be_Inr: "i64_be r = (Inr v, r') \<longleftrightarrow> (\<exists>t. rest r = be64 v @ t) \<and> r' = adv 8 r"
  unfolding i64_be_def rd_bind_Inr rd_take_Inr
  by (auto simp: be64.enc_dec)

lemma header_var_Inr:
  "read_header_var ty r = (Inr s, r') \<longleftrightarrow> (\<exists>t. rest r = ty # be32 s @ t) \<and> r' = adv 5 r"
  unfolding read_header_var_def rd_bind_Inr rd_u8_Inr
  by (auto simp: u32_be_Inr)

lemma header_Inr:
  "read_header ty s r = (Inr u, r') \<longleftrightarrow> (\<exists>t. rest r = ty # be32 s @ t) \<and> r' = adv 5 r"
  unfolding read_header_def rd_bind_Inr header_var_Inr
  by (auto split: if_splits)

lemmas prim_Inr = rd_bind_Inr header_Inr u32_be_Inr i32_be_Inr i64_be_Inr

definition s64_bytes :: "u64 \<Rightarrow> bytes" where "s64_bytes v = 6 # be32 8 @ be64 v"
definition enum4_bytes :: "u32 \<Rightarrow> bytes" where "enum4_bytes v = 1 # be32 4 @ be32 v"
definition fixed16_bytes :: "u32 \<Rightarrow> bytes" where "fixed16_bytes v = 3 # be32 4 @ be32 v"

lemma field_lengths2 [simp, bytes_simps]:
  "length (s64_bytes q) = 13" "length (enum4_bytes v) = 9" "length (fixed16_bytes v) = 9"
  by (simp_all add: s64_bytes_def enum4_bytes_def fixed16_bytes_def)

lemma header_field_iff:
  assumes "\<And>r v r'. m r = (Inr v, r') \<longleftrightarrow> (\<exists>t. rest r = e v @ t) \<and> r' = adv w r"
  shows "rd_bind (read_header ty s) (\<lambda>_. m) r = (Inr v, r') \<longleftrightarrow>
    (\<exists>t. rest r = (ty # be32 s @ e v) @ t) \<and> r' = adv (5 + w) r"
  unfolding rd_bind_Inr header_Inr assms by auto

interpretation u32_field: exact_field read_u32 u32_bytes "\<lambda>v. v"
proof
  show "read_u32 r = (Inr v, r') \<longleftrightarrow>
      (\<exists>a t. v = a \<and> rest r = u32_bytes a @ t \<and> r' = adv (length (u32_bytes a)) r)" for r v r'
    unfolding read_u32_def header_field_iff [OF u32_be_Inr] by (auto simp: u32_bytes_def)
qed (auto simp: u32_bytes_def be32.enc_append_inject)

interpretation tag_field: exact_field read_prolog_tag tag_bytes "\<lambda>v. v"
proof
  show "read_prolog_tag r = (Inr v, r') \<longleftrightarrow>
      (\<exists>a t. v = a \<and> rest r = tag_bytes a @ t \<and> r' = adv (length (tag_bytes a)) r)" for r v r'
    unfolding read_prolog_tag_def header_field_iff [OF u32_be_Inr] by (auto simp: tag_bytes_def)
qed (auto simp: tag_bytes_def be32.enc_append_inject)

interpretation enum4_field: exact_field read_enum4 enum4_bytes "\<lambda>v. v"
proof
  show "read_enum4 r = (Inr v, r') \<longleftrightarrow>
      (\<exists>a t. v = a \<and> rest r = enum4_bytes a @ t \<and> r' = adv (length (enum4_bytes a)) r)" for r v r'
    unfolding read_enum4_def header_field_iff [OF u32_be_Inr] by (auto simp: enum4_bytes_def)
qed (auto simp: enum4_bytes_def be32.enc_append_inject)

interpretation s64_field: exact_field read_s64 s64_bytes "\<lambda>v. v"
proof
  show "read_s64 r = (Inr v, r') \<longleftrightarrow>
      (\<exists>a t. v = a \<and> rest r = s64_bytes a @ t \<and> r' = adv (length (s64_bytes a)) r)" for r v r'
    unfolding read_s64_def header_field_iff [OF i64_be_Inr] by (auto simp: s64_bytes_def)
qed (auto simp: s64_bytes_def be64.enc_append_inject)

interpretation q42_field: exact_field read_fixed22x42 q42_bytes q42_decode
proof
  show "read_fixed22x42 r = (Inr v, r') \<longleftrightarrow>
      (\<exists>a t. v = q42_decode a \<and> rest r = q42_bytes a @ t \<and> r' = adv (length (q42_bytes a)) r)"
    for r v r'
    unfolding read_fixed22x42_def prim_Inr by (auto simp: q42_bytes_def)
qed (auto simp: q42_bytes_def be64.enc_append_inject)

interpretation fixed16_field: exact_field read_fixed16x16 fixed16_bytes fixed16_decode
proof
  show "read_fixed16x16 r = (Inr v, r') \<longleftrightarrow>
      (\<exists>a t. v = fixed16_decode a \<and> rest r = fixed16_bytes a @ t \<and>
        r' = adv (length (fixed16_bytes a)) r)" for r v r'
    unfolding read_fixed16x16_def prim_Inr by (auto simp: fixed16_bytes_def)
qed (auto simp: fixed16_bytes_def be32.enc_append_inject)

section \<open>Composite fields\<close>

text \<open>Points, columns, rows and strings.\<close>

type_synonym raw3 = "u64 \<times> u64 \<times> u64"
type_synonym raw2 = "u64 \<times> u64"

fun point3_bytes :: "raw3 \<Rightarrow> bytes" where
  "point3_bytes (x, y, z) = tag_bytes TAG_POINT3D @ q42_bytes x @ q42_bytes y @ q42_bytes z"

fun point2_bytes :: "raw2 \<Rightarrow> bytes" where
  "point2_bytes (x, y) = tag_bytes TAG_POINT2D @ q42_bytes x @ q42_bytes y"

fun point3_val :: "raw3 \<Rightarrow> point3" where
  "point3_val (x, y, z) = (q42_decode x, q42_decode y, q42_decode z)"

fun point2_val :: "raw2 \<Rightarrow> point2" where
  "point2_val (x, y) = (q42_decode x, q42_decode y)"

definition column_bytes :: "u32 \<Rightarrow> bytes" where
  "column_bytes c = tag_bytes TAG_XDS_COLUMN @ u32_bytes c"

definition row_tag :: "nat \<Rightarrow> u32" where
  "row_tag n = of_nat (n * 65536 + 0x0bb8)"

definition string_bytes :: "bytes \<Rightarrow> bytes" where
  "string_bytes b = 0x14 # be32 (of_nat (length b + 4)) @ be32 (of_nat (length b)) @ b"

lemma length_points [simp, bytes_simps]:
  "length (point3_bytes p) = 48" "length (point2_bytes q) = 35" "length (column_bytes c) = 18"
  "length (string_bytes b) = 9 + length b"
  by (cases p; cases q; simp add: column_bytes_def string_bytes_def)+

lemma write_point_bytes:
  "wbuf (write_point x y z w) = wbuf w @ point3_bytes (q42_encode x, q42_encode y, q42_encode z)"
  by simp

lemma split_row_tag: "n < 65536 \<Longrightarrow> split_tag (row_tag n) = (of_nat n, TAG_XDS_ROW_MASK)"
proof -
  assume n: "n < 65536"
  then have u: "unat (row_tag n) = n * 65536 + 3000"
    by (simp only: row_tag_def unat_of_nat_u32) simp
  have "unat (drop_bit 16 (row_tag n)) = n"
    using n by (simp only: unsigned_drop_bit_eq u) (simp add: drop_bit_eq_div take_bit_eq_mod)
  moreover have "unat (row_tag n AND 0xffff) = 3000"
  proof -
    have "row_tag n AND 0xffff = take_bit 16 (row_tag n)" by (simp add: take_bit_eq_mask mask_eq_exp_minus_1)
    then show ?thesis by (simp only: unsigned_take_bit_eq u) (simp add: take_bit_eq_mod)
  qed
  ultimately show ?thesis
    using n by (simp add: split_tag_def TAG_XDS_ROW_MASK_def word_unat_eq_iff unat_of_nat_u32)
qed

lemma point3_iff:
  "rd_bind read_prolog_tag (\<lambda>tag.
       if tag \<noteq> TAG_POINT3D then rd_fail (WrongTag TAG_POINT3D tag)
       else rd_bind read_fixed22x42 (\<lambda>x. rd_bind read_fixed22x42 (\<lambda>y.
            rd_bind read_fixed22x42 (\<lambda>z. rd_return (x, y, z))))) r = (Inr v, r') \<longleftrightarrow>
     (\<exists>a t. v = point3_val a \<and> rest r = point3_bytes a @ t \<and> r' = adv (length (point3_bytes a)) r)"
  (is "?l \<longleftrightarrow> ?r")
proof
  assume ?l
  then obtain x y z t where "v = (q42_decode x, q42_decode y, q42_decode z)"
    "rest r = tag_bytes TAG_POINT3D @ q42_bytes x @ q42_bytes y @ q42_bytes z @ t" "r' = adv 48 r"
    by (auto simp: rd_bind_Inr tag_field.read_iff q42_field.read_iff split: if_splits)
  then show ?r by (intro exI [of _ "(x, y, z)"] exI [of _ t]) simp
next
  assume ?r
  then obtain x y z t where "v = (q42_decode x, q42_decode y, q42_decode z)"
    "rest r = tag_bytes TAG_POINT3D @ q42_bytes x @ q42_bytes y @ q42_bytes z @ t" "r' = adv 48 r"
    by auto
  then show ?l by (simp add: tag_field.bind_read q42_field.bind_read)
qed

lemma point2_iff:
  "rd_bind read_prolog_tag (\<lambda>tag.
       if tag \<noteq> TAG_POINT2D then rd_fail (WrongTag TAG_POINT2D tag)
       else rd_bind read_fixed22x42 (\<lambda>x. rd_bind read_fixed22x42 (\<lambda>y. rd_return (x, y)))) r =
       (Inr v, r') \<longleftrightarrow>
     (\<exists>a t. v = point2_val a \<and> rest r = point2_bytes a @ t \<and> r' = adv (length (point2_bytes a)) r)"
  (is "?l \<longleftrightarrow> ?r")
proof
  assume ?l
  then obtain x y t where "v = (q42_decode x, q42_decode y)"
    "rest r = tag_bytes TAG_POINT2D @ q42_bytes x @ q42_bytes y @ t" "r' = adv 35 r"
    by (auto simp: rd_bind_Inr tag_field.read_iff q42_field.read_iff split: if_splits)
  then show ?r by (intro exI [of _ "(x, y)"] exI [of _ t]) simp
next
  assume ?r
  then obtain x y t where "v = (q42_decode x, q42_decode y)"
    "rest r = tag_bytes TAG_POINT2D @ q42_bytes x @ q42_bytes y @ t" "r' = adv 35 r"
    by auto
  then show ?l by (simp add: tag_field.bind_read q42_field.bind_read)
qed

lemma saturating_add32_small:
  assumes "n + m < 2 ^ 32"
  shows "saturating_add32 (of_nat n) (of_nat m) = of_nat (n + m)"
proof -
  have "unat (of_nat n :: u32) = n" "unat (of_nat m :: u32) = m"
    using assms by (simp_all only: unat_of_nat_u32) simp_all
  with assms show ?thesis by (simp only: saturating_add32_def of_nat_add if_True)
qed

interpretation column_field: exact_field read_xds_column column_bytes "\<lambda>v. v"
proof
  show "read_xds_column r = (Inr v, r') \<longleftrightarrow>
      (\<exists>a t. v = a \<and> rest r = column_bytes a @ t \<and> r' = adv (length (column_bytes a)) r)" for r v r'
    unfolding read_xds_column_def rd_bind_Inr
    by (auto simp: tag_field.read_iff u32_field.read_iff column_bytes_def split: if_splits)
qed (auto simp: column_bytes_def u32_field.enc_eq_iff)

interpretation point3_field: exact_field read_point3d point3_bytes point3_val
proof
  show "read_point3d r = (Inr v, r') \<longleftrightarrow>
      (\<exists>a t. v = point3_val a \<and> rest r = point3_bytes a @ t \<and> r' = adv (length (point3_bytes a)) r)"
    for r v r'
    unfolding read_point3d_def by (rule point3_iff)
  show "a = b \<and> t = s" if "point3_bytes a @ t = point3_bytes b @ s" for a b t s
    using that by (cases a; cases b) (auto simp: q42_field.enc_eq_iff)
qed

interpretation point2_field: exact_field read_point2d point2_bytes point2_val
proof
  show "read_point2d r = (Inr v, r') \<longleftrightarrow>
      (\<exists>a t. v = point2_val a \<and> rest r = point2_bytes a @ t \<and> r' = adv (length (point2_bytes a)) r)"
    for r v r'
    unfolding read_point2d_def by (rule point2_iff)
  show "a = b \<and> t = s" if "point2_bytes a @ t = point2_bytes b @ s" for a b t s
    using that by (cases a; cases b) (auto simp: q42_field.enc_eq_iff)
qed

interpretation row_field: field_reader read_xds_row "\<lambda>n. tag_bytes (row_tag n)" of_nat "\<lambda>n. n < 65536"
  by unfold_locales (simp add: read_xds_row_def tag_field.bind_read split_row_tag)

interpretation string_field: field_reader read_string string_bytes utf8_lossy
  "\<lambda>b. length b + 4 < 2 ^ 32"
proof
  fix b :: bytes and r t
  assume v: "length b + 4 < 2 ^ 32" and r: "rest r = string_bytes b @ t"
  have "read_header_var 0x14 r = (Inr (of_nat (length b + 4)), adv 5 r)"
    using r by (simp add: header_var_Inr string_bytes_def)
  moreover have "u32_be (adv 5 r) = (Inr (of_nat (length b)), adv 4 (adv 5 r))"
    unfolding u32_be_Inr using r by (simp add: string_bytes_def)
  moreover have "saturating_add32 (of_nat (length b)) 4 = of_nat (length b + 4)"
    using saturating_add32_small [OF v] by simp
  moreover have "rd_take (unat (of_nat (length b) :: u32)) (adv 9 r) = (Inr b, adv (length b) (adv 9 r))"
    unfolding rd_take_Inr unat_of_nat_u32 using r v by (simp add: string_bytes_def)
  ultimately show "read_string r = (Inr (utf8_lossy b), adv (length (string_bytes b)) r)"
    by (simp add: read_string_def Let_def)
qed

section \<open>Truncation\<close>

text \<open>
  A read that succeeds is not affected by bytes added at the end of the buffer. With the safety of
  the cursor this makes every field fail on a strict prefix of its encoding.
\<close>

definition rd_stable :: "'a rd \<Rightarrow> bool" where
  "rd_stable m \<longleftrightarrow> (\<forall>r v r' t. m r = (Inr v, r') \<longrightarrow> rpos r \<le> length (rbuf r) \<longrightarrow>
     m (r\<lparr>rbuf := rbuf r @ t\<rparr>) = (Inr v, r'\<lparr>rbuf := rbuf r' @ t\<rparr>))"

named_theorems rd_stable_intros \<open>stability of the reader operations\<close>

lemma rd_stable_return [rd_stable_intros]: "rd_stable (rd_return a)"
  by (simp add: rd_stable_def)

lemma rd_stable_fail [rd_stable_intros]: "rd_stable (rd_fail e)"
  by (simp add: rd_stable_def)

lemma rd_stable_if [rd_stable_intros]:
  "rd_stable m \<Longrightarrow> rd_stable n \<Longrightarrow> rd_stable (if b then m else n)"
  by simp

lemma rd_stable_u8 [rd_stable_intros]: "rd_stable rd_u8"
  by (auto simp: rd_stable_def rd_u8_def remaining_def nth_append split: if_splits)

lemma rd_stable_take [rd_stable_intros]: "rd_stable (rd_take n)"
  by (auto simp: rd_stable_def rd_take_def remaining_def sub_slice_def split: if_splits)

lemma rd_stable_bind [rd_stable_intros]:
  assumes m: "rd_safe m" "rd_stable m" and f: "\<And>a. rd_stable (f a)"
  shows "rd_stable (rd_bind m f)"
  unfolding rd_stable_def
proof (intro allI impI)
  fix r :: reader and v r' t
  assume "rd_bind m f r = (Inr v, r')" and r: "rpos r \<le> length (rbuf r)"
  then obtain a r1 where a: "m r = (Inr a, r1)" "f a r1 = (Inr v, r')" by (auto simp: rd_bind_Inr)
  have "m (r\<lparr>rbuf := rbuf r @ t\<rparr>) = (Inr a, r1\<lparr>rbuf := rbuf r1 @ t\<rparr>)"
    using m(2) a(1) r by (simp add: rd_stable_def)
  moreover have "f a (r1\<lparr>rbuf := rbuf r1 @ t\<rparr>) = (Inr v, r'\<lparr>rbuf := rbuf r' @ t\<rparr>)"
    using f [of a, unfolded rd_stable_def, rule_format, OF a(2)] rd_safeD [OF m(1) a(1) r] by simp
  ultimately show "rd_bind m f (r\<lparr>rbuf := rbuf r @ t\<rparr>) = (Inr v, r'\<lparr>rbuf := rbuf r' @ t\<rparr>)"
    by simp
qed

lemma rd_stable_prims [rd_stable_intros]:
  "rd_stable u32_be" "rd_stable i32_be" "rd_stable i64_be"
  "rd_stable (read_header_var ty)" "rd_stable (read_header ty s)"
  unfolding u32_be_def i32_be_def i64_be_def read_header_def read_header_var_def
  by (intro rd_stable_intros rd_safe_intros)+

lemma rd_stable_fields [rd_stable_intros]:
  "rd_stable read_prolog_tag" "rd_stable read_u32" "rd_stable read_enum4" "rd_stable read_s64"
  "rd_stable read_fixed16x16" "rd_stable read_fixed22x42" "rd_stable read_string"
  unfolding read_prolog_tag_def read_u32_def read_enum4_def read_s64_def read_fixed16x16_def
    read_fixed22x42_def read_string_def Let_def
  by (intro rd_stable_intros rd_safe_intros)+

lemma rd_stable_composites [rd_stable_intros]:
  "rd_stable read_xds_row" "rd_stable read_xds_column" "rd_stable read_point3d"
  "rd_stable read_point2d"
  unfolding read_xds_row_def read_xds_column_def read_point3d_def read_point2d_def split_tag_def
    prod.case
  by (intro rd_stable_intros rd_safe_intros)+

lemma rd_truncated:
  assumes "rd_safe m" "rd_stable m"
    and full: "\<And>r t. rest r = b @ t \<Longrightarrow> m r = (Inr v, adv (length b) r)"
    and r: "rest r = take k b" "k < length b" "rpos r \<le> length (rbuf r)"
  shows "\<exists>e r'. m r = (Inl e, r')"
proof (cases "m r")
  case (Pair x r')
  show ?thesis
  proof (cases x)
    case (Inr w)
    let ?r = "r\<lparr>rbuf := rbuf r @ drop k b\<rparr>"
    have "m ?r = (Inr w, r'\<lparr>rbuf := rbuf r' @ drop k b\<rparr>)"
      using assms(2) Pair Inr r(3) by (simp add: rd_stable_def)
    moreover have "rest ?r = b @ []" using r by (simp add: rest_def)
    ultimately have "r'\<lparr>rbuf := rbuf r' @ drop k b\<rparr> = adv (length b) ?r" using full by fastforce
    then have "rpos (r'\<lparr>rbuf := rbuf r' @ drop k b\<rparr>) = rpos r + length b" by simp
    then have "rpos r' = rpos r + length b" by simp
    moreover have "rpos r' \<le> length (rbuf r)" using rd_safeD [OF assms(1) Pair r(3)] by simp
    moreover have "length (rbuf r) = rpos r + k"
      using r by (metis length_drop rest_def length_take min.absorb4 le_add_diff_inverse)
    ultimately show ?thesis using r(2) by simp
  qed (simp add: Pair)
qed

lemma adv_within [simp]: "n \<le> length (rest r) \<Longrightarrow> rpos r \<le> length (rbuf r) \<Longrightarrow>
  rpos (adv n r) \<le> length (rbuf (adv n r))"
  by (simp add: rest_def)

section \<open>Sequences of fields\<close>

text \<open>
  A loop that reads up to \<open>n\<close> fields and stops at the first that does not read. On a byte string
  cut anywhere it returns exactly the fields that are complete.
\<close>

fun complete_prefix :: "('a \<Rightarrow> bytes) \<Rightarrow> nat \<Rightarrow> 'a list \<Rightarrow> 'a list" where
  "complete_prefix enc k [] = []"
| "complete_prefix enc k (a # as) =
     (if length (enc a) \<le> k then a # complete_prefix enc (k - length (enc a)) as else [])"

lemma complete_prefix_all:
  "length (concat (List.map enc as)) \<le> k \<Longrightarrow> complete_prefix enc k as = as"
  by (induction as arbitrary: k) auto

locale field_sequence = field_reader read enc val valid
  for read :: "'v rd" and enc :: "'a \<Rightarrow> bytes" and val :: "'a \<Rightarrow> 'v" and valid :: "'a \<Rightarrow> bool" +
  fixes loop :: "nat \<Rightarrow> reader \<Rightarrow> 'v list"
  assumes safe: "rd_safe read" and stable: "rd_stable read" and nonempty: "enc a \<noteq> []"
    and loop_0: "loop 0 r = []"
    and loop_Suc:
      "loop (Suc n) r = (case read r of (Inr v, r') \<Rightarrow> v # loop n r' | (Inl e, r') \<Rightarrow> [])"
begin

lemma complete_prefix_0 [simp]: "complete_prefix enc 0 as = []"
  using nonempty by (cases as) auto

lemma loop_complete:
  assumes "\<forall>a \<in> set as. valid a" "rpos r \<le> length (rbuf r)"
    and "rest r = take k (concat (List.map enc as))"
  shows "loop (length as) r = List.map val (complete_prefix enc k as)"
  using assms
proof (induction as arbitrary: r k)
  case (Cons a as)
  let ?n = "length (enc a)"
  show ?case
  proof (cases "?n \<le> k")
    case True
    then have r: "rest r = enc a @ take (k - ?n) (concat (List.map enc as))"
      using Cons.prems(3) by simp
    have "loop (length as) (adv ?n r) = List.map val (complete_prefix enc (k - ?n) as)"
      using Cons.prems r by (intro Cons.IH) (simp_all del: adv_sel)
    then show ?thesis using True Cons.prems(1) read_enc [OF _ r] by (simp add: loop_Suc)
  next
    case False
    have f: "read q = (Inr (val a), adv ?n q)" if "rest q = enc a @ t" for q t
      using read_enc [OF _ that] Cons.prems(1) by simp
    from False Cons.prems(3) have "rest r = take k (enc a)" by simp
    then obtain x r' where "read r = (Inl x, r')"
      using rd_truncated [OF safe stable, of "enc a" "val a", OF f] False Cons.prems(2) by fastforce
    with False show ?thesis by (simp add: loop_Suc)
  qed
qed (simp add: loop_0)

lemma loop_elements:
  assumes "\<And>r v r'. read r = (Inr v, r') \<Longrightarrow> P v"
  shows "v \<in> set (loop n r) \<Longrightarrow> P v"
proof (induction n arbitrary: r)
  case (Suc n)
  obtain x r' where x: "read r = (x, r')" by fastforce
  with Suc assms show ?case by (cases x) (auto simp: loop_Suc)
qed (simp add: loop_0)

lemma loop_all:
  assumes "\<forall>a \<in> set as. valid a" "rpos r \<le> length (rbuf r)" "rest r = concat (List.map enc as)"
  shows "loop (length as) r = List.map val as"
  using loop_complete [OF assms(1,2), of "length (concat (List.map enc as))"] assms(3)
  by (simp add: complete_prefix_all)

end

end
