(* ===== verification/Framing.thy ===== *)
theory Framing
  imports Tlv
begin

text \<open>
  TTP framing and the outbound USB envelope (\<^verbatim>\<open>tobii-protocol/src/frame.rs\<close>): the magic numbers,
  the operation codes the driver sends, and \<open>build_out_frame\<close>, which every request goes through.
\<close>

definition TTP_HDR_SIZE :: nat where "TTP_HDR_SIZE = 24"
definition ENVELOPE_SIZE :: nat where "ENVELOPE_SIZE = 8"

definition TTP_MAGIC_REQ :: u32 where "TTP_MAGIC_REQ = 0x51"
definition TTP_MAGIC_RSP :: u32 where "TTP_MAGIC_RSP = 0x52"
definition TTP_MAGIC_NOTIFY :: u32 where "TTP_MAGIC_NOTIFY = 0x53"

definition OP_HELLO :: u32 where "OP_HELLO = 0x3e8"
definition OP_SUBSCRIBE :: u32 where "OP_SUBSCRIBE = 0x4c4"
definition OP_UNSUBSCRIBE :: u32 where "OP_UNSUBSCRIBE = 0x4ce"
definition OP_STREAM_CATALOG :: u32 where "OP_STREAM_CATALOG = 0x4b0"
definition OP_SET_DISPLAY_AREA :: u32 where "OP_SET_DISPLAY_AREA = 0x5a0"
definition OP_GET_DISPLAY_AREA :: u32 where "OP_GET_DISPLAY_AREA = 0x596"
definition OP_QUERY_REALM :: u32 where "OP_QUERY_REALM = 0x640"
definition OP_OPEN_REALM :: u32 where "OP_OPEN_REALM = 0x76c"
definition OP_REALM_RESPONSE :: u32 where "OP_REALM_RESPONSE = 0x776"
definition OP_CLOSE_REALM :: u32 where "OP_CLOSE_REALM = 0x77b"
definition OP_GET_ENABLED_EYE :: u32 where "OP_GET_ENABLED_EYE = 0xc62"
definition OP_SET_ENABLED_EYE :: u32 where "OP_SET_ENABLED_EYE = 0xc58"
definition OP_CAL_START :: u32 where "OP_CAL_START = 0x3f2"
definition OP_CAL_STOP :: u32 where "OP_CAL_STOP = 0x3fc"
definition OP_CAL_CLEAR :: u32 where "OP_CAL_CLEAR = 0x424"
definition OP_CAL_ADD_POINT :: u32 where "OP_CAL_ADD_POINT = 0x406"
definition OP_CAL_DISCARD_POINT :: u32 where "OP_CAL_DISCARD_POINT = 0x438"
definition OP_CAL_COMPUTE :: u32 where "OP_CAL_COMPUTE = 0x42e"
definition OP_CAL_RETRIEVE :: u32 where "OP_CAL_RETRIEVE = 0x44c"
definition OP_CAL_APPLY :: u32 where "OP_CAL_APPLY = 0x456"
definition STREAM_GAZE :: u16 where "STREAM_GAZE = 0x500"
definition OP_GAZE_NOTIFY :: u32 where "OP_GAZE_NOTIFY = 0x500"

lemmas op_defs = OP_HELLO_def OP_SUBSCRIBE_def OP_UNSUBSCRIBE_def OP_STREAM_CATALOG_def
  OP_SET_DISPLAY_AREA_def OP_GET_DISPLAY_AREA_def OP_QUERY_REALM_def OP_OPEN_REALM_def
  OP_REALM_RESPONSE_def OP_CLOSE_REALM_def OP_GET_ENABLED_EYE_def OP_SET_ENABLED_EYE_def
  OP_CAL_START_def OP_CAL_STOP_def OP_CAL_CLEAR_def OP_CAL_ADD_POINT_def OP_CAL_DISCARD_POINT_def
  OP_CAL_COMPUTE_def OP_CAL_RETRIEVE_def OP_CAL_APPLY_def STREAM_GAZE_def OP_GAZE_NOTIFY_def

lemmas size_defs = TTP_HDR_SIZE_def ENVELOPE_SIZE_def
lemmas magic_defs = TTP_MAGIC_REQ_def TTP_MAGIC_RSP_def TTP_MAGIC_NOTIFY_def

definition build_out_frame :: "u32 \<Rightarrow> u32 \<Rightarrow> bytes \<Rightarrow> bytes" where
  "build_out_frame sq opc payload =
     (let ttp = into_vec (push_bytes payload (push_be32 (of_nat (length payload)) (push_be32 0
                  (push_be32 opc (push_be32 0 (push_be32 sq (push_be32 TTP_MAGIC_REQ writer_new)))))))
      in into_vec (push_bytes ttp (push_le32 (of_nat (length ttp)) (push_be32 0 writer_new))))"

lemma build_out_frame_bytes:
  "build_out_frame sq opc payload =
     be32 0 @ le32 (of_nat (24 + length payload)) @ be32 TTP_MAGIC_REQ @ be32 sq @ be32 0 @
     be32 opc @ be32 0 @ be32 (of_nat (length payload)) @ payload"
  by (simp add: build_out_frame_def)

lemma length_build_out_frame [simp]:
  "length (build_out_frame sq opc payload) = 32 + length payload"
  by (simp add: build_out_frame_bytes)

text \<open>The fields of an outbound frame, read back at their offsets.\<close>

definition out_seq :: "bytes \<Rightarrow> u32" where "out_seq f = of_be32 (take 4 (drop 12 f))"
definition out_op :: "bytes \<Rightarrow> u32" where "out_op f = of_be32 (take 4 (drop 20 f))"
definition out_payload :: "bytes \<Rightarrow> bytes" where "out_payload f = drop 32 f"

lemma drop_add_append: "length a = n \<Longrightarrow> drop (n + m) (a @ b) = drop m b"
  by simp

lemma out_frame_fields [simp]:
  "out_seq (build_out_frame sq opc p) = sq" "out_op (build_out_frame sq opc p) = opc"
  "out_payload (build_out_frame sq opc p) = p"
  by (simp_all add: out_seq_def out_op_def out_payload_def build_out_frame_bytes)

lemma build_out_frame_inject:
  "build_out_frame s o1 p = build_out_frame s' o2 p' \<longleftrightarrow> s = s' \<and> o1 = o2 \<and> p = p'"
  by (metis out_frame_fields)

end
