(* ===== verification/Drain.thy ===== *)
theory Drain
  imports Prelude
begin

text \<open>
  The interface the two reassemblers of the protocol share: taking one frame off the front of a
  buffer (\<open>one\<close>), the loop that takes all of them (\<open>loop\<close>), and feeding the buffer in chunks. The
  locale \<open>drainer\<close> promises that a frame shortens the buffer and that bytes behind a decided frame or
  error do not change the decision; it follows that the chunk boundaries do not matter. It is
  interpreted on the inbound parser of the driver and on the outbound parser of the capture decoder.
\<close>

section \<open>Feeding in chunks\<close>

text \<open>The results of a whole session: the frames of every chunk, up to the first error.\<close>

fun feed_chunks :: "(bytes \<Rightarrow> bytes \<Rightarrow> ('e, 'f list) result \<times> bytes) \<Rightarrow> bytes \<Rightarrow> bytes list \<Rightarrow>
    ('e, 'f list) result \<times> bytes" where
  "feed_chunks feed acc [] = (Inr [], acc)"
| "feed_chunks feed acc (c # cs) =
     (case feed acc c of
        (Inl e, a) \<Rightarrow> (Inl e, a)
      | (Inr fs, a) \<Rightarrow>
          (case feed_chunks feed a cs of
             (Inl e, a') \<Rightarrow> (Inl e, a')
           | (Inr gs, a') \<Rightarrow> (Inr (fs @ gs), a')))"

text \<open>No chunk of the session is recognised by \<open>taken\<close> in the state it arrives in.\<close>

fun raw_chunks :: "(bytes \<Rightarrow> bytes \<Rightarrow> bool) \<Rightarrow> (bytes \<Rightarrow> bytes \<Rightarrow> ('e, 'f list) result \<times> bytes) \<Rightarrow> bytes \<Rightarrow>
    bytes list \<Rightarrow> bool" where
  "raw_chunks taken feed acc [] = True"
| "raw_chunks taken feed acc (c # cs) \<longleftrightarrow> \<not> taken acc c \<and> raw_chunks taken feed (snd (feed acc c)) cs"

section \<open>The interface\<close>

locale drainer =
  fixes one :: "bytes \<Rightarrow> ('e, 'f option) result \<times> bytes"
    and loop :: "bytes \<Rightarrow> ('e, 'f list) result \<times> bytes"
  assumes shrinks: "one acc = (Inr (Some f), acc') \<Longrightarrow> length acc' < length acc"
    and none_same: "one acc = (Inr None, acc') \<Longrightarrow> acc' = acc"
    and append_Some: "one acc = (Inr (Some f), acc') \<Longrightarrow> one (acc @ b) = (Inr (Some f), acc' @ b)"
    and append_Inl: "one acc = (Inl e, acc') \<Longrightarrow> \<exists>a. one (acc @ b) = (Inl e, a)"
    and loop_eq: "loop acc =
      (case one acc of
         (Inr (Some f), acc') \<Rightarrow>
           (case loop acc' of (Inr fs, a) \<Rightarrow> (Inr (f # fs), a) | (Inl e, a) \<Rightarrow> (Inl e, a))
       | (Inr None, acc') \<Rightarrow> (Inr [], acc')
       | (Inl e, _) \<Rightarrow> (Inl e, []))"
begin

lemma one_cases:
  obtains (error) e a where "one acc = (Inl e, a)" "loop acc = (Inl e, [])"
    | (stuck) "one acc = (Inr None, acc)" "loop acc = (Inr [], acc)"
    | (frame) f a where "one acc = (Inr (Some f), a)" "length a < length acc"
        "loop acc = (case loop a of (Inr fs, a') \<Rightarrow> (Inr (f # fs), a') | (Inl e, a') \<Rightarrow> (Inl e, a'))"
proof -
  obtain x a where d: "one acc = (x, a)" by fastforce
  show ?thesis
  proof (cases x)
    case (Inl e)
    with d error show ?thesis by (simp add: loop_eq [of acc])
  next
    case (Inr y)
    with d none_same [of acc a] shrinks [of acc _ a] stuck frame show ?thesis
      by (cases y) (simp_all add: loop_eq [of acc])
  qed
qed

lemma loop_stuck: "one a = (Inr None, a) \<Longrightarrow> loop a = (Inr [], a)"
  by (simp add: loop_eq [of a])

lemma loop_append:
  "loop acc = (Inr fs, a) \<Longrightarrow>
     loop (acc @ b) =
       (case loop (a @ b) of (Inr gs, a') \<Rightarrow> (Inr (fs @ gs), a') | (Inl e, a') \<Rightarrow> (Inl e, a'))"
proof (induction acc arbitrary: fs rule: length_induct)
  case (1 acc)
  show ?case
  proof (cases acc rule: one_cases)
    case (error e x)
    with "1.prems" show ?thesis by simp
  next
    case stuck
    with "1.prems" have "fs = []" "a = acc" by simp_all
    then show ?thesis by (simp split: prod.splits sum.splits)
  next
    case (frame f x)
    with "1.prems" obtain gs where gs: "loop x = (Inr gs, a)" "fs = f # gs"
      by (auto split: prod.splits sum.splits)
    with "1.IH" frame(2) have IH: "loop (x @ b) =
       (case loop (a @ b) of (Inr hs, a') \<Rightarrow> (Inr (gs @ hs), a') | (Inl e, a') \<Rightarrow> (Inl e, a'))" by blast
    have "loop (acc @ b) = (case loop (x @ b) of
        (Inr hs, a') \<Rightarrow> (Inr (f # hs), a') | (Inl e, a') \<Rightarrow> (Inl e, a'))"
      using append_Some [OF frame(1), of b] by (simp add: loop_eq [of "acc @ b"])
    then show ?thesis unfolding IH gs(2) by (simp split: prod.splits sum.splits)
  qed
qed

lemma loop_append_Inl: "loop acc = (Inl e, a) \<Longrightarrow> loop (acc @ b) = (Inl e, [])"
proof (induction acc rule: length_induct)
  case (1 acc)
  show ?case
  proof (cases acc rule: one_cases)
    case (error e' x)
    with "1.prems" append_Inl [of acc e x b] obtain y where "one (acc @ b) = (Inl e, y)" by auto
    then show ?thesis by (simp add: loop_eq [of "acc @ b"])
  next
    case stuck
    with "1.prems" show ?thesis by simp
  next
    case (frame f x)
    with "1.prems" have "loop x = (Inl e, a)" by (auto split: prod.splits sum.splits)
    with "1.IH" frame(2) have "loop (x @ b) = (Inl e, [])" by blast
    with append_Some [OF frame(1), of b] show ?thesis by (simp add: loop_eq [of "acc @ b"])
  qed
qed

lemma loop_Inl: "loop acc = (Inl e, a) \<Longrightarrow> a = []"
  using loop_append_Inl [of acc e a "[]"] by simp

text \<open>What is left after a successful drain holds no complete frame, and nothing is longer.\<close>

lemma loop_residue: "loop acc = (Inr fs, a) \<Longrightarrow> one a = (Inr None, a) \<and> length a \<le> length acc"
proof (induction acc arbitrary: fs rule: length_induct)
  case (1 acc)
  show ?case
  proof (cases acc rule: one_cases)
    case (frame f x)
    with "1.prems" obtain gs where "loop x = (Inr gs, a)" by (auto split: prod.splits sum.splits)
    with "1.IH" frame(2) have "one a = (Inr None, a) \<and> length a \<le> length x" by blast
    with frame(2) show ?thesis by simp
  qed (use "1.prems" in simp_all)
qed

lemma loop_frames:
  assumes "\<And>x t. x \<in> set xs \<Longrightarrow> one (enc x @ t) = (Inr (Some (val x)), t)" and "one t = (Inr None, t)"
  shows "loop (concat (map enc xs) @ t) = (Inr (map val xs), t)"
  using assms(1)
proof (induction xs)
  case Nil
  then show ?case using assms(2) by (simp add: loop_stuck)
next
  case (Cons x xs)
  have "loop (concat (map enc xs) @ t) = (Inr (map val xs), t)" using Cons by simp
  moreover have "one (enc x @ concat (map enc xs) @ t) = (Inr (Some (val x)), concat (map enc xs) @ t)"
    using Cons.prems by simp
  ultimately show ?case by (simp add: loop_eq [of "enc x @ concat (map enc xs) @ t"])
qed

text \<open>
  A session whose chunks reach the buffer unchanged ends as one drain of all its bytes.
\<close>

lemma feed_chunks_raw:
  assumes feed: "\<And>acc src. \<not> taken acc src \<Longrightarrow> length acc + length src \<le> cap \<Longrightarrow> feed acc src = loop (acc @ src)"
    and "raw_chunks taken feed acc cs" and "length acc + length (concat cs) \<le> cap"
    and "one acc = (Inr None, acc)"
  shows "feed_chunks feed acc cs = loop (acc @ concat cs)"
  using assms(2-)
proof (induction cs arbitrary: acc)
  case Nil
  then show ?case by (simp add: loop_stuck)
next
  case (Cons c cs)
  then have f: "feed acc c = loop (acc @ c)" by (simp add: feed)
  obtain x a where x: "loop (acc @ c) = (x, a)" by fastforce
  show ?case
  proof (cases x)
    case (Inl e)
    with x f loop_append_Inl [of "acc @ c" e a "concat cs"] loop_Inl [of "acc @ c" e a]
    show ?thesis by simp
  next
    case (Inr fs)
    with x have x': "loop (acc @ c) = (Inr fs, a)" by simp
    note r = loop_residue [OF x']
    have "raw_chunks taken feed a cs" using Cons.prems(1) f x by simp
    moreover have "length a + length (concat cs) \<le> cap" using Cons.prems(2) r by simp
    ultimately have "feed_chunks feed a cs = loop (a @ concat cs)" using Cons.IH r by blast
    with f x' loop_append [OF x', of "concat cs"] show ?thesis
      by (simp split: prod.splits sum.splits)
  qed
qed

end

end
