(* ===== verification/Parser.thy ===== *)
theory Parser
  imports Framing Drain
begin

text \<open>
  The inbound reassembler (\<^verbatim>\<open>tobii-protocol/src/parser.rs\<close>). The state is the accumulator
  \<^verbatim>\<open>Parser.acc\<close>; \<open>feed\<close> appends a USB chunk, with its continuation envelope stripped
  where one is recognised, and drains the complete frames. \<open>be32_at\<close> and \<open>le32_at\<close> are the
  four-byte reads \<^verbatim>\<open>be32(&b[i..])\<close> and \<^verbatim>\<open>le32(&b[i..])\<close>; every call is behind a length
  guard, so they never run short.
\<close>

section \<open>The reassembler\<close>

definition ACC_CAP :: nat where "ACC_CAP = 2 ^ 21"

record frame =
  magic :: u32
  sqn :: u32
  opc :: u32
  payload :: bytes

definition be32_at :: "bytes \<Rightarrow> nat \<Rightarrow> u32" where
  "be32_at b i = of_be32 (take 4 (drop i b))"

definition le32_at :: "bytes \<Rightarrow> nat \<Rightarrow> u32" where
  "le32_at b i = of_le32 (take 4 (drop i b))"

definition looks_like_continuation :: "bytes \<Rightarrow> nat \<Rightarrow> bool" where
  "looks_like_continuation src needed =
     (if length src < ENVELOPE_SIZE \<or> src ! 0 \<noteq> 1 \<or> src ! 1 \<noteq> 0 \<or> src ! 2 \<noteq> 0 \<or> src ! 3 \<noteq> 0
      then False
      else let env_len = unat (le32_at src 4) in
        env_len > ENVELOPE_SIZE \<and> env_len - ENVELOPE_SIZE \<le> needed)"

definition drain_one :: "bytes \<Rightarrow> (protocol_error, frame option) result \<times> bytes" where
  "drain_one acc =
     (if length acc < ENVELOPE_SIZE then (Inr None, acc)
      else if acc ! 0 \<noteq> 1 then (Inl (BadDirection (acc ! 0)), acc)
      else let env_len = le32_at acc 4 in
      if unat env_len < ENVELOPE_SIZE + TTP_HDR_SIZE then (Inl (BadLength env_len), acc)
      else if length acc < ENVELOPE_SIZE + TTP_HDR_SIZE then (Inr None, acc)
      else let hdr = sub_slice ENVELOPE_SIZE (ENVELOPE_SIZE + TTP_HDR_SIZE) acc;
               plen = unat (be32_at hdr 20);
               frame_size = ENVELOPE_SIZE + TTP_HDR_SIZE + plen in
      if frame_size > ACC_CAP then (Inl (BadLength (of_nat plen)), acc)
      else if length acc < frame_size then (Inr None, acc)
      else (Inr (Some \<lparr>magic = be32_at hdr 0, sqn = be32_at hdr 4, opc = be32_at hdr 12,
                       payload = sub_slice (ENVELOPE_SIZE + TTP_HDR_SIZE) frame_size acc\<rparr>),
            drop frame_size acc))"

lemma drain_one_shrinks:
  "drain_one acc = (Inr (Some f), acc') \<Longrightarrow> length acc' < length acc"
  by (auto simp: drain_one_def Let_def size_defs split: if_splits)

text \<open>The loop of \<^verbatim>\<open>feed\<close>: frames until none is complete, or an error that clears the buffer.\<close>

function drain_loop :: "bytes \<Rightarrow> (protocol_error, frame list) result \<times> bytes" where
  "drain_loop acc =
     (case drain_one acc of
        (Inr (Some f), acc') \<Rightarrow>
          (case drain_loop acc' of
             (Inr fs, a) \<Rightarrow> (Inr (f # fs), a)
           | (Inl e, a) \<Rightarrow> (Inl e, a))
      | (Inr None, acc') \<Rightarrow> (Inr [], acc')
      | (Inl e, _) \<Rightarrow> (Inl e, []))"
  by pat_completeness auto
termination
  by (relation "measure length") (auto dest!: drain_one_shrinks [OF sym])

declare drain_loop.simps [simp del]

text \<open>The bytes the frame at the head of the buffer still needs, where its header is complete.\<close>

definition frame_need :: "bytes \<Rightarrow> nat option" where
  "frame_need acc =
     (if ENVELOPE_SIZE + TTP_HDR_SIZE \<le> length acc then
        let frame_size = ENVELOPE_SIZE + TTP_HDR_SIZE + unat (be32_at acc (ENVELOPE_SIZE + 20)) in
        (if length acc < frame_size then Some (frame_size - length acc) else None)
      else None)"

definition strip_envelope :: "bytes \<Rightarrow> bytes \<Rightarrow> bytes" where
  "strip_envelope acc src =
     (case frame_need acc of
        None \<Rightarrow> src
      | Some needed \<Rightarrow>
          if looks_like_continuation src needed then drop ENVELOPE_SIZE src else src)"

definition feed :: "bytes \<Rightarrow> bytes \<Rightarrow> (protocol_error, frame list) result \<times> bytes" where
  "feed acc src =
     (let data = strip_envelope acc src in
      if length acc + length data > ACC_CAP then (Inl Overflow, [])
      else drain_loop (acc @ data))"

text \<open>The chunks of a whole session, with the frames of each collected.\<close>

fun feed_all :: "bytes \<Rightarrow> bytes list \<Rightarrow> (protocol_error, frame list) result \<times> bytes" where
  "feed_all acc [] = (Inr [], acc)"
| "feed_all acc (c # cs) =
     (case feed acc c of
        (Inl e, a) \<Rightarrow> (Inl e, a)
      | (Inr fs, a) \<Rightarrow>
          (case feed_all a cs of
             (Inl e, a') \<Rightarrow> (Inl e, a')
           | (Inr gs, a') \<Rightarrow> (Inr (fs @ gs), a')))"

section \<open>Draining\<close>

lemma at_append:
  "i + 4 \<le> length a \<Longrightarrow> le32_at (a @ b) i = le32_at a i"
  "i + 4 \<le> length a \<Longrightarrow> be32_at (a @ b) i = be32_at a i"
  by (simp_all add: le32_at_def be32_at_def)

lemma sub_slice_append: "j \<le> length a \<Longrightarrow> sub_slice i j (a @ b) = sub_slice i j a"
  by (simp add: sub_slice_def)

lemma nth0_append: "8 \<le> length a \<Longrightarrow> (a @ b) ! 0 = a ! 0"
  by (cases a) auto

lemma drop_append_le: "n \<le> length a \<Longrightarrow> drop n (a @ b) = drop n a @ b"
  by simp

text \<open>The first eight bytes decide the early returns, the next 24 the frame.\<close>

lemma drain_one_cases:
  assumes "ENVELOPE_SIZE \<le> length acc"
  shows "drain_one acc =
    (if acc ! 0 \<noteq> 1 then (Inl (BadDirection (acc ! 0)), acc)
     else if unat (le32_at acc 4) < 32 then (Inl (BadLength (le32_at acc 4)), acc)
     else if length acc < 32 then (Inr None, acc)
     else if 32 + unat (be32_at (sub_slice 8 32 acc) 20) > ACC_CAP
       then (Inl (BadLength (be32_at (sub_slice 8 32 acc) 20)), acc)
     else if length acc < 32 + unat (be32_at (sub_slice 8 32 acc) 20) then (Inr None, acc)
     else (Inr (Some \<lparr>magic = be32_at (sub_slice 8 32 acc) 0, sqn = be32_at (sub_slice 8 32 acc) 4,
             opc = be32_at (sub_slice 8 32 acc) 12,
             payload = sub_slice 32 (32 + unat (be32_at (sub_slice 8 32 acc) 20)) acc\<rparr>),
           drop (32 + unat (be32_at (sub_slice 8 32 acc) 20)) acc))"
  using assms by (simp add: drain_one_def Let_def size_defs)

lemma drain_one_short: "length acc < ENVELOPE_SIZE \<Longrightarrow> drain_one acc = (Inr None, acc)"
  by (simp add: drain_one_def)

lemma drain_one_append_Some:
  assumes "drain_one acc = (Inr (Some f), acc')"
  shows "drain_one (acc @ b) = (Inr (Some f), acc' @ b)"
proof -
  have l: "ENVELOPE_SIZE \<le> length acc" using assms drain_one_short [of acc]
    by (cases "length acc < ENVELOPE_SIZE") auto
  note d = assms [unfolded drain_one_cases [OF l]]
  have l32: "32 \<le> length acc" using d by (simp split: if_splits)
  have h: "sub_slice 8 32 (acc @ b) = sub_slice 8 32 acc" "(acc @ b) ! 0 = acc ! 0"
    "le32_at (acc @ b) 4 = le32_at acc 4"
    using l32 by (simp_all add: sub_slice_append at_append nth0_append)
  define n where "n = unat (be32_at (sub_slice 8 32 acc) 20)"
  have n: "32 + n \<le> length acc" using d by (simp add: n_def split: if_splits)
  have l': "ENVELOPE_SIZE \<le> length (acc @ b)" using l by simp
  show ?thesis
    using d n unfolding drain_one_cases [OF l'] h n_def [symmetric]
    by (simp add: sub_slice_append drop_append_le split: if_splits)
qed

lemma drain_one_append_Inl:
  assumes "drain_one acc = (Inl e, acc')"
  shows "\<exists>a. drain_one (acc @ b) = (Inl e, a)"
proof -
  have l: "ENVELOPE_SIZE \<le> length acc" using assms drain_one_short [of acc]
    by (cases "length acc < ENVELOPE_SIZE") auto
  then have l': "ENVELOPE_SIZE \<le> length (acc @ b)" by simp
  note d = assms [unfolded drain_one_cases [OF l]]
  have h: "(acc @ b) ! 0 = acc ! 0" "le32_at (acc @ b) 4 = le32_at acc 4"
    using l by (simp_all add: at_append nth0_append size_defs)
  show ?thesis
  proof (cases "length acc < 32")
    case True
    with d show ?thesis unfolding drain_one_cases [OF l'] h by (auto split: if_splits)
  next
    case False
    then have "sub_slice 8 32 (acc @ b) = sub_slice 8 32 acc" by (simp add: sub_slice_append)
    with d False show ?thesis unfolding drain_one_cases [OF l'] h by (auto split: if_splits)
  qed
qed

lemma drain_one_None: "drain_one acc = (Inr None, acc') \<Longrightarrow> acc' = acc"
  by (auto simp: drain_one_def Let_def split: if_splits)

interpretation inbound: drainer drain_one drain_loop
  by unfold_locales
    (fact drain_one_shrinks drain_one_None drain_one_append_Some drain_one_append_Inl drain_loop.simps)+

section \<open>Feeding\<close>

text \<open>Whether a chunk would be taken for a continuation in the given state.\<close>

definition taken_as_continuation :: "bytes \<Rightarrow> bytes \<Rightarrow> bool" where
  "taken_as_continuation acc src \<longleftrightarrow>
     (\<exists>n. frame_need acc = Some n \<and> looks_like_continuation src n)"

lemma strip_envelope_raw: "\<not> taken_as_continuation acc src \<Longrightarrow> strip_envelope acc src = src"
  by (auto simp: strip_envelope_def taken_as_continuation_def split: option.splits)

lemma feed_raw:
  "\<not> taken_as_continuation acc src \<Longrightarrow> length acc + length src \<le> ACC_CAP \<Longrightarrow>
     feed acc src = drain_loop (acc @ src)"
  by (simp add: feed_def strip_envelope_raw)

lemma frame_need_small [simp]: "frame_need [] = None"
  by (simp add: frame_need_def size_defs)

text \<open>
  A session whose chunks are all raw: no chunk is taken for a continuation in the state it
  arrives in.
\<close>

fun all_raw :: "bytes \<Rightarrow> bytes list \<Rightarrow> bool" where
  "all_raw acc [] = True"
| "all_raw acc (c # cs) \<longleftrightarrow>
     \<not> taken_as_continuation acc c \<and> all_raw (snd (feed acc c)) cs"

lemma feed_all_chunks: "feed_all acc cs = feed_chunks feed acc cs"
  by (induction cs arbitrary: acc) (simp_all split: prod.splits sum.splits)

lemma all_raw_chunks: "all_raw acc cs = raw_chunks taken_as_continuation feed acc cs"
  by (induction cs arbitrary: acc) simp_all

lemma feed_all_raw:
  assumes "all_raw acc cs" and "length acc + length (concat cs) \<le> ACC_CAP"
    and "drain_one acc = (Inr None, acc)"
  shows "feed_all acc cs = drain_loop (acc @ concat cs)"
  using inbound.feed_chunks_raw [where taken = taken_as_continuation and feed = feed and cap = ACC_CAP, OF feed_raw]
    assms by (simp add: feed_all_chunks all_raw_chunks)

section \<open>What the device sends\<close>

text \<open>
  A device frame on the wire: the inbound envelope, whose length field covers at least the
  envelope and the header, the TTP header with its two unused words, and the payload.
\<close>

definition frame_bytes :: "u32 \<Rightarrow> u32 \<Rightarrow> u32 \<Rightarrow> frame \<Rightarrow> bytes" where
  "frame_bytes env flag w f =
     [1, 0, 0, 0] @ le32 env @ be32 (magic f) @ be32 (sqn f) @ be32 flag @ be32 (opc f) @
     be32 w @ be32 (of_nat (length (payload f))) @ payload f"

definition fits :: "u32 \<Rightarrow> frame \<Rightarrow> bool" where
  "fits env f \<longleftrightarrow> 32 \<le> unat env \<and> 32 + length (payload f) \<le> ACC_CAP"

lemma length_frame_bytes [simp]: "length (frame_bytes env flag w f) = 32 + length (payload f)"
  by (simp add: frame_bytes_def)

lemma drop_len_append: "n = length a + m \<Longrightarrow> drop n (a @ b) = drop m b"
  by simp

lemma drain_one_frame:
  assumes "fits env f"
  shows "drain_one (frame_bytes env flag w f @ t) = (Inr (Some f), t)"
proof -
  let ?b = "frame_bytes env flag w f @ t"
  let ?h = "be32 (magic f) @ be32 (sqn f) @ be32 flag @ be32 (opc f) @ be32 w @
     be32 (of_nat (length (payload f)))"
  have cap: "unat (of_nat (length (payload f)) :: u32) = length (payload f)"
    using assms unfolding unat_of_nat_u32 by (simp add: fits_def ACC_CAP_def)
  have b: "?b = ([1, 0, 0, 0] @ le32 env) @ ?h @ payload f @ t" by (simp add: frame_bytes_def)
  have hdr: "sub_slice 8 32 ?b = ?h"
    unfolding b sub_slice_def by simp
  have e: "le32_at ?b 4 = env" "?b ! 0 = 1" "ENVELOPE_SIZE \<le> length ?b"
    by (simp_all add: le32_at_def frame_bytes_def size_defs)
  have at: "be32_at ?h 0 = magic f" "be32_at ?h 4 = sqn f" "be32_at ?h 12 = opc f"
    "be32_at ?h 20 = of_nat (length (payload f))"
    by (simp_all add: be32_at_def)
  have pay: "sub_slice 32 (32 + length (payload f)) ?b = payload f"
    "drop (32 + length (payload f)) ?b = t"
  proof -
    obtain P where P: "?b = P @ payload f @ t" "length P = 32"
      using that [of "([1, 0, 0, 0] @ le32 env) @ ?h"] b by simp
    show "sub_slice 32 (32 + length (payload f)) ?b = payload f"
      "drop (32 + length (payload f)) ?b = t"
      unfolding P(1) sub_slice_def using P(2) by simp_all
  qed
  show ?thesis
    unfolding drain_one_cases [OF e(3)] hdr at e cap pay
    using assms by (simp add: fits_def)
qed

lemma drain_loop_frames:
  assumes "list_all (\<lambda>(e, g, w, f). fits e f) fs" and "drain_one t = (Inr None, t)"
  shows "drain_loop (concat (map (\<lambda>(e, g, w, f). frame_bytes e g w f) fs) @ t) =
     (Inr (map (\<lambda>(e, g, w, f). f) fs), t)"
  using assms by (intro inbound.loop_frames) (auto simp: list_all_iff drain_one_frame)

section \<open>Properties\<close>

lemma enum4_prefix:
  "enum4_bytes v @ t = [1, 0, 0, 0, 4] @ be32 v @ t"
  by (simp add: enum4_bytes_def enc_unfold)

lemma drain_none_empty: "drain_one [] = (Inr None, [])"
  by (simp add: drain_one_def size_defs)

lemma concat_take_drop: "concat (map f xs) = concat (map f (take n xs)) @ concat (map f (drop n xs))"
  by (metis append_take_drop_id concat_append map_append)

lemma feed_bound:
  assumes "length acc \<le> ACC_CAP"
  shows "length (snd (feed acc src)) \<le> ACC_CAP"
proof -
  obtain x a where f: "drain_loop (acc @ strip_envelope acc src) = (x, a)" by fastforce
  show ?thesis
  proof (cases x)
    case (Inl e)
    with inbound.loop_Inl [of "acc @ strip_envelope acc src" e a] f show ?thesis
      by (auto simp: feed_def Let_def)
  next
    case (Inr fs)
    with inbound.loop_residue [of _ fs a] f show ?thesis by (fastforce simp: feed_def Let_def)
  qed
qed



text \<open>
  A recognised continuation envelope vanishes. While a frame is incomplete and needs \<open>needed\<close>
  more bytes, a chunk that opens with an envelope announcing a run of between 1 and \<open>needed\<close> bytes
  is treated exactly as the same chunk without those eight bytes.
\<close>

theorem continuation_envelope_stripped:
  assumes "frame_need acc = Some needed"
    and "0 < n" and "n \<le> needed" and "n + 8 < 2 ^ 32"
    and "\<not> looks_like_continuation d needed"
  shows "feed acc ([1, 0, 0, 0] @ le32 (of_nat (n + 8)) @ d) = feed acc d"
proof -
  have "unat (of_nat (n + 8) :: u32) = n + 8"
    using assms(4) by (simp only: unat_of_nat_u32) simp
  then have "looks_like_continuation ([1, 0, 0, 0] @ le32 (of_nat (n + 8)) @ d) needed"
    using assms(2,3) by (simp add: looks_like_continuation_def size_defs le32_at_def)
  moreover have "drop ENVELOPE_SIZE ([1, 0, 0, 0] @ le32 (of_nat (n + 8)) @ d) = d"
    by (simp add: size_defs)
  ultimately show ?thesis
    using assms(1,5) by (simp add: feed_def strip_envelope_def)
qed

text \<open>
  C40. The buffer is bounded and never holds a finished frame: whatever the device sends, after any
  number of chunks the accumulator is within its cap, and after a successful feed its head is not
  a complete frame.
\<close>

theorem parser_buffer_bounded:
  "length acc \<le> ACC_CAP \<Longrightarrow> length (snd (feed_all acc cs)) \<le> ACC_CAP"
proof (induction cs arbitrary: acc)
  case Nil
  then show ?case by simp
next
  case (Cons c cs)
  from feed_bound [OF Cons.prems, of c] Cons.IH [of "snd (feed acc c)"] show ?case
    by (auto split: prod.splits sum.splits)
qed

theorem parser_buffer_bounded_witness:
  "length (snd (feed_all [] [[1, 0, 0], [0, 9]])) \<le> ACC_CAP"
  using parser_buffer_bounded [of "[]" "[[1, 0, 0], [0, 9]]"] by simp

text \<open>
  A framing error resets the parser: \<open>feed\<close> leaves an empty buffer behind, and otherwise
  leaves a buffer from which no further frame can be drained.
\<close>

theorem feed_error_or_drained:
  "case feed acc src of
     (Inl e, a) \<Rightarrow> a = []
   | (Inr fs, a) \<Rightarrow> drain_one a = (Inr None, a)"
proof -
  obtain x a where f: "drain_loop (acc @ strip_envelope acc src) = (x, a)" by fastforce
  show ?thesis
    using inbound.loop_Inl [of "acc @ strip_envelope acc src" _ a]
      inbound.loop_residue [of "acc @ strip_envelope acc src" _ a] f
    by (cases x) (auto simp: feed_def Let_def)
qed

text \<open>
  The false positive the length test is there for: a chunk that opens with a type-1 TLV field
  whose value is a small enum (below 256) is never taken for a continuation, whatever follows it
  and however much the frame still needs.
\<close>

theorem small_enum_field_not_stripped:
  assumes "unat v < 256"
  shows "\<not> looks_like_continuation (enum4_bytes v @ t) needed"
proof -
  have "be32 v = [0, 0, 0, of_nat (unat v)]"
    using assms by (simp add: enc_unfold)
  then have "le32_at (enum4_bytes v @ t) 4 = of_le32 [4, 0, 0, 0]"
    unfolding enum4_prefix by (simp add: le32_at_def)
  also have "\<dots> = 4" by (simp add: of_le32_def)
  finally show ?thesis by (simp add: looks_like_continuation_def size_defs)
qed

theorem small_enum_field_not_stripped_witness:
  "\<not> looks_like_continuation (enum4_bytes 2 @ [9, 9]) 1000"
  using small_enum_field_not_stripped [of 2 "[9, 9]" 1000] by simp

text \<open>
  The length test is not enough for every type-1 field: with the value \<open>0x01000000\<close> the bytes
  read as a length are 4 and three value bytes, 260 in all, and while at least 252 payload bytes
  are missing the first eight bytes of the field are dropped.
\<close>

theorem large_enum_field_stripped:
  assumes "frame_need acc = Some needed" and "252 \<le> needed"
  shows "strip_envelope acc (enum4_bytes 0x01000000 @ t) = 0 # t"
proof -
  have "be32 0x01000000 = [1, 0, 0, 0]"
    by (simp add: enc_unfold)
  moreover have "of_le32 [4, 1, 0, 0] = 260" by (simp add: of_le32_def)
  ultimately show ?thesis
    unfolding enum4_prefix using assms
    by (simp add: strip_envelope_def looks_like_continuation_def size_defs le32_at_def)
qed

lemma frame_need_header:
  "frame_need ([1, 0, 0, 0] @ le32 32 @ be32 0x52 @ be32 1 @ be32 0 @ be32 2 @ be32 0 @ be32 1000) =
     Some 1000"
  by (simp add: frame_need_def size_defs be32_at_def)

theorem large_enum_field_stripped_witness:
  "strip_envelope ([1, 0, 0, 0] @ le32 32 @ be32 0x52 @ be32 1 @ be32 0 @ be32 2 @ be32 0 @ be32 1000)
     (enum4_bytes 0x01000000 @ [5, 5]) = [0, 5, 5]"
  using large_enum_field_stripped [OF frame_need_header, of "[5, 5]"] by simp

theorem continuation_envelope_stripped_witness:
  "feed ([1, 0, 0, 0] @ le32 32 @ be32 0x52 @ be32 1 @ be32 0 @ be32 2 @ be32 0 @ be32 1000)
     ([1, 0, 0, 0] @ le32 (of_nat (600 + 8)) @ [9, 9]) =
   feed ([1, 0, 0, 0] @ le32 32 @ be32 0x52 @ be32 1 @ be32 0 @ be32 2 @ be32 0 @ be32 1000) [9, 9]"
  by (rule continuation_envelope_stripped [OF frame_need_header])
    (simp_all add: looks_like_continuation_def size_defs)

end
