(* ===== verification/Commands.thy ===== *)
theory Commands
  imports Framing
begin

unbundle bit_operations_syntax

text \<open>
  The requests the driver sends and the replies it parses (\<^verbatim>\<open>commands.rs\<close>,
  \<^verbatim>\<open>display.rs\<close>, \<^verbatim>\<open>calibration.rs\<close>, \<^verbatim>\<open>realm.rs\<close>): payload builders, the
  enabled-eye setting, the stream catalog and the display corners.
\<close>

section \<open>The enabled eye\<close>

datatype enabled_eye = Both | Left | Right

fun to_wire :: "enabled_eye \<Rightarrow> u32" where
  "to_wire Left = 1"
| "to_wire Right = 2"
| "to_wire Both = 3"

definition from_wire :: "u32 \<Rightarrow> enabled_eye option" where
  "from_wire v =
     (if v = 1 then Some Left else if v = 2 then Some Right else if v = 3 then Some Both else None)"

definition set_enabled_eye_payload :: "enabled_eye \<Rightarrow> bytes" where
  "set_enabled_eye_payload eye = [0, 0, 2, 0, 0, 0, 4] @ be32 (to_wire eye)"

definition parse_enabled_eye :: "bytes \<Rightarrow> enabled_eye option" where
  "parse_enabled_eye payload =
     (case read_u32 (rd_skip 2 (reader_new payload)) of
        (Inr v, _) \<Rightarrow> from_wire v
      | (Inl _, _) \<Rightarrow> None)"

section \<open>The stream catalog\<close>

record stream_entry =
  entry_id :: u16
  entry_name :: str

text \<open>One record of the catalog: the closure in the loop of \<^verbatim>\<open>parse_stream_catalog\<close>.\<close>

definition read_entry :: "stream_entry rd" where
  "read_entry =
     rd_bind read_prolog_tag (\<lambda>_. rd_bind read_u32 (\<lambda>id. rd_bind read_string (\<lambda>name.
     rd_bind read_string (\<lambda>_. rd_bind read_u32 (\<lambda>_.
       rd_return \<lparr>entry_id = ucast id, entry_name = name\<rparr>)))))"

fun read_entries :: "nat \<Rightarrow> reader \<Rightarrow> stream_entry list" where
  "read_entries 0 r = []"
| "read_entries (Suc n) r =
     (case read_entry r of (Inr e, r') \<Rightarrow> e # read_entries n r' | (Inl _, _) \<Rightarrow> [])"

definition parse_stream_catalog :: "bytes \<Rightarrow> stream_entry list" where
  "parse_stream_catalog payload =
     (case read_prolog_tag (rd_skip 2 (reader_new payload)) of
        (Inl _, _) \<Rightarrow> []
      | (Inr tag, r) \<Rightarrow>
          (case read_u32 r of
             (Inl _, _) \<Rightarrow> []
           | (Inr _, r') \<Rightarrow> read_entries (unat (fst (split_tag tag)) - 1) r'))"

section \<open>Hello, subscribe, display area\<close>

definition HELLO_PAYLOAD :: bytes where
  "HELLO_PAYLOAD =
     [0x00, 0x00, 0x17, 0x00, 0x00, 0x00, 0x28, 0x00, 0x00, 0x00, 0x09, 0x00, 0x01, 0x00, 0x00, 0x00,
      0x01, 0x00, 0x01, 0x00, 0x01, 0x00, 0x02, 0x00, 0x01, 0x00, 0x03, 0x00, 0x01, 0x00, 0x04, 0x00,
      0x01, 0x00, 0x05, 0x00, 0x01, 0x00, 0x06, 0x00, 0x01, 0x00, 0x07, 0x00, 0x01, 0x00, 0x08]"

definition build_hello :: "u32 \<Rightarrow> bytes" where
  "build_hello sq = build_out_frame sq OP_HELLO HELLO_PAYLOAD"

definition subscribe_payload :: "u16 \<Rightarrow> bytes" where
  "subscribe_payload stream_id =
     (let pay = [0x00, 0x00, 0x02, 0x00, 0x00, 0x00, 0x04, 0x00, 0x00, 0x00, 0x00, 0x17, 0x00, 0x00,
                 0x00, 0x04, 0x00, 0x00, 0x00, 0x00]
      in (pay[9 := ucast (drop_bit 8 stream_id)])[10 := ucast stream_id])"

definition build_subscribe :: "u32 \<Rightarrow> u16 \<Rightarrow> bytes" where
  "build_subscribe sq stream_id = build_out_frame sq OP_SUBSCRIBE (subscribe_payload stream_id)"

definition build_get_display_area :: "u32 \<Rightarrow> bytes" where
  "build_get_display_area sq = build_out_frame sq OP_GET_DISPLAY_AREA []"

text \<open>A display area: the three corners sent on the wire, top left, top right, bottom left.\<close>

record display_corners =
  tl_corner :: point3
  tr_corner :: point3
  bl_corner :: point3

definition write_point3 :: "point3 \<Rightarrow> writer \<Rightarrow> writer" where
  "write_point3 p w = (case p of (x, y, z) \<Rightarrow> write_point x y z w)"

definition set_display_area_corners_payload :: "display_corners \<Rightarrow> bytes" where
  "set_display_area_corners_payload c =
     into_vec (write_u32 0x3039 (write_tag 0x10100
       (write_point3 (bl_corner c) (write_point3 (tr_corner c) (write_point3 (tl_corner c)
         (push_u8 0 (push_u8 0 writer_new)))))))"

definition build_set_display_area_corners :: "u32 \<Rightarrow> display_corners \<Rightarrow> bytes" where
  "build_set_display_area_corners sq c =
     build_out_frame sq OP_SET_DISPLAY_AREA (set_display_area_corners_payload c)"

definition build_set_display_area :: "u32 \<Rightarrow> f64 \<Rightarrow> f64 \<Rightarrow> f64 \<Rightarrow> f64 \<Rightarrow> f64 \<Rightarrow> bytes" where
  "build_set_display_area sq w_mm h_mm ox_mm oy_mm z_mm =
     (let x0 = ox_mm; x1 = f64_add ox_mm w_mm; y0 = oy_mm; y1 = f64_add oy_mm h_mm
      in build_set_display_area_corners sq
           \<lparr>tl_corner = (x0, y1, z_mm), tr_corner = (x1, y1, z_mm), bl_corner = (x0, y0, z_mm)\<rparr>)"

definition decode_corners :: "bytes \<Rightarrow> display_corners option" where
  "decode_corners payload =
     (if length payload < 2 then None
      else (case rd_bind read_point3d (\<lambda>tl. rd_bind read_point3d (\<lambda>tr. rd_bind read_point3d (\<lambda>bl.
              rd_return \<lparr>tl_corner = tl, tr_corner = tr, bl_corner = bl\<rparr>)))
              (rd_skip 2 (reader_new payload)) of
            (Inr c, _) \<Rightarrow> Some c
          | (Inl _, _) \<Rightarrow> None))"

section \<open>Calibration payloads\<close>

definition CAL_EYE_LEFT :: u32 where "CAL_EYE_LEFT = 1"
definition CAL_EYE_RIGHT :: u32 where "CAL_EYE_RIGHT = 2"
definition CAL_EYE_BOTH :: u32 where "CAL_EYE_BOTH = 3"

definition cal_add_point_payload :: "f64 \<Rightarrow> f64 \<Rightarrow> u32 \<Rightarrow> bytes" where
  "cal_add_point_payload x y eye =
     into_vec (write_u32 eye (write_f64_q42 y (write_f64_q42 x
       (push_u8 0 (push_u8 0 writer_new)))))"

definition cal_discard_point_payload :: "f64 \<Rightarrow> f64 \<Rightarrow> bytes" where
  "cal_discard_point_payload x y =
     into_vec (write_f64_q42 y (write_f64_q42 x (push_u8 0 (push_u8 0 writer_new))))"

definition cal_session_payload :: bytes where "cal_session_payload = [0, 0]"
definition cal_compute_payload :: bytes where "cal_compute_payload = [0, 0]"
definition cal_retrieve_payload :: bytes where "cal_retrieve_payload = [0, 0]"

definition cal_apply_payload :: "bytes \<Rightarrow> bytes" where
  "cal_apply_payload blob = into_vec (push_bytes blob (push_u8 0 (push_u8 0 writer_new)))"

section \<open>Realm requests\<close>

definition REALM_KEY :: bytes where
  "REALM_KEY = [0x49, 0x53, 0x32, 0x4c, 0x4a, 0x43, 0x36, 0x47, 0x49, 0x52, 0x42, 0x42, 0x45, 0x4b,
                0x32, 0x4b, 0x00]"

definition build_query_realm :: "u32 \<Rightarrow> bytes" where
  "build_query_realm sq = build_out_frame sq OP_QUERY_REALM [0, 0]"

definition build_open_realm :: "u32 \<Rightarrow> u32 \<Rightarrow> bytes" where
  "build_open_realm sq realm_type =
     build_out_frame sq OP_OPEN_REALM
       (into_vec (push_u8 0 (write_u32 realm_type (push_u8 0 (push_u8 0 writer_new)))))"

definition build_realm_response :: "u32 \<Rightarrow> u32 \<Rightarrow> u32 \<Rightarrow> bytes \<Rightarrow> bytes" where
  "build_realm_response sq realm_id field_210 digest =
     build_out_frame sq OP_REALM_RESPONSE
       (into_vec (push_bytes digest (write_u32 field_210 (write_u32 realm_id
         (push_u8 0 (push_u8 0 writer_new))))))"

definition build_close_realm :: "u32 \<Rightarrow> u32 \<Rightarrow> bytes" where
  "build_close_realm sq realm_id =
     build_out_frame sq OP_CLOSE_REALM
       (into_vec (write_u32 realm_id (push_u8 0 (push_u8 0 writer_new))))"

section \<open>Facts\<close>

lemma rest_skip [simp]: "rest (rd_skip n r) = drop n (rest r)"
  by (simp add: rest_def rd_skip_def min_def add.commute)

lemma skip_within: "rpos (rd_skip n r) \<le> length (rbuf (rd_skip n r))"
  by (simp add: rd_skip_def)

lemma from_wire_iff: "from_wire v = Some e \<longleftrightarrow> v = to_wire e"
  by (cases e) (auto simp: from_wire_def)

lemma drop2_iff: "drop 2 p = x # y \<longleftrightarrow> (\<exists>a b. p = a # b # x # y)"
  by (cases p; cases "tl p") auto

lemma set_enabled_eye_field: "set_enabled_eye_payload eye = 0 # 0 # u32_bytes (to_wire eye)"
  by (simp add: set_enabled_eye_payload_def u32_bytes_def be32_def enc_unfold)

section \<open>Catalog encoding\<close>

text \<open>A catalog as a device sends it: the entries' tags, ids, names and trailing numbers.\<close>

record raw_entry =
  raw_tag :: u32
  raw_id :: u32
  raw_name :: bytes
  raw_extra :: bytes
  raw_tail :: u32

definition entry_bytes :: "raw_entry \<Rightarrow> bytes" where
  "entry_bytes e = tag_bytes (raw_tag e) @ u32_bytes (raw_id e) @ string_bytes (raw_name e) @
     string_bytes (raw_extra e) @ u32_bytes (raw_tail e)"

definition entry_val :: "raw_entry \<Rightarrow> stream_entry" where
  "entry_val e = \<lparr>entry_id = ucast (raw_id e), entry_name = utf8_lossy (raw_name e)\<rparr>"

definition raw_ok :: "raw_entry \<Rightarrow> bool" where
  "raw_ok e \<longleftrightarrow> length (raw_name e) + 4 < 2 ^ 32 \<and> length (raw_extra e) + 4 < 2 ^ 32"

definition catalog_bytes :: "u8 \<Rightarrow> u8 \<Rightarrow> u32 \<Rightarrow> u32 \<Rightarrow> raw_entry list \<Rightarrow> bytes" where
  "catalog_bytes a b tag oid es =
     a # b # tag_bytes tag @ u32_bytes oid @ concat (List.map entry_bytes es)"

lemma entry_safe: "rd_safe read_entry" "rd_stable read_entry"
  unfolding read_entry_def by (intro rd_safe_intros rd_stable_intros)+

interpretation entry_field: field_reader read_entry entry_bytes entry_val raw_ok
  by unfold_locales
    (simp add: read_entry_def entry_bytes_def entry_val_def raw_ok_def tag_field.bind_read
      u32_field.bind_read string_field.bind_read [rotated] add.assoc)

interpretation catalog: field_sequence read_entry entry_bytes entry_val raw_ok read_entries
  by unfold_locales (auto simp: entry_safe entry_bytes_def tag_bytes_def split: prod.split sum.split)

section \<open>Properties\<close>

text \<open>
  Setting and reading the enabled eye agree, and reading is strict: a reply is understood as
  an eye exactly when, after its two-byte prefix, it starts with the very field the setter sends.
\<close>

theorem parse_enabled_eye_iff:
  "parse_enabled_eye payload = Some eye \<longleftrightarrow>
     (\<exists>a b t. payload = a # b # drop 2 (set_enabled_eye_payload eye) @ t)"
proof -
  let ?r = "rd_skip 2 (reader_new payload)"
  have "parse_enabled_eye payload = Some eye \<longleftrightarrow> (\<exists>r'. read_u32 ?r = (Inr (to_wire eye), r'))"
    by (auto simp: parse_enabled_eye_def from_wire_iff split: sum.splits prod.splits)
  also have "\<dots> \<longleftrightarrow> (\<exists>t. drop 2 payload = u32_bytes (to_wire eye) @ t)"
    by (auto simp: u32_field.read_iff)
  also have "\<dots> \<longleftrightarrow> (\<exists>a b t. payload = a # b # u32_bytes (to_wire eye) @ t)"
    by (auto simp: u32_bytes_def drop2_iff)
  finally show ?thesis by (simp add: set_enabled_eye_field)
qed

text \<open>
  The stream catalog survives truncation: cut a well-formed reply anywhere, and the parser
  returns exactly the entries that are complete, in order (all of them when nothing is missing).
\<close>

theorem catalog_keeps_complete_entries:
  assumes "\<forall>e \<in> set es. raw_ok e" and "length es < 65535"
    and "fst (split_tag tag) = of_nat (Suc (length es))"
  shows "parse_stream_catalog (take k (catalog_bytes a b tag oid es)) =
    List.map entry_val (complete_prefix entry_bytes (k - 20) es)"
proof -
  let ?p = "take k (catalog_bytes a b tag oid es)" and ?c = "concat (List.map entry_bytes es)"
  define r where "r = rd_skip 2 (reader_new ?p)"
  have w: "rpos r \<le> length (rbuf r)" unfolding r_def by (rule skip_within)
  have r: "rest r = take (k - 2) (tag_bytes tag @ u32_bytes oid @ ?c)"
    by (simp add: r_def catalog_bytes_def drop_take)
  have n: "unat (fst (split_tag tag)) - 1 = length es"
    using assms(2) unfolding assms(3) unat_of_nat_u32 by simp
  show ?thesis
  proof (cases "k < 20")
    case False
    then have r1: "rest r = tag_bytes tag @ u32_bytes oid @ take (k - 20) ?c" unfolding r by simp
    then have "parse_stream_catalog ?p = read_entries (length es) (adv 18 r)"
      "rest (adv 18 r) = take (k - 20) ?c"
      unfolding parse_stream_catalog_def r_def [symmetric]
      by (simp_all add: tag_field.read_enc u32_field.read_enc n [simplified])
    moreover have "rpos (adv 18 r) \<le> length (rbuf (adv 18 r))"
      using w r1 by (intro adv_within) simp_all
    ultimately show ?thesis using assms(1) by (simp add: catalog.loop_complete del: adv_sel)
  next
    case True
    have "parse_stream_catalog ?p = []"
    proof (cases "k - 2 < 9")
      case True
      then have "rest r = take (k - 2) (tag_bytes tag)" unfolding r by simp
      from tag_field.truncated [OF this] True show ?thesis
        unfolding parse_stream_catalog_def r_def [symmetric] by (auto split: prod.splits)
    next
      case False
      then have r1: "rest r = tag_bytes tag @ take (k - 11) (u32_bytes oid)"
        unfolding r using \<open>k < 20\<close> by simp
      then have "rest (adv 9 r) = take (k - 11) (u32_bytes oid)" by simp
      moreover have "k - 11 < 9" using \<open>k < 20\<close> by simp
      ultimately obtain e where "fst (read_u32 (adv 9 r)) = Inl e"
        using u32_field.truncated [of "adv 9 r" "k - 11" oid] by auto
      then show ?thesis
        unfolding parse_stream_catalog_def r_def [symmetric]
        by (auto simp: tag_field.read_enc [OF _ r1] split: prod.splits)
    qed
    then show ?thesis using True by simp
  qed
qed

text \<open>A coordinate the wire format holds, and two coordinates half a unit of it apart.\<close>

fun coord_ok :: "f64 \<Rightarrow> bool" where
  "coord_ok (Fin m e) = (\<bar>f64_val (Fin m e)\<bar> \<le> 2047)"
| "coord_ok _ = False"

fun corner_ok :: "point3 \<Rightarrow> bool" where
  "corner_ok (x, y, z) = (coord_ok x \<and> coord_ok y \<and> coord_ok z)"

definition coord_near :: "f64 \<Rightarrow> f64 \<Rightarrow> bool" where
  "coord_near x y \<longleftrightarrow> \<bar>f64_val x - f64_val y\<bar> \<le> 1 / 2 ^ 43"

fun corner_near :: "point3 \<Rightarrow> point3 \<Rightarrow> bool" where
  "corner_near (x, y, z) (x', y', z') = (coord_near x x' \<and> coord_near y y' \<and> coord_near z z')"

lemma coord_readback: "coord_ok x \<Longrightarrow> coord_near (q42_decode (q42_encode x)) x"
  by (cases x) (simp_all only: coord_near_def coord_ok.simps q42_accuracy)

text \<open>
  The display area reads back as it was set: for corners within two metres of the tracker the
  driver's own decoder, applied to the payload the setter sends, returns every coordinate within
  \<open>2^-43\<close> millimetres.
\<close>

theorem display_area_readback:
  assumes "corner_ok (tl_corner c)" "corner_ok (tr_corner c)" "corner_ok (bl_corner c)"
  shows "case decode_corners (set_display_area_corners_payload c) of
      None \<Rightarrow> False
    | Some d \<Rightarrow> corner_near (tl_corner d) (tl_corner c) \<and> corner_near (tr_corner d) (tr_corner c) \<and>
        corner_near (bl_corner d) (bl_corner c)"
proof -
  obtain a b d where c: "tl_corner c = a" "tr_corner c = b" "bl_corner c = d" by simp
  obtain ax ay az bx "by" bz dx dy dz where p: "a = (ax, ay, az)" "b = (bx, by, bz)" "d = (dx, dy, dz)"
    by (metis prod_cases3)
  let ?q = "\<lambda>(x, y, z). (q42_encode x, q42_encode y, q42_encode z)"
  let ?w = "set_display_area_corners_payload c"
  have w: "?w = 0 # 0 # point3_bytes (?q a) @ point3_bytes (?q b) @ point3_bytes (?q d) @
      tag_bytes 0x10100 @ u32_bytes 0x3039"
    by (simp add: set_display_area_corners_payload_def write_point3_def c p)
  have "decode_corners ?w = Some \<lparr>tl_corner = point3_val (?q a), tr_corner = point3_val (?q b),
      bl_corner = point3_val (?q d)\<rparr>"
    unfolding w decode_corners_def by (simp add: point3_field.bind_read del: point3_bytes.simps)
  then show ?thesis using assms by (simp add: c p coord_readback)
qed

theorem display_area_readback_witness:
  "case decode_corners (set_display_area_corners_payload
      \<lparr>tl_corner = (Fin (-300) 0, Fin 335 0, Fin 1 (-1)), tr_corner = (Fin 300 0, Fin 335 0, Fin 1 (-1)),
       bl_corner = (Fin (-300) 0, Fin 0 0, Fin 0 0)\<rparr>) of
      None \<Rightarrow> False
    | Some d \<Rightarrow> corner_near (tl_corner d) (Fin (-300) 0, Fin 335 0, Fin 1 (-1)) \<and>
        corner_near (tr_corner d) (Fin 300 0, Fin 335 0, Fin 1 (-1)) \<and>
        corner_near (bl_corner d) (Fin (-300) 0, Fin 0 0, Fin 0 0)"
proof -
  have "coord_ok (Fin (-300) 0)" "coord_ok (Fin 300 0)" "coord_ok (Fin 335 0)" "coord_ok (Fin 0 0)"
    "coord_ok (Fin 1 (-1))"
    by (simp_all add: power_int_minus)
  then show ?thesis
    using display_area_readback [of "\<lparr>tl_corner = (Fin (-300) 0, Fin 335 0, Fin 1 (-1)),
      tr_corner = (Fin 300 0, Fin 335 0, Fin 1 (-1)), bl_corner = (Fin (-300) 0, Fin 0 0, Fin 0 0)\<rparr>"]
    by (simp only: display_corners.select_convs corner_ok.simps)
qed

theorem catalog_keeps_complete_entries_witness:
  "parse_stream_catalog (take 100 (catalog_bytes 0 0 0x31389 0x1389
      [\<lparr>raw_tag = 0x40000, raw_id = 0x500, raw_name = [0x67], raw_extra = [], raw_tail = 0\<rparr>,
       \<lparr>raw_tag = 0x40000, raw_id = 0x501, raw_name = [0x69, 0x72], raw_extra = [], raw_tail = 0\<rparr>])) =
    [\<lparr>entry_id = 0x500, entry_name = [0x67]\<rparr>]"
proof -
  have l: "utf8_lossy [0x67] = [0x67]" by code_simp
  have s: "fst (split_tag 0x31389) = 3" by code_simp
  show ?thesis
    by (subst catalog_keeps_complete_entries)
      (simp_all add: s raw_ok_def entry_val_def entry_bytes_def l)
qed

end
