(* ===== verification/Blocks.thy ===== *)
theory Blocks
  imports Prelude
begin

text \<open>
  What the two hash functions share: the fold of a compression function over the 64-byte blocks of a
  message, the part of a message that fills whole blocks and the part that is left over, and the copy
  into the block buffer.
\<close>

section \<open>The buffer\<close>

text \<open>\<open>self.buf[at..at + xs.len()].copy_from_slice(xs)\<close>.\<close>

definition copy_at :: "nat \<Rightarrow> 'a list \<Rightarrow> 'a list \<Rightarrow> 'a list" where
  "copy_at i xs ys = take i ys @ xs @ drop (i + length xs) ys"

lemma length_copy_at: "i + length xs \<le> length ys \<Longrightarrow> length (copy_at i xs ys) = length ys"
  by (simp add: copy_at_def)

lemma take_copy_at: "i \<le> length ys \<Longrightarrow> take (i + length xs) (copy_at i xs ys) = take i ys @ xs"
  by (simp add: copy_at_def)

section \<open>Folding over blocks\<close>

function fold_blocks :: "('s \<Rightarrow> bytes \<Rightarrow> 's) \<Rightarrow> 's \<Rightarrow> bytes \<Rightarrow> 's" where
  "fold_blocks f s m = (if 64 \<le> length m then fold_blocks f (f s (take 64 m)) (drop 64 m) else s)"
  by pat_completeness auto
termination
  by (relation "measure (\<lambda>(f, s, m). length m)") auto

declare fold_blocks.simps [simp del]


lemma fold_blocks_short [simp]: "length m < 64 \<Longrightarrow> fold_blocks f s m = s"
  by (simp add: fold_blocks.simps [of f s m])

lemma fold_blocks_block [simp]: "length b = 64 \<Longrightarrow> fold_blocks f s (b @ m) = fold_blocks f (f s b) m"
  by (simp add: fold_blocks.simps [of f s "b @ m"])

lemma fold_blocks_append:
  "length a mod 64 = 0 \<Longrightarrow> fold_blocks f s (a @ b) = fold_blocks f (fold_blocks f s a) b"
proof (induction f s a rule: fold_blocks.induct)
  case (1 f s m)
  show ?case
  proof (cases "64 \<le> length m")
    case True
    then have "length (drop 64 m) mod 64 = 0" using "1.prems" by (simp add: le_mod_geq)
    from "1.IH" [OF True this] True show ?thesis
      by (simp add: fold_blocks.simps [of f s m] fold_blocks.simps [of f s "m @ b"])
  next
    case False
    with "1.prems" show ?thesis by simp
  qed
qed

definition full :: "bytes \<Rightarrow> bytes" where "full m = take (64 * (length m div 64)) m"
definition partial :: "bytes \<Rightarrow> bytes" where "partial m = drop (64 * (length m div 64)) m"

lemma full_partial: "full m @ partial m = m"
  by (simp add: full_def partial_def)

lemma length_partial: "length (partial m) = length m mod 64"
  by (simp add: partial_def minus_mult_div_eq_mod)

lemma length_full: "length (full m) mod 64 = 0"
proof -
  have "length (full m) = 64 * (length m div 64)"
    by (simp add: full_def)
  then show ?thesis by simp
qed

lemma length_partial_less [simp]: "length (partial m) < 64"
  by (simp add: length_partial)

lemma fold_blocks_full: "fold_blocks f s (m @ t) = fold_blocks f (fold_blocks f s m) (partial m @ t)"
proof -
  have "fold_blocks f s m = fold_blocks f (fold_blocks f s (full m)) (partial m)"
    using fold_blocks_append [OF length_full] full_partial by metis
  then have "fold_blocks f s m = fold_blocks f s (full m)" by simp
  moreover have "fold_blocks f s (m @ t) = fold_blocks f s (full m @ partial m @ t)"
    by (metis append.assoc full_partial)
  ultimately show ?thesis using fold_blocks_append [OF length_full, of f s m "partial m @ t"] by simp
qed

lemma partial_blocks: "length a mod 64 = 0 \<Longrightarrow> partial (a @ x) = partial x"
proof -
  assume "length a mod 64 = 0"
  then obtain q where "length a = 64 * q" by (metis mult_div_mod_eq add_0_right)
  then show ?thesis by (simp add: partial_def)
qed

lemma partial_append: "partial (m @ d) = partial (partial m @ d)"
proof -
  have "partial (m @ d) = partial (full m @ partial m @ d)" by (metis append.assoc full_partial)
  then show ?thesis by (simp only: partial_blocks [OF length_full])
qed

end
