(* ===== verification/Md5.thy ===== *)
theory Md5
  imports Blocks
begin

unbundle bit_operations_syntax

text \<open>
  MD5 and HMAC-MD5 (\<^verbatim>\<open>tobii-protocol/src/md5.rs\<close>), and their reference definitions: the digest
  as RFC 1321 states it, one padded message cut into 64-byte blocks, and HMAC as RFC 2104 states
  it. The streaming implementation is proved equal to the references on every input the driver
  gives it. Its \<open>update\<close> loses data when it is called with a partly filled buffer and too little to
  fill it, which the last part of the theory pins down.
\<close>

section \<open>The tables\<close>

definition S_tab :: "nat list" where
  "S_tab =
  [7, 12, 17, 22, 7, 12, 17, 22, 7, 12, 17, 22, 7, 12, 17, 22,
   5, 9, 14, 20, 5, 9, 14, 20, 5, 9, 14, 20, 5, 9, 14, 20,
   4, 11, 16, 23, 4, 11, 16, 23, 4, 11, 16, 23, 4, 11, 16, 23,
   6, 10, 15, 21, 6, 10, 15, 21, 6, 10, 15, 21, 6, 10, 15, 21]"

definition K_tab :: "u32 list" where
  "K_tab =
  [0xd76aa478, 0xe8c7b756, 0x242070db, 0xc1bdceee, 0xf57c0faf, 0x4787c62a,
   0xa8304613, 0xfd469501, 0x698098d8, 0x8b44f7af, 0xffff5bb1, 0x895cd7be,
   0x6b901122, 0xfd987193, 0xa679438e, 0x49b40821, 0xf61e2562, 0xc040b340,
   0x265e5a51, 0xe9b6c7aa, 0xd62f105d, 0x02441453, 0xd8a1e681, 0xe7d3fbc8,
   0x21e1cde6, 0xc33707d6, 0xf4d50d87, 0x455a14ed, 0xa9e3e905, 0xfcefa3f8,
   0x676f02d9, 0x8d2a4c8a, 0xfffa3942, 0x8771f681, 0x6d9d6122, 0xfde5380c,
   0xa4beea44, 0x4bdecfa9, 0xf6bb4b60, 0xbebfbc70, 0x289b7ec6, 0xeaa127fa,
   0xd4ef3085, 0x04881d05, 0xd9d4d039, 0xe6db99e5, 0x1fa27cf8, 0xc4ac5665,
   0xf4292244, 0x432aff97, 0xab9423a7, 0xfc93a039, 0x655b59c3, 0x8f0ccc92,
   0xffeff47d, 0x85845dd1, 0x6fa87e4f, 0xfe2ce6e0, 0xa3014314, 0x4e0811a1,
   0xf7537e82, 0xbd3af235, 0x2ad7d2bb, 0xeb86d391]"

section \<open>The implementation\<close>

text \<open>The four state words, and the hash state; \<open>buf\<close> is always 64 bytes long.\<close>

type_synonym quad = "u32 \<times> u32 \<times> u32 \<times> u32"

record md5_state =
  state :: quad
  count :: u64
  buf :: bytes
  buf_len :: nat

definition md5_new :: md5_state where
  "md5_new = \<lparr>state = (0x67452301, 0xefcdab89, 0x98badcfe, 0x10325476), count = 0,
     buf = replicate 64 0, buf_len = 0\<rparr>"

text \<open>One of the 64 steps of \<open>transform\<close>: the round function and message index, then the rotation.\<close>

definition round_fg :: "nat \<Rightarrow> u32 \<Rightarrow> u32 \<Rightarrow> u32 \<Rightarrow> u32 \<times> nat" where
  "round_fg i b c d =
     (if i < 16 then ((b AND c) OR (NOT b AND d), i)
      else if i < 32 then ((d AND b) OR (NOT d AND c), (5 * i + 1) mod 16)
      else if i < 48 then (b XOR c XOR d, (3 * i + 5) mod 16)
      else (c XOR (b OR NOT d), (7 * i) mod 16))"

definition rotate_left :: "nat \<Rightarrow> u32 \<Rightarrow> u32" where
  "rotate_left n x = push_bit n x OR drop_bit (32 - n) x"

definition md5_step :: "u32 list \<Rightarrow> quad \<Rightarrow> nat \<Rightarrow> quad" where
  "md5_step m q i =
     (case q of (a, b, c, d) \<Rightarrow>
      case round_fg i b c d of (f, g) \<Rightarrow>
        let x = a + f + K_tab ! i + m ! g in
        (d, b + rotate_left (S_tab ! i) x, b, c))"

definition block_words :: "bytes \<Rightarrow> u32 list" where
  "block_words block = map (\<lambda>j. of_le32 (take 4 (drop (j * 4) block))) [0..<16]"

definition quad_add :: "quad \<Rightarrow> quad \<Rightarrow> quad" where
  "quad_add s q =
     (case s of (s0, s1, s2, s3) \<Rightarrow> case q of (a, b, c, d) \<Rightarrow> (s0 + a, s1 + b, s2 + c, s3 + d))"

definition compress :: "quad \<Rightarrow> bytes \<Rightarrow> quad" where
  "compress s block = quad_add s (foldl (md5_step (block_words block)) s [0..<64])"

definition transform :: "bytes \<Rightarrow> md5_state \<Rightarrow> md5_state" where
  "transform block h = h\<lparr>state := compress (state h) block\<rparr>"

text \<open>The \<^verbatim>\<open>while data.len() >= 64\<close> loop of \<open>update\<close>.\<close>

function update_blocks :: "bytes \<Rightarrow> md5_state \<Rightarrow> bytes \<times> md5_state" where
  "update_blocks data h =
     (if 64 \<le> length data then update_blocks (drop 64 data) (transform (take 64 data) h)
      else (data, h))"
  by pat_completeness auto
termination
  by (relation "measure (\<lambda>(data, h). length data)") auto

declare update_blocks.simps [simp del]

definition update_head :: "bytes \<Rightarrow> md5_state \<Rightarrow> bytes \<times> md5_state" where
  "update_head data h =
     (if 0 < buf_len h then
        let want = 64 - buf_len h; tk = min want (length data);
            h1 = h\<lparr>buf := copy_at (buf_len h) (take tk data) (buf h), buf_len := buf_len h + tk\<rparr>;
            data1 = drop tk data
        in (if buf_len h1 = 64 then (data1, (transform (buf h1) h1)\<lparr>buf_len := 0\<rparr>)
            else (data1, h1))
      else (data, h))"

definition md5_update :: "bytes \<Rightarrow> md5_state \<Rightarrow> md5_state" where
  "md5_update data h =
     (let h0 = h\<lparr>count := count h + of_nat (length data)\<rparr>;
          (data1, h1) = update_head data h0;
          (data2, h2) = update_blocks data1 h1
      in h2\<lparr>buf := copy_at 0 data2 (buf h2), buf_len := length data2\<rparr>)"

text \<open>\<open>for i in at..to { self.buf[i] = 0; }\<close>\<close>

definition zero_range :: "nat \<Rightarrow> nat \<Rightarrow> bytes \<Rightarrow> bytes" where
  "zero_range i j b = copy_at i (replicate (j - i) 0) b"

fun quad_bytes :: "quad \<Rightarrow> bytes" where
  "quad_bytes (a, b, c, d) = le32 a @ le32 b @ le32 c @ le32 d"

definition md5_finalize :: "md5_state \<Rightarrow> bytes" where
  "md5_finalize h =
     (let bit_len = count h * 8;
          h1 = h\<lparr>buf := (buf h)[buf_len h := 0x80], buf_len := buf_len h + 1\<rparr>;
          h2 = (if 56 < buf_len h1 then
                  let b = zero_range (buf_len h1) 64 (buf h1)
                  in (transform b (h1\<lparr>buf := b\<rparr>))\<lparr>buf_len := 0\<rparr>
                else h1);
          b3 = copy_at 56 (le64 bit_len) (zero_range (buf_len h2) 56 (buf h2));
          h4 = transform b3 (h2\<lparr>buf := b3\<rparr>)
      in quad_bytes (state h4))"

definition md5 :: "bytes \<Rightarrow> bytes" where
  "md5 data = md5_finalize (md5_update data md5_new)"

definition hmac_md5 :: "bytes \<Rightarrow> bytes \<Rightarrow> bytes" where
  "hmac_md5 key msg =
     (let k0 = replicate 64 0;
          k = (if 64 < length key then copy_at 0 (md5 key) k0 else copy_at 0 key k0);
          ipad = map (\<lambda>x. x XOR 0x36) k;
          opad = map (\<lambda>x. x XOR 0x5c) k;
          inner_digest = md5_finalize (md5_update msg (md5_update ipad md5_new))
      in md5_finalize (md5_update inner_digest (md5_update opad md5_new)))"

section \<open>The references\<close>

text \<open>RFC 1321: append a one bit, zeros to 56 modulo 64, and the bit length; fold the blocks.\<close>

definition md5_pad :: "bytes \<Rightarrow> bytes" where
  "md5_pad m = m @ [0x80] @ replicate ((119 - length m mod 64) mod 64) 0 @ le64 (of_nat (length m) * 8)"

definition md5_spec :: "bytes \<Rightarrow> bytes" where
  "md5_spec m = quad_bytes (fold_blocks compress (state md5_new) (md5_pad m))"

text \<open>RFC 2104, with block length 64.\<close>

definition hmac_spec :: "bytes \<Rightarrow> bytes \<Rightarrow> bytes" where
  "hmac_spec key msg =
     (let k' = (if 64 < length key then md5_spec key else key);
          k = k' @ replicate (64 - length k') 0
      in md5_spec (map (\<lambda>x. x XOR 0x5c) k @ md5_spec (map (\<lambda>x. x XOR 0x36) k @ msg)))"

section \<open>The streaming state\<close>

text \<open>The state after absorbing a message.\<close>

definition rep :: "md5_state \<Rightarrow> bytes \<Rightarrow> bool" where
  "rep h m \<longleftrightarrow>
     count h = of_nat (length m) \<and> length (buf h) = 64 \<and> buf_len h = length m mod 64 \<and>
     state h = fold_blocks compress (state md5_new) m \<and> take (length m mod 64) (buf h) = partial m"

lemma rep_new: "rep md5_new []"
  by (simp add: rep_def md5_new_def partial_def)

lemma update_blocks_eq:
  "update_blocks d h = (partial d, h\<lparr>state := fold_blocks compress (state h) d\<rparr>)"
proof (induction d h rule: update_blocks.induct)
  case (1 d h)
  show ?case
  proof (cases "64 \<le> length d")
    case True
    have "partial (drop 64 d) = partial d"
      using True partial_append [of "take 64 d" "drop 64 d"] by (simp add: partial_def)
    with True "1.IH" show ?thesis
      by (simp add: update_blocks.simps [of d h] fold_blocks.simps [of compress "state h" d] transform_def)
  next
    case False
    then show ?thesis by (simp add: update_blocks.simps [of d h] partial_def)
  qed
qed

lemma update_absorbs:
  assumes r: "rep h m" and c: "buf_len h = 0 \<or> 64 \<le> buf_len h + length d"
  shows "rep (md5_update d h) (m @ d)"
proof -
  define h0 where "h0 = h\<lparr>count := count h + of_nat (length d)\<rparr>"
  have h0: "buf_len h0 = length m mod 64" "buf h0 = buf h" "state h0 = fold_blocks compress (state md5_new) m"
    "count h0 = of_nat (length (m @ d))" "length (buf h) = 64" "take (buf_len h) (buf h) = partial m"
    using r by (simp_all add: h0_def rep_def)
  obtain d1 h1 where h1: "update_head d h0 = (d1, h1)" by fastforce
  have head: "length (buf h1) = 64 \<and> count h1 = count h0 \<and>
      fold_blocks compress (state h1) d1 = fold_blocks compress (state md5_new) (m @ d) \<and> partial d1 = partial (m @ d)"
  proof (cases "buf_len h = 0")
    case True
    with r have "length (partial m) = 0" by (simp add: rep_def length_partial)
    then have p: "partial m = []" by simp
    with True h0 r h1 show ?thesis
      using fold_blocks_full [of compress "state md5_new" m d] partial_append [of m d]
      by (auto simp: update_head_def rep_def)
  next
    case False
    with c have c': "64 - buf_len h \<le> length d" by simp
    define n where "n = 64 - buf_len h"
    have b: "buf_len h = length m mod 64" "0 < buf_len h" "buf_len h < 64"
      using r False by (simp_all add: rep_def)
    have n: "n \<le> length d" "buf_len h + n = 64" "min n (length d) = n" using c' b by (simp_all add: n_def)
    have bl: "buf_len h0 = buf_len h" by (simp add: h0_def)
    have cp: "copy_at (buf_len h) (take n d) (buf h) = partial m @ take n d"
      using h0 n by (simp add: copy_at_def)
    have e: "64 - buf_len h = n" by (simp add: n_def)
    have "update_head d h0 = (drop n d, h0\<lparr>state := compress (state h0) (partial m @ take n d),
        buf := partial m @ take n d, buf_len := 0\<rparr>)"
      unfolding update_head_def Let_def bl h0(2) e n(3) cp
      using b(2) n(2) by (simp add: transform_def)
    then have h1': "d1 = drop n d" "state h1 = compress (state h0) (partial m @ take n d)"
      "buf h1 = partial m @ take n d" "count h1 = count h0"
      using h1 by auto
    have l: "length (partial m @ take n d) = 64"
      using n b by (simp add: length_partial)
    have d: "d = take n d @ drop n d" by simp
    have "fold_blocks compress (state md5_new) (m @ d) = fold_blocks compress (state h0) ((partial m @ take n d) @ drop n d)"
      using h0(3) fold_blocks_full [of compress "state md5_new" m d] by simp
    also have "\<dots> = fold_blocks compress (compress (state h0) (partial m @ take n d)) (drop n d)"
      by (rule fold_blocks_block [OF l])
    finally have f: "fold_blocks compress (state h1) d1 = fold_blocks compress (state md5_new) (m @ d)"
      by (simp add: h1')
    have "partial (m @ d) = partial ((partial m @ take n d) @ drop n d)"
      using partial_append [of m d] by simp
    also have "\<dots> = partial (drop n d)"
      using l by (intro partial_blocks) simp
    finally have "partial d1 = partial (m @ d)" by (simp add: h1')
    with f l h1' show ?thesis by simp
  qed
  define h2 where "h2 = h1\<lparr>state := fold_blocks compress (state h1) d1\<rparr>"
  have u: "md5_update d h = h2\<lparr>buf := copy_at 0 (partial d1) (buf h2), buf_len := length (partial d1)\<rparr>"
    using h1 by (simp add: md5_update_def h0_def [symmetric] update_blocks_eq h2_def)
  have "length (partial d1) \<le> 64" using length_partial_less [of d1] by linarith
  with head h0 show ?thesis
    unfolding u by (simp add: rep_def h2_def length_partial length_copy_at copy_at_def)
qed

section \<open>Finalisation\<close>

lemma pad_zeros: "(l :: nat) < 64 \<Longrightarrow> (119 - l) mod 64 = (if l < 56 then 55 - l else 119 - l)"
  by (cases "l < 56") (auto simp: mod_if)

lemma update_nth_partial:
  assumes "length b = 64" "l < 64" "take l b = p"
  shows "b[l := x] = p @ x # drop (Suc l) b"
  using assms by (simp add: upd_conv_take_nth_drop)

lemma finalize_rep:
  assumes "rep h m"
  shows "md5_finalize h = md5_spec m"
proof -
  define l where "l = length m mod 64"
  define p where "p = partial m"
  define len where "len = (of_nat (length m) * 8 :: u64)"
  have h: "count h * 8 = len" "length (buf h) = 64" "buf_len h = l"
    "state h = fold_blocks compress (state md5_new) m" "take l (buf h) = p" "length p = l" "l < 64"
    using assms by (simp_all add: rep_def l_def p_def len_def length_partial)
  have b1: "(buf h)[l := 0x80] = p @ 0x80 # drop (Suc l) (buf h)"
    by (rule update_nth_partial [OF h(2,7,5)])
  have spec: "md5_spec m = quad_bytes (fold_blocks compress (state h)
      (p @ [0x80] @ replicate ((119 - l) mod 64) 0 @ le64 len))"
    unfolding md5_spec_def md5_pad_def l_def [symmetric] len_def [symmetric] h(4) p_def
    by (subst fold_blocks_full) simp
  show ?thesis
  proof (cases "l < 56")
    case True
    then have z: "(119 - l) mod 64 = 55 - l" using pad_zeros [OF h(7)] by simp
    let ?b = "p @ [0x80] @ replicate (55 - l) 0 @ le64 len"
    have "zero_range (l + 1) 56 ((buf h)[l := 0x80]) =
        p @ 0x80 # replicate (55 - l) 0 @ drop 56 (buf h)"
      unfolding b1 zero_range_def copy_at_def using True h(6) by (simp add: drop_Cons')
    moreover have "take 56 (p @ 0x80 # replicate (55 - l) 0 @ drop 56 (buf h)) =
        p @ 0x80 # replicate (55 - l) 0"
      using True h(6) by (simp add: take_Cons' Suc_diff_le)
    ultimately have "copy_at 56 (le64 len) (zero_range (l + 1) 56 ((buf h)[l := 0x80])) = ?b"
      using True h by (simp add: copy_at_def)
    then have "md5_finalize h = quad_bytes (compress (state h) ?b)"
      using True h by (simp add: md5_finalize_def transform_def)
    moreover have "fold_blocks compress (state h) (?b @ []) = compress (state h) ?b"
      using True h by (subst fold_blocks_block) auto
    ultimately show ?thesis using spec z by simp
  next
    case False
    then have z: "(119 - l) mod 64 = (63 - l) + 56" using pad_zeros [OF h(7)] h(7) by simp
    let ?b = "p @ [0x80] @ replicate (63 - l) 0"
    let ?c = "replicate 56 0 @ le64 len"
    have zb: "zero_range (l + 1) 64 ((buf h)[l := 0x80]) = ?b"
      unfolding b1 zero_range_def copy_at_def using h by simp
    have lb: "length ?b = 64" using h False by simp
    have "copy_at 56 (le64 len) (zero_range 0 56 ?b) = ?c"
      using lb by (simp add: copy_at_def zero_range_def)
    with zb have "md5_finalize h = quad_bytes (compress (compress (state h) ?b) ?c)"
      using False h by (simp add: md5_finalize_def transform_def Let_def)
    moreover have "fold_blocks compress (state h) (?b @ ?c @ []) = compress (compress (state h) ?b) ?c"
      using lb by (subst fold_blocks_block, simp, subst fold_blocks_block) auto
    moreover have "p @ [0x80] @ replicate ((63 - l) + 56) 0 @ le64 len = ?b @ ?c @ []"
      by (simp add: replicate_add)
    ultimately show ?thesis using spec z by simp
  qed
qed

section \<open>Properties\<close>

lemma md5_eq_spec: "md5 m = md5_spec m"
proof -
  have "buf_len md5_new = 0" by (simp add: md5_new_def)
  then have "rep (md5_update m md5_new) ([] @ m)" using update_absorbs [OF rep_new] by blast
  then show ?thesis by (simp add: md5_def finalize_rep)
qed

text \<open>
  C19. The digest is MD5: on every input the streaming implementation computes what RFC 1321
  defines, the fold of the compression function over the padded message.
\<close>

theorem md5_correct: "md5 m = md5_spec m"
  by (rule md5_eq_spec)

lemma length_md5_spec: "length (md5_spec m) = 16"
  by (cases "fold_blocks compress (state md5_new) (md5_pad m)") (simp add: md5_spec_def)

lemma two_updates:
  assumes "length a = 64"
  shows "md5_finalize (md5_update b (md5_update a md5_new)) = md5_spec (a @ b)"
proof -
  have z: "buf_len md5_new = 0" by (simp add: md5_new_def)
  have "rep (md5_update a md5_new) ([] @ a)" using update_absorbs [OF rep_new] z by blast
  then have r: "rep (md5_update a md5_new) a" by simp
  then have "buf_len (md5_update a md5_new) = 0" using assms by (simp add: rep_def)
  with r show ?thesis using finalize_rep update_absorbs by blast
qed

text \<open>
  The authentication code is HMAC-MD5: for every key and message, keys longer than a block
  included, the implementation computes what RFC 2104 defines over the reference digest.
\<close>

theorem hmac_md5_correct: "hmac_md5 key msg = hmac_spec key msg"
proof -
  define k' where "k' = (if 64 < length key then md5_spec key else key)"
  have l: "length k' \<le> 64" using length_md5_spec [of key] by (simp add: k'_def)
  define k where "k = k' @ replicate (64 - length k') (0 :: u8)"
  have k: "length k = 64" using l by (simp add: k_def)
  have c: "copy_at 0 k' (replicate 64 0) = k" using l by (simp add: copy_at_def k_def)
  have pads: "length (map (\<lambda>x. x XOR v) k) = 64" for v using k by simp
  have "(if 64 < length key then copy_at 0 (md5 key) (replicate 64 0)
      else copy_at 0 key (replicate 64 0)) = k"
    using c by (auto simp: k'_def md5_eq_spec split: if_splits)
  then show ?thesis
    using two_updates [OF pads] by (simp add: hmac_md5_def hmac_spec_def Let_def k_def k'_def)
qed

lemma finalize_empty_buffer:
  assumes "length (buf h) = 64" "buf_len h = 0"
  shows "md5_finalize h =
    quad_bytes (compress (state h) (0x80 # replicate 55 0 @ le64 (count h * 8)))"
proof -
  obtain x t where b: "buf h = x # t" using assms(1) by (cases "buf h") auto
  have "copy_at 56 (le64 (count h * 8)) (zero_range 1 56 ((buf h)[0 := 0x80])) =
      0x80 # replicate 55 0 @ le64 (count h * 8)"
    using assms(1) unfolding b by (simp add: copy_at_def zero_range_def)
  with assms(2) show ?thesis by (simp add: md5_finalize_def transform_def)
qed

lemma update_new_short:
  assumes "length a < 64"
  shows "md5_update a md5_new =
    md5_new\<lparr>count := of_nat (length a), buf := copy_at 0 a (buf md5_new), buf_len := length a\<rparr>"
  using assms
  by (simp add: md5_update_def update_head_def update_blocks_eq partial_def md5_new_def)

lemma update_partial_short:
  assumes "0 < buf_len h" "buf_len h + length b < 64"
  shows "md5_update b h = h\<lparr>count := count h + of_nat (length b),
    buf := copy_at (buf_len h) b (buf h), buf_len := 0\<rparr>"
proof -
  have "min (64 - buf_len h) (length b) = length b" using assms by simp
  moreover have "copy_at 0 [] ys = ys" for ys :: bytes by (simp add: copy_at_def)
  ultimately show ?thesis
    using assms by (simp add: md5_update_def update_head_def update_blocks_eq partial_def Let_def)
qed

lemma two_short_updates:
  assumes "0 < length a" and "length a + length b < 64"
  shows "md5_finalize (md5_update b (md5_update a md5_new)) =
    quad_bytes (compress (state md5_new)
      (0x80 # replicate 55 0 @ le64 (of_nat (length a + length b) * 8)))"
proof -
  have a: "length a < 64" using assms by simp
  have l: "length (buf md5_new) = 64" by (simp add: md5_new_def)
  show ?thesis
    using assms a l
    by (simp add: update_new_short update_partial_short finalize_empty_buffer length_copy_at)
qed

text \<open>
  Streaming in small pieces loses data. When a buffer is partly filled and an update does not
  fill it, the final copy resets the buffer length, so both pieces are dropped: the digest after
  two such updates depends on their lengths only. (The driver never does this: every partial update
  it makes is the last one.)
\<close>

theorem md5_short_updates_lose_data:
  assumes "0 < length a" and "length a + length b < 64"
    and "length a' = length a" and "length b' = length b"
  shows "md5_finalize (md5_update b (md5_update a md5_new)) =
    md5_finalize (md5_update b' (md5_update a' md5_new))"
  using assms by (simp add: two_short_updates)

theorem md5_short_updates_lose_data_witness:
  "md5_finalize (md5_update [0x62] (md5_update [0x61] md5_new)) =
    md5_finalize (md5_update [0x64] (md5_update [0x63] md5_new))"
  using md5_short_updates_lose_data [of "[0x61]" "[0x62]" "[0x63]" "[0x64]"] by simp

end
