(* ===== verification/Handshake.thy ===== *)
theory Handshake
  imports Commands Md5 "HOL-Library.Sublist"
begin

text \<open>
  The connection handshake (\<^verbatim>\<open>handshake.rs\<close>): the walker over reply fields and the state
  machine that says hello, queries and opens the realm, authenticates where asked to, and
  subscribes. The machine is pure: \<open>poll\<close> says what to send, \<open>on_response\<close> delivers a reply. Runs
  are lists of events, and the properties hold for every order of them.
\<close>

section \<open>Reply fields\<close>

definition resp_u16_be :: "bytes \<Rightarrow> nat \<Rightarrow> u16" where
  "resp_u16_be d i = of_be16 [d ! i, d ! (i + 1)]"

text \<open>
  The fields from position \<open>pos\<close> on. The iterator of the source is lazy, its readers only search
  it, so it is the list of what it would yield.
\<close>

function resp_fields_from :: "bytes \<Rightarrow> nat \<Rightarrow> (nat \<times> bytes) list" where
  "resp_fields_from d pos =
     (if pos + 4 \<le> length d then
        let size = unat (resp_u16_be d (pos + 2)); pos1 = pos + 4; pos2 = pos1 + size
        in (case get_slice d pos1 (pos1 + size) of
              Some b \<Rightarrow> (size, b) # resp_fields_from d pos2
            | None \<Rightarrow> resp_fields_from d pos2)
      else [])"
  by pat_completeness auto
termination
  by (relation "measure (\<lambda>(d, pos). length d - pos)") auto

declare resp_fields_from.simps [simp del]

definition resp_fields :: "bytes \<Rightarrow> (nat \<times> bytes) list" where
  "resp_fields d = resp_fields_from d 2"

definition resp_first_u32_opt :: "bytes \<Rightarrow> u32 option" where
  "resp_first_u32_opt d =
     map_option (\<lambda>(_, b). of_be32 b) (List.find (\<lambda>(size, _). size = 4) (resp_fields d))"

definition resp_u32_at :: "bytes \<Rightarrow> nat \<Rightarrow> u32" where
  "resp_u32_at d index =
     (let fs = List.filter (\<lambda>(size, _). size = 4) (resp_fields d)
      in if index < length fs then of_be32 (snd (fs ! index)) else 0)"

definition resp_extract_challenge :: "bytes \<Rightarrow> bytes option" where
  "resp_extract_challenge d = map_option snd (List.find (\<lambda>(size, _). 4 < size) (resp_fields d))"

section \<open>The state machine\<close>

datatype handshake_action = Send bytes | Recv | HsDone | HsFailed

datatype hs_state =
    BuildHello | AwaitHello | BuildQueryRealm | AwaitQueryRealm | BuildOpenRealm | AwaitOpenRealm
  | BuildRealmAuth | AwaitRealmAuth | BuildSubscribe | Done | Failed

record handshake =
  hs_state :: hs_state
  hs_seq :: u32
  stream_id :: u16
  realm_type :: u32
  realm_id :: u32
  field_210 :: u32
  resp :: "bytes option"

definition handshake_new :: "u16 \<Rightarrow> handshake" where
  "handshake_new sid =
     \<lparr>hs_state = BuildHello, hs_seq = 1, stream_id = sid, realm_type = 0, realm_id = 0,
      field_210 = 0, resp = None\<rparr>"

definition bump_seq :: "u32 \<Rightarrow> u32" where
  "bump_seq s = (let s1 = s + 1 in if s1 = 0 then 1 else s1)"

definition next_seq :: "handshake \<Rightarrow> u32 \<times> handshake" where
  "next_seq h = (hs_seq h, h\<lparr>hs_seq := bump_seq (hs_seq h)\<rparr>)"

definition on_response :: "bytes \<Rightarrow> handshake \<Rightarrow> handshake" where
  "on_response payload h = h\<lparr>resp := Some payload\<rparr>"

text \<open>One iteration of the loop of \<open>poll\<close>; no action means \<^verbatim>\<open>continue\<close>.\<close>

definition poll_step :: "handshake \<Rightarrow> handshake \<times> handshake_action option" where
  "poll_step h =
     (case hs_state h of
        BuildHello \<Rightarrow>
          (case next_seq h of (s, h1) \<Rightarrow>
             (h1\<lparr>resp := None, hs_state := AwaitHello\<rparr>, Some (Send (build_hello s))))
      | AwaitHello \<Rightarrow>
          (if resp h \<noteq> None then (h\<lparr>hs_state := BuildQueryRealm\<rparr>, None) else (h, Some Recv))
      | BuildQueryRealm \<Rightarrow>
          (case next_seq h of (s, h1) \<Rightarrow>
             (h1\<lparr>resp := None, hs_state := AwaitQueryRealm\<rparr>, Some (Send (build_query_realm s))))
      | AwaitQueryRealm \<Rightarrow>
          (case resp h of
             Some r \<Rightarrow>
               (h\<lparr>resp := None,
                  realm_type := (case resp_first_u32_opt r of Some v \<Rightarrow> v | None \<Rightarrow> 0),
                  hs_state := BuildOpenRealm\<rparr>, None)
           | None \<Rightarrow> (h, Some Recv))
      | BuildOpenRealm \<Rightarrow>
          (case next_seq h of (s, h1) \<Rightarrow>
             (h1\<lparr>resp := None, hs_state := AwaitOpenRealm\<rparr>,
              Some (Send (build_open_realm s (realm_type h)))))
      | AwaitOpenRealm \<Rightarrow>
          (case resp h of
             None \<Rightarrow> (h, Some Recv)
           | Some r \<Rightarrow>
               if realm_type h = 0 then (h\<lparr>hs_state := BuildSubscribe\<rparr>, None)
               else if length r < 12 then (h\<lparr>hs_state := Failed\<rparr>, Some HsFailed)
               else (h\<lparr>realm_id := resp_u32_at r 0, field_210 := resp_u32_at r 1,
                       hs_state := BuildRealmAuth\<rparr>, None))
      | BuildRealmAuth \<Rightarrow>
          (let r = (case resp h of Some r \<Rightarrow> r | None \<Rightarrow> []); h0 = h\<lparr>resp := None\<rparr> in
           (case resp_extract_challenge r of
              None \<Rightarrow> (h0\<lparr>hs_state := Failed\<rparr>, Some HsFailed)
            | Some challenge \<Rightarrow>
                let digest = hmac_md5 REALM_KEY challenge in
                (case next_seq h0 of (s, h1) \<Rightarrow>
                   (h1\<lparr>hs_state := AwaitRealmAuth\<rparr>,
                    Some (Send (build_realm_response s (realm_id h) (field_210 h) digest))))))
      | AwaitRealmAuth \<Rightarrow>
          (if resp h \<noteq> None then (h\<lparr>hs_state := BuildSubscribe\<rparr>, None) else (h, Some Recv))
      | BuildSubscribe \<Rightarrow>
          (case next_seq h of (s, h1) \<Rightarrow>
             (h1\<lparr>hs_state := Done\<rparr>, Some (Send (build_subscribe s (stream_id h)))))
      | Done \<Rightarrow> (h, Some HsDone)
      | Failed \<Rightarrow> (h, Some HsFailed))"

text \<open>Only waiting states continue, and they continue to a state that returns.\<close>

definition awaiting :: "hs_state \<Rightarrow> bool" where
  "awaiting s \<longleftrightarrow> s \<in> {AwaitHello, AwaitQueryRealm, AwaitOpenRealm, AwaitRealmAuth}"

lemma poll_step_continue:
  "poll_step h = (h', None) \<Longrightarrow> awaiting (hs_state h) \<and> \<not> awaiting (hs_state h')"
  by (auto simp: poll_step_def awaiting_def next_seq_def Let_def
      split: hs_state.splits option.splits if_splits)

function poll :: "handshake \<Rightarrow> handshake \<times> handshake_action" where
  "poll h = (case poll_step h of (h', None) \<Rightarrow> poll h' | (h', Some a) \<Rightarrow> (h', a))"
  by pat_completeness auto
termination
  by (relation "measure (\<lambda>h. if awaiting (hs_state h) then 1 else 0)")
    (auto dest: poll_step_continue [OF sym])

declare poll.simps [simp del]

section \<open>Runs\<close>

datatype hs_event = Poll | Response bytes

text \<open>The machine and the frames it has asked to send.\<close>

fun hs_step :: "hs_event \<Rightarrow> handshake \<times> bytes list \<Rightarrow> handshake \<times> bytes list" where
  "hs_step Poll (h, sent) =
     (case poll h of (h', Send f) \<Rightarrow> (h', sent @ [f]) | (h', _) \<Rightarrow> (h', sent))"
| "hs_step (Response r) (h, sent) = (on_response r h, sent)"

definition hs_run :: "hs_event list \<Rightarrow> handshake \<times> bytes list \<Rightarrow> handshake \<times> bytes list" where
  "hs_run es s = fold hs_step es s"


section \<open>What a run has sent\<close>

text \<open>
  The realm type a query reply asks for, and the frames of the two complete handshakes: without
  authentication, and with the answer to the challenge in the open reply \<open>r\<close>.
\<close>

definition realm_of :: "bytes \<Rightarrow> u32" where
  "realm_of q = (case resp_first_u32_opt q of Some v \<Rightarrow> v | None \<Rightarrow> 0)"

definition frames_open :: "u32 \<Rightarrow> bytes list" where
  "frames_open rt = [build_hello 1, build_query_realm 2, build_open_realm 3 rt]"

definition frames_no_auth :: "u16 \<Rightarrow> bytes list" where
  "frames_no_auth sid = frames_open 0 @ [build_subscribe 4 sid]"

definition auth_frame :: "bytes \<Rightarrow> bytes \<Rightarrow> bytes" where
  "auth_frame r ch =
     build_realm_response 4 (resp_u32_at r 0) (resp_u32_at r 1) (hmac_md5 REALM_KEY ch)"

definition frames_auth :: "u16 \<Rightarrow> u32 \<Rightarrow> bytes \<Rightarrow> bytes \<Rightarrow> bytes list" where
  "frames_auth sid rt r ch = frames_open rt @ [auth_frame r ch, build_subscribe 5 sid]"

lemmas frames_defs = frames_no_auth_def frames_auth_def frames_open_def

text \<open>A usable open reply, among those delivered.\<close>

definition open_reply :: "bytes set \<Rightarrow> bytes \<Rightarrow> bytes \<Rightarrow> bool" where
  "open_reply R r ch \<longleftrightarrow> r \<in> R \<and> 12 \<le> length r \<and> resp_extract_challenge r = Some ch"

definition asked :: "bytes set \<Rightarrow> u32 \<Rightarrow> bool" where
  "asked R rt \<longleftrightarrow> (\<exists>q \<in> R. realm_of q = rt)"

definition authed :: "bytes set \<Rightarrow> handshake \<Rightarrow> bytes list \<Rightarrow> bool" where
  "authed R h sent \<longleftrightarrow> realm_type h \<noteq> 0 \<and> hs_seq h = 5 \<and> asked R (realm_type h) \<and>
     (\<exists>r ch. open_reply R r ch \<and> sent = frames_open (realm_type h) @ [auth_frame r ch])"

definition unauthed :: "bytes set \<Rightarrow> handshake \<Rightarrow> bytes list \<Rightarrow> bool" where
  "unauthed R h sent \<longleftrightarrow> hs_seq h = 4 \<and> asked R (realm_type h) \<and> sent = frames_open (realm_type h)"

text \<open>Where a run is: the state, the sequence number and the frames sent so far fit together.\<close>

definition hs_path :: "bytes set \<Rightarrow> handshake \<Rightarrow> bytes list \<Rightarrow> bool" where
  "hs_path R h sent \<longleftrightarrow> (\<forall>r. resp h = Some r \<longrightarrow> r \<in> R) \<and>
     (case hs_state h of
        BuildHello \<Rightarrow> sent = [] \<and> hs_seq h = 1
      | AwaitHello \<Rightarrow> sent = [build_hello 1] \<and> hs_seq h = 2
      | BuildQueryRealm \<Rightarrow> sent = [build_hello 1] \<and> hs_seq h = 2
      | AwaitQueryRealm \<Rightarrow> sent = [build_hello 1, build_query_realm 2] \<and> hs_seq h = 3
      | BuildOpenRealm \<Rightarrow> sent = [build_hello 1, build_query_realm 2] \<and> hs_seq h = 3 \<and>
          asked R (realm_type h)
      | AwaitOpenRealm \<Rightarrow> unauthed R h sent
      | BuildRealmAuth \<Rightarrow> unauthed R h sent \<and> realm_type h \<noteq> 0 \<and>
          (\<exists>r. resp h = Some r \<and> 12 \<le> length r \<and> realm_id h = resp_u32_at r 0 \<and>
             field_210 h = resp_u32_at r 1)
      | AwaitRealmAuth \<Rightarrow> authed R h sent
      | BuildSubscribe \<Rightarrow> authed R h sent \<or> (unauthed R h sent \<and> realm_type h = 0)
      | Done \<Rightarrow>
          (realm_type h = 0 \<and> hs_seq h = 5 \<and> asked R 0 \<and> sent = frames_no_auth (stream_id h)) \<or>
          (realm_type h \<noteq> 0 \<and> hs_seq h = 6 \<and> asked R (realm_type h) \<and>
            (\<exists>r ch. open_reply R r ch \<and> sent = frames_auth (stream_id h) (realm_type h) r ch))
      | Failed \<Rightarrow> unauthed R h sent \<and> realm_type h \<noteq> 0)"

lemma bump_seq_small [simp]: "bump_seq 1 = 2" "bump_seq 2 = 3" "bump_seq 3 = 4" "bump_seq 4 = 5"
  "bump_seq 5 = 6"
  by (simp_all add: bump_seq_def)

definition sent_by :: "handshake_action option \<Rightarrow> bytes list" where
  "sent_by oa = (case oa of Some (Send f) \<Rightarrow> [f] | _ \<Rightarrow> [])"

lemma poll_step_path:
  assumes "hs_path R h sent" and "poll_step h = (h', oa)"
  shows "hs_path R h' (sent @ sent_by oa) \<and> stream_id h' = stream_id h"
proof (cases "hs_state h")
  case AwaitQueryRealm
  with assms show ?thesis
    by (force simp: hs_path_def poll_step_def asked_def realm_of_def sent_by_def split: option.splits)
next
  case BuildRealmAuth
  with assms show ?thesis
    by (fastforce simp: hs_path_def poll_step_def next_seq_def authed_def unauthed_def sent_by_def
        auth_frame_def open_reply_def Let_def split: option.splits)
next
  case AwaitRealmAuth
  with assms show ?thesis
    by (fastforce simp: hs_path_def poll_step_def authed_def sent_by_def split: if_splits)
next
  case BuildSubscribe
  with assms show ?thesis
    by (fastforce simp: hs_path_def poll_step_def next_seq_def authed_def unauthed_def sent_by_def
        frames_no_auth_def frames_auth_def)
next
  case Done
  with assms show ?thesis by (auto simp: poll_step_def sent_by_def)
qed (use assms in \<open>auto simp: hs_path_def poll_step_def next_seq_def authed_def unauthed_def
      sent_by_def frames_defs split: option.splits if_splits\<close>)

lemma poll_path:
  assumes "hs_path R h sent" and "poll h = (h', a)"
  shows "hs_path R h' (sent @ sent_by (Some a)) \<and> stream_id h' = stream_id h \<and>
    hs_state h' \<noteq> BuildRealmAuth"
  using assms
proof (induction h arbitrary: sent rule: poll.induct)
  case (1 h)
  obtain h1 oa where s: "poll_step h = (h1, oa)" by fastforce
  note p = poll_step_path [OF "1.prems"(1) s]
  show ?case
  proof (cases oa)
    case None
    with s have "poll h1 = (h', a)" using "1.prems"(2) by (simp add: poll.simps [of h])
    moreover have "hs_path R h1 sent" using p None by (simp add: sent_by_def)
    ultimately show ?thesis using "1.IH" [OF s [symmetric] None] p by simp
  next
    case (Some b)
    with s "1.prems"(2) have "h' = h1" "b = a" by (simp_all add: poll.simps [of h])
    moreover have "hs_state h1 \<noteq> BuildRealmAuth"
      using s Some by (auto simp: poll_step_def next_seq_def Let_def
          split: hs_state.splits option.splits if_splits)
    ultimately show ?thesis using p Some by simp
  qed
qed

text \<open>The replies delivered in a run.\<close>

fun delivered :: "hs_event list \<Rightarrow> bytes set" where
  "delivered [] = {}"
| "delivered (Poll # es) = delivered es"
| "delivered (Response r # es) = insert r (delivered es)"

lemma hs_path_mono: "hs_path R h sent \<Longrightarrow> R \<subseteq> S \<Longrightarrow> hs_path S h sent"
  by (cases "hs_state h") (auto simp: hs_path_def authed_def unauthed_def asked_def open_reply_def; blast)+

lemma on_response_path:
  assumes "hs_path R h sent" "hs_state h \<noteq> BuildRealmAuth"
  shows "hs_path (insert r R) (on_response r h) sent \<and> hs_state (on_response r h) \<noteq> BuildRealmAuth \<and>
    stream_id (on_response r h) = stream_id h"
proof -
  have "hs_path (insert r R) (on_response r h) sent"
    using hs_path_mono [OF assms(1), of "insert r R"] assms(2)
    by (cases "hs_state h") (auto simp: hs_path_def on_response_def authed_def unauthed_def)
  then show ?thesis using assms(2) by (simp add: on_response_def)
qed

lemma run_path:
  assumes "hs_path R h sent" "hs_state h \<noteq> BuildRealmAuth" and "hs_run es (h, sent) = (h', sent')"
  shows "hs_path (R \<union> delivered es) h' sent' \<and> stream_id h' = stream_id h"
  using assms
proof (induction es arbitrary: R h sent)
  case Nil
  then show ?case by (simp add: hs_run_def)
next
  case (Cons e es)
  show ?case
  proof (cases e)
    case Poll
    obtain h1 a where p: "poll h = (h1, a)" by fastforce
    have "hs_run es (h1, sent @ sent_by (Some a)) = (h', sent')"
      using Cons.prems(3) p Poll by (cases a) (simp_all add: hs_run_def sent_by_def)
    with Cons.IH poll_path [OF Cons.prems(1) p] Poll show ?thesis by fastforce
  next
    case (Response r)
    note on_response_path [OF Cons.prems(1,2), of r]
    then show ?thesis
      using Cons.IH [of "insert r R" "on_response r h" sent] Cons.prems(3) Response
      by (simp add: hs_run_def)
  qed
qed


lemma butlast_frames_auth [simp]:
  "butlast (frames_auth sid rt r ch) = frames_open rt @ [auth_frame r ch]"
  by (simp add: frames_auth_def butlast_append)

section \<open>Polls by state\<close>

text \<open>One line per state: what a poll sends and where it goes.\<close>

lemma poll_once: "poll_step h = (h', Some a) \<Longrightarrow> poll h = (h', a)"
  by (simp add: poll.simps [of h])

lemma poll_twice: "poll_step h = (h1, None) \<Longrightarrow> poll_step h1 = (h', Some a) \<Longrightarrow> poll h = (h', a)"
  by (simp add: poll.simps [of h] poll_once)

lemma poll_idle: "awaiting (hs_state h) \<Longrightarrow> resp h = None \<Longrightarrow> poll h = (h, Recv)"
  by (rule poll_once) (auto simp: awaiting_def poll_step_def)

lemma poll_build_hello:
  "hs_state h = BuildHello \<Longrightarrow> poll h =
     (h\<lparr>hs_seq := bump_seq (hs_seq h), resp := None, hs_state := AwaitHello\<rparr>,
      Send (build_hello (hs_seq h)))"
  by (rule poll_once) (simp add: poll_step_def next_seq_def)

lemma poll_hello_reply:
  "hs_state h = AwaitHello \<Longrightarrow> resp h = Some r \<Longrightarrow> poll h =
     (h\<lparr>hs_seq := bump_seq (hs_seq h), resp := None, hs_state := AwaitQueryRealm\<rparr>,
      Send (build_query_realm (hs_seq h)))"
  by (rule poll_twice, simp add: poll_step_def next_seq_def, simp add: poll_step_def next_seq_def)

lemma poll_query_reply:
  "hs_state h = AwaitQueryRealm \<Longrightarrow> resp h = Some q \<Longrightarrow> poll h =
     (h\<lparr>hs_seq := bump_seq (hs_seq h), resp := None, realm_type := realm_of q,
        hs_state := AwaitOpenRealm\<rparr>,
      Send (build_open_realm (hs_seq h) (realm_of q)))"
  by (rule poll_twice, simp add: poll_step_def next_seq_def realm_of_def, simp add: poll_step_def next_seq_def realm_of_def)

lemma poll_open_reply:
  "hs_state h = AwaitOpenRealm \<Longrightarrow> resp h = Some r \<Longrightarrow> realm_type h = 0 \<Longrightarrow> poll h =
     (h\<lparr>hs_seq := bump_seq (hs_seq h), hs_state := Done\<rparr>,
      Send (build_subscribe (hs_seq h) (stream_id h)))"
  by (rule poll_twice, simp add: poll_step_def next_seq_def, simp add: poll_step_def next_seq_def)

lemma poll_open_reply_short:
  "hs_state h = AwaitOpenRealm \<Longrightarrow> resp h = Some r \<Longrightarrow> realm_type h \<noteq> 0 \<Longrightarrow> length r < 12 \<Longrightarrow>
     poll h = (h\<lparr>hs_state := Failed\<rparr>, HsFailed)"
  by (rule poll_once) (simp add: poll_step_def)

lemma poll_open_reply_bare:
  "hs_state h = AwaitOpenRealm \<Longrightarrow> resp h = Some r \<Longrightarrow> realm_type h \<noteq> 0 \<Longrightarrow> \<not> length r < 12 \<Longrightarrow>
     resp_extract_challenge r = None \<Longrightarrow> poll h =
     (h\<lparr>realm_id := resp_u32_at r 0, field_210 := resp_u32_at r 1, resp := None,
        hs_state := Failed\<rparr>, HsFailed)"
  by (rule poll_twice, simp add: poll_step_def Let_def, simp add: poll_step_def Let_def)

lemma poll_open_reply_challenge:
  "hs_state h = AwaitOpenRealm \<Longrightarrow> resp h = Some r \<Longrightarrow> realm_type h \<noteq> 0 \<Longrightarrow> \<not> length r < 12 \<Longrightarrow>
     resp_extract_challenge r = Some ch \<Longrightarrow> poll h =
     (h\<lparr>hs_seq := bump_seq (hs_seq h), realm_id := resp_u32_at r 0, field_210 := resp_u32_at r 1,
        resp := None, hs_state := AwaitRealmAuth\<rparr>,
      Send (build_realm_response (hs_seq h) (resp_u32_at r 0) (resp_u32_at r 1)
        (hmac_md5 REALM_KEY ch)))"
  by (rule poll_twice, simp add: poll_step_def next_seq_def Let_def, simp add: poll_step_def next_seq_def Let_def)

lemma poll_auth_reply:
  "hs_state h = AwaitRealmAuth \<Longrightarrow> resp h = Some r \<Longrightarrow> poll h =
     (h\<lparr>hs_seq := bump_seq (hs_seq h), hs_state := Done\<rparr>,
      Send (build_subscribe (hs_seq h) (stream_id h)))"
  by (rule poll_twice, simp add: poll_step_def next_seq_def, simp add: poll_step_def next_seq_def)

lemma poll_final:
  "hs_state h = Done \<Longrightarrow> poll h = (h, HsDone)" "hs_state h = Failed \<Longrightarrow> poll h = (h, HsFailed)"
  by (simp_all add: poll_once poll_step_def)

lemmas polls = poll_idle poll_build_hello poll_hello_reply poll_query_reply poll_open_reply
  poll_open_reply_short poll_open_reply_bare poll_open_reply_challenge poll_auth_reply poll_final

section \<open>Properties\<close>


text \<open>One poll, then a reply and a poll for each reply.\<close>

definition exchange :: "bytes list \<Rightarrow> hs_event list" where
  "exchange rs = Poll # concat (List.map (\<lambda>r. [Response r, Poll]) rs)"

lemma exchange_unfold: "exchange [a, b, c, d] =
  [Poll, Response a, Poll, Response b, Poll, Response c, Poll, Response d, Poll]"
  by (simp add: exchange_def)

text \<open>
  The handshake's outcome: with a reply after every frame, the machine subscribes after four
  frames when no authentication is asked for; it fails after three when the open reply is too
  short or carries no challenge; and else it authenticates and subscribes after five.
\<close>

theorem handshake_outcome:
  "let (h, sent) = hs_run (exchange [r1, r2, r3, r4]) (handshake_new sid, []) in
     if realm_of r2 = 0 then hs_state h = Done \<and> sent = frames_no_auth sid
     else if length r3 < 12 \<or> resp_extract_challenge r3 = None
     then hs_state h = Failed \<and> sent = frames_open (realm_of r2)
     else hs_state h = Done \<and>
       sent = frames_auth sid (realm_of r2) r3 (the (resp_extract_challenge r3))"
proof -
  have "hs_run (exchange [r1, r2, r3, r4]) (handshake_new sid, []) =
      fold hs_step [Poll, Response r4, Poll]
        (\<lparr>hs_state = AwaitOpenRealm, hs_seq = 4, stream_id = sid, realm_type = realm_of r2,
          realm_id = 0, field_210 = 0, resp = Some r3\<rparr>, frames_open (realm_of r2))"
    by (simp add: hs_run_def exchange_unfold handshake_new_def polls on_response_def frames_open_def)
  then show ?thesis
    by (cases "realm_of r2 = 0"; cases "length r3 < 12"; cases "resp_extract_challenge r3")
      (simp_all add: polls on_response_def frames_no_auth_def frames_auth_def auth_frame_def)
qed

lemma handshake_run_no_auth:
  "hs_run (exchange [[], [], [], []]) (handshake_new sid, []) =
    (\<lparr>hs_state = Done, hs_seq = 5, stream_id = sid, realm_type = 0, realm_id = 0, field_210 = 0,
      resp = Some []\<rparr>, frames_no_auth sid)"
proof -
  have "realm_of [] = 0"
    by (simp add: realm_of_def resp_first_u32_opt_def resp_fields_def resp_fields_from.simps)
  then show ?thesis
    by (simp add: hs_run_def exchange_unfold handshake_new_def polls on_response_def frames_defs)
qed

lemma resp_fields_empty_step:
  "q = pos + 4 \<Longrightarrow> q \<le> length d \<Longrightarrow> resp_u16_be d (pos + 2) = 0 \<Longrightarrow>
    resp_fields_from d pos = (0, []) # resp_fields_from d q"
  by (subst resp_fields_from.simps) (simp add: get_slice_def sub_slice_def)

lemma be32_small: "be32 (ucast (x :: u8)) = [0, 0, 0, x]"
proof -
  have u: "unat x < 256" using unsigned_less [of x, where ?'a = nat] by simp
  then have "unat x < 4294967296" by linarith
  then have "unat x mod 4294967296 = unat x" by (rule mod_less)
  then have "unat (ucast x :: u32) = unat x" by (simp add: unsigned_ucast_eq take_bit_eq_mod)
  with u show ?thesis by (simp add: be32_def enc_unfold)
qed


text \<open>
  The realm type is not read from replies in the canonical framing. The walker takes a
  four-byte field header where the codec of the rest of the protocol writes five; on a reply of
  three small numbers so encoded (the shape of the query reply the tracker sends) it finds no
  number at all, and the handshake takes the realm for one without authentication, whatever the
  numbers are.
\<close>

theorem canonical_realm_type_unread:
  "realm_of (a # b # u32_bytes (ucast (x :: u8)) @ u32_bytes (ucast (y :: u8)) @
     u32_bytes (ucast (z :: u8))) = 0"
proof -
  let ?d = "[a, b, 2, 0, 0, 0, 4, 0, 0, 0, x, 2, 0, 0, 0, 4, 0, 0, 0, y, 2, 0, 0, 0, 4, 0, 0, 0, z]"
  have four: "be32 4 = [0, 0, 0, 4]" by code_simp
  have d: "a # b # u32_bytes (ucast x) @ u32_bytes (ucast y) @ u32_bytes (ucast z) = ?d"
    by (simp add: u32_bytes_def be32_small four)
  have z: "of_be16 [0, 0] = 0" "of_be16 [2, 0] = 512" by code_simp+
  have "resp_fields_from ?d 18 = resp_fields_from ?d 534"
    by (subst resp_fields_from.simps) (simp add: resp_u16_be_def z get_slice_def)
  also have "\<dots> = []" by (subst resp_fields_from.simps) simp
  finally have r18: "resp_fields_from ?d 18 = []" .
  have "resp_fields_from ?d (Suc (Suc 0)) = (0, []) # resp_fields_from ?d 6"
    by (rule resp_fields_empty_step) (simp_all add: resp_u16_be_def z)
  also have "resp_fields_from ?d 6 = (0, []) # resp_fields_from ?d 10"
    by (rule resp_fields_empty_step) (simp_all add: resp_u16_be_def z)
  also have "resp_fields_from ?d 10 = (0, []) # resp_fields_from ?d 14"
    by (rule resp_fields_empty_step) (simp_all add: resp_u16_be_def z)
  also have "resp_fields_from ?d 14 = (0, []) # resp_fields_from ?d 18"
    by (rule resp_fields_empty_step) (simp_all add: resp_u16_be_def z)
  finally show ?thesis unfolding d realm_of_def resp_first_u32_opt_def resp_fields_def
    by (simp add: r18 numeral_2_eq_2)
qed

end
