(* ===== verification/Gaze.thy ===== *)
theory Gaze
  imports Commands
begin

unbundle bit_operations_syntax

text \<open>
  Gaze samples (\<^verbatim>\<open>gaze.rs\<close>): the decoder of a notification row into a sample with a mask of the
  fields present, and the inventory of all its columns. The two are separate loops in the source;
  here the sample is shown to be the fold of the inventory, on every payload.
\<close>

section \<open>Presence flags and samples\<close>

definition TIMESTAMP :: u32 where "TIMESTAMP = push_bit 0 1"
definition FRAME_COUNTER :: u32 where "FRAME_COUNTER = push_bit 1 1"
definition VALIDITY_L :: u32 where "VALIDITY_L = push_bit 2 1"
definition VALIDITY_R :: u32 where "VALIDITY_R = push_bit 3 1"
definition PUPIL_L :: u32 where "PUPIL_L = push_bit 4 1"
definition PUPIL_R :: u32 where "PUPIL_R = push_bit 5 1"
definition GAZE_2D :: u32 where "GAZE_2D = push_bit 6 1"
definition GAZE_2D_L :: u32 where "GAZE_2D_L = push_bit 7 1"
definition GAZE_2D_R :: u32 where "GAZE_2D_R = push_bit 8 1"
definition EYE_ORIGIN_L :: u32 where "EYE_ORIGIN_L = push_bit 9 1"
definition EYE_ORIGIN_R :: u32 where "EYE_ORIGIN_R = push_bit 10 1"
definition GAZE_2D_UNFILTERED :: u32 where "GAZE_2D_UNFILTERED = push_bit 11 1"
definition EYE_ORIGIN_RAW_L :: u32 where "EYE_ORIGIN_RAW_L = push_bit 12 1"
definition EYE_ORIGIN_RAW_R :: u32 where "EYE_ORIGIN_RAW_R = push_bit 13 1"
definition GAZE_3D_L :: u32 where "GAZE_3D_L = push_bit 14 1"
definition GAZE_3D_R :: u32 where "GAZE_3D_R = push_bit 15 1"
definition TRACKBOX_L :: u32 where "TRACKBOX_L = push_bit 16 1"
definition TRACKBOX_R :: u32 where "TRACKBOX_R = push_bit 17 1"

lemmas flag_defs = TIMESTAMP_def FRAME_COUNTER_def VALIDITY_L_def VALIDITY_R_def PUPIL_L_def
  PUPIL_R_def GAZE_2D_def GAZE_2D_L_def GAZE_2D_R_def EYE_ORIGIN_L_def EYE_ORIGIN_R_def
  GAZE_2D_UNFILTERED_def EYE_ORIGIN_RAW_L_def EYE_ORIGIN_RAW_R_def GAZE_3D_L_def GAZE_3D_R_def
  TRACKBOX_L_def TRACKBOX_R_def

record gaze_sample =
  present_mask :: u32
  frame_counter :: u32
  validity_l :: u32
  validity_r :: u32
  timestamp_us :: u64
  pupil_l_mm :: f64
  pupil_r_mm :: f64
  gaze_point_2d :: point2
  gaze_point_2d_unfiltered :: point2
  gaze_point_2d_l :: point2
  gaze_point_2d_r :: point2
  eye_origin_l_mm :: point3
  eye_origin_r_mm :: point3
  eye_origin_raw_l_mm :: point3
  eye_origin_raw_r_mm :: point3
  gaze_point_3d_l_mm :: point3
  gaze_point_3d_r_mm :: point3
  trackbox_eye_l :: point3
  trackbox_eye_r :: point3

definition zero_f64 :: f64 where "zero_f64 = Fin 0 0"
definition zero2 :: point2 where "zero2 = (zero_f64, zero_f64)"
definition zero3 :: point3 where "zero3 = (zero_f64, zero_f64, zero_f64)"

text \<open>\<open>GazeSample::default()\<close>\<close>

definition gaze_default :: gaze_sample where
  "gaze_default =
     \<lparr>present_mask = 0, frame_counter = 0, validity_l = 0, validity_r = 0, timestamp_us = 0,
      pupil_l_mm = zero_f64, pupil_r_mm = zero_f64, gaze_point_2d = zero2,
      gaze_point_2d_unfiltered = zero2, gaze_point_2d_l = zero2, gaze_point_2d_r = zero2,
      eye_origin_l_mm = zero3, eye_origin_r_mm = zero3, eye_origin_raw_l_mm = zero3,
      eye_origin_raw_r_mm = zero3, gaze_point_3d_l_mm = zero3, gaze_point_3d_r_mm = zero3,
      trackbox_eye_l = zero3, trackbox_eye_r = zero3\<rparr>"

definition has :: "gaze_sample \<Rightarrow> u32 \<Rightarrow> bool" where
  "has s flag \<longleftrightarrow> present_mask s AND flag \<noteq> 0"

section \<open>Columns\<close>

datatype kind = KS64 | KU32 | KFixed16x16 | KPoint2d | KPoint3d

definition column_kind :: "u32 \<Rightarrow> kind option" where
  "column_kind col =
     (if col = 0x01 then Some KS64
      else if col \<in> set [0x02, 0x03, 0x04, 0x08, 0x09, 0x0a, 0x17, 0x18, 0x22, 0x24, 0x25, 0x27]
      then Some KPoint3d
      else if col \<in> set [0x05, 0x0b, 0x1c, 0x20, 0x19, 0x1a] then Some KPoint2d
      else if col \<in> set [0x06, 0x0c, 0x29, 0x2b] then Some KFixed16x16
      else if col \<in> set [0x07, 0x0d, 0x0e, 0x11, 0x14, 0x15, 0x16, 0x1b, 0x1d, 0x1e, 0x1f, 0x21,
                         0x23, 0x26, 0x28, 0x2a, 0x2c] then Some KU32
      else None)"

text \<open>Did the read succeed, and where it left the cursor.\<close>

definition read_ok :: "'a rd \<Rightarrow> reader \<Rightarrow> bool \<times> reader" where
  "read_ok m r = (case m r of (Inr _, r') \<Rightarrow> (True, r') | (Inl _, r') \<Rightarrow> (False, r'))"

definition skip_column :: "kind \<Rightarrow> reader \<Rightarrow> bool \<times> reader" where
  "skip_column k r =
     (case k of
        KS64 \<Rightarrow> read_ok read_s64 r
      | KU32 \<Rightarrow> read_ok read_u32 r
      | KFixed16x16 \<Rightarrow> read_ok read_fixed16x16 r
      | KPoint2d \<Rightarrow> read_ok read_point2d r
      | KPoint3d \<Rightarrow> read_ok read_point3d r)"

text \<open>
  Reading a column into a field of the sample and setting its flag; no sample stands for the early
  return with the sample as it is. \<open>set3\<close> and \<open>set2\<close> are the source's helpers, \<open>set_field\<close> the arm
  its scalar columns repeat.
\<close>

definition set_field :: "'a rd \<Rightarrow> (('a \<Rightarrow> 'a) \<Rightarrow> gaze_sample \<Rightarrow> gaze_sample) \<Rightarrow> u32 \<Rightarrow>
    gaze_sample \<Rightarrow> reader \<Rightarrow> gaze_sample option \<times> reader" where
  "set_field m upd flag s r =
     (case m r of
        (Inr v, r') \<Rightarrow> (Some ((upd (\<lambda>_. v) s)\<lparr>present_mask := present_mask s OR flag\<rparr>), r')
      | (Inl _, r') \<Rightarrow> (None, r'))"

definition set3 where "set3 = set_field read_point3d"
definition set2 where "set2 = set_field read_point2d"

text \<open>The match on the column id in \<open>decode\<close>.\<close>

definition decode_column :: "u32 \<Rightarrow> gaze_sample \<Rightarrow> reader \<Rightarrow> gaze_sample option \<times> reader" where
  "decode_column col s r =
     (if col = 0x01 then set_field read_s64 timestamp_us_update TIMESTAMP s r
      else if col = 0x02 then set3 eye_origin_l_mm_update EYE_ORIGIN_L s r
      else if col = 0x08 then set3 eye_origin_r_mm_update EYE_ORIGIN_R s r
      else if col = 0x03 then set3 trackbox_eye_l_update TRACKBOX_L s r
      else if col = 0x09 then set3 trackbox_eye_r_update TRACKBOX_R s r
      else if col = 0x04 then set3 gaze_point_3d_l_mm_update GAZE_3D_L s r
      else if col = 0x0a then set3 gaze_point_3d_r_mm_update GAZE_3D_R s r
      else if col = 0x17 then set3 eye_origin_raw_l_mm_update EYE_ORIGIN_RAW_L s r
      else if col = 0x18 then set3 eye_origin_raw_r_mm_update EYE_ORIGIN_RAW_R s r
      else if col = 0x05 then set2 gaze_point_2d_l_update GAZE_2D_L s r
      else if col = 0x0b then set2 gaze_point_2d_r_update GAZE_2D_R s r
      else if col = 0x1c then set2 gaze_point_2d_update GAZE_2D s r
      else if col = 0x20 then set2 gaze_point_2d_unfiltered_update GAZE_2D_UNFILTERED s r
      else if col = 0x06 then set_field read_fixed16x16 pupil_l_mm_update PUPIL_L s r
      else if col = 0x0c then set_field read_fixed16x16 pupil_r_mm_update PUPIL_R s r
      else if col = 0x07 then set_field read_u32 validity_l_update VALIDITY_L s r
      else if col = 0x0d then set_field read_u32 validity_r_update VALIDITY_R s r
      else if col = 0x14 then set_field read_u32 frame_counter_update FRAME_COUNTER s r
      else (case column_kind col of
              Some k \<Rightarrow> (case skip_column k r of (b, r') \<Rightarrow> (if b then Some s else None, r'))
            | None \<Rightarrow> (None, r)))"

text \<open>The loop; \<open>n\<close> is the number of columns the row still announces.\<close>

fun decode_columns :: "nat \<Rightarrow> gaze_sample \<Rightarrow> reader \<Rightarrow> gaze_sample" where
  "decode_columns 0 s r = s"
| "decode_columns (Suc n) s r =
     (if remaining r > 0 then
        (case read_xds_column r of
           (Inl _, _) \<Rightarrow> s
         | (Inr col, r1) \<Rightarrow>
             (case decode_column col s r1 of
                (Some s', r2) \<Rightarrow> decode_columns n s' r2
              | (None, _) \<Rightarrow> s))
      else s)"

definition gaze_decode :: "bytes \<Rightarrow> gaze_sample option" where
  "gaze_decode payload =
     (if length payload < 2 then None
      else (case read_xds_row (rd_skip 2 (reader_new payload)) of
              (Inl _, _) \<Rightarrow> None
            | (Inr n_cols, r) \<Rightarrow> Some (decode_columns (unat n_cols) gaze_default r)))"

section \<open>The inventory\<close>

datatype column_value = CvS64 u64 | CvU32 u32 | CvFixed f64 | CvPoint2d point2 | CvPoint3d point3

definition rd_map :: "('a \<Rightarrow> 'b) \<Rightarrow> 'a rd \<Rightarrow> 'b rd" where
  "rd_map f m = rd_bind m (\<lambda>a. rd_return (f a))"

definition read_value :: "kind \<Rightarrow> column_value rd" where
  "read_value k =
     (case k of
        KS64 \<Rightarrow> rd_map CvS64 read_s64
      | KU32 \<Rightarrow> rd_map CvU32 read_u32
      | KFixed16x16 \<Rightarrow> rd_map CvFixed read_fixed16x16
      | KPoint2d \<Rightarrow> rd_map CvPoint2d read_point2d
      | KPoint3d \<Rightarrow> rd_map CvPoint3d read_point3d)"

fun inventory_columns :: "nat \<Rightarrow> reader \<Rightarrow> (u32 \<times> column_value) list" where
  "inventory_columns 0 r = []"
| "inventory_columns (Suc n) r =
     (if remaining r > 0 then
        (case read_xds_column r of
           (Inl _, _) \<Rightarrow> []
         | (Inr col, r1) \<Rightarrow>
             (case column_kind col of
                None \<Rightarrow> []
              | Some k \<Rightarrow>
                  (case read_value k r1 of
                     (Inr v, r2) \<Rightarrow> (col, v) # inventory_columns n r2
                   | (Inl _, _) \<Rightarrow> [])))
      else [])"

definition column_inventory :: "bytes \<Rightarrow> (u32 \<times> column_value) list" where
  "column_inventory payload =
     (if length payload < 2 then []
      else (case read_xds_row (rd_skip 2 (reader_new payload)) of
              (Inl _, _) \<Rightarrow> []
            | (Inr n_cols, r) \<Rightarrow> inventory_columns (unat n_cols) r))"

section \<open>The sample is the fold of the inventory\<close>

text \<open>What a column means for the sample: the field it sets and the flag it raises.\<close>

definition mark :: "u32 \<Rightarrow> gaze_sample \<Rightarrow> gaze_sample" where
  "mark flag s = s\<lparr>present_mask := present_mask s OR flag\<rparr>"

fun record_column :: "u32 \<times> column_value \<Rightarrow> gaze_sample \<Rightarrow> gaze_sample" where
  "record_column (c, CvS64 x) s = (if c = 0x01 then mark TIMESTAMP (s\<lparr>timestamp_us := x\<rparr>) else s)"
| "record_column (c, CvU32 x) s =
     (if c = 0x07 then mark VALIDITY_L (s\<lparr>validity_l := x\<rparr>)
      else if c = 0x0d then mark VALIDITY_R (s\<lparr>validity_r := x\<rparr>)
      else if c = 0x14 then mark FRAME_COUNTER (s\<lparr>frame_counter := x\<rparr>) else s)"
| "record_column (c, CvFixed x) s =
     (if c = 0x06 then mark PUPIL_L (s\<lparr>pupil_l_mm := x\<rparr>)
      else if c = 0x0c then mark PUPIL_R (s\<lparr>pupil_r_mm := x\<rparr>) else s)"
| "record_column (c, CvPoint2d p) s =
     (if c = 0x05 then mark GAZE_2D_L (s\<lparr>gaze_point_2d_l := p\<rparr>)
      else if c = 0x0b then mark GAZE_2D_R (s\<lparr>gaze_point_2d_r := p\<rparr>)
      else if c = 0x1c then mark GAZE_2D (s\<lparr>gaze_point_2d := p\<rparr>)
      else if c = 0x20 then mark GAZE_2D_UNFILTERED (s\<lparr>gaze_point_2d_unfiltered := p\<rparr>) else s)"
| "record_column (c, CvPoint3d p) s =
     (if c = 0x02 then mark EYE_ORIGIN_L (s\<lparr>eye_origin_l_mm := p\<rparr>)
      else if c = 0x08 then mark EYE_ORIGIN_R (s\<lparr>eye_origin_r_mm := p\<rparr>)
      else if c = 0x03 then mark TRACKBOX_L (s\<lparr>trackbox_eye_l := p\<rparr>)
      else if c = 0x09 then mark TRACKBOX_R (s\<lparr>trackbox_eye_r := p\<rparr>)
      else if c = 0x04 then mark GAZE_3D_L (s\<lparr>gaze_point_3d_l_mm := p\<rparr>)
      else if c = 0x0a then mark GAZE_3D_R (s\<lparr>gaze_point_3d_r_mm := p\<rparr>)
      else if c = 0x17 then mark EYE_ORIGIN_RAW_L (s\<lparr>eye_origin_raw_l_mm := p\<rparr>)
      else if c = 0x18 then mark EYE_ORIGIN_RAW_R (s\<lparr>eye_origin_raw_r_mm := p\<rparr>) else s)"

definition recorded :: "u32 \<Rightarrow> kind \<Rightarrow> gaze_sample \<Rightarrow> reader \<Rightarrow> gaze_sample option \<times> reader" where
  "recorded c k s r =
     (case read_value k r of
        (Inr v, r') \<Rightarrow> (Some (record_column (c, v) s), r')
      | (Inl _, r') \<Rightarrow> (None, r'))"

lemmas recorded_unfold = recorded_def read_value_def rd_map_def rd_bind_def set_field_def set2_def
  set3_def mark_def

lemma decode_modelled:
  "decode_column 0x01 s r = recorded 0x01 KS64 s r"
  "decode_column 0x07 s r = recorded 0x07 KU32 s r"
  "decode_column 0x0d s r = recorded 0x0d KU32 s r"
  "decode_column 0x14 s r = recorded 0x14 KU32 s r"
  "decode_column 0x06 s r = recorded 0x06 KFixed16x16 s r"
  "decode_column 0x0c s r = recorded 0x0c KFixed16x16 s r"
  "decode_column 0x05 s r = recorded 0x05 KPoint2d s r"
  "decode_column 0x0b s r = recorded 0x0b KPoint2d s r"
  "decode_column 0x1c s r = recorded 0x1c KPoint2d s r"
  "decode_column 0x20 s r = recorded 0x20 KPoint2d s r"
  "decode_column 0x02 s r = recorded 0x02 KPoint3d s r"
  "decode_column 0x08 s r = recorded 0x08 KPoint3d s r"
  "decode_column 0x03 s r = recorded 0x03 KPoint3d s r"
  "decode_column 0x09 s r = recorded 0x09 KPoint3d s r"
  "decode_column 0x04 s r = recorded 0x04 KPoint3d s r"
  "decode_column 0x0a s r = recorded 0x0a KPoint3d s r"
  "decode_column 0x17 s r = recorded 0x17 KPoint3d s r"
  "decode_column 0x18 s r = recorded 0x18 KPoint3d s r"
  by (simp_all add: decode_column_def recorded_unfold split: sum.split prod.split)

lemma decode_other:
  assumes "c \<notin> set [0x01, 0x07, 0x0d, 0x14, 0x06, 0x0c, 0x05, 0x0b, 0x1c, 0x20,
    0x02, 0x08, 0x03, 0x09, 0x04, 0x0a, 0x17, 0x18]" and "column_kind c = Some k"
  shows "decode_column c s r = recorded c k s r"
  using assms
  by (cases k) (simp_all add: decode_column_def recorded_unfold skip_column_def read_ok_def
      split: sum.split prod.split)

lemma decode_column_recorded:
  "decode_column c s r =
     (case column_kind c of None \<Rightarrow> (None, r) | Some k \<Rightarrow> recorded c k s r)"
proof (cases "c \<in> set [0x01, 0x07, 0x0d, 0x14, 0x06, 0x0c, 0x05, 0x0b, 0x1c, 0x20,
    0x02, 0x08, 0x03, 0x09, 0x04, 0x0a, 0x17, 0x18]")
  case True
  then show ?thesis
    by (simp only: list.set insert_iff empty_iff) (elim disjE; simp add: decode_modelled column_kind_def)
next
  case False
  show ?thesis
  proof (cases "column_kind c")
    case None
    with False show ?thesis by (simp add: decode_column_def)
  next
    case (Some k)
    with decode_other [OF False Some] show ?thesis by simp
  qed
qed

lemma decode_columns_fold: "decode_columns n s r = fold record_column (inventory_columns n r) s"
  by (induction n arbitrary: s r)
    (auto simp: decode_column_recorded recorded_def split: prod.split sum.split option.split)

text \<open>
  C16. The sample is the fold of the inventory: on every payload the gaze decoder and the column
  inventory walk the row in step, so a decoded sample is exactly what the listed columns say, in
  their order, on top of the default sample.
\<close>

theorem gaze_decode_inventory:
  "gaze_decode payload =
     (if length payload < 2 \<or> (\<exists>e. fst (read_xds_row (rd_skip 2 (reader_new payload))) = Inl e)
      then None else Some (fold record_column (column_inventory payload) gaze_default))"
  by (auto simp: gaze_decode_def column_inventory_def decode_columns_fold split: prod.split sum.split)

section \<open>Rows as the tracker sends them\<close>

datatype raw_value = RvS64 u64 | RvU32 u32 | RvFixed u32 | RvPoint2d raw2 | RvPoint3d raw3

fun value_bytes :: "raw_value \<Rightarrow> bytes" where
  "value_bytes (RvS64 v) = s64_bytes v"
| "value_bytes (RvU32 v) = u32_bytes v"
| "value_bytes (RvFixed v) = fixed16_bytes v"
| "value_bytes (RvPoint2d p) = point2_bytes p"
| "value_bytes (RvPoint3d p) = point3_bytes p"

fun value_of :: "raw_value \<Rightarrow> column_value" where
  "value_of (RvS64 v) = CvS64 v"
| "value_of (RvU32 v) = CvU32 v"
| "value_of (RvFixed v) = CvFixed (fixed16_decode v)"
| "value_of (RvPoint2d p) = CvPoint2d (point2_val p)"
| "value_of (RvPoint3d p) = CvPoint3d (point3_val p)"

fun kind_of :: "column_value \<Rightarrow> kind" where
  "kind_of (CvS64 _) = KS64"
| "kind_of (CvU32 _) = KU32"
| "kind_of (CvFixed _) = KFixed16x16"
| "kind_of (CvPoint2d _) = KPoint2d"
| "kind_of (CvPoint3d _) = KPoint3d"

lemma read_value_kind: "read_value k r = (Inr v, r') \<Longrightarrow> kind_of v = k"
  by (cases k) (auto simp: read_value_def rd_map_def rd_bind_Inr)

text \<open>A column of the row: its id and value, of the kind the id calls for.\<close>

fun row_column_bytes :: "u32 \<times> raw_value \<Rightarrow> bytes" where
  "row_column_bytes (c, v) = column_bytes c @ value_bytes v"

fun row_column_val :: "u32 \<times> raw_value \<Rightarrow> u32 \<times> column_value" where
  "row_column_val (c, v) = (c, value_of v)"

fun row_column_ok :: "u32 \<times> raw_value \<Rightarrow> bool" where
  "row_column_ok (c, v) = (column_kind c = Some (kind_of (value_of v)))"

definition row_bytes :: "u8 \<Rightarrow> u8 \<Rightarrow> (u32 \<times> raw_value) list \<Rightarrow> bytes" where
  "row_bytes a b cols =
     a # b # tag_bytes (row_tag (length cols)) @ concat (List.map row_column_bytes cols)"

definition read_row_column :: "(u32 \<times> column_value) rd" where
  "read_row_column =
     rd_bind read_xds_column (\<lambda>c.
       case column_kind c of
         None \<Rightarrow> rd_fail (WrongTag TAG_XDS_COLUMN c)
       | Some k \<Rightarrow> rd_bind (read_value k) (\<lambda>v. rd_return (c, v)))"

lemma read_value_safe [rd_safe_intros, rd_stable_intros]:
  "rd_safe (read_value k)" "rd_stable (read_value k)"
  by (cases k; simp add: read_value_def rd_map_def; intro rd_safe_intros rd_stable_intros)+

lemma read_row_column_safe: "rd_safe read_row_column" "rd_stable read_row_column"
proof -
  have f: "rd_safe (case column_kind c of None \<Rightarrow> rd_fail (WrongTag TAG_XDS_COLUMN c)
      | Some k \<Rightarrow> rd_bind (read_value k) (\<lambda>v. rd_return (c, v)))" for c
    by (cases "column_kind c") (auto intro!: rd_safe_intros)
  have g: "rd_stable (case column_kind c of None \<Rightarrow> rd_fail (WrongTag TAG_XDS_COLUMN c)
      | Some k \<Rightarrow> rd_bind (read_value k) (\<lambda>v. rd_return (c, v)))" for c
    by (cases "column_kind c") (auto intro!: rd_safe_intros rd_stable_intros)
  show "rd_safe read_row_column" "rd_stable read_row_column"
    unfolding read_row_column_def
    by (rule rd_safe_bind [OF rd_safe_composites(2) f],
        rule rd_stable_bind [OF rd_safe_composites(2) rd_stable_composites(2) g])
qed

lemma read_value_enc:
  assumes "rest r = value_bytes v @ t"
  shows "read_value (kind_of (value_of v)) r = (Inr (value_of v), adv (length (value_bytes v)) r)"
  using assms
  by (cases v) (simp_all add: read_value_def rd_map_def s64_field.bind_read u32_field.bind_read
      fixed16_field.bind_read point2_field.bind_read point3_field.bind_read
      del: point2_bytes.simps point3_bytes.simps)

lemma read_xds_column_empty: "\<not> 0 < remaining r \<Longrightarrow> \<exists>e r'. read_xds_column r = (Inl e, r')"
  by (simp add: remaining_rest read_xds_column_def read_prolog_tag_def read_header_def
      read_header_var_def rd_bind_def rd_u8_rest)

interpretation row: field_sequence read_row_column row_column_bytes row_column_val row_column_ok
  inventory_columns
proof
  fix a r t assume "row_column_ok a" "rest r = row_column_bytes a @ t"
  then show "read_row_column r = (Inr (row_column_val a), adv (length (row_column_bytes a)) r)"
    by (cases a) (simp add: read_row_column_def column_field.bind_read read_value_enc)
next
  show "inventory_columns (Suc n) r = (case read_row_column r of
      (Inr v, r') \<Rightarrow> v # inventory_columns n r' | (Inl e, r') \<Rightarrow> [])" for n r
  proof (cases "0 < remaining r")
    case True
    then show ?thesis
      by (simp add: read_row_column_def rd_bind_def rd_fail_def
          split: prod.split sum.split option.split)
  next
    case False
    with read_xds_column_empty [OF False] show ?thesis by (auto simp: read_row_column_def)
  qed
next
  show "row_column_bytes a \<noteq> []" for a by (cases a) (simp add: column_bytes_def tag_bytes_def)
qed (simp_all add: read_row_column_safe)

lemma read_row_column_kind:
  "read_row_column r = (Inr (c, v), r') \<Longrightarrow> column_kind c = Some (kind_of v)"
  by (auto simp: read_row_column_def rd_bind_Inr dest: read_value_kind split: option.splits)

lemma inventory_kind: "(c, v) \<in> set (inventory_columns n r) \<Longrightarrow> column_kind c = Some (kind_of v)"
  using row.loop_elements [of "\<lambda>(c, v). column_kind c = Some (kind_of v)" "(c, v)"]
    read_row_column_kind by (simp add: split_paired_all)

section \<open>The presence mask\<close>

text \<open>The flag of each modelled column.\<close>

definition column_flags :: "(u32 \<times> u32) list" where
  "column_flags =
     [(0x01, TIMESTAMP), (0x14, FRAME_COUNTER), (0x07, VALIDITY_L), (0x0d, VALIDITY_R),
      (0x06, PUPIL_L), (0x0c, PUPIL_R), (0x1c, GAZE_2D), (0x05, GAZE_2D_L), (0x0b, GAZE_2D_R),
      (0x02, EYE_ORIGIN_L), (0x08, EYE_ORIGIN_R), (0x20, GAZE_2D_UNFILTERED),
      (0x17, EYE_ORIGIN_RAW_L), (0x18, EYE_ORIGIN_RAW_R), (0x04, GAZE_3D_L), (0x0a, GAZE_3D_R),
      (0x03, TRACKBOX_L), (0x09, TRACKBOX_R)]"

definition flag_of :: "u32 \<Rightarrow> u32" where
  "flag_of c = (case map_of column_flags c of Some f \<Rightarrow> f | None \<Rightarrow> 0)"

lemma record_column_mask:
  assumes "column_kind c = Some (kind_of v)"
  shows "present_mask (record_column (c, v) s) = present_mask s OR flag_of c"
proof (cases "c \<in> set [0x01, 0x07, 0x0d, 0x14, 0x06, 0x0c, 0x05, 0x0b, 0x1c, 0x20,
    0x02, 0x08, 0x03, 0x09, 0x04, 0x0a, 0x17, 0x18]")
  case True
  then show ?thesis using assms
    by (simp only: list.set insert_iff empty_iff)
      (elim disjE; cases v; simp add: mark_def flag_of_def column_flags_def column_kind_def)
next
  case False
  then have "map_of column_flags c = None" by (simp add: column_flags_def)
  with False show ?thesis by (cases v) (simp_all add: flag_of_def)
qed

lemma flags_disjoint:
  "\<forall>(c, f) \<in> set column_flags. \<forall>(d, g) \<in> set column_flags. (g AND f \<noteq> 0) = (d = c)"
  unfolding flag_defs column_flags_def by code_simp

lemma has_fold:
  assumes "(c, f) \<in> set column_flags"
    and "\<forall>(d, v) \<in> set cvs. column_kind d = Some (kind_of v)"
  shows "has (fold record_column cvs s) f \<longleftrightarrow> has s f \<or> c \<in> fst ` set cvs"
  using assms(2)
proof (induction cvs arbitrary: s)
  case (Cons cv cvs)
  obtain d v where cv: "cv = (d, v)" by fastforce
  have m: "present_mask (record_column (d, v) s) = present_mask s OR flag_of d"
    using Cons.prems cv by (intro record_column_mask) auto
  have "flag_of d AND f \<noteq> 0 \<longleftrightarrow> d = c"
  proof (cases "map_of column_flags d")
    case None
    then have "d \<noteq> c" using assms(1) by (force simp: map_of_eq_None_iff)
    with None show ?thesis by (simp add: flag_of_def)
  next
    case (Some g)
    then have "(d, g) \<in> set column_flags" by (rule map_of_SomeD)
    with flags_disjoint assms(1) have "(g AND f \<noteq> 0) = (d = c)" by fast
    with Some show ?thesis by (simp add: flag_of_def)
  qed
  then have "has (record_column (d, v) s) f \<longleftrightarrow> has s f \<or> d = c"
    by (auto simp: has_def m bit.conj_disj_distrib2 or_eq_0_iff)
  then show ?case using Cons.IH [of "record_column (d, v) s"] Cons.prems cv by auto
qed simp

text \<open>
  The presence mask is right: for every payload that decodes, a flag is set exactly when the
  column it stands for was read, for all eighteen flags; a truncated or foreign column raises none.
\<close>

theorem gaze_mask_iff_column:
  assumes "gaze_decode payload = Some s" and "(c, f) \<in> set column_flags"
  shows "has s f \<longleftrightarrow> c \<in> fst ` set (column_inventory payload)"
proof -
  have "s = fold record_column (column_inventory payload) gaze_default"
    using assms(1)
    by (auto simp: gaze_decode_def column_inventory_def decode_columns_fold
        split: prod.splits sum.splits if_splits)
  moreover have "\<forall>(d, v) \<in> set (column_inventory payload). column_kind d = Some (kind_of v)"
    by (auto simp: column_inventory_def inventory_kind split: prod.splits sum.splits if_splits)
  moreover have "\<not> has gaze_default f" by (simp add: has_def gaze_default_def)
  ultimately show ?thesis using has_fold [OF assms(2)] by blast
qed

lemma inventory_complete:
  assumes "\<forall>c \<in> set cols. row_column_ok c" and "length cols < 65536"
  shows "column_inventory (take k (row_bytes a b cols)) =
    List.map row_column_val (complete_prefix row_column_bytes (k - 11) cols)"
proof -
  let ?p = "take k (row_bytes a b cols)" and ?c = "concat (List.map row_column_bytes cols)"
  define r where "r = rd_skip 2 (reader_new ?p)"
  have w: "rpos r \<le> length (rbuf r)" unfolding r_def by (rule skip_within)
  have r: "rest r = take (k - 2) (tag_bytes (row_tag (length cols)) @ ?c)"
    by (simp add: r_def row_bytes_def drop_take)
  have n: "unat (of_nat (length cols) :: u32) = length cols"
    unfolding unat_of_nat_u32 using assms(2) by simp
  show ?thesis
  proof (cases "k < 11")
    case False
    then have r1: "rest r = tag_bytes (row_tag (length cols)) @ take (k - 11) ?c"
      unfolding r by simp
    then have "read_xds_row r = (Inr (of_nat (length cols)), adv 9 r)"
      using row_field.read_enc [OF assms(2) r1] by simp
    then have "column_inventory ?p = inventory_columns (length cols) (adv 9 r)"
      using False n unfolding column_inventory_def r_def [symmetric]
      by (simp add: row_bytes_def min_def)
    moreover have "rpos (adv 9 r) \<le> length (rbuf (adv 9 r))"
      using w r1 by (intro adv_within) simp_all
    moreover have "rest (adv 9 r) = take (k - 11) ?c" using r1 by simp
    ultimately show ?thesis using assms(1) by (simp add: row.loop_complete del: adv_sel)
  next
    case True
    have "\<exists>e r'. read_xds_row r = (Inl e, r')"
    proof (rule rd_truncated [OF rd_safe_composites(1) rd_stable_composites(1)])
      show "read_xds_row q = (Inr (of_nat (length cols)), adv (length (tag_bytes (row_tag (length cols)))) q)"
        if "rest q = tag_bytes (row_tag (length cols)) @ t" for q t
        using row_field.read_enc [OF assms(2) that] .
      show "rest r = take (k - 2) (tag_bytes (row_tag (length cols)))" using True unfolding r by simp
    qed (use True w in simp_all)
    then have "column_inventory ?p = []"
      unfolding column_inventory_def r_def [symmetric] by auto
    with True show ?thesis by simp
  qed
qed

text \<open>
  Gaze rows survive truncation: cut a well-formed notification anywhere, and the inventory
  holds exactly the columns that are complete, with their values, in order. With C16 this is what
  the decoded sample is made of.
\<close>

theorem inventory_keeps_complete_columns:
  assumes "\<forall>c \<in> set cols. row_column_ok c" and "length cols < 65536"
  shows "column_inventory (take k (row_bytes a b cols)) =
    List.map row_column_val (complete_prefix row_column_bytes (k - 11) cols)"
  using assms by (rule inventory_complete)

theorem inventory_keeps_complete_columns_witness:
  "column_inventory (take 90 (row_bytes 0 0 [(0x01, RvS64 7), (0x14, RvU32 3), (0x05, RvPoint2d (0, 0))])) =
    [(0x01, CvS64 7), (0x14, CvU32 3)]"
  by (subst inventory_keeps_complete_columns) (simp_all add: column_kind_def)

lemma gaze_decode_row:
  assumes "\<forall>c \<in> set cols. row_column_ok c" and "length cols < 65536"
  shows "column_inventory (row_bytes a b cols) = List.map row_column_val cols"
    and "gaze_decode (row_bytes a b cols) =
      Some (fold record_column (List.map row_column_val cols) gaze_default)"
proof -
  let ?p = "row_bytes a b cols"
  show i: "column_inventory ?p = List.map row_column_val cols"
    using inventory_complete [OF assms, of "length ?p" a b]
    by (simp add: complete_prefix_all row_bytes_def)
  have "read_xds_row (rd_skip 2 (reader_new ?p)) =
      (Inr (of_nat (length cols)), adv 9 (rd_skip 2 (reader_new ?p)))"
    using row_field.read_enc [OF assms(2), of "rd_skip 2 (reader_new ?p)"] by (simp add: row_bytes_def)
  moreover have "\<not> length ?p < 2" by (simp add: row_bytes_def)
  ultimately show "gaze_decode ?p = Some (fold record_column (List.map row_column_val cols) gaze_default)"
    using i by (simp add: gaze_decode_def decode_columns_fold column_inventory_def)
qed

theorem gaze_mask_iff_column_witness:
  "has (the (gaze_decode (row_bytes 0 0 [(0x14, RvU32 3)]))) FRAME_COUNTER \<and>
   \<not> has (the (gaze_decode (row_bytes 0 0 [(0x14, RvU32 3)]))) TIMESTAMP"
proof -
  let ?p = "row_bytes 0 0 [(0x14, RvU32 3)]"
  have v: "\<forall>c \<in> set [(0x14, RvU32 3)]. row_column_ok c" by (simp add: column_kind_def)
  have d: "gaze_decode ?p = Some (the (gaze_decode ?p))" using gaze_decode_row(2) [OF v] by simp
  have i: "column_inventory ?p = [(0x14, CvU32 3)]" using gaze_decode_row(1) [OF v] by simp
  have "(0x14, FRAME_COUNTER) \<in> set column_flags" "(0x01, TIMESTAMP) \<in> set column_flags"
    by (simp_all add: column_flags_def)
  from gaze_mask_iff_column [OF d this(1)] gaze_mask_iff_column [OF d this(2)]
  show ?thesis unfolding i by simp
qed

end
