(* ===== verification/Camera.thy ===== *)
theory Camera
  imports Tlv
begin

unbundle bit_operations_syntax

text \<open>
  Eye-camera frames (\<^verbatim>\<open>camera.rs\<close>): the TLV walk that collects the numbers and the pixel blob of
  a frame, and the search for the two numbers that are its dimensions.
\<close>

section \<open>The decoder\<close>

record camera_frame =
  cam_timestamp_us :: u64
  cam_width :: u32
  cam_height :: u32
  cam_bit_depth :: u32
  cam_pixels :: bytes

definition BLOB_PREFIX :: nat where "BLOB_PREFIX = 4"
definition TYPE_U32 :: u8 where "TYPE_U32 = 0x02"
definition TYPE_S64 :: u8 where "TYPE_S64 = 0x06"
definition TYPE_BLOB :: u8 where "TYPE_BLOB = 0x15"
definition TYPE_MARKER :: u8 where "TYPE_MARKER = 0x05"
definition TAG_COLUMN :: u32 where "TAG_COLUMN = 0x0bb9"
definition TAG_ROW :: u32 where "TAG_ROW = 0x0bb8"

lemmas cam_defs = BLOB_PREFIX_def TYPE_U32_def TYPE_S64_def TYPE_BLOB_def TYPE_MARKER_def
  TAG_COLUMN_def TAG_ROW_def

definition next_tlv :: "bytes \<Rightarrow> nat \<Rightarrow> (u8 \<times> bytes \<times> nat) option" where
  "next_tlv b i =
     (case get_at b i of None \<Rightarrow> None | Some t \<Rightarrow>
        (case get_slice b (i + 1) (i + 5) of None \<Rightarrow> None | Some len_bytes \<Rightarrow>
           (let len = unat (of_be32 len_bytes); start = i + 5 in
            case get_slice b start (start + len) of None \<Rightarrow> None | Some v \<Rightarrow>
              Some (t, v, start + len))))"

text \<open>The mutable variables of the walk.\<close>

record cam_walk =
  w_timestamp :: u64
  w_values :: "u32 list"
  w_blob :: "bytes option"
  w_awaiting_id :: bool

definition cam_walk_new :: cam_walk where
  "cam_walk_new = \<lparr>w_timestamp = 0, w_values = [], w_blob = None, w_awaiting_id = False\<rparr>"

definition cam_element :: "u8 \<Rightarrow> bytes \<Rightarrow> cam_walk \<Rightarrow> cam_walk" where
  "cam_element t v w =
     (if t = TYPE_MARKER \<and> length v = 4 then
        let tag = of_be32 v AND 0xffff in
        if tag = TAG_COLUMN \<or> tag = TAG_ROW then w\<lparr>w_awaiting_id := True\<rparr> else w
      else if w_awaiting_id w \<and> t = TYPE_U32 \<and> length v = 4 then w\<lparr>w_awaiting_id := False\<rparr>
      else if t = TYPE_S64 \<and> length v = 8 then w\<lparr>w_timestamp := of_be64 v\<rparr>
      else if t = TYPE_U32 \<and> length v = 4 then w\<lparr>w_values := w_values w @ [of_be32 v]\<rparr>
      else if t = TYPE_BLOB \<and> BLOB_PREFIX < length v then w\<lparr>w_blob := Some v\<rparr>
      else w)"

lemma next_tlv_bounds: "next_tlv b i = Some (t, v, n) \<Longrightarrow> i < n \<and> i < length b \<and> n \<le> length b"
  by (auto simp: next_tlv_def get_at_def get_slice_def Let_def split: option.splits if_splits)

function walk_tlv :: "bytes \<Rightarrow> nat \<Rightarrow> cam_walk \<Rightarrow> cam_walk" where
  "walk_tlv b i w =
     (case next_tlv b i of None \<Rightarrow> w | Some (t, v, n) \<Rightarrow> walk_tlv b n (cam_element t v w))"
  by pat_completeness auto
termination
  by (relation "measure (\<lambda>(b, i, w). length b - i)") (auto dest!: next_tlv_bounds)

declare walk_tlv.simps [simp del]

section \<open>The dimensions\<close>

definition last_idx :: "u32 list \<Rightarrow> (u32 \<rightharpoonup> nat)" where
  "last_idx vals = fold (\<lambda>(i, v) m. m(v \<mapsto> i)) (List.enumerate 0 vals) Map.empty"

fun scan_dims :: "(u32 \<rightharpoonup> nat) \<Rightarrow> nat \<Rightarrow> (nat \<times> u32) list \<Rightarrow> (u32 \<times> u32) option" where
  "scan_dims m pixel_count [] = None"
| "scan_dims m pixel_count ((a, w) # ts) =
     (if unat w < 8 \<or> pixel_count = 0 \<or> pixel_count mod unat w \<noteq> 0 then scan_dims m pixel_count ts
      else (let h = pixel_count div unat w in
        if h < 8 \<or> 2 ^ 32 - 1 < h then scan_dims m pixel_count ts
        else if (case m (of_nat h) of Some b \<Rightarrow> a < b | None \<Rightarrow> False) then Some (w, of_nat h)
        else scan_dims m pixel_count ts))"

definition find_dims :: "u32 list \<Rightarrow> nat \<Rightarrow> (u32 \<times> u32) option" where
  "find_dims vals pixel_count =
     scan_dims (last_idx vals) pixel_count (rev (List.enumerate 0 vals))"

definition decode_camera_frame :: "bytes \<Rightarrow> camera_frame option" where
  "decode_camera_frame payload =
     (let w = walk_tlv payload 2 cam_walk_new in
      case w_blob w of None \<Rightarrow> None | Some blob \<Rightarrow>
        (let pixels = drop BLOB_PREFIX blob in
         case find_dims (w_values w) (length pixels) of None \<Rightarrow> None | Some (width, height) \<Rightarrow>
           Some \<lparr>cam_timestamp_us = w_timestamp w, cam_width = width, cam_height = height,
             cam_bit_depth =
               (case List.find (\<lambda>n. n \<noteq> width \<and> n \<noteq> height \<and> n \<le> 32) (w_values w) of
                  Some n \<Rightarrow> n | None \<Rightarrow> 8),
             cam_pixels = pixels\<rparr>))"

section \<open>The quadratic search\<close>

text \<open>
  What the comment on \<^verbatim>\<open>find_dims\<close> says it replaces: every value against every later one, the last
  pair that fits wins.
\<close>

definition dims_ok :: "nat \<Rightarrow> u32 \<Rightarrow> u32 \<Rightarrow> bool" where
  "dims_ok n w h \<longleftrightarrow> 8 \<le> unat w \<and> 8 \<le> unat h \<and> unat w * unat h = n"

definition all_dims :: "u32 list \<Rightarrow> nat \<Rightarrow> (u32 \<times> u32) list" where
  "all_dims vals n =
     concat (List.map (\<lambda>a. List.map (\<lambda>b. (vals ! a, vals ! b))
       (List.filter (\<lambda>b. dims_ok n (vals ! a) (vals ! b)) [Suc a..<length vals])) [0..<length vals])"

definition find_dims_quadratic :: "u32 list \<Rightarrow> nat \<Rightarrow> (u32 \<times> u32) option" where
  "find_dims_quadratic vals n =
     (if all_dims vals n = [] then None else Some (last (all_dims vals n)))"

lemma last_idx_snoc: "last_idx (vs @ [v]) = (last_idx vs)(v \<mapsto> length vs)"
  by (simp add: last_idx_def enumerate_append_eq)

lemma last_idx_Some:
  "last_idx vals v = Some b \<longleftrightarrow> b < length vals \<and> vals ! b = v \<and> (\<forall>c < length vals. vals ! c = v \<longrightarrow> c \<le> b)"
proof (induction vals rule: rev_induct)
  case (snoc x xs)
  then show ?case by (auto simp: last_idx_snoc nth_append less_Suc_eq)
qed (simp add: last_idx_def)

lemma last_idx_None: "last_idx vals v = None \<longleftrightarrow> v \<notin> set vals"
proof (induction vals rule: rev_induct)
  case (snoc x xs)
  then show ?case by (auto simp: last_idx_snoc)
qed (simp add: last_idx_def)

text \<open>The pairs that start at \<open>a\<close>.\<close>

definition dims_at :: "u32 list \<Rightarrow> nat \<Rightarrow> nat \<Rightarrow> (u32 \<times> u32) list" where
  "dims_at vals n a = List.map (\<lambda>b. (vals ! a, vals ! b))
     (List.filter (\<lambda>b. dims_ok n (vals ! a) (vals ! b)) [Suc a..<length vals])"

lemma dims_ok_div:
  "dims_ok n w h \<longleftrightarrow> 8 \<le> unat w \<and> n \<noteq> 0 \<and> n mod unat w = 0 \<and> 8 \<le> n div unat w \<and>
     n div unat w \<le> 2 ^ 32 - 1 \<and> h = of_nat (n div unat w)"
proof
  assume d: "dims_ok n w h"
  then have w: "8 \<le> unat w" "8 \<le> unat h" and n: "n = unat w * unat h" by (auto simp: dims_ok_def)
  then have "n div unat w = unat h" by simp
  moreover have "unat h < 2 ^ 32" using unsigned_less [of h, where ?'a = nat] by simp
  ultimately show "8 \<le> unat w \<and> n \<noteq> 0 \<and> n mod unat w = 0 \<and> 8 \<le> n div unat w \<and>
     n div unat w \<le> 2 ^ 32 - 1 \<and> h = of_nat (n div unat w)"
    using w n by auto
next
  assume a: "8 \<le> unat w \<and> n \<noteq> 0 \<and> n mod unat w = 0 \<and> 8 \<le> n div unat w \<and>
     n div unat w \<le> 2 ^ 32 - 1 \<and> h = of_nat (n div unat w)"
  then have "unat h = n div unat w" by (simp add: unat_of_nat_u32)
  with a show "dims_ok n w h" by (auto simp: dims_ok_def)
qed

lemma scan_dims_step:
  assumes "a < length vals"
  shows "scan_dims (last_idx vals) n ((a, vals ! a) # ts) =
    (if dims_at vals n a = [] then scan_dims (last_idx vals) n ts
     else Some (last (dims_at vals n a)))"
proof (cases "\<exists>b \<in> set [Suc a..<length vals]. dims_ok n (vals ! a) (vals ! b)")
  case True
  then obtain b where b: "Suc a \<le> b" "b < length vals" "dims_ok n (vals ! a) (vals ! b)" by auto
  let ?h = "n div unat (vals ! a)"
  note d = b(3) [unfolded dims_ok_div]
  have ne: "dims_at vals n a \<noteq> []" using b by (auto simp: dims_at_def filter_empty_conv)
  then have "last (dims_at vals n a) \<in> set (dims_at vals n a)" by simp
  then have "last (dims_at vals n a) = (vals ! a, of_nat ?h)"
    by (auto simp: dims_at_def dims_ok_div)
  moreover obtain c where c: "last_idx vals (of_nat ?h) = Some c"
    using last_idx_None [of vals "of_nat ?h"] nth_mem [OF b(2)] d by (cases "last_idx vals (of_nat ?h)") auto
  moreover have "a < c" using c b d unfolding last_idx_Some by fastforce
  ultimately show ?thesis using d ne by (simp add: Let_def)
next
  case False
  then have e: "dims_at vals n a = []" by (simp add: dims_at_def filter_empty_conv)
  have "b \<le> a" if l: "last_idx vals (of_nat (n div unat (vals ! a))) = Some b"
    and w: "8 \<le> unat (vals ! a)" "n \<noteq> 0" "n mod unat (vals ! a) = 0" "8 \<le> n div unat (vals ! a)"
      "n div unat (vals ! a) \<le> 2 ^ 32 - 1" for b
  proof (rule ccontr)
    assume "\<not> b \<le> a"
    moreover have "dims_ok n (vals ! a) (vals ! b)" "b < length vals"
      using l w unfolding last_idx_Some dims_ok_div by auto
    ultimately show False using False by auto
  qed
  then show ?thesis using e by (auto simp: Let_def not_less split: option.splits)
qed

lemma scan_dims_all:
  "k \<le> length vals \<Longrightarrow> scan_dims (last_idx vals) n (rev (List.map (\<lambda>a. (a, vals ! a)) [0..<k])) =
     (let ps = concat (List.map (dims_at vals n) [0..<k]) in if ps = [] then None else Some (last ps))"
  by (induction k) (auto simp: scan_dims_step Let_def simp del: scan_dims.simps(2))

lemma enumerate_map: "List.enumerate 0 vals = List.map (\<lambda>a. (a, vals ! a)) [0..<length vals]"
  by (rule nth_equalityI) (auto simp: nth_enumerate_eq)

lemma linear_search: "find_dims vals n = find_dims_quadratic vals n"
  unfolding find_dims_def find_dims_quadratic_def all_dims_def dims_at_def [symmetric]
    enumerate_map scan_dims_all [OF order_refl] Let_def by (rule refl)

text \<open>
  The linear search is the quadratic one: looking up the one height that fits each width, from
  the back and against the last index of each value, returns the pair the nested loop would end with.
\<close>

theorem find_dims_eq_quadratic: "find_dims vals n = find_dims_quadratic vals n"
  by (rule linear_search)

section \<open>Frames\<close>

text \<open>
  A decoded frame is consistent: whatever the payload, the dimensions of a frame that decodes
  are both at least 8 and their product is the number of its pixels.
\<close>

theorem camera_frame_consistent:
  assumes "decode_camera_frame payload = Some f"
  shows "unat (cam_width f) * unat (cam_height f) = length (cam_pixels f) \<and>
    8 \<le> unat (cam_width f) \<and> 8 \<le> unat (cam_height f)"
proof -
  have "dims_ok n w h" if "find_dims vals n = Some (w, h)" for vals n w h
  proof -
    from that have e: "all_dims vals n \<noteq> []" "last (all_dims vals n) = (w, h)"
      unfolding linear_search find_dims_quadratic_def by (auto split: if_splits)
    then have "(w, h) \<in> set (all_dims vals n)" using last_in_set by metis
    then show ?thesis by (auto simp: all_dims_def)
  qed
  with assms show ?thesis
    by (auto simp: decode_camera_frame_def dims_ok_def Let_def split: option.splits prod.splits)
qed

text \<open>A frame in the shape the tracker sends.\<close>

definition tlv_bytes :: "u8 \<Rightarrow> bytes \<Rightarrow> bytes" where
  "tlv_bytes t v = t # be32 (of_nat (length v)) @ v"

lemma next_tlv_bytes:
  assumes "length v < 2 ^ 32"
  shows "next_tlv (p @ tlv_bytes t v @ q) (length p) = Some (t, v, length p + 5 + length v)"
proof -
  have "unat (of_nat (length v) :: u32) = length v"
    using assms unfolding unat_of_nat_u32 by simp
  then show ?thesis
    by (simp add: next_tlv_def get_at_def get_slice_def sub_slice_def tlv_bytes_def nth_append)
qed

definition elements_bytes :: "(u8 \<times> bytes) list \<Rightarrow> bytes" where
  "elements_bytes es = concat (List.map (\<lambda>(t, v). tlv_bytes t v) es)"

lemma walk_elements:
  "\<forall>(t, v) \<in> set es. length v < 2 ^ 32 \<Longrightarrow>
   walk_tlv (p @ elements_bytes es) (length p) w = fold (\<lambda>(t, v). cam_element t v) es w"
proof (induction es arbitrary: p w)
  case Nil
  then show ?case
    by (subst walk_tlv.simps) (simp add: elements_bytes_def next_tlv_def get_at_def)
next
  case (Cons e es)
  obtain t v where e: "e = (t, v)" by fastforce
  let ?p = "p @ tlv_bytes t v"
  have "walk_tlv (p @ elements_bytes (e # es)) (length p) w =
      walk_tlv (?p @ elements_bytes es) (length ?p) (cam_element t v w)"
    using Cons.prems
    by (subst walk_tlv.simps)
      (simp add: e elements_bytes_def next_tlv_bytes, simp add: tlv_bytes_def add.assoc)
  also have "\<dots> = fold (\<lambda>(t, v). cam_element t v) es (cam_element t v w)"
    using Cons.IH [of ?p] Cons.prems by simp
  finally show ?case by (simp add: e)
qed

definition camera_elements :: "u64 \<Rightarrow> u32 \<Rightarrow> u32 \<Rightarrow> bytes \<Rightarrow> (u8 \<times> bytes) list" where
  "camera_elements ts w h blob =
     (let col = \<lambda>c t v. [(TYPE_MARKER, be32 0x020bb9), (TYPE_U32, be32 c), (t, v)] in
      (TYPE_MARKER, be32 0x050bb8) # col 1 TYPE_S64 (be64 ts) @ col 2 TYPE_U32 (be32 8) @
      col 3 TYPE_U32 (be32 w) @ col 4 TYPE_U32 (be32 h) @ col 5 TYPE_BLOB blob)"

lemma walk_camera_elements:
  assumes "4 < length blob"
  shows "fold (\<lambda>(t, v). cam_element t v) (camera_elements ts w h blob) cam_walk_new =
    \<lparr>w_timestamp = ts, w_values = [8, w, h], w_blob = Some blob, w_awaiting_id = False\<rparr>"
proof -
  have m: "(0x020bb9 AND 0xffff :: u32) = 0x0bb9" "(0x050bb8 AND 0xffff :: u32) = 0x0bb8" by code_simp+
  show ?thesis using assms
    by (simp add: camera_elements_def cam_element_def cam_defs cam_walk_new_def m)
qed

lemma find_dims_frame:
  assumes "8 \<le> unat w" "8 \<le> unat h"
  shows "find_dims [8, w, h] (unat w * unat h) = Some (w, h)"
proof -
  have "[0..<3] = [0, 1, 2 :: nat]" "[Suc 0..<3] = [1, 2 :: nat]" "[2..<3] = [2 :: nat]"
    by (simp_all add: upt_rec)
  with assms show ?thesis
    by (simp add: linear_search find_dims_quadratic_def all_dims_def dims_ok_def numeral_2_eq_2
        numeral_3_eq_3 upt_rec)
qed

lemma frame_roundtrip:
  assumes "length prefix = 4" "length px = unat w * unat h" "length px + 4 < 2 ^ 32"
    and "8 \<le> unat w" "8 \<le> unat h"
  shows "decode_camera_frame ([a, b] @ elements_bytes (camera_elements ts w h (prefix @ px))) =
    Some \<lparr>cam_timestamp_us = ts, cam_width = w, cam_height = h, cam_bit_depth = 8, cam_pixels = px\<rparr>"
proof -
  have "0 < unat w * unat h" using assms(4,5) by simp
  then have blob: "4 < length (prefix @ px)" using assms(1,2) by simp
  have "\<forall>(t, v) \<in> set (camera_elements ts w h (prefix @ px)). length v < 2 ^ 32"
    using assms(1,3) by (simp add: camera_elements_def)
  then have "walk_tlv ([a, b] @ elements_bytes (camera_elements ts w h (prefix @ px))) 2 cam_walk_new =
      \<lparr>w_timestamp = ts, w_values = [8, w, h], w_blob = Some (prefix @ px), w_awaiting_id = False\<rparr>"
    using walk_elements [of "camera_elements ts w h (prefix @ px)" "[a, b]" cam_walk_new]
      walk_camera_elements [OF blob] by (simp add: numeral_2_eq_2)
  moreover have "find_dims [8, w, h] (length px) = Some (w, h)"
    unfolding assms(2) by (rule find_dims_frame [OF assms(4,5)])
  moreover have "(case List.find (\<lambda>n. n \<noteq> w \<and> n \<noteq> h \<and> n \<le> 32) [8, w, h] of
      Some n \<Rightarrow> n | None \<Rightarrow> 8) = (8 :: u32)"
    by (simp split: option.split)
  ultimately show ?thesis using assms(1)
    by (simp add: decode_camera_frame_def BLOB_PREFIX_def Let_def)
qed

text \<open>
  Frames round trip: a frame in the wire shape of the image streams, of any dimensions of at
  least 8, decodes to its timestamp, its dimensions and exactly its pixels.
\<close>

theorem camera_frame_roundtrip:
  assumes "length prefix = 4" "length px = unat w * unat h" "length px + 4 < 2 ^ 32"
    and "8 \<le> unat w" "8 \<le> unat h"
  shows "decode_camera_frame ([a, b] @ elements_bytes (camera_elements ts w h (prefix @ px))) =
    Some \<lparr>cam_timestamp_us = ts, cam_width = w, cam_height = h, cam_bit_depth = 8, cam_pixels = px\<rparr>"
  using assms by (rule frame_roundtrip)

theorem camera_frame_roundtrip_witness:
  "decode_camera_frame ([0, 0] @ elements_bytes (camera_elements 42 9 8 ([0, 1, 0, 0] @ replicate 72 7))) =
    Some \<lparr>cam_timestamp_us = 42, cam_width = 9, cam_height = 8, cam_bit_depth = 8,
      cam_pixels = replicate 72 7\<rparr>"
  by (rule camera_frame_roundtrip) simp_all

theorem camera_frame_consistent_witness:
  "unat (9 :: u32) * unat (8 :: u32) = length (replicate 72 (7 :: u8)) \<and>
    8 \<le> unat (9 :: u32) \<and> 8 \<le> unat (8 :: u32)"
proof -
  have "decode_camera_frame ([0, 0] @ elements_bytes (camera_elements 42 9 8 ([0, 1, 0, 0] @ replicate 72 7))) =
    Some \<lparr>cam_timestamp_us = 42, cam_width = 9, cam_height = 8, cam_bit_depth = 8,
      cam_pixels = replicate 72 7\<rparr>"
    by (rule frame_roundtrip) simp_all
  from camera_frame_consistent [OF this] show ?thesis by simp
qed

end
