(* ===== verification/IpcCodec.thy ===== *)
theory IpcCodec
  imports Text
begin

text \<open>
  The daemon's wire format (\<^verbatim>\<open>tobii-ipc\<close>: \<^verbatim>\<open>lib.rs\<close>, \<^verbatim>\<open>codec.rs\<close>): message kinds, the
  status and lease bytes, the eight-byte header, \<open>encode\<close> and \<open>decode\<close>. The locale
  \<open>stream_codec\<close> is what the readers of server and client rely on: a complete message at the front
  decodes whatever follows it, a part of one is left alone. From it follows that the reader loop
  delivers the same messages however the stream is cut into reads.
\<close>

section \<open>Kinds, status and lease bytes\<close>

definition PROTO_VERSION :: u32 where "PROTO_VERSION = 1"
definition HEADER_LEN :: nat where "HEADER_LEN = 8"
definition MAX_PAYLOAD :: nat where "MAX_PAYLOAD = 2 ^ 20"

definition HELLO :: u16 where "HELLO = 0x0001"
definition WELCOME :: u16 where "WELCOME = 0x0002"
definition STATUS :: u16 where "STATUS = 0x0010"
definition NOTIFY :: u16 where "NOTIFY = 0x0011"
definition POSE :: u16 where "POSE = 0x0012"
definition LEASE :: u16 where "LEASE = 0x0030"
definition LEASE_REPLY :: u16 where "LEASE_REPLY = 0x0031"
definition RECENTRE :: u16 where "RECENTRE = 0x0032"
definition RECENTRE_REPLY :: u16 where "RECENTRE_REPLY = 0x0033"

lemmas kind_defs = HELLO_def WELCOME_def STATUS_def NOTIFY_def POSE_def LEASE_def LEASE_REPLY_def
  RECENTRE_def RECENTRE_REPLY_def

datatype status_code = Connecting | Connected | StatusError | Leased | Idle

fun status_to_wire :: "status_code \<Rightarrow> u8" where
  "status_to_wire Connecting = 0"
| "status_to_wire Connected = 1"
| "status_to_wire StatusError = 2"
| "status_to_wire Leased = 3"
| "status_to_wire Idle = 4"

definition status_from_wire :: "u8 \<Rightarrow> status_code" where
  "status_from_wire b =
     (if b = 0 then Connecting else if b = 1 then Connected else if b = 3 then Leased
      else if b = 4 then Idle else StatusError)"

datatype lease_action = Acquire | Release

fun lease_to_wire :: "lease_action \<Rightarrow> u8" where
  "lease_to_wire Acquire = 0"
| "lease_to_wire Release = 1"

definition lease_from_wire :: "u8 \<Rightarrow> lease_action" where
  "lease_from_wire b = (if b = 0 then Acquire else Release)"

section \<open>Messages\<close>

datatype ipc_msg =
    Hello u32 u32 str
  | Welcome u32 u32 u32
  | Status status_code str
  | Notify u32 bytes
  | PoseMsg bytes
  | Lease lease_action
  | LeaseReply bool str
  | Recentre
  | RecentreReply bool str
  | Unknown u16 bytes

datatype decoded = Message ipc_msg nat | Incomplete

datatype codec_error = PayloadTooLarge nat | Malformed string

definition u32_at :: "bytes \<Rightarrow> nat \<Rightarrow> u32" where
  "u32_at b off = of_le32 (sub_slice off (off + 4) b)"

definition u16_at :: "bytes \<Rightarrow> nat \<Rightarrow> u16" where
  "u16_at b off = of_le16 (sub_slice off (off + 2) b)"

definition framed :: "u16 \<Rightarrow> bytes \<Rightarrow> bytes" where
  "framed k payload = le16 k @ le16 0 @ le32 (of_nat (length payload)) @ payload"

definition tagged :: "u8 \<Rightarrow> str \<Rightarrow> bytes" where
  "tagged tag txt = tag # utf8_enc txt"

definition bool_byte :: "bool \<Rightarrow> u8" where
  "bool_byte b = (if b then 1 else 0)"

fun encode :: "ipc_msg \<Rightarrow> bytes" where
  "encode (Hello version subs name) =
     (let n = utf8_enc name
      in framed HELLO (le32 version @ le32 subs @ le16 (of_nat (length n)) @ n))"
| "encode (Welcome version pid caps) = framed WELCOME (le32 version @ le32 pid @ le32 caps)"
| "encode (Status code txt) = framed STATUS (tagged (status_to_wire code) txt)"
| "encode (Notify op payload) = framed NOTIFY (le32 op @ payload)"
| "encode (PoseMsg frame) = framed POSE frame"
| "encode (Lease action) = framed LEASE [lease_to_wire action]"
| "encode (LeaseReply good txt) = framed LEASE_REPLY (tagged (bool_byte good) txt)"
| "encode Recentre = framed RECENTRE []"
| "encode (RecentreReply good txt) = framed RECENTRE_REPLY (tagged (bool_byte good) txt)"
| "encode (Unknown k payload) = framed k payload"

definition text_of :: "bytes \<Rightarrow> string \<Rightarrow> (codec_error, str) result" where
  "text_of b what = (case utf8_dec b of Some s \<Rightarrow> Inr s | None \<Rightarrow> Inl (Malformed what))"

text \<open>The match on the kind in \<open>decode\<close>.\<close>

definition decode_payload :: "u16 \<Rightarrow> bytes \<Rightarrow> (codec_error, ipc_msg) result" where
  "decode_payload k p =
     (if k = HELLO then
        (if length p < 10 then Inl (Malformed ''hello header'')
         else (let name_len = unat (u16_at p 8) in
           if length p < 10 + name_len then Inl (Malformed ''hello name'')
           else res_bind (text_of (sub_slice 10 (10 + name_len) p) ''hello name'')
             (\<lambda>name. Inr (Hello (u32_at p 0) (u32_at p 4) name))))
      else if k = WELCOME then
        (if length p < 12 then Inl (Malformed ''welcome'')
         else Inr (Welcome (u32_at p 0) (u32_at p 4) (u32_at p 8)))
      else if k = STATUS then
        (if p = [] then Inl (Malformed ''status code'')
         else res_bind (text_of (drop 1 p) ''status text'')
           (\<lambda>t. Inr (Status (status_from_wire (p ! 0)) t)))
      else if k = NOTIFY then
        (if length p < 4 then Inl (Malformed ''notify op'')
         else Inr (Notify (u32_at p 0) (drop 4 p)))
      else if k = POSE then Inr (PoseMsg p)
      else if k = LEASE then
        (if p = [] then Inl (Malformed ''lease action'') else Inr (Lease (lease_from_wire (p ! 0))))
      else if k = LEASE_REPLY then
        (if p = [] then Inl (Malformed ''lease reply'')
         else res_bind (text_of (drop 1 p) ''lease reply text'') (\<lambda>t. Inr (LeaseReply (p ! 0 \<noteq> 0) t)))
      else if k = RECENTRE then Inr Recentre
      else if k = RECENTRE_REPLY then
        (if p = [] then Inl (Malformed ''recentre reply'')
         else res_bind (text_of (drop 1 p) ''recentre reply text'')
           (\<lambda>t. Inr (RecentreReply (p ! 0 \<noteq> 0) t)))
      else Inr (Unknown k p))"

definition decode :: "bytes \<Rightarrow> (codec_error, decoded) result" where
  "decode b =
     (if length b < HEADER_LEN then Inr Incomplete
      else (let k = u16_at b 0; len = unat (u32_at b 4) in
        if MAX_PAYLOAD < len then Inl (PayloadTooLarge len)
        else (let total = HEADER_LEN + len in
          if length b < total then Inr Incomplete
          else res_bind (decode_payload k (sub_slice HEADER_LEN total b))
            (\<lambda>m. Inr (Message m total)))))"

section \<open>Header facts\<close>

lemma status_roundtrip [simp]: "status_from_wire (status_to_wire c) = c"
  by (cases c) (simp_all add: status_from_wire_def)

lemma lease_roundtrip [simp]: "lease_from_wire (lease_to_wire a) = a"
  by (cases a) (simp_all add: lease_from_wire_def)

lemma bool_byte_iff [simp]: "bool_byte b \<noteq> 0 \<longleftrightarrow> b"
  by (simp add: bool_byte_def)

lemma u32_at_append [simp]:
  "length p = off \<Longrightarrow> u32_at (p @ le32 v @ q) off = v" "u32_at (le32 v @ q) 0 = v"
  by (auto simp: u32_at_def sub_slice_def)

lemma u16_at_append [simp]:
  "length p = off \<Longrightarrow> u16_at (p @ le16 v @ q) off = v" "u16_at (le16 v @ q) 0 = v"
  by (auto simp: u16_at_def sub_slice_def)

lemma length_framed [simp]: "length (framed k p) = 8 + length p"
  by (simp add: framed_def)

lemma framed_nonempty [simp]: "framed k p \<noteq> []"
  using length_framed [of k p] by (metis list.size(3) add_is_0 zero_neq_numeral)

lemma framed_header:
  "u16_at (framed k p @ t) 0 = k" "u32_at (framed k p @ t) 4 = of_nat (length p)"
  "sub_slice 8 (8 + length p) (framed k p @ t) = p"
proof -
  show "u32_at (framed k p @ t) 4 = of_nat (length p)"
    using u32_at_append(1) [of "le16 k @ le16 0" 4] by (simp add: framed_def)
  show "sub_slice 8 (8 + length p) (framed k p @ t) = p"
    by (simp add: framed_def sub_slice_def)
qed (simp add: framed_def)

text \<open>What a whole frame decodes to, and that a part of one is left alone.\<close>

lemma decode_framed:
  assumes "length p \<le> MAX_PAYLOAD"
  shows "decode (framed k p @ t) = res_bind (decode_payload k p) (\<lambda>m. Inr (Message m (8 + length p)))"
proof -
  have "unat (of_nat (length p) :: u32) = length p"
    unfolding unat_of_nat_u32 using assms by (simp add: MAX_PAYLOAD_def)
  then show ?thesis using assms by (simp add: decode_def HEADER_LEN_def framed_header Let_def)
qed

lemma decode_partial:
  assumes "length p \<le> MAX_PAYLOAD" "n < 8 + length p"
  shows "decode (take n (framed k p)) = Inr Incomplete"
proof (cases "n < 8")
  case True
  then show ?thesis by (simp add: decode_def HEADER_LEN_def)
next
  case False
  then have t: "take n (framed k p) = (le16 k @ le16 0) @ le32 (of_nat (length p)) @ take (n - 8) p"
    by (simp add: framed_def)
  have "u32_at (take n (framed k p)) 4 = of_nat (length p)"
    unfolding t by (rule u32_at_append(1)) simp
  moreover have "unat (of_nat (length p) :: u32) = length p"
    unfolding unat_of_nat_u32 using assms(1) by (simp add: MAX_PAYLOAD_def)
  ultimately show ?thesis using assms by (simp add: decode_def HEADER_LEN_def Let_def)
qed

section \<open>What was encoded is decoded\<close>

fun msg_kind :: "ipc_msg \<Rightarrow> u16" where
  "msg_kind (Hello _ _ _) = HELLO"
| "msg_kind (Welcome _ _ _) = WELCOME"
| "msg_kind (Status _ _) = STATUS"
| "msg_kind (Notify _ _) = NOTIFY"
| "msg_kind (PoseMsg _) = POSE"
| "msg_kind (Lease _) = LEASE"
| "msg_kind (LeaseReply _ _) = LEASE_REPLY"
| "msg_kind Recentre = RECENTRE"
| "msg_kind (RecentreReply _ _) = RECENTRE_REPLY"
| "msg_kind (Unknown k _) = k"

definition msg_payload :: "ipc_msg \<Rightarrow> bytes" where
  "msg_payload m = drop 8 (encode m)"

lemma drop_framed [simp]: "drop 8 (framed k p) = p"
  by (simp add: framed_def)

lemma encode_framed: "encode m = framed (msg_kind m) (msg_payload m)"
  by (cases m) (simp_all add: msg_payload_def Let_def)

text \<open>
  The messages the format can carry: the payload fits the cap, the name of a hello its 16-bit
  length, strings are strings, and an unknown message is of a kind this build does not know.
\<close>

definition known_kinds :: "u16 list" where
  "known_kinds = [HELLO, WELCOME, STATUS, NOTIFY, POSE, LEASE, LEASE_REPLY, RECENTRE, RECENTRE_REPLY]"

fun well_formed :: "ipc_msg \<Rightarrow> bool" where
  "well_formed (Hello _ _ name) = (wf_str name \<and> length (utf8_enc name) < 2 ^ 16)"
| "well_formed (Status _ t) = wf_str t"
| "well_formed (LeaseReply _ t) = wf_str t"
| "well_formed (RecentreReply _ t) = wf_str t"
| "well_formed (Unknown k _) = (k \<notin> set known_kinds)"
| "well_formed _ = True"

definition sendable :: "ipc_msg \<Rightarrow> bool" where
  "sendable m \<longleftrightarrow> well_formed m \<and> length (msg_payload m) \<le> MAX_PAYLOAD"

lemma text_of_enc [simp]: "wf_str t \<Longrightarrow> text_of (utf8_enc t) what = Inr t"
  by (simp add: text_of_def utf8_dec_enc)

lemma decode_tagged:
  "wf_str t \<Longrightarrow> decode_payload STATUS (tagged (status_to_wire c) t) = Inr (Status c t)"
  "wf_str t \<Longrightarrow> decode_payload LEASE_REPLY (tagged (bool_byte g) t) = Inr (LeaseReply g t)"
  "wf_str t \<Longrightarrow> decode_payload RECENTRE_REPLY (tagged (bool_byte g) t) = Inr (RecentreReply g t)"
  by (simp_all add: decode_payload_def kind_defs tagged_def)

lemma decode_hello:
  assumes "length n < 2 ^ 16"
  shows "decode_payload HELLO (le32 v @ le32 s @ le16 (of_nat (length n)) @ n @ t) =
    res_bind (text_of n ''hello name'') (\<lambda>name. Inr (Hello v s name))"
proof -
  let ?p = "le32 v @ le32 s @ le16 (of_nat (length n)) @ n @ t"
  have "unat (of_nat (length n) :: u16) = length n"
    using assms by (simp only: unat_of_nat) simp
  moreover have "u16_at ?p 8 = of_nat (length n)"
    using u16_at_append(1) [of "le32 v @ le32 s" 8] by simp
  moreover have "u32_at ?p 4 = s" using u32_at_append(1) [of "le32 v" 4] by simp
  moreover have "sub_slice 10 (10 + length n) ?p = n" by (simp add: sub_slice_def)
  ultimately show ?thesis by (simp add: decode_payload_def Let_def)
qed

lemma decode_welcome: "decode_payload WELCOME (le32 v @ le32 q @ le32 c) = Inr (Welcome v q c)"
  using u32_at_append(1) [of "le32 v" 4 q "le32 c"] u32_at_append(1) [of "le32 v @ le32 q" 8 c "[]"]
  by (simp add: decode_payload_def kind_defs)

lemma decode_plain:
  "decode_payload NOTIFY (le32 op @ p) = Inr (Notify op p)"
  "decode_payload POSE p = Inr (PoseMsg p)"
  "decode_payload LEASE [lease_to_wire a] = Inr (Lease a)"
  "decode_payload RECENTRE p = Inr Recentre"
  "k \<notin> set known_kinds \<Longrightarrow> decode_payload k p = Inr (Unknown k p)"
  by (simp_all add: decode_payload_def kind_defs known_kinds_def)

lemma decode_payload_encode: "well_formed m \<Longrightarrow> decode_payload (msg_kind m) (msg_payload m) = Inr m"
proof (cases m)
  case (Hello v s n)
  assume "well_formed m"
  with Hello decode_hello [of "utf8_enc n" v s "[]"] show ?thesis
    by (simp add: msg_payload_def Let_def)
qed (simp_all add: msg_payload_def decode_tagged decode_welcome decode_plain)

lemma decode_encode: "sendable m \<Longrightarrow> decode (encode m @ t) = Inr (Message m (length (encode m)))"
  unfolding sendable_def encode_framed by (simp add: decode_framed decode_payload_encode)

lemma decode_encode_partial:
  "sendable m \<Longrightarrow> n < length (encode m) \<Longrightarrow> decode (take n (encode m)) = Inr Incomplete"
  unfolding sendable_def encode_framed by (simp add: decode_partial)

section \<open>Reading a stream\<close>

text \<open>
  The interface of a framed codec, as a reader loop uses it. \<open>dec\<close> returns an error, nothing yet,
  or a message and the bytes it used.
\<close>

locale stream_codec =
  fixes enc :: "'m \<Rightarrow> bytes" and dec :: "bytes \<Rightarrow> ('e, ('m \<times> nat) option) result"
    and valid :: "'m \<Rightarrow> bool" and drain :: "bytes \<Rightarrow> 'm list \<times> bytes \<times> bool"
  assumes dec_whole: "valid m \<Longrightarrow> dec (enc m @ t) = Inr (Some (m, length (enc m)))"
    and dec_part: "valid m \<Longrightarrow> n < length (enc m) \<Longrightarrow> dec (take n (enc m)) = Inr None"
    and dec_nil: "dec [] = Inr None"
    and dec_used: "dec b = Inr (Some (m, n)) \<Longrightarrow> 0 < n \<and> n \<le> length b"
    and dec_grow: "dec b = Inr (Some x) \<Longrightarrow> dec (b @ t) = Inr (Some x)"
    and dec_error: "dec b = Inl e \<Longrightarrow> dec (b @ t) = Inl e"
    and drain_unfold:
      "drain b = (case dec b of
          Inl e \<Rightarrow> ([], b, False)
        | Inr None \<Rightarrow> ([], b, True)
        | Inr (Some (m, n)) \<Rightarrow> (case drain (drop n b) of (ms, r, alive) \<Rightarrow> (m # ms, r, alive)))"
begin

text \<open>One read after another: messages so far, the buffer, and whether the reader still runs.\<close>

definition feed_chunk :: "bytes \<Rightarrow> 'm list \<times> bytes \<times> bool \<Rightarrow> 'm list \<times> bytes \<times> bool" where
  "feed_chunk c st = (case st of (out, b, alive) \<Rightarrow>
     if alive then (case drain (b @ c) of (ms, r, a) \<Rightarrow> (out @ ms, r, a)) else st)"

lemma enc_nonempty: "valid m \<Longrightarrow> enc m \<noteq> []"
  using dec_whole [of m "[]"] dec_used [of "enc m" m "length (enc m)"] by auto

lemma drain_nil: "drain [] = ([], [], True)"
  by (simp add: drain_unfold [of "[]"] dec_nil)

lemma feed_dead: "feed_chunk c (out, b, False) = (out, b, False)"
    "fold feed_chunk cs (out, b, False) = (out, b, False)"
proof -
  show d: "feed_chunk c (out, b, False) = (out, b, False)" for c by (simp add: feed_chunk_def)
  show "fold feed_chunk cs (out, b, False) = (out, b, False)" by (induction cs) (simp_all add: d)
qed

lemma drain_append:
  "drain (b @ c) = (case drain b of (ms, r, alive) \<Rightarrow>
     if alive then (case drain (r @ c) of (ms', r', a) \<Rightarrow> (ms @ ms', r', a)) else (ms, r @ c, False))"
proof (induction "length b" arbitrary: b rule: less_induct)
  case less
  show ?case
  proof (cases "dec b")
    case (Inl e)
    with dec_error [OF Inl] show ?thesis
      by (simp add: drain_unfold [of b] drain_unfold [of "b @ c"])
  next
    case (Inr o1)
    show ?thesis
    proof (cases o1)
      case None
      with Inr have "drain b = ([], b, True)" by (simp add: drain_unfold [of b])
      then show ?thesis by (simp split: prod.split)
    next
      case (Some mn)
      obtain m n where mn: "mn = (m, n)" by fastforce
      with Inr Some have d: "dec b = Inr (Some (m, n))" by simp
      note u = dec_used [OF d]
      have "length (drop n b) < length b" using u by auto
      from less.hyps [OF this] u dec_grow [OF d, of c] d show ?thesis
        by (simp add: drain_unfold [of b] drain_unfold [of "b @ c"] split: prod.splits)
    qed
  qed
qed

lemma feed_chunks_from:
  "drain b0 = (out, b, alive) \<Longrightarrow>
   (case fold feed_chunk cs (out, b, alive) of (ms, r, a) \<Rightarrow>
     case drain (b0 @ concat cs) of (ms', r', a') \<Rightarrow> ms = ms' \<and> a = a' \<and> (a \<longrightarrow> r = r'))"
proof (induction cs arbitrary: b0 out b alive)
  case (Cons c cs)
  show ?case
  proof (cases alive)
    case True
    obtain ms r a where d: "drain (b @ c) = (ms, r, a)" by (metis prod_cases3)
    have "drain (b0 @ c) = (out @ ms, r, a)"
      using Cons.prems True d by (simp add: drain_append [of b0 c])
    from Cons.IH [OF this] show ?thesis using True d by (simp add: feed_chunk_def)
  next
    case False
    with Cons.prems show ?thesis
      by (simp add: feed_dead drain_append [of b0 "c @ concat cs"])
  qed
qed (simp split: prod.split)

lemma feed_chunks:
  "case fold feed_chunk cs ([], [], True) of (ms, r, a) \<Rightarrow>
     case drain (concat cs) of (ms', r', a') \<Rightarrow> ms = ms' \<and> a = a' \<and> (a \<longrightarrow> r = r')"
  using feed_chunks_from [OF drain_nil] by simp

lemma drain_messages:
  assumes "\<forall>m \<in> set ms. valid m" "dec t = Inr None"
  shows "drain (concat (List.map enc ms) @ t) = (ms, t, True)"
  using assms
proof (induction ms)
  case (Cons m ms)
  then have "dec (concat (List.map enc (m # ms)) @ t) = Inr (Some (m, length (enc m)))"
    using dec_whole [of m "concat (List.map enc ms) @ t"] by simp
  with Cons show ?case by (simp add: drain_unfold [of "enc m @ concat (List.map enc ms) @ t"])
qed (simp add: drain_unfold [of t])

lemma feed_messages:
  assumes "\<forall>m \<in> set ms. valid m" "concat cs = concat (List.map enc ms)"
  shows "fold feed_chunk cs ([], [], True) = (ms, [], True)"
  using feed_chunks [of cs] drain_messages [OF assms(1) dec_nil] assms(2) by (auto split: prod.splits)

end

section \<open>The reader loop\<close>

text \<open>The inner loop of the readers of server and client, from a buffer: the messages, what is
  left of the buffer, and whether the reader goes on.\<close>

definition decode_opt :: "bytes \<Rightarrow> (codec_error, (ipc_msg \<times> nat) option) result" where
  "decode_opt b =
     (case decode b of
        Inl e \<Rightarrow> Inl e
      | Inr Incomplete \<Rightarrow> Inr None
      | Inr (Message m n) \<Rightarrow> Inr (Some (m, n)))"

lemma decode_used: "decode b = Inr (Message m n) \<Longrightarrow> 8 \<le> n \<and> n \<le> length b \<and> n \<le> 8 + MAX_PAYLOAD"
  by (auto simp: decode_def HEADER_LEN_def Let_def res_bind_def split: if_splits sum.splits)

function read_messages :: "bytes \<Rightarrow> ipc_msg list \<times> bytes \<times> bool" where
  "read_messages b =
     (case decode b of
        Inr (Message m n) \<Rightarrow> (case read_messages (drop n b) of (ms, r, alive) \<Rightarrow> (m # ms, r, alive))
      | Inr Incomplete \<Rightarrow> ([], b, True)
      | Inl e \<Rightarrow> ([], b, False))"
  by pat_completeness auto
termination
  by (relation "measure length") (auto dest!: decode_used)

declare read_messages.simps [simp del]

text \<open>One read of the outer loop: the chunk is appended and the buffer drained.\<close>

definition reader_read :: "bytes \<Rightarrow> ipc_msg list \<times> bytes \<times> bool \<Rightarrow> ipc_msg list \<times> bytes \<times> bool" where
  "reader_read c st = (case st of (out, b, alive) \<Rightarrow>
     if alive then (case read_messages (b @ c) of (ms, r, a) \<Rightarrow> (out @ ms, r, a)) else st)"

lemma decode_grow:
  assumes "decode b \<noteq> Inr Incomplete"
  shows "decode (b @ t) = decode b"
proof -
  have l: "\<not> length b < 8" using assms by (auto simp: decode_def HEADER_LEN_def)
  then have "u16_at (b @ t) 0 = u16_at b 0" "u32_at (b @ t) 4 = u32_at b 4"
    by (simp_all add: u16_at_def u32_at_def sub_slice_def)
  moreover have "sub_slice 8 (8 + k) (b @ t) = sub_slice 8 (8 + k) b" if "\<not> length b < 8 + k" for k
    using that by (simp add: sub_slice_def)
  ultimately show ?thesis using assms l
    by (auto simp: decode_def HEADER_LEN_def Let_def)
qed

interpretation ipc: stream_codec encode decode_opt sendable read_messages
proof
  show "decode_opt (encode m @ t) = Inr (Some (m, length (encode m)))" if "sendable m" for m t
    by (simp add: decode_opt_def decode_encode [OF that])
  show "decode_opt (take n (encode m)) = Inr None" if "sendable m" "n < length (encode m)" for m n
    by (simp add: decode_opt_def decode_encode_partial [OF that])
  show "decode_opt [] = Inr None" by (simp add: decode_opt_def decode_def HEADER_LEN_def)
  show "0 < n \<and> n \<le> length b" if "decode_opt b = Inr (Some (m, n))" for b m n
    using that by (auto simp: decode_opt_def split: sum.splits decoded.splits dest: decode_used)
  show "decode_opt (b @ t) = Inr (Some x)" if "decode_opt b = Inr (Some x)" for b t x
    using that decode_grow [of b t] by (auto simp: decode_opt_def split: sum.splits decoded.splits)
  show "decode_opt (b @ t) = Inl e" if "decode_opt b = Inl e" for b t e
    using that decode_grow [of b t] by (auto simp: decode_opt_def split: sum.splits decoded.splits)
  show "read_messages b = (case decode_opt b of
          Inl e \<Rightarrow> ([], b, False)
        | Inr None \<Rightarrow> ([], b, True)
        | Inr (Some (m, n)) \<Rightarrow> (case read_messages (drop n b) of (ms, r, alive) \<Rightarrow> (m # ms, r, alive)))" for b
    by (simp add: decode_opt_def read_messages.simps [of b] split: sum.split decoded.split)
qed

lemma reader_read_eq: "reader_read = ipc.feed_chunk"
  by (intro ext) (simp add: reader_read_def ipc.feed_chunk_def)

section \<open>Properties\<close>

text \<open>
  C12. Messages round trip: whatever follows it in the buffer, the encoding of a sendable message
  decodes to the message and its length; any strict prefix of it decodes to \<open>Incomplete\<close>.
\<close>

theorem ipc_roundtrip:
  assumes "sendable m"
  shows "decode (encode m @ t) = Inr (Message m (length (encode m))) \<and>
    (\<forall>n < length (encode m). decode (take n (encode m)) = Inr Incomplete)"
  using decode_encode [OF assms] decode_encode_partial [OF assms] by simp

theorem ipc_roundtrip_witness:
  "decode (encode (Hello 1 3 [0x68, 0xe9]) @ [7]) =
      Inr (Message (Hello 1 3 [0x68, 0xe9]) (length (encode (Hello 1 3 [0x68, 0xe9])))) \<and>
    decode (take 9 (encode (Hello 1 3 [0x68, 0xe9]))) = Inr Incomplete"
proof -
  have "sendable (Hello 1 3 [0x68, 0xe9])"
    by (simp add: sendable_def is_scalar_def msg_payload_def MAX_PAYLOAD_def utf8_enc1_def)
  moreover have "9 < length (encode (Hello 1 3 [0x68, 0xe9]))" by (simp add: Let_def)
  ultimately show ?thesis using ipc_roundtrip by blast
qed

text \<open>
  C34. The reader does not depend on where reads end: for every byte stream, valid or not, and
  every way of cutting it into reads, the messages delivered and whether the connection is dropped
  are those of the whole stream at once; a stream of sendable messages is delivered in full.
\<close>

theorem ipc_reader_any_chunking:
  "case fold reader_read cs ([], [], True) of (ms, r, alive) \<Rightarrow>
     case read_messages (concat cs) of (ms', r', alive') \<Rightarrow>
       ms = ms' \<and> alive = alive' \<and> (alive \<longrightarrow> r = r') \<and>
       (concat cs = concat (List.map encode ns) \<longrightarrow> list_all sendable ns \<longrightarrow> ms = ns \<and> alive)"
  using ipc.feed_chunks [of cs] ipc.feed_messages [of ns cs] unfolding reader_read_eq
  by (auto simp: list_all_iff split: prod.splits)

theorem ipc_reader_any_chunking_witness:
  "case fold reader_read [take 3 (encode Recentre), drop 3 (encode Recentre @ encode (Lease Acquire))]
      ([], [], True) of (ms, r, alive) \<Rightarrow> ms = [Recentre, Lease Acquire] \<and> alive"
proof -
  let ?cs = "[take 3 (encode Recentre), drop 3 (encode Recentre @ encode (Lease Acquire))]"
  have "concat ?cs = concat (List.map encode [Recentre, Lease Acquire])"
    by (simp flip: append.assoc)
  moreover have "list_all sendable [Recentre, Lease Acquire]"
    by (simp add: sendable_def msg_payload_def MAX_PAYLOAD_def)
  ultimately show ?thesis
    using ipc_reader_any_chunking [of ?cs "[Recentre, Lease Acquire]"] by (auto split: prod.splits)
qed

text \<open>
  The reader's memory is bounded: after any sequence of reads, a reader that still runs holds
  less than a header and the payload cap.
\<close>

theorem ipc_reader_bounded:
  "case fold reader_read cs ([], [], True) of (ms, r, alive) \<Rightarrow>
     alive \<longrightarrow> length r < HEADER_LEN + MAX_PAYLOAD"
proof -
  have "length b < HEADER_LEN + MAX_PAYLOAD" if "decode b = Inr Incomplete" for b
    using that by (auto simp: decode_def Let_def res_bind_def split: if_splits sum.splits)
  then have d: "alive \<longrightarrow> length r < HEADER_LEN + MAX_PAYLOAD"
    if "read_messages b = (ms, r, alive)" for b ms r alive
    using that
    by (induction b arbitrary: ms r alive rule: read_messages.induct)
      (subst (asm) (2) read_messages.simps, auto split: sum.splits decoded.splits prod.splits)
  show ?thesis using ipc.feed_chunks [of cs] d unfolding reader_read_eq
    by (auto split: prod.splits)
qed

theorem ipc_reader_bounded_witness: "length [1, 2, 3 :: u8] < HEADER_LEN + MAX_PAYLOAD"
proof -
  have "fold reader_read [[1, 2, 3]] ([], [], True) = ([], [1, 2, 3], True)"
    by (simp add: reader_read_def read_messages.simps decode_def HEADER_LEN_def)
  then show ?thesis using ipc_reader_bounded [of "[[1, 2, 3]]"] by simp
qed

text \<open>
  A hello whose name is longer than its 16-bit length field is understood wrongly: for a name
  of plain ASCII between 65536 bytes and the payload cap, the server reads only its first
  \<open>n mod 65536\<close> characters, without an error.
\<close>

theorem hello_name_truncated:
  assumes "\<forall>c \<in> set name. c < 128" and "2 ^ 16 \<le> length name" and "length name + 10 \<le> MAX_PAYLOAD"
  shows "decode (encode (Hello v s name)) =
    Inr (Message (Hello v s (take (length name mod 2 ^ 16) name)) (18 + length name))"
proof -
  have e: "utf8_enc t = List.map byte t" if "\<forall>c \<in> set t. c < 128" for t
    using that by (induction t) (simp_all add: utf8_enc1_def)
  let ?k = "length name mod 2 ^ 16"
  let ?n = "List.map byte (take ?k name)"
  have n: "length ?n = ?k" by simp
  have w: "(of_nat (length name mod 2 ^ 16) :: u16) = of_nat (length name)"
    by (simp add: word_unat_eq_iff unat_of_nat)
  have "List.map byte name = ?n @ List.map byte (drop ?k name)"
    by (metis append_take_drop_id map_append)
  then have p: "msg_payload (Hello v s name) =
      le32 v @ le32 s @ le16 (of_nat (length ?n)) @ ?n @ List.map byte (drop ?k name)"
    using assms(1) w by (simp add: msg_payload_def e Let_def n)
  have t: "\<forall>c \<in> set (take ?k name). c < 128" using assms(1) by (meson in_set_takeD)
  then have "wf_str (take ?k name)" by (auto simp: wf_str_def is_scalar_def list_all_iff)
  then have "text_of ?n what = Inr (take ?k name)" for what
    using text_of_enc e [OF t] by metis
  then have "decode_payload HELLO (msg_payload (Hello v s name)) = Inr (Hello v s (take ?k name))"
    unfolding p by (subst decode_hello) simp_all
  moreover have "length (msg_payload (Hello v s name)) = 10 + length name"
    using assms(1) by (simp add: msg_payload_def e Let_def)
  ultimately show ?thesis
    using decode_framed [of "msg_payload (Hello v s name)" HELLO "[]"] assms(3)
      encode_framed [of "Hello v s name"] by simp
qed

theorem hello_name_truncated_witness:
  "decode (encode (Hello 1 0 (replicate 65540 0x61))) =
    Inr (Message (Hello 1 0 (replicate 4 0x61)) 65558)"
  using hello_name_truncated [of "replicate 65540 0x61" 1 0] by (simp add: MAX_PAYLOAD_def)

lemma decode_unknown:
  assumes "decode b = Inr (Message (Unknown k p) n)"
  shows "8 \<le> n \<and> n \<le> length b \<and> k = of_le16 (take 2 b) \<and> p = sub_slice 8 n b \<and>
    of_nat (length p) = of_le32 (sub_slice 4 8 b)"
proof -
  let ?len = "unat (u32_at b 4)"
  have l: "\<not> length b < 8" "\<not> MAX_PAYLOAD < ?len" "\<not> length b < 8 + ?len"
    and d: "res_bind (decode_payload (u16_at b 0) (sub_slice 8 (8 + ?len) b))
      (\<lambda>m. Inr (Message m (8 + ?len))) = Inr (Message (Unknown k p) n)"
    using assms unfolding decode_def HEADER_LEN_def Let_def by (simp_all split: if_splits)
  from d have n: "n = 8 + ?len" and u: "decode_payload (u16_at b 0) (sub_slice 8 n b) = Inr (Unknown k p)"
    by (auto simp: res_bind_def split: sum.splits)
  have "k = u16_at b 0 \<and> p = sub_slice 8 n b"
    using u by (auto simp: decode_payload_def res_bind_def Let_def split: if_splits sum.splits)
  with l n show ?thesis by (simp add: u16_at_def u32_at_def sub_slice_def numeral_2_eq_2)
qed

text \<open>
  An unknown message is not always re-encoded to the bytes it came from: re-encoding clears
  the two reserved flag bytes, which decoding does not check. It gives back the very bytes exactly
  when they were zero.
\<close>

theorem unknown_reencode:
  assumes "decode b = Inr (Message (Unknown k p) n)"
  shows "encode (Unknown k p) = take n b \<longleftrightarrow> take 2 (drop 2 b) = [0, 0]"
proof -
  note d = decode_unknown [OF assms]
  have l8: "8 \<le> length b" using d by linarith
  have "n = 4 + (4 + (n - 8))" using d by simp
  then have t: "take n b = take 2 b @ take 2 (drop 2 b) @ take 4 (drop 4 b) @ take (n - 8) (drop 8 b)"
    by (metis (no_types, lifting) append.assoc drop_drop numeral_Bit0 numeral_plus_numeral
        take_add add.commute)
  have z: "le16 0 = [0, 0]" by code_simp
  have "le32 (of_nat (length p)) = le32 (of_le32 (sub_slice 4 8 b))" using d by metis
  also have "\<dots> = sub_slice 4 8 b" by (rule le32.enc_dec) (use l8 in simp)
  finally have "le32 (of_nat (length p)) = take 4 (drop 4 b)" by (simp add: sub_slice_def)
  moreover have "le16 k = take 2 b"
    using d le16.enc_dec [of "take 2 b"] by simp
  moreover have "p = take (n - 8) (drop 8 b)"
    using d by (simp add: sub_slice_def)
  ultimately have "encode (Unknown k p) = take 2 b @ [0, 0] @ take 4 (drop 4 b) @ take (n - 8) (drop 8 b)"
    by (simp only: encode.simps framed_def z)
  moreover have "length (take 2 (drop 2 b)) = 2" using l8 by simp
  ultimately show ?thesis unfolding t by (auto simp: append_eq_append_conv)
qed

theorem unknown_reencode_witness:
  "encode (Unknown 0x99 [7]) \<noteq> take 9 [0x99, 0, 1, 0, 1, 0, 0, 0, 7]"
proof -
  have "decode [0x99, 0, 1, 0, 1, 0, 0, 0, 7] = Inr (Message (Unknown 0x99 [7]) 9)"
    by (simp add: decode_def HEADER_LEN_def MAX_PAYLOAD_def u16_at_def u32_at_def sub_slice_def
        of_le16_def of_le32_def decode_payload_def kind_defs)
  from unknown_reencode [OF this] show ?thesis by simp
qed

end
