(* ===== verification/IpcServer.thy ===== *)
theory IpcServer
  imports IpcCodec
begin

unbundle bit_operations_syntax

text \<open>
  The daemon's socket (\<^verbatim>\<open>path.rs\<close>), the client's reconnect delay (\<^verbatim>\<open>client.rs\<close>) and the server
  (\<^verbatim>\<open>server.rs\<close>) as a state machine. The accept thread, the two threads of each client and the calls of
  the device thread are events on one state, so a property of every event list holds for every
  interleaving.
\<close>

section \<open>Socket path\<close>

definition DIR_NAME :: string where "DIR_NAME = ''tobii-linux''"
definition SOCK_NAME :: string where "SOCK_NAME = ''tracker.sock''"
definition MAX_SOCKET_PATH :: nat where "MAX_SOCKET_PATH = 107"

text \<open>\<^verbatim>\<open>PathBuf::join\<close> with a relative component.\<close>

definition path_join :: "string \<Rightarrow> string \<Rightarrow> string" where
  "path_join p c = (if p = [] then c else if last p = CHR ''/'' then p @ c else p @ ''/'' @ c)"

fun show_nat :: "nat \<Rightarrow> string" where
  "show_nat n = (if n < 10 then [char_of (48 + n)] else show_nat (n div 10) @ [char_of (48 + n mod 10)])"

declare show_nat.simps [simp del]

definition runtime_root_from :: "string option \<Rightarrow> bool \<Rightarrow> u32 \<Rightarrow> string \<times> bool" where
  "runtime_root_from xdg run_user_exists uid =
     (case xdg of
        Some rt \<Rightarrow> if rt \<noteq> [] then (rt, False)
          else if run_user_exists then (''/run/user/'' @ show_nat (unat uid), False)
          else (''/tmp/tobii-runtime-'' @ show_nat (unat uid), True)
      | None \<Rightarrow>
          if run_user_exists then (''/run/user/'' @ show_nat (unat uid), False)
          else (''/tmp/tobii-runtime-'' @ show_nat (unat uid), True))"

text \<open>\<open>socket_dir\<close> and \<open>socket_path\<close>, with what they read of the environment as arguments.\<close>

definition socket_dir :: "string option \<Rightarrow> bool \<Rightarrow> u32 \<Rightarrow> string" where
  "socket_dir xdg ex uid = path_join (fst (runtime_root_from xdg ex uid)) DIR_NAME"

definition socket_path :: "string option \<Rightarrow> bool \<Rightarrow> u32 \<Rightarrow> string" where
  "socket_path xdg ex uid = path_join (socket_dir xdg ex uid) SOCK_NAME"

datatype io_error = InvalidInput | AddrInUse | OtherError

definition check_socket_path :: "string \<Rightarrow> (io_error, unit) result" where
  "check_socket_path p = (if MAX_SOCKET_PATH < length p then Inl InvalidInput else Inr ())"

datatype bind_action = Bind | Unlink | AlreadyRunning

fun stale_socket_action :: "io_error \<Rightarrow> bool \<Rightarrow> bind_action" where
  "stale_socket_action AddrInUse True = AlreadyRunning"
| "stale_socket_action AddrInUse False = Unlink"
| "stale_socket_action _ _ = Bind"

text \<open>
  \<open>Server::bind_at\<close> up to the listener: what the operating system answers to the bind, the probe,
  the removal and the second bind are arguments; the flag says whether the file was removed.
\<close>

definition bind_at :: "string \<Rightarrow> (io_error, unit) result \<Rightarrow> bool \<Rightarrow> (io_error, unit) result \<Rightarrow>
    (io_error, unit) result \<Rightarrow> (io_error, unit) result \<times> bool" where
  "bind_at path first_bind probed remove second_bind =
     (case check_socket_path path of
        Inl e \<Rightarrow> (Inl e, False)
      | Inr _ \<Rightarrow>
          (case first_bind of
             Inr _ \<Rightarrow> (Inr (), False)
           | Inl e \<Rightarrow>
               (case stale_socket_action e probed of
                  AlreadyRunning \<Rightarrow> (Inl AddrInUse, False)
                | Unlink \<Rightarrow> (case remove of Inl e' \<Rightarrow> (Inl e', False) | Inr _ \<Rightarrow> (second_bind, True))
                | Bind \<Rightarrow> (Inl e, False))))"

section \<open>Reconnecting\<close>

text \<open>Durations in milliseconds.\<close>

definition BACKOFF_MIN :: nat where "BACKOFF_MIN = 250"
definition BACKOFF_MAX :: nat where "BACKOFF_MAX = 2000"

fun backoff :: "nat option \<Rightarrow> nat" where
  "backoff None = BACKOFF_MIN"
| "backoff (Some d) = min (d * 2) BACKOFF_MAX"

section \<open>The server\<close>

definition QUEUE_DEPTH :: nat where "QUEUE_DEPTH = 64"

type_synonym client_id = u64

text \<open>
  A client: what the source's \<open>Client\<close> holds, the messages in its bounded channel, and whether the
  writer thread still holds the receiving end of it.
\<close>

record client =
  cl_id :: client_id
  cl_name :: str
  cl_subs :: u32
  cl_queue :: "bytes list"
  cl_receiver :: bool
  cl_alive :: bool
  cl_dropped :: u64

text \<open>
  The server: registered clients, the connection the accept thread has started threads for but not
  registered yet, messages from the readers, the running readers with their buffers, the next id.
\<close>

record server =
  clients :: "client list"
  accepting :: "client option"
  incoming :: "(client_id \<times> ipc_msg) list"
  readers :: "(client_id \<times> bytes) list"
  next_id :: client_id

text \<open>
  The counter is a static of the process: it starts at 1, wraps after \<open>2 ^ 64\<close> connections, and a
  server bound later starts where the others have left it, so a new server is given it.
\<close>

definition server_new :: "client_id \<Rightarrow> server" where
  "server_new k = \<lparr>clients = [], accepting = None, incoming = [], readers = [], next_id = k\<rparr>"

definition saturating_inc :: "u64 \<Rightarrow> u64" where
  "saturating_inc d = (if d = - 1 then d else d + 1)"

text \<open>\<open>push\<close>: \<^verbatim>\<open>try_send\<close> never waits; a full queue drops the message.\<close>

definition push :: "bytes \<Rightarrow> client \<Rightarrow> client" where
  "push b c =
     (if \<not> cl_receiver c then c\<lparr>cl_alive := False\<rparr>
      else if length (cl_queue c) < QUEUE_DEPTH then c\<lparr>cl_queue := cl_queue c @ [b]\<rparr>
      else c\<lparr>cl_dropped := saturating_inc (cl_dropped c)\<rparr>)"

text \<open>Apply an update to the client of that id, wherever it is.\<close>

definition update_client :: "client_id \<Rightarrow> (client \<Rightarrow> client) \<Rightarrow> server \<Rightarrow> server" where
  "update_client i f s =
     s\<lparr>clients := List.map (\<lambda>c. if cl_id c = i then f c else c) (clients s),
       accepting := map_option (\<lambda>c. if cl_id c = i then f c else c) (accepting s)\<rparr>"

subsection \<open>Operations of the device thread\<close>

text \<open>The first registered client of an id is the one \<^verbatim>\<open>find\<close> returns.\<close>

fun update_first :: "client_id \<Rightarrow> (client \<Rightarrow> client) \<Rightarrow> client list \<Rightarrow> client list" where
  "update_first i f [] = []"
| "update_first i f (c # cs) = (if cl_id c = i then f c # cs else c # update_first i f cs)"

definition send_to :: "client_id \<Rightarrow> ipc_msg \<Rightarrow> server \<Rightarrow> server" where
  "send_to i m s = s\<lparr>clients := update_first i (push (encode m)) (clients s)\<rparr>"

definition broadcast :: "u32 \<Rightarrow> ipc_msg \<Rightarrow> server \<Rightarrow> server" where
  "broadcast sb m s =
     s\<lparr>clients := List.map (\<lambda>c. if sb = 0 \<or> cl_subs c AND sb \<noteq> 0 then push (encode m) c else c)
       (clients s)\<rparr>"

definition subscriber_count :: "u32 \<Rightarrow> server \<Rightarrow> nat" where
  "subscriber_count sb s = length (List.filter (\<lambda>c. cl_subs c AND sb \<noteq> 0) (clients s))"

definition reap :: "server \<Rightarrow> server" where
  "reap s = s\<lparr>clients := List.filter cl_alive (clients s)\<rparr>"

definition handle_incoming :: "client_id \<times> ipc_msg \<Rightarrow> client list \<Rightarrow> client list" where
  "handle_incoming m cs =
     (case m of
        (i, Hello _ sb name) \<Rightarrow> update_first i (\<lambda>c. c\<lparr>cl_subs := sb, cl_name := name\<rparr>) cs
      | _ \<Rightarrow> cs)"

definition poll_server :: "server \<Rightarrow> (client_id \<times> ipc_msg) list \<times> server" where
  "poll_server s =
     (incoming s,
      reap (s\<lparr>clients := fold handle_incoming (incoming s) (clients s), incoming := []\<rparr>))"

record client_info =
  info_id :: client_id
  info_name :: str
  info_subs :: u32
  info_dropped :: u64

definition client_infos :: "server \<Rightarrow> client_info list" where
  "client_infos s =
     List.map (\<lambda>c. \<lparr>info_id = cl_id c, info_name = cl_name c, info_subs = cl_subs c,
       info_dropped = cl_dropped c\<rparr>) (clients s)"

subsection \<open>The other threads\<close>

text \<open>The accept thread: first the two threads of the client are started, then it is registered.\<close>

definition accept_start :: "server \<Rightarrow> server" where
  "accept_start s =
     (if accepting s \<noteq> None then s
      else s\<lparr>accepting := Some \<lparr>cl_id = next_id s, cl_name = [], cl_subs = 0, cl_queue = [],
               cl_receiver = True, cl_alive = True, cl_dropped = 0\<rparr>,
             readers := readers s @ [(next_id s, [])], next_id := next_id s + 1\<rparr>)"

text \<open>
  An id taken for nobody here: a connection whose socket cannot be cloned for the writer is let go
  after its id was taken, and every other server of the process takes its ids from the same counter.
\<close>

definition accept_skip :: "server \<Rightarrow> server" where
  "accept_skip s = s\<lparr>next_id := next_id s + 1\<rparr>"

definition accept_register :: "server \<Rightarrow> server" where
  "accept_register s =
     (case accepting s of
        None \<Rightarrow> s
      | Some c \<Rightarrow> s\<lparr>clients := clients s @ [c], accepting := None\<rparr>)"

definition mark_dead :: "client_id \<Rightarrow> server \<Rightarrow> server" where
  "mark_dead i = update_client i (\<lambda>c. c\<lparr>cl_alive := False\<rparr>)"

definition stop_reader :: "client_id \<Rightarrow> server \<Rightarrow> server" where
  "stop_reader i s = s\<lparr>readers := List.filter (\<lambda>(j, _). j \<noteq> i) (readers s)\<rparr>"

text \<open>A reader: a read of some bytes, or the end of the stream.\<close>

definition reader_chunk :: "client_id \<Rightarrow> bytes \<Rightarrow> server \<Rightarrow> server" where
  "reader_chunk i chunk s =
     (case map_of (readers s) i of
        None \<Rightarrow> s
      | Some b \<Rightarrow>
          (case read_messages (b @ chunk) of (ms, r, alive) \<Rightarrow>
             let s1 = s\<lparr>incoming := incoming s @ List.map (Pair i) ms\<rparr> in
             if alive
             then s1\<lparr>readers := List.map (\<lambda>(j, q). (j, if j = i then r else q)) (readers s1)\<rparr>
             else stop_reader i (mark_dead i s1)))"

definition reader_eof :: "client_id \<Rightarrow> server \<Rightarrow> server" where
  "reader_eof i s = (case map_of (readers s) i of None \<Rightarrow> s | Some _ \<Rightarrow> stop_reader i (mark_dead i s))"

text \<open>A writer: a message is taken from the queue and written, or the write fails and it ends.\<close>

definition writer_sent :: "client_id \<Rightarrow> server \<Rightarrow> server" where
  "writer_sent i = update_client i (\<lambda>c. if cl_receiver c then c\<lparr>cl_queue := tl (cl_queue c)\<rparr> else c)"

definition writer_failed :: "client_id \<Rightarrow> server \<Rightarrow> server" where
  "writer_failed i =
     update_client i (\<lambda>c. if cl_receiver c \<and> cl_queue c \<noteq> []
       then c\<lparr>cl_queue := [], cl_receiver := False, cl_alive := False\<rparr> else c)"

subsection \<open>Runs\<close>

datatype server_event =
    AcceptStart | AcceptRegister | AcceptSkip
  | ReaderChunk client_id bytes | ReaderEof client_id
  | WriterSent client_id | WriterFailed client_id
  | PollServer | SendTo client_id ipc_msg | Broadcast u32 ipc_msg

fun server_step :: "server_event \<Rightarrow> server \<Rightarrow> server" where
  "server_step AcceptStart s = accept_start s"
| "server_step AcceptRegister s = accept_register s"
| "server_step AcceptSkip s = accept_skip s"
| "server_step (ReaderChunk i b) s = reader_chunk i b s"
| "server_step (ReaderEof i) s = reader_eof i s"
| "server_step (WriterSent i) s = writer_sent i s"
| "server_step (WriterFailed i) s = writer_failed i s"
| "server_step PollServer s = snd (poll_server s)"
| "server_step (SendTo i m) s = send_to i m s"
| "server_step (Broadcast sb m) s = broadcast sb m s"

text \<open>How many ids an event takes from the counter.\<close>

fun ids_taken :: "server_event \<Rightarrow> server \<Rightarrow> nat" where
  "ids_taken AcceptStart s = (if accepting s = None then 1 else 0)"
| "ids_taken AcceptSkip s = 1"
| "ids_taken _ s = 0"

text \<open>The states a server can reach that was bound when the counter stood at \<open>k\<close>, with the ids taken since.\<close>

inductive server_reach :: "client_id \<Rightarrow> nat \<Rightarrow> server \<Rightarrow> bool" where
  start: "server_reach k 0 (server_new k)"
| step: "server_reach k n s \<Longrightarrow> server_reach k (n + ids_taken e s) (server_step e s)"

inductive_cases server_reachE: "server_reach k n s"

section \<open>Path and backoff facts\<close>

text \<open>
  The invariant the comment on \<^verbatim>\<open>runtime_root_from\<close> asks for: whatever the environment, the socket
  path ends in the same directory and file name.
\<close>

lemma socket_path_ends:
  "\<exists>p. socket_path xdg ex uid = p @ ''tobii-linux/tracker.sock''"
proof -
  have "\<exists>p. path_join r ''tobii-linux'' = p @ ''tobii-linux''" for r
    by (auto simp: path_join_def intro: exI [of _ "r @ ''/''"])
  then obtain p where "socket_dir xdg ex uid = p @ ''tobii-linux''"
    unfolding socket_dir_def DIR_NAME_def by blast
  then show ?thesis
    by (intro exI [of _ p]) (simp add: socket_path_def path_join_def SOCK_NAME_def)
qed

lemma backoff_sequence: "((\<lambda>d. backoff (Some d)) ^^ n) (backoff None) = min (250 * 2 ^ n) 2000"
  by (induction n) (auto simp: BACKOFF_MIN_def BACKOFF_MAX_def min_def)

section \<open>The invariant\<close>

definition all_clients :: "server \<Rightarrow> client list" where
  "all_clients s = clients s @ (case accepting s of None \<Rightarrow> [] | Some c \<Rightarrow> [c])"

definition queues_ok :: "client list \<Rightarrow> bool" where
  "queues_ok cs \<longleftrightarrow> (\<forall>c \<in> set cs. length (cl_queue c) \<le> QUEUE_DEPTH)"

text \<open>The id is one of the first \<open>n\<close> taken from a counter that stood at \<open>k\<close>, in wrapping arithmetic.\<close>

definition issued :: "client_id \<Rightarrow> nat \<Rightarrow> client_id \<Rightarrow> bool" where
  "issued k n i \<longleftrightarrow> unat (i - k) < n"

definition server_inv :: "client_id \<Rightarrow> nat \<Rightarrow> server \<Rightarrow> bool" where
  "server_inv k n s \<longleftrightarrow>
     distinct (List.map cl_id (all_clients s)) \<and>
     (\<forall>c \<in> set (all_clients s). issued k n (cl_id c)) \<and> queues_ok (all_clients s) \<and>
     distinct (List.map fst (readers s)) \<and> (\<forall>(i, b) \<in> set (readers s). issued k n i) \<and>
     next_id s = k + of_nat n"

text \<open>An id still to be taken differs from those taken, as long as the counter has not come round.\<close>

lemma issued_mono: "issued k n i \<Longrightarrow> n \<le> m \<Longrightarrow> issued k m i"
  by (simp add: issued_def)

lemma issued_next:
  assumes "n < 2 ^ 64" shows "issued k (Suc n) (k + of_nat n)" "\<not> issued k n (k + of_nat n)"
proof -
  have "unat (of_nat n :: client_id) = n" using assms by (simp add: unat_of_nat take_bit_nat_eq_self)
  then show "issued k (Suc n) (k + of_nat n)" "\<not> issued k n (k + of_nat n)" by (simp_all add: issued_def)
qed

lemma push_frame [simp]:
  "cl_id (push b c) = cl_id c" "cl_subs (push b c) = cl_subs c" "cl_name (push b c) = cl_name c"
  by (simp_all add: push_def)

lemma push_bounded: "length (cl_queue c) \<le> QUEUE_DEPTH \<Longrightarrow> length (cl_queue (push b c)) \<le> QUEUE_DEPTH"
  by (auto simp: push_def)

lemma queues_ok_simps [simp]:
  "queues_ok []" "queues_ok (c # cs) \<longleftrightarrow> length (cl_queue c) \<le> QUEUE_DEPTH \<and> queues_ok cs"
  "queues_ok (xs @ ys) \<longleftrightarrow> queues_ok xs \<and> queues_ok ys"
  by (auto simp: queues_ok_def)

lemma update_first_ids:
  "(\<And>c. cl_id (f c) = cl_id c) \<Longrightarrow> List.map cl_id (update_first i f cs) = List.map cl_id cs"
  by (induction cs) auto

lemma update_first_queues:
  "queues_ok cs \<Longrightarrow> (\<And>c. length (cl_queue c) \<le> QUEUE_DEPTH \<Longrightarrow> length (cl_queue (f c)) \<le> QUEUE_DEPTH) \<Longrightarrow>
    queues_ok (update_first i f cs)"
  by (induction cs) auto

lemma map_queues:
  "queues_ok cs \<Longrightarrow> (\<And>c. length (cl_queue c) \<le> QUEUE_DEPTH \<Longrightarrow> length (cl_queue (f c)) \<le> QUEUE_DEPTH) \<Longrightarrow>
    queues_ok (List.map f cs)"
  by (induction cs) auto

text \<open>An operation that maps the clients one by one, keeping ids and the queue bound, keeps the invariant.\<close>

lemma inv_update_client:
  assumes "server_inv k n s" and "\<And>c. cl_id (f c) = cl_id c"
    and "\<And>c. length (cl_queue c) \<le> QUEUE_DEPTH \<Longrightarrow> length (cl_queue (f c)) \<le> QUEUE_DEPTH"
  shows "server_inv k n (update_client i f s)"
proof -
  let ?g = "\<lambda>c. if cl_id c = i then f c else c"
  have a: "all_clients (update_client i f s) = List.map ?g (all_clients s)"
    by (simp add: all_clients_def update_client_def split: option.split)
  have m: "List.map cl_id (List.map ?g cs) = List.map cl_id cs" for cs
    using assms(2) by (induction cs) auto
  have q: "queues_ok (List.map ?g cs)" if "queues_ok cs" for cs
    using that assms(3) by (intro map_queues) auto
  have "\<forall>c \<in> set (List.map ?g (all_clients s)). issued k n (cl_id c)"
    using assms(1,2) by (auto simp: server_inv_def)
  with assms(1) q show ?thesis unfolding server_inv_def a m
    by (simp add: update_client_def)
qed

lemma inv_clients:
  assumes "server_inv k n s" and "List.map cl_id cs = List.map cl_id (clients s)"
    and "queues_ok cs"
  shows "server_inv k n (s\<lparr>clients := cs\<rparr>)"
proof -
  have "cl_id ` set cs = cl_id ` set (clients s)" using assms(2) by (metis list.set_map)
  moreover have "\<forall>c \<in> set (clients s). issued k n (cl_id c)"
    using assms(1) by (simp add: server_inv_def all_clients_def)
  ultimately have "\<forall>c \<in> set cs. issued k n (cl_id c)" by (metis (no_types, lifting) image_iff)
  with assms show ?thesis
    by (auto simp: server_inv_def all_clients_def split: option.splits)
qed

lemma all_clients_frame [simp]:
  "all_clients (s\<lparr>incoming := q\<rparr>) = all_clients s" "all_clients (s\<lparr>readers := rs\<rparr>) = all_clients s"
  "all_clients (s\<lparr>next_id := n\<rparr>) = all_clients s"
  by (simp_all add: all_clients_def)

lemma inv_frame [simp]: "server_inv k n (s\<lparr>incoming := q\<rparr>) = server_inv k n s"
  by (simp add: server_inv_def)

lemma inv_queue: "server_inv k n s \<Longrightarrow> queues_ok (clients s)"
  by (simp add: server_inv_def all_clients_def)

lemma inv_readers:
  assumes "server_inv k n s" and "distinct (List.map fst rs)" and "fst ` set rs \<subseteq> fst ` set (readers s)"
  shows "server_inv k n (s\<lparr>readers := rs\<rparr>)"
proof -
  have "\<forall>(i, b) \<in> set rs. issued k n i"
    using assms(1,3) unfolding server_inv_def by fastforce
  with assms(1,2) show ?thesis by (simp add: server_inv_def all_clients_def)
qed

lemma inv_send_to: "server_inv k n s \<Longrightarrow> server_inv k n (send_to i m s)"
  unfolding send_to_def
  by (rule inv_clients) (simp_all add: update_first_ids update_first_queues push_bounded inv_queue)

lemma inv_broadcast: "server_inv k n s \<Longrightarrow> server_inv k n (broadcast sb m s)"
  unfolding broadcast_def
  by (rule inv_clients) (auto simp: push_bounded inv_queue intro!: map_queues)

lemma handle_ids: "List.map cl_id (handle_incoming m cs) = List.map cl_id cs"
proof (cases m)
  case (Pair i x)
  then show ?thesis by (cases x) (simp_all add: handle_incoming_def update_first_ids)
qed

lemma handle_queues: "queues_ok cs \<Longrightarrow> queues_ok (handle_incoming m cs)"
proof (cases m)
  case (Pair i x)
  assume "queues_ok cs"
  with Pair show ?thesis by (cases x) (simp_all add: handle_incoming_def update_first_queues)
qed

lemma handle_all:
  "List.map cl_id (fold handle_incoming ms cs) = List.map cl_id cs"
  "queues_ok cs \<Longrightarrow> queues_ok (fold handle_incoming ms cs)"
  by (induction ms arbitrary: cs) (simp_all add: handle_ids handle_queues)

lemma queues_ok_filter [simp]: "queues_ok cs \<Longrightarrow> queues_ok (List.filter P cs)"
  by (simp add: queues_ok_def)

lemma inv_reap: "server_inv k n s \<Longrightarrow> server_inv k n (reap s)"
  by (auto simp: server_inv_def all_clients_def reap_def distinct_map_filter split: option.splits)

lemma inv_poll: "server_inv k n s \<Longrightarrow> server_inv k n (snd (poll_server s))"
proof -
  assume s: "server_inv k n s"
  then have "server_inv k n (s\<lparr>clients := fold handle_incoming (incoming s) (clients s)\<rparr>)"
    by (intro inv_clients) (simp_all add: handle_all inv_queue)
  then have "server_inv k n (s\<lparr>clients := fold handle_incoming (incoming s) (clients s), incoming := []\<rparr>)"
    using inv_frame by fastforce
  then show ?thesis by (simp add: poll_server_def inv_reap)
qed

lemma inv_register: "server_inv k n s \<Longrightarrow> server_inv k n (accept_register s)"
  by (auto simp: server_inv_def all_clients_def accept_register_def split: option.splits)

text \<open>More ids may have been taken; the counter itself then stands elsewhere.\<close>

lemma inv_skip: "server_inv k n s \<Longrightarrow> server_inv k (Suc n) (accept_skip s)"
  by (auto simp: server_inv_def accept_skip_def add.assoc intro: issued_mono [of k n])

lemma inv_start:
  assumes "server_inv k n s" and "accepting s = None" and "n < 2 ^ 64"
  shows "server_inv k (Suc n) (accept_start s)"
proof -
  have i: "next_id s = k + of_nat n" using assms(1) by (simp add: server_inv_def)
  have new: "issued k (Suc n) (next_id s)" "\<not> issued k n (next_id s)"
    unfolding i by (rule issued_next [OF assms(3)])+
  then have "next_id s \<notin> cl_id ` set (clients s)" "next_id s \<notin> fst ` set (readers s)"
    using assms(1) by (auto simp: server_inv_def all_clients_def)
  with assms(1,2) new(1) show ?thesis
    by (auto simp: server_inv_def all_clients_def accept_start_def i add.assoc intro: issued_mono [of k n])
qed

lemma inv_mark_dead: "server_inv k n s \<Longrightarrow> server_inv k n (mark_dead i s)"
  unfolding mark_dead_def by (rule inv_update_client) simp_all

lemma inv_stop_reader: "server_inv k n s \<Longrightarrow> server_inv k n (stop_reader i s)"
  unfolding stop_reader_def
  by (rule inv_readers) (auto simp: distinct_map_filter server_inv_def)

lemma inv_reader_chunk: "server_inv k n s \<Longrightarrow> server_inv k n (reader_chunk i b s)"
proof -
  assume s: "server_inv k n s"
  define upd where "upd r rs = List.map (\<lambda>(j, x). (j, if j = i then r else x)) rs"
    for r and rs :: "(client_id \<times> bytes) list"
  have "List.map fst (upd r rs) = List.map fst rs" for r rs
    by (induction rs) (auto simp: upd_def)
  then have "fst ` set (upd r rs) = fst ` set rs" "distinct (List.map fst (upd r rs)) = distinct (List.map fst rs)" for r rs
    by (metis list.set_map)+
  then have "server_inv k n (s\<lparr>incoming := q, readers := upd r (readers s)\<rparr>)" for q r
    using s by (intro inv_readers) (simp_all add: server_inv_def)
  then show ?thesis using s unfolding upd_def
    by (auto simp: reader_chunk_def Let_def intro!: inv_stop_reader inv_mark_dead
        split: option.split prod.split)
qed

lemma inv_step:
  assumes s: "server_inv k n s" and n: "n + ids_taken e s \<le> 2 ^ 64"
  shows "server_inv k (n + ids_taken e s) (server_step e s)"
proof (cases e)
  case AcceptStart
  show ?thesis
  proof (cases "accepting s")
    case None
    with s n AcceptStart show ?thesis by (simp add: inv_start)
  next
    case (Some c)
    with s AcceptStart show ?thesis by (simp add: accept_start_def)
  qed
next
  case (WriterSent i)
  with s show ?thesis by (auto simp: writer_sent_def intro!: inv_update_client)
next
  case (WriterFailed i)
  with s show ?thesis by (auto simp: writer_failed_def intro!: inv_update_client)
qed (use s in \<open>simp_all add: inv_register inv_skip inv_reader_chunk reader_eof_def inv_stop_reader inv_mark_dead inv_poll
    inv_send_to inv_broadcast split: option.split\<close>)

lemma inv_new: "server_inv k 0 (server_new k)"
  by (simp add: server_inv_def all_clients_def server_new_def)

lemma reach_inv: "server_reach k n s \<Longrightarrow> n \<le> 2 ^ 64 \<Longrightarrow> server_inv k n s"
  by (induction rule: server_reach.induct) (rule inv_new, rule inv_step, simp_all)

section \<open>Properties\<close>

text \<open>
  C9. Memory per client is bounded and ids are unique: in every state a server can reach, by any
  interleaving of its threads, from any value of the id counter of the process, no client has more
  than 64 messages queued and no two registered clients have the same id, as long as no more than
  \<open>2 ^ 64\<close> ids have been taken since the server was bound. The counter is a u64 that wraps; ids taken
  for connections let go and by other servers of the process count too.
\<close>

theorem server_queues_bounded:
  assumes "server_reach k n s" and "n \<le> 2 ^ 64"
  shows "distinct (List.map cl_id (clients s)) \<and>
    (\<forall>c \<in> set (clients s). length (cl_queue c) \<le> 64 \<and> unat (cl_id c - k) < n)"
  using reach_inv [OF assms]
  by (auto simp: server_inv_def all_clients_def queues_ok_def QUEUE_DEPTH_def issued_def)

text \<open>Two clients on either side of the wrap: the last id the counter has, one let go, and then 1.\<close>

theorem server_queues_bounded_witness:
  "List.map cl_id (clients (fold server_step
      [AcceptStart, AcceptRegister, AcceptSkip, AcceptStart, AcceptRegister] (server_new (- 1)))) = [- 1, 1] \<and>
   distinct [- 1, 1 :: client_id]"
proof -
  let ?s = "fold server_step
    [AcceptStart, AcceptRegister, AcceptSkip, AcceptStart, AcceptRegister] (server_new (- 1))"
  have "server_reach (- 1) 3 ?s"
    using server_reach.step [OF server_reach.step [OF server_reach.step [OF server_reach.step [OF server_reach.step
      [OF server_reach.start [of "- 1"], of AcceptStart], of AcceptRegister], of AcceptSkip], of AcceptStart],
      of AcceptRegister]
    by (simp add: server_new_def accept_start_def accept_register_def accept_skip_def numeral_3_eq_3)
  from server_queues_bounded [OF this] have d: "distinct (List.map cl_id (clients ?s))" by simp
  have i: "List.map cl_id (clients ?s) = [- 1, 1]"
    by (simp add: server_new_def accept_start_def accept_register_def accept_skip_def)
  from d i show ?thesis by metis
qed

text \<open>The events of the reader and writer threads of one client.\<close>

fun thread_of :: "client_id \<Rightarrow> server_event \<Rightarrow> bool" where
  "thread_of i (ReaderChunk j _) = (j = i)"
| "thread_of i (ReaderEof j) = (j = i)"
| "thread_of i (WriterSent j) = (j = i)"
| "thread_of i (WriterFailed j) = (j = i)"
| "thread_of i _ = False"

definition others :: "client_id \<Rightarrow> client list \<Rightarrow> client list" where
  "others i cs = List.filter (\<lambda>c. cl_id c \<noteq> i) cs"

lemma others_update: "(\<And>c. cl_id (f c) = cl_id c) \<Longrightarrow> others i (clients (update_client i f s)) = others i (clients s)"
proof -
  assume f: "\<And>c. cl_id (f c) = cl_id c"
  have "others i (List.map (\<lambda>c. if cl_id c = i then f c else c) cs) = others i cs" for cs
    by (induction cs) (auto simp: others_def f)
  then show ?thesis by (simp add: update_client_def)
qed

text \<open>
  Clients are isolated: whatever the threads of one client do, a read of any bytes, the end of
  its stream, a write or a failed write, every other client is as it was.
\<close>

theorem client_isolation:
  assumes "thread_of i e"
  shows "others i (clients (server_step e s)) = others i (clients s)"
proof -
  have u: "others i (clients (update_client i f q)) = others i (clients q)"
    if "\<And>c. cl_id (f c) = cl_id c" for f q
    using that by (rule others_update)
  show ?thesis using assms
    by (cases e) (auto simp: reader_chunk_def reader_eof_def writer_sent_def writer_failed_def
        stop_reader_def mark_dead_def Let_def u split: option.split prod.split)
qed

theorem client_isolation_witness:
  "others 1 (clients (server_step (WriterFailed 1) (server_step AcceptRegister
      (server_step AcceptStart (server_new 1))))) =
    others 1 (clients (server_step AcceptRegister (server_step AcceptStart (server_new 1))))"
  by (rule client_isolation) simp

text \<open>The last hello of a client among the messages waiting.\<close>

fun last_hello :: "client_id \<Rightarrow> (client_id \<times> ipc_msg) list \<Rightarrow> (u32 \<times> str) option" where
  "last_hello i [] = None"
| "last_hello i ((j, m) # ms) =
     (case last_hello i ms of
        Some h \<Rightarrow> Some h
      | None \<Rightarrow> (case m of Hello _ sb name \<Rightarrow> if j = i then Some (sb, name) else None | _ \<Rightarrow> None))"

text \<open>How a client stands after the waiting messages.\<close>

definition greeted :: "(client_id \<times> ipc_msg) list \<Rightarrow> client \<Rightarrow> client" where
  "greeted ms c =
     (case last_hello (cl_id c) ms of
        None \<Rightarrow> c
      | Some (sb, name) \<Rightarrow> c\<lparr>cl_subs := sb, cl_name := name\<rparr>)"

lemma update_first_map:
  "distinct (List.map cl_id cs) \<Longrightarrow> update_first i f cs = List.map (\<lambda>c. if cl_id c = i then f c else c) cs"
proof (induction cs)
  case (Cons c cs)
  moreover have "List.map (\<lambda>c. if cl_id c = i then f c else c) cs = cs" if i: "cl_id c = i"
  proof (rule map_idI)
    fix x assume "x \<in> set cs"
    then have "cl_id x \<in> cl_id ` set cs" by (rule imageI)
    then show "(if cl_id x = i then f x else x) = x" using Cons.prems i by auto
  qed
  ultimately show ?case by simp
qed simp

lemma handle_map:
  "distinct (List.map cl_id cs) \<Longrightarrow> handle_incoming m cs = List.map (greeted [m]) cs"
proof (cases m)
  case (Pair i x)
  assume "distinct (List.map cl_id cs)"
  with Pair show ?thesis
    by (cases x) (auto simp: handle_incoming_def greeted_def update_first_map map_idI)
qed

lemma greeted_id [simp]: "cl_id (greeted ms c) = cl_id c" "cl_alive (greeted ms c) = cl_alive c"
  by (auto simp: greeted_def split: option.split)

lemma greeted_Cons: "greeted (m # ms) c = greeted ms (greeted [m] c)"
  by (cases m; cases "snd m"; cases "last_hello (cl_id c) ms") (auto simp: greeted_def)

lemma handle_all_map:
  "distinct (List.map cl_id cs) \<Longrightarrow> fold handle_incoming ms cs = List.map (greeted ms) cs"
proof (induction ms arbitrary: cs)
  case Nil
  then show ?case by (simp add: greeted_def map_idI)
next
  case (Cons m ms)
  have d: "distinct (List.map cl_id (List.map (greeted [m]) cs))"
    using Cons.prems by (simp add: comp_def)
  have "fold handle_incoming (m # ms) cs = fold handle_incoming ms (List.map (greeted [m]) cs)"
    using handle_map [OF Cons.prems] by simp
  also have "\<dots> = List.map (greeted ms) (List.map (greeted [m]) cs)" by (rule Cons.IH [OF d])
  also have "\<dots> = List.map (greeted (m # ms)) cs" by (simp add: greeted_Cons [of m ms])
  finally show ?case .
qed

text \<open>
  Polling does all it says: in every reachable state it hands out the waiting messages, gives
  each client the subscriptions and name of its last hello among them, drops exactly the clients
  whose connection has gone, and leaves the rest alone.
\<close>

theorem poll_server_effect:
  assumes "server_reach k n s" and "n \<le> 2 ^ 64"
  shows "poll_server s =
    (incoming s,
     s\<lparr>clients := List.map (greeted (incoming s)) (List.filter cl_alive (clients s)), incoming := []\<rparr>)"
proof -
  have d: "distinct (List.map cl_id (clients s))"
    using reach_inv [OF assms] by (simp add: server_inv_def all_clients_def)
  have "List.filter cl_alive (List.map (greeted ms) cs) = List.map (greeted ms) (List.filter cl_alive cs)" for ms cs
    by (simp add: filter_map comp_def)
  then show ?thesis by (simp add: poll_server_def reap_def handle_all_map [OF d])
qed

theorem poll_server_effect_witness:
  "poll_server (server_step AcceptRegister (server_step AcceptStart (server_new 1))) =
    ([], server_step AcceptRegister (server_step AcceptStart (server_new 1)))"
proof -
  let ?s = "server_step AcceptRegister (server_step AcceptStart (server_new 1))"
  have "server_reach 1 1 ?s"
    using server_reach.step [OF server_reach.step [OF server_reach.start [of 1], of AcceptStart], of AcceptRegister]
    by (simp add: accept_start_def accept_register_def server_new_def)
  from poll_server_effect [OF this] show ?thesis
    by (simp add: accept_start_def accept_register_def server_new_def greeted_def)
qed

text \<open>
  A hello can be lost. The accept thread starts a client's reader before it registers the
  client; when the client's hello is read and polled in between, it names nobody, and the client
  is registered with no subscriptions. Nothing it subscribed to will ever be sent to it.
\<close>

theorem hello_lost_before_register:
  assumes "sendable (Hello v sb name)"
  shows "let s = fold server_step
        [AcceptStart, ReaderChunk 1 (encode (Hello v sb name)), PollServer, AcceptRegister] (server_new 1)
      in List.map (\<lambda>c. (cl_id c, cl_subs c, cl_alive c)) (clients s) = [(1, 0, True)] \<and>
        incoming s = [] \<and> (\<forall>sb' m. sb' \<noteq> 0 \<longrightarrow> broadcast sb' m s = s)"
proof -
  have r: "read_messages (encode (Hello v sb name)) = ([Hello v sb name], [], True)"
    using ipc.drain_messages [of "[Hello v sb name]" "[]"] assms ipc.dec_nil by simp
  define bs where "bs = encode (Hello v sb name)"
  from r have "read_messages bs = ([Hello v sb name], [], True)" by (simp only: bs_def)
  then show ?thesis unfolding bs_def [symmetric]
    by (simp add: accept_start_def accept_register_def reader_chunk_def server_new_def
        poll_server_def reap_def handle_incoming_def broadcast_def Let_def)
qed

theorem hello_lost_before_register_witness:
  "let s = fold server_step
      [AcceptStart, ReaderChunk 1 (encode (Hello 1 3 [0x67])), PollServer, AcceptRegister] (server_new 1)
    in List.map (\<lambda>c. (cl_id c, cl_subs c, cl_alive c)) (clients s) = [(1, 0, True)] \<and>
      incoming s = [] \<and> broadcast 1 Recentre s = s"
proof -
  have "sendable (Hello 1 3 [0x67])"
    by (simp add: sendable_def is_scalar_def msg_payload_def MAX_PAYLOAD_def utf8_enc1_def)
  from hello_lost_before_register [OF this] show ?thesis unfolding Let_def by simp
qed

text \<open>
  A live daemon's socket is never taken: binding removes the file only when the address is in
  use and nobody answers on it, and a daemon that answers makes it fail as in use.
\<close>

theorem bind_keeps_live_socket:
  "case bind_at path first_bind probed remove second_bind of (res, removed) \<Rightarrow>
     (removed \<longleftrightarrow> length path \<le> 107 \<and> first_bind = Inl AddrInUse \<and> \<not> probed \<and> remove = Inr ()) \<and>
     (is_ok res \<longrightarrow> length path \<le> 107 \<and> (first_bind = Inr () \<or> removed))"
proof (cases first_bind)
  case (Inl e)
  then show ?thesis
    by (cases e; cases probed; cases remove) (simp_all add: bind_at_def check_socket_path_def MAX_SOCKET_PATH_def)
qed (simp_all add: bind_at_def check_socket_path_def MAX_SOCKET_PATH_def)

theorem bind_keeps_live_socket_witness:
  "bind_at ''/run/t.sock'' (Inl AddrInUse) False (Inr ()) (Inr ()) = (Inr (), True) \<and>
   length ''/run/t.sock'' \<le> 107"
proof -
  have b: "bind_at ''/run/t.sock'' (Inl AddrInUse) False (Inr ()) (Inr ()) = (Inr (), True)"
    by (simp add: bind_at_def check_socket_path_def MAX_SOCKET_PATH_def)
  then show ?thesis
    using bind_keeps_live_socket [of "''/run/t.sock''" "Inl AddrInUse" False "Inr ()" "Inr ()"] by simp
qed

end
