(* ===== verification/Transport.thy ===== *)
theory Transport
  imports Text
begin

text \<open>
  The byte transports (\<^verbatim>\<open>tobii-usb\<close>: \<^verbatim>\<open>transport.rs\<close> and the two transports of \<^verbatim>\<open>capture.rs\<close>).
  libusb is a parameter: a record of the bulk read and the bulk write on some device state. The
  locale \<open>transport\<close> is the contract the connection driver relies on, in terms of the transfers a
  transport has yet to deliver and the frames it was given; the USB transport over a device that
  answers from a list, the replay transport and the recording wrapper are shown to meet it.
\<close>

section \<open>Errors and the interface\<close>

datatype rusb_error = Access | Busy | NoDevice | OtherRusb nat

datatype usb_error =
    DeviceNotFound
  | PermissionDenied
  | DeviceBusy
  | Usb rusb_error
  | ImplausibleCalibration nat
  | ShortWrite nat nat
  | HandshakeError
  | NoResponse u32

fun classify_open_failure :: "rusb_error \<Rightarrow> usb_error" where
  "classify_open_failure Access = PermissionDenied"
| "classify_open_failure Busy = DeviceBusy"
| "classify_open_failure NoDevice = DeviceNotFound"
| "classify_open_failure e = Usb e"

text \<open>
  Finding the device on the bus: each entry is what its descriptor says, where that can be read, and
  what opened it gives. A failure to enumerate at all is the error of the listing.
\<close>

definition VID :: u16 where "VID = 0x2104"
definition PID :: u16 where "PID = 0x0313"

record 'd bus_entry =
  descriptor :: "(u16 \<times> u16) option"
  opened :: "(rusb_error, 'd) result"

fun open_loop :: "rusb_error option \<Rightarrow> 'd bus_entry list \<Rightarrow> (usb_error, 'd) result" where
  "open_loop failure [] =
     Inl (case failure of None \<Rightarrow> DeviceNotFound | Some e \<Rightarrow> classify_open_failure e)"
| "open_loop failure (e # es) =
     (case descriptor e of
        None \<Rightarrow> open_loop failure es
      | Some (vendor, product) \<Rightarrow>
          if vendor \<noteq> VID \<or> product \<noteq> PID then open_loop failure es
          else (case opened e of
                  Inr h \<Rightarrow> Inr h
                | Inl err \<Rightarrow> open_loop (Some err) es))"

definition open_handle :: "(rusb_error, 'd bus_entry list) result \<Rightarrow> (usb_error, 'd) result" where
  "open_handle listing = res_bind (case listing of Inl e \<Rightarrow> Inl (Usb e) | Inr es \<Rightarrow> Inr es) (open_loop None)"

text \<open>The trait: send all bytes; read into a buffer of the given size, waiting that long.\<close>

record 't transport_ops =
  op_send :: "bytes \<Rightarrow> 't \<Rightarrow> (usb_error, unit) result \<times> 't"
  op_recv :: "nat \<Rightarrow> nat \<Rightarrow> 't \<Rightarrow> bytes option \<times> 't"

section \<open>Splitting a frame into transfers\<close>

definition CHUNK :: nat where "CHUNK = 8192"
definition ENVELOPE :: nat where "ENVELOPE = 8"
definition CONT_DATA :: nat where "CONT_DATA = CHUNK - ENVELOPE"
definition SOAK_CAP :: nat where "SOAK_CAP = 2 ^ 20"
definition SOAK_SCRATCH :: nat where "SOAK_SCRATCH = 16384"
definition WRITE_TIMEOUT :: nat where "WRITE_TIMEOUT = 2000"

lemmas chunk_defs = CHUNK_def ENVELOPE_def CONT_DATA_def

text \<open>\<^verbatim>\<open>slice::chunks\<close>\<close>

function chunks :: "nat \<Rightarrow> 'a list \<Rightarrow> 'a list list" where
  "chunks n xs = (if xs = [] \<or> n = 0 then [] else take n xs # chunks n (drop n xs))"
  by pat_completeness auto
termination
  by (relation "measure (\<lambda>(n, xs). length xs)") auto

declare chunks.simps [simp del]

definition chunk_frame :: "bytes \<Rightarrow> bytes list" where
  "chunk_frame d =
     (if length d \<le> CHUNK then [d]
      else (let first = take 4 (take CHUNK d) @ le32 (of_nat CONT_DATA) @ drop 8 (take CHUNK d)
        in first # List.map (\<lambda>part. le32 0 @ le32 (of_nat (length part)) @ part)
             (chunks CONT_DATA (drop CHUNK d))))"

section \<open>The USB transport\<close>

text \<open>libusb: the bulk read into a buffer of some size and the bulk write, each with a timeout.\<close>

record 'd device_ops =
  read_bulk :: "nat \<Rightarrow> nat \<Rightarrow> 'd \<Rightarrow> (rusb_error, bytes) result \<times> 'd"
  write_bulk :: "bytes \<Rightarrow> nat \<Rightarrow> 'd \<Rightarrow> (rusb_error, nat) result \<times> 'd"

record 'd usb_transport =
  handle :: 'd
  pending :: "bytes list"
  pending_bytes :: nat

definition usb_new :: "'d \<Rightarrow> 'd usb_transport" where
  "usb_new d = \<lparr>handle = d, pending = [], pending_bytes = 0\<rparr>"

text \<open>The loop of \<open>soak_incoming\<close>: every read adds at least a byte, so the cap ends it.\<close>

function soak_loop :: "'d device_ops \<Rightarrow> 'd usb_transport \<Rightarrow> 'd usb_transport" where
  "soak_loop dev u =
     (case read_bulk dev SOAK_SCRATCH 1 (handle u) of
        (Inl _, d) \<Rightarrow> u\<lparr>handle := d\<rparr>
      | (Inr b, d) \<Rightarrow>
          (if b = [] then u\<lparr>handle := d\<rparr>
           else let u1 = u\<lparr>handle := d, pending := pending u @ [b],
                           pending_bytes := pending_bytes u + length b\<rparr>
             in (if SOAK_CAP \<le> pending_bytes u1 then u1 else soak_loop dev u1)))"
  by pat_completeness auto
termination
  by (relation "measure (\<lambda>(dev, u). SOAK_CAP - pending_bytes u)")
    (auto simp: not_le intro!: diff_less_mono2)

declare soak_loop.simps [simp del]

definition soak_incoming :: "'d device_ops \<Rightarrow> 'd usb_transport \<Rightarrow> 'd usb_transport" where
  "soak_incoming dev u = (if SOAK_CAP \<le> pending_bytes u then u else soak_loop dev u)"

definition write_all :: "'d device_ops \<Rightarrow> bytes \<Rightarrow> 'd usb_transport \<Rightarrow>
    (usb_error, unit) result \<times> 'd usb_transport" where
  "write_all dev b u =
     (case write_bulk dev b WRITE_TIMEOUT (handle u) of
        (Inl e, d) \<Rightarrow> (Inl (Usb e), u\<lparr>handle := d\<rparr>)
      | (Inr wrote, d) \<Rightarrow>
          (if wrote \<noteq> length b then (Inl (ShortWrite wrote (length b)), u\<lparr>handle := d\<rparr>)
           else (Inr (), u\<lparr>handle := d\<rparr>)))"

text \<open>The loop of \<open>send\<close> over the transfers; \<open>first\<close> tells the first of them.\<close>

fun send_parts :: "'d device_ops \<Rightarrow> bool \<Rightarrow> bytes list \<Rightarrow> 'd usb_transport \<Rightarrow>
    (usb_error, unit) result \<times> 'd usb_transport" where
  "send_parts dev first [] u = (Inr (), u)"
| "send_parts dev first (p # ps) u =
     (let u1 = (if first then u else soak_incoming dev u) in
      case write_all dev p u1 of
        (Inl e, u2) \<Rightarrow> (Inl e, u2)
      | (Inr _, u2) \<Rightarrow> send_parts dev False ps u2)"

definition usb_send :: "'d device_ops \<Rightarrow> bytes \<Rightarrow> 'd usb_transport \<Rightarrow>
    (usb_error, unit) result \<times> 'd usb_transport" where
  "usb_send dev d u = send_parts dev True (chunk_frame d) u"

definition usb_recv :: "'d device_ops \<Rightarrow> nat \<Rightarrow> nat \<Rightarrow> 'd usb_transport \<Rightarrow>
    bytes option \<times> 'd usb_transport" where
  "usb_recv dev n timeout u =
     (case pending u of
        r # rs \<Rightarrow>
          (let u1 = u\<lparr>pending := rs, pending_bytes := pending_bytes u - length r\<rparr> in
           if n < length r then (None, u1) else (Some r, u1))
      | [] \<Rightarrow>
          (case read_bulk dev n timeout (handle u) of
             (Inr b, d) \<Rightarrow> (if 0 < length b then Some b else None, u\<lparr>handle := d\<rparr>)
           | (Inl _, d) \<Rightarrow> (None, u\<lparr>handle := d\<rparr>)))"

definition usb_ops :: "'d device_ops \<Rightarrow> 'd usb_transport transport_ops" where
  "usb_ops dev = \<lparr>op_send = usb_send dev, op_recv = usb_recv dev\<rparr>"

section \<open>Recording and replaying\<close>

datatype event = Sent bytes | Received bytes

record capture =
  cap_headers :: "(str \<times> str) list"
  cap_events :: "event list"

record 't record_transport =
  inner :: 't
  capture_of :: capture

definition record_new :: "'t \<Rightarrow> 't record_transport" where
  "record_new t = \<lparr>inner = t, capture_of = \<lparr>cap_headers = [], cap_events = []\<rparr>\<rparr>"

definition header :: "str \<Rightarrow> str \<Rightarrow> 't record_transport \<Rightarrow> 't record_transport" where
  "header key val t = t\<lparr>capture_of := (capture_of t)\<lparr>cap_headers := cap_headers (capture_of t) @ [(key, val)]\<rparr>\<rparr>"

definition log_event :: "event \<Rightarrow> 't record_transport \<Rightarrow> 't record_transport" where
  "log_event e t = t\<lparr>capture_of := (capture_of t)\<lparr>cap_events := cap_events (capture_of t) @ [e]\<rparr>\<rparr>"

definition record_send :: "'t transport_ops \<Rightarrow> bytes \<Rightarrow> 't record_transport \<Rightarrow>
    (usb_error, unit) result \<times> 't record_transport" where
  "record_send ops d t =
     (let t1 = log_event (Sent d) t in
      case op_send ops d (inner t1) of (r, i) \<Rightarrow> (r, t1\<lparr>inner := i\<rparr>))"

definition record_recv :: "'t transport_ops \<Rightarrow> nat \<Rightarrow> nat \<Rightarrow> 't record_transport \<Rightarrow>
    bytes option \<times> 't record_transport" where
  "record_recv ops n timeout t =
     (case op_recv ops n timeout (inner t) of
        (None, i) \<Rightarrow> (None, t\<lparr>inner := i\<rparr>)
      | (Some b, i) \<Rightarrow> (Some b, log_event (Received b) (t\<lparr>inner := i\<rparr>)))"

definition record_ops :: "'t transport_ops \<Rightarrow> 't record_transport transport_ops" where
  "record_ops ops = \<lparr>op_send = record_send ops, op_recv = record_recv ops\<rparr>"

fun received_of :: "event list \<Rightarrow> bytes list" where
  "received_of [] = []"
| "received_of (Received b # es) = b # received_of es"
| "received_of (Sent _ # es) = received_of es"

fun sent_of :: "event list \<Rightarrow> bytes list" where
  "sent_of [] = []"
| "sent_of (Sent b # es) = b # sent_of es"
| "sent_of (Received _ # es) = sent_of es"

text \<open>The replay; \<open>replay_panicked\<close> stands for its assertion on the buffer size.\<close>

record replay_transport =
  to_deliver :: "bytes list"
  replay_sent :: "bytes list"
  exhausted_reads :: nat
  replay_panicked :: bool

definition replay_new :: "capture \<Rightarrow> replay_transport" where
  "replay_new c =
     \<lparr>to_deliver = received_of (cap_events c), replay_sent = [], exhausted_reads = 0, replay_panicked = False\<rparr>"

definition replay_send :: "bytes \<Rightarrow> replay_transport \<Rightarrow> (usb_error, unit) result \<times> replay_transport" where
  "replay_send d t = (Inr (), t\<lparr>replay_sent := replay_sent t @ [d]\<rparr>)"

definition replay_recv :: "nat \<Rightarrow> nat \<Rightarrow> replay_transport \<Rightarrow> bytes option \<times> replay_transport" where
  "replay_recv n timeout t =
     (case to_deliver t of
        [] \<Rightarrow> (None, t\<lparr>exhausted_reads := exhausted_reads t + 1\<rparr>)
      | b # bs \<Rightarrow>
          (if length b \<le> n then (Some b, t\<lparr>to_deliver := bs\<rparr>)
           else (None, t\<lparr>to_deliver := bs, replay_panicked := True\<rparr>)))"

definition replay_ops :: "replay_transport transport_ops" where
  "replay_ops = \<lparr>op_send = replay_send, op_recv = replay_recv\<rparr>"

section \<open>The contract\<close>

text \<open>
  \<open>receiver\<close>: \<open>todo\<close> are the transfers still to be delivered. In a good state, with a buffer of at
  least \<open>room\<close>, a read delivers exactly the next transfer or nothing, and a send touches neither
  the order nor the boundaries of what is to come. \<open>transport\<close> adds that a send that succeeds has
  handed over exactly its frame.
\<close>

locale receiver =
  fixes ops :: "'t transport_ops" and good :: "'t \<Rightarrow> bool" and todo :: "'t \<Rightarrow> bytes list"
    and room :: nat
  assumes recv_some: "good t \<Longrightarrow> room \<le> n \<Longrightarrow> op_recv ops n w t = (Some b, t') \<Longrightarrow>
      good t' \<and> todo t = b # todo t' \<and> length b \<le> n"
    and recv_none: "good t \<Longrightarrow> room \<le> n \<Longrightarrow> op_recv ops n w t = (None, t') \<Longrightarrow>
      good t' \<and> todo t' = todo t"
    and send_todo: "good t \<Longrightarrow> op_send ops d t = (r, t') \<Longrightarrow> good t' \<and> todo t' = todo t"

locale transport = receiver ops good todo room
  for ops :: "'t transport_ops" and good :: "'t \<Rightarrow> bool" and todo :: "'t \<Rightarrow> bytes list"
    and room :: nat +
  fixes given :: "'t \<Rightarrow> bytes list"
  assumes recv_given: "op_recv ops n w t = (x, t') \<Longrightarrow> given t' = given t"
    and send_given: "op_send ops d t = (Inr u, t') \<Longrightarrow> given t' = given t @ [d]"

text \<open>A run of sends and reads, and what it delivered.\<close>

datatype transport_call = CallSend bytes | CallRecv nat nat

fun run_calls :: "'t transport_ops \<Rightarrow> transport_call list \<Rightarrow> 't \<Rightarrow> bytes list \<times> 't" where
  "run_calls ops [] t = ([], t)"
| "run_calls ops (CallSend d # cs) t = run_calls ops cs (snd (op_send ops d t))"
| "run_calls ops (CallRecv n w # cs) t =
     (case op_recv ops n w t of (x, t1) \<Rightarrow>
        (case run_calls ops cs t1 of (out, t2) \<Rightarrow>
           ((case x of None \<Rightarrow> out | Some b \<Rightarrow> b # out), t2)))"

fun buffer_ok :: "nat \<Rightarrow> transport_call \<Rightarrow> bool" where
  "buffer_ok room (CallSend d) = True"
| "buffer_ok room (CallRecv n w) = (room \<le> n)"

context receiver begin

lemma recv_cases:
  assumes "good t" "room \<le> n" "op_recv ops n w t = (x, t')"
  shows "good t' \<and> todo t = (case x of None \<Rightarrow> [] | Some b \<Rightarrow> [b]) @ todo t'"
  using assms recv_some [of t n w _ t'] recv_none [of t n w t'] by (cases x) auto

lemma run_calls_todo:
  "good t \<Longrightarrow> list_all (buffer_ok room) cs \<Longrightarrow> run_calls ops cs t = (out, t') \<Longrightarrow>
    todo t = out @ todo t' \<and> good t'"
proof (induction cs arbitrary: t out t')
  case (Cons c cs)
  show ?case
  proof (cases c)
    case (CallSend d)
    obtain r t1 where "op_send ops d t = (r, t1)" by fastforce
    with Cons.prems CallSend send_todo [of t d r t1] Cons.IH [of t1 out t'] show ?thesis by simp
  next
    case (CallRecv n w)
    obtain x t1 where x: "op_recv ops n w t = (x, t1)" by fastforce
    obtain out1 t2 where o1: "run_calls ops cs t1 = (out1, t2)" by fastforce
    from recv_cases [OF Cons.prems(1) _ x] Cons.prems(2) CallRecv
    have g: "good t1" "todo t = (case x of None \<Rightarrow> [] | Some b \<Rightarrow> [b]) @ todo t1" by auto
    from Cons.IH [OF g(1) _ o1] Cons.prems(2) have "todo t1 = out1 @ todo t2" "good t2" by auto
    with Cons.prems(3) CallRecv x o1 g show ?thesis by (auto split: option.splits)
  qed
qed simp

text \<open>The recording wrapper keeps the contract.\<close>

lemma recording_receiver:
  "receiver (record_ops ops) (\<lambda>t. good (inner t)) (\<lambda>t. todo (inner t)) room"
proof
  fix t n w b t'
  assume "good (inner t)" "room \<le> n" "op_recv (record_ops ops) n w t = (Some b, t')"
  then show "good (inner t') \<and> todo (inner t) = b # todo (inner t') \<and> length b \<le> n"
    using recv_some by (auto simp: record_ops_def record_recv_def log_event_def split: prod.splits option.splits)
next
  fix t n w t'
  assume "good (inner t)" "room \<le> n" "op_recv (record_ops ops) n w t = (None, t')"
  then show "good (inner t') \<and> todo (inner t') = todo (inner t)"
    using recv_none by (auto simp: record_ops_def record_recv_def log_event_def split: prod.splits option.splits)
next
  fix t d r t'
  assume "good (inner t)" "op_send (record_ops ops) d t = (r, t')"
  then show "good (inner t') \<and> todo (inner t') = todo (inner t)"
    using send_todo by (auto simp: record_ops_def record_send_def Let_def log_event_def split: prod.splits)
qed

end

definition fits_buffer :: "nat \<Rightarrow> bytes list \<Rightarrow> bool" where
  "fits_buffer n bs \<longleftrightarrow> list_all (\<lambda>b. length b \<le> n) bs"

lemma fits_buffer_simps [simp]:
  "fits_buffer n []" "fits_buffer n (b # bs) \<longleftrightarrow> length b \<le> n \<and> fits_buffer n bs"
  "fits_buffer n (as @ bs) \<longleftrightarrow> fits_buffer n as \<and> fits_buffer n bs"
  by (simp_all add: fits_buffer_def)

interpretation replay: transport replay_ops "\<lambda>t. fits_buffer n0 (to_deliver t)"
  to_deliver n0 replay_sent for n0
proof
  fix t n w b t'
  assume a: "fits_buffer n0 (to_deliver t)" "n0 \<le> n" and r: "op_recv replay_ops n w t = (Some b, t')"
  from a r show "fits_buffer n0 (to_deliver t') \<and> to_deliver t = b # to_deliver t' \<and> length b \<le> n"
    by (cases "to_deliver t") (auto simp: replay_ops_def replay_recv_def split: if_splits)
next
  fix t n w t'
  assume a: "fits_buffer n0 (to_deliver t)" "n0 \<le> n" and r: "op_recv replay_ops n w t = (None, t')"
  from a r show "fits_buffer n0 (to_deliver t') \<and> to_deliver t' = to_deliver t"
    by (cases "to_deliver t") (auto simp: replay_ops_def replay_recv_def split: if_splits)
next
  fix t d r t'
  assume "fits_buffer n0 (to_deliver t)" "op_send replay_ops d t = (r, t')"
  then show "fits_buffer n0 (to_deliver t') \<and> to_deliver t' = to_deliver t"
    by (auto simp: replay_ops_def replay_send_def)
next
  fix n w t x t'
  assume "op_recv replay_ops n w t = (x, t')"
  then show "replay_sent t' = replay_sent t"
    by (cases "to_deliver t") (auto simp: replay_ops_def replay_recv_def split: if_splits)
next
  fix t d u t'
  assume "op_send replay_ops d t = (Inr u, t')"
  then show "replay_sent t' = replay_sent t @ [d]" by (auto simp: replay_ops_def replay_send_def)
qed

interpretation recorded_replay: receiver "record_ops replay_ops"
  "\<lambda>t. fits_buffer n0 (to_deliver (inner t))" "\<lambda>t. to_deliver (inner t)" n0 for n0
  by (rule replay.recording_receiver)

section \<open>The USB transport meets the contract\<close>

text \<open>
  What the driver relies on of libusb and the device: a bulk read returns the next transfer of the
  device, whole and no longer than the buffer given, or nothing; a write leaves the incoming transfers
  alone.
\<close>

definition device_ok :: "'d device_ops \<Rightarrow> ('d \<Rightarrow> bytes list) \<Rightarrow> bool" where
  "device_ok dev dtodo \<longleftrightarrow>
     (\<forall>n w d x d'. read_bulk dev n w d = (x, d') \<longrightarrow>
        (case x of
           Inl e \<Rightarrow> dtodo d' = dtodo d
         | Inr b \<Rightarrow> if b = [] then dtodo d' = dtodo d
             else dtodo d = b # dtodo d' \<and> length b \<le> n)) \<and>
     (\<forall>b w d x d'. write_bulk dev b w d = (x, d') \<longrightarrow> dtodo d' = dtodo d)"

text \<open>The queue's books: the byte count is right, every entry fits a buffer, the cap holds.\<close>

definition usb_inv :: "'d usb_transport \<Rightarrow> bool" where
  "usb_inv u \<longleftrightarrow> pending_bytes u = sum_list (List.map length (pending u)) \<and>
     fits_buffer SOAK_SCRATCH (pending u) \<and> pending_bytes u < SOAK_CAP + SOAK_SCRATCH"

definition usb_todo :: "('d \<Rightarrow> bytes list) \<Rightarrow> 'd usb_transport \<Rightarrow> bytes list" where
  "usb_todo dtodo u = pending u @ dtodo (handle u)"

lemma device_read:
  assumes "device_ok dev dtodo" "read_bulk dev n w d = (x, d')"
  shows "dtodo d = (case x of Inr b \<Rightarrow> if b = [] then [] else [b] | Inl _ \<Rightarrow> []) @ dtodo d'"
    and "x = Inr b \<Longrightarrow> b \<noteq> [] \<Longrightarrow> length b \<le> n"
proof -
  have "case x of Inl e \<Rightarrow> dtodo d' = dtodo d
      | Inr b \<Rightarrow> if b = [] then dtodo d' = dtodo d
          else dtodo d = b # dtodo d' \<and> length b \<le> n"
    using assms unfolding device_ok_def by blast
  then show "dtodo d = (case x of Inr b \<Rightarrow> if b = [] then [] else [b] | Inl _ \<Rightarrow> []) @ dtodo d'"
    and "x = Inr b \<Longrightarrow> b \<noteq> [] \<Longrightarrow> length b \<le> n"
    by (cases x; auto split: if_splits)+
qed

lemma device_write: "device_ok dev dtodo \<Longrightarrow> write_bulk dev b w d = (x, d') \<Longrightarrow> dtodo d' = dtodo d"
  unfolding device_ok_def by blast

lemma soak_loop_ok:
  assumes "device_ok dev dtodo" "usb_inv u" "pending_bytes u < SOAK_CAP"
  shows "usb_inv (soak_loop dev u) \<and> usb_todo dtodo (soak_loop dev u) = usb_todo dtodo u"
  using assms
proof (induction dev u rule: soak_loop.induct)
  case (1 dev u)
  obtain x d where x: "read_bulk dev SOAK_SCRATCH 1 (handle u) = (x, d)" by fastforce
  note t = device_read [OF "1.prems"(1) x]
  show ?case
  proof (cases "\<exists>b. x = Inr b \<and> b \<noteq> []")
    case False
    then have "soak_loop dev u = u\<lparr>handle := d\<rparr>"
      using x by (cases x) (auto simp: soak_loop.simps [of dev u])
    moreover have "dtodo d = dtodo (handle u)" using t(1) False by (cases x) auto
    ultimately show ?thesis using "1.prems"(2) by (simp add: usb_inv_def usb_todo_def)
  next
    case True
    then obtain b where b: "x = Inr b" "b \<noteq> []" by blast
    define u1 where "u1 = u\<lparr>handle := d, pending := pending u @ [b],
                           pending_bytes := pending_bytes u + length b\<rparr>"
    have s: "soak_loop dev u = (if SOAK_CAP \<le> pending_bytes u1 then u1 else soak_loop dev u1)"
      using x b by (simp add: soak_loop.simps [of dev u] u1_def)
    have "dtodo (handle u) = b # dtodo d" "length b \<le> SOAK_SCRATCH" using t b by simp_all
    then have i: "usb_inv u1" "usb_todo dtodo u1 = usb_todo dtodo u"
      using "1.prems"(2,3) by (auto simp: usb_inv_def usb_todo_def u1_def)
    show ?thesis
    proof (cases "SOAK_CAP \<le> pending_bytes u1")
      case True
      with s i show ?thesis by simp
    next
      case False
      with "1.IH" [OF x [symmetric] b(1) b(2) u1_def False "1.prems"(1) i(1)] s i show ?thesis by simp
    qed
  qed
qed

lemma soak_incoming_ok:
  "device_ok dev dtodo \<Longrightarrow> usb_inv u \<Longrightarrow>
    usb_inv (soak_incoming dev u) \<and> usb_todo dtodo (soak_incoming dev u) = usb_todo dtodo u"
  by (simp add: soak_incoming_def soak_loop_ok)

lemma write_all_ok:
  "device_ok dev dtodo \<Longrightarrow> usb_inv u \<Longrightarrow> write_all dev b u = (x, u') \<Longrightarrow>
    usb_inv u' \<and> usb_todo dtodo u' = usb_todo dtodo u"
  by (auto simp: write_all_def usb_inv_def usb_todo_def dest: device_write
      split: prod.splits sum.splits if_splits)

lemma send_parts_ok:
  "device_ok dev dtodo \<Longrightarrow> usb_inv u \<Longrightarrow> send_parts dev first ps u = (x, u') \<Longrightarrow>
    usb_inv u' \<and> usb_todo dtodo u' = usb_todo dtodo u"
proof (induction ps arbitrary: first u)
  case (Cons p ps)
  define u1 where "u1 = (if first then u else soak_incoming dev u)"
  have i: "usb_inv u1" "usb_todo dtodo u1 = usb_todo dtodo u"
    using Cons.prems(1,2) by (simp_all add: u1_def soak_incoming_ok)
  obtain y u2 where w: "write_all dev p u1 = (y, u2)" by fastforce
  from write_all_ok [OF Cons.prems(1) i(1) w] i
  have j: "usb_inv u2" "usb_todo dtodo u2 = usb_todo dtodo u" by simp_all
  show ?case
  proof (cases y)
    case (Inl e)
    with Cons.prems(3) w j show ?thesis by (simp add: u1_def [symmetric])
  next
    case (Inr v)
    then have "send_parts dev False ps u2 = (x, u')"
      using Cons.prems(3) w by (simp add: u1_def [symmetric])
    from Cons.IH [OF Cons.prems(1) j(1) this] j show ?thesis by simp
  qed
qed simp

lemma usb_recv_ok:
  assumes d: "device_ok dev dtodo" and u: "usb_inv u" and n: "SOAK_SCRATCH \<le> n"
    and r: "usb_recv dev n w u = (x, u')"
  shows "usb_inv u' \<and> usb_todo dtodo u = (case x of None \<Rightarrow> [] | Some b \<Rightarrow> [b]) @ usb_todo dtodo u' \<and>
    (\<forall>b. x = Some b \<longrightarrow> length b \<le> n)"
proof (cases "pending u")
  case (Cons b bs)
  then have "length b \<le> n" using u n by (simp add: usb_inv_def)
  with Cons r u show ?thesis by (auto simp: usb_recv_def Let_def usb_inv_def usb_todo_def)
next
  case Nil
  obtain y e where y: "read_bulk dev n w (handle u) = (y, e)" by fastforce
  note t = device_read [OF d y]
  show ?thesis
  proof (cases y)
    case (Inl er)
    with Nil y r u t(1) show ?thesis by (auto simp: usb_recv_def usb_inv_def usb_todo_def)
  next
    case (Inr b)
    have "b \<noteq> [] \<Longrightarrow> length b \<le> n" using t(2) [OF Inr] n by simp
    with Inr Nil y r u t(1) show ?thesis
      by (auto simp: usb_recv_def usb_inv_def usb_todo_def split: if_splits)
  qed
qed

lemma usb_receiver:
  assumes "device_ok dev dtodo"
  shows "receiver (usb_ops dev) usb_inv (usb_todo dtodo) SOAK_SCRATCH"
proof
  show "usb_inv t' \<and> usb_todo dtodo t = b # usb_todo dtodo t' \<and> length b \<le> n"
    if "usb_inv t" "SOAK_SCRATCH \<le> n" "op_recv (usb_ops dev) n w t = (Some b, t')" for t n w b t'
    using usb_recv_ok [OF assms that(1,2)] that(3) by (fastforce simp: usb_ops_def)
  show "usb_inv t' \<and> usb_todo dtodo t' = usb_todo dtodo t"
    if "usb_inv t" "SOAK_SCRATCH \<le> n" "op_recv (usb_ops dev) n w t = (None, t')" for t n w t'
    using usb_recv_ok [OF assms that(1,2)] that(3) by (fastforce simp: usb_ops_def)
  show "usb_inv t' \<and> usb_todo dtodo t' = usb_todo dtodo t"
    if "usb_inv t" "op_send (usb_ops dev) d t = (r, t')" for t d r t'
    using send_parts_ok [OF assms that(1)] that(2) by (fastforce simp: usb_ops_def usb_send_def)
qed

section \<open>Opening\<close>

definition is_tracker :: "'d bus_entry \<Rightarrow> bool" where
  "is_tracker e \<longleftrightarrow> descriptor e = Some (VID, PID)"

lemma open_loop_cases:
  "open_loop failure es =
     (case find (\<lambda>e. is_tracker e \<and> is_ok (opened e)) es of
        Some e \<Rightarrow> Inr (the (ok (opened e)))
      | None \<Rightarrow> Inl (case filter is_tracker es of
            [] \<Rightarrow> (case failure of None \<Rightarrow> DeviceNotFound | Some f \<Rightarrow> classify_open_failure f)
          | ts \<Rightarrow> classify_open_failure (projl (opened (last ts)))))"
proof (induction es arbitrary: failure)
  case (Cons e es)
  show ?case
  proof (cases "is_tracker e")
    case False
    then have "open_loop failure (e # es) = open_loop failure es"
      by (cases "descriptor e") (auto simp: is_tracker_def split: if_splits)
    with False show ?thesis unfolding Cons.IH
      by (cases "find (\<lambda>e. is_tracker e \<and> is_ok (opened e)) es") simp_all
  next
    case True
    then have "descriptor e = Some (VID, PID)" by (simp add: is_tracker_def)
    with True Cons.IH show ?thesis
      by (cases "opened e") (auto split: option.splits list.splits)
  qed
qed simp

section \<open>Properties\<close>

text \<open>
  C24. No transfer is lost, merged or split: over any device whose reads give a whole transfer that fits
  the buffer given, or nothing, and any sequence of sends (with the reads soaked up between the parts
  of a large one) and receives with buffers of at least 16384 bytes, as all the callers' are, the
  caller gets the device's transfers in their order, one at a time, and the rest is still to come,
  queued here or with the device: at the cap of 1 MiB the soaking stops and leaves the transfers with
  the device. What is buffered stays below the cap plus one transfer.
\<close>

theorem usb_transfers_in_order:
  assumes "device_ok dev dtodo" and "list_all (buffer_ok SOAK_SCRATCH) cs"
    and "run_calls (usb_ops dev) cs (usb_new d) = (out, u)"
  shows "dtodo d = out @ pending u @ dtodo (handle u) \<and>
    pending_bytes u = sum_list (List.map length (pending u)) \<and>
    pending_bytes u < SOAK_CAP + SOAK_SCRATCH"
proof -
  have "usb_inv (usb_new d)" by (simp add: usb_inv_def usb_new_def SOAK_CAP_def)
  with receiver.run_calls_todo [OF usb_receiver [OF assms(1)] this assms(2,3)]
  show ?thesis by (simp add: usb_todo_def usb_new_def usb_inv_def)
qed

text \<open>A device that answers from a list; no entry stands for a timeout.\<close>

definition list_device :: "bytes option list device_ops" where
  "list_device =
     \<lparr>read_bulk = (\<lambda>n w d. case d of
        Some b # r \<Rightarrow> if b \<noteq> [] \<and> length b \<le> n then (Inr b, r) else (Inl Busy, d)
      | None # r \<Rightarrow> (Inl (OtherRusb 7), r)
      | [] \<Rightarrow> (Inl (OtherRusb 7), [])),
      write_bulk = (\<lambda>b w d. (Inr (length b), d))\<rparr>"

definition list_todo :: "bytes option list \<Rightarrow> bytes list" where
  "list_todo d = concat (List.map (\<lambda>x. case x of Some b \<Rightarrow> [b] | None \<Rightarrow> []) d)"

lemma list_device_ok: "device_ok list_device list_todo"
  by (auto simp: device_ok_def list_device_def list_todo_def split: list.splits option.splits if_splits)

theorem usb_transfers_in_order_witness:
  "list_todo [Some [1, 2], None, Some [3]] =
    fst (run_calls (usb_ops list_device) [CallRecv 16384 100, CallSend [7], CallRecv 16384 100]
      (usb_new [Some [1, 2], None, Some [3]])) @ [[3]]"
proof -
  let ?cs = "[CallRecv 16384 100, CallSend [7], CallRecv 16384 100]"
  let ?d = "[Some [1, 2], None, Some [3]] :: bytes option list"
  have r: "run_calls (usb_ops list_device) ?cs (usb_new ?d) =
      ([[1, 2]], \<lparr>handle = [Some [3]], pending = [], pending_bytes = 0\<rparr>)"
    by (simp add: usb_ops_def usb_recv_def usb_send_def chunk_frame_def CHUNK_def write_all_def
        list_device_def usb_new_def SOAK_SCRATCH_def)
  have "list_all (buffer_ok SOAK_SCRATCH) ?cs" by (simp add: SOAK_SCRATCH_def)
  from usb_transfers_in_order [OF list_device_ok this r]
  have "list_todo ?d = [[1, 2]] @ [] @ list_todo [Some [3]]" by simp
  then show ?thesis unfolding r by (simp add: list_todo_def)
qed

lemma chunks_concat: "0 < n \<Longrightarrow> concat (chunks n xs) = xs"
  by (induction n xs rule: chunks.induct) (subst chunks.simps, auto)

lemma chunks_length: "p \<in> set (chunks n xs) \<Longrightarrow> length p \<le> n \<and> p \<noteq> []"
  by (induction n xs rule: chunks.induct) (subst (asm) (2) chunks.simps, auto split: if_splits)

text \<open>
  Splitting loses nothing: the transfers of a frame, each without its eight-byte envelope,
  concatenate to the frame without its own; the first four bytes are kept; every transfer is within
  the device's limit, and where there are several each declares its own length.
\<close>

theorem chunk_frame_reassembles:
  assumes "8 \<le> length d"
  shows "concat (List.map (drop 8) (chunk_frame d)) = drop 8 d \<and>
    take 4 (hd (chunk_frame d)) = take 4 d \<and>
    list_all (\<lambda>p. length p \<le> 8192 \<and> (length d > 8192 \<longrightarrow>
      sub_slice 4 8 p = le32 (of_nat (length p - 8)))) (chunk_frame d)"
proof (cases "length d \<le> 8192")
  case True
  then show ?thesis by (simp add: chunk_frame_def CHUNK_def)
next
  case False
  let ?f = "take 4 d @ le32 (of_nat 8184) @ drop 8 (take 8192 d)"
  let ?c = "\<lambda>part :: bytes. le32 0 @ le32 (of_nat (length part)) @ part"
  have c: "chunk_frame d = ?f # List.map ?c (chunks 8184 (drop 8192 d))"
    using False by (simp add: chunk_frame_def chunk_defs)
  have "drop 8 \<circ> ?c = (\<lambda>p. p)" by (rule ext) simp
  then have "concat (List.map (drop 8) (List.map ?c ps)) = concat ps" for ps by simp
  then have "concat (List.map (drop 8) (chunk_frame d)) = drop 8 (take 8192 d) @ drop 8192 d"
    using False by (simp add: c chunks_concat)
  also have "\<dots> = drop 8 d"
    using drop_append [of 8 "take 8192 d" "drop 8192 d"] False by simp
  finally have "concat (List.map (drop 8) (chunk_frame d)) = drop 8 d" .
  moreover have "length ?f = 8192" "sub_slice 4 8 ?f = le32 8184" using False by (simp_all add: sub_slice_def)
  moreover have "sub_slice 4 8 (?c p) = le32 (of_nat (length p))" for p by (simp add: sub_slice_def)
  moreover have "length p \<le> 8184" if "p \<in> set (chunks 8184 (drop 8192 d))" for p
    using chunks_length [OF that] by simp
  ultimately show ?thesis using False by (auto simp: c list_all_iff)
qed

theorem chunk_frame_reassembles_witness:
  "concat (List.map (drop 8) (chunk_frame (replicate 9000 7))) = replicate 8992 7"
  using chunk_frame_reassembles [of "replicate 9000 7"] by simp

text \<open>
  Opening the device: the first tracker on the bus that opens is taken, whatever else is
  attached; when none opens, the error is the reason the last tracker gave, and "not found" when
  there is no tracker whose descriptor can be read.
\<close>

theorem open_handle_outcome:
  "open_handle (Inr es) =
     (case find (\<lambda>e. is_tracker e \<and> is_ok (opened e)) es of
        Some e \<Rightarrow> Inr (the (ok (opened e)))
      | None \<Rightarrow> Inl (case filter is_tracker es of
            [] \<Rightarrow> DeviceNotFound
          | ts \<Rightarrow> classify_open_failure (projl (opened (last ts)))))"
  by (simp only: open_handle_def sum.case res_bind_simps open_loop_cases option.case)

end
