(* ===== verification/Connection.thy ===== *)
theory Connection
  imports Parser Handshake Gaze Transport
begin

text \<open>
  The connection driver (\<^verbatim>\<open>tobii-usb/src/connection.rs\<close>) over any transport. Times are
  milliseconds. The wall clock is a parameter: a request loop takes, as \<open>passes\<close>, how many times
  its deadline check succeeds for a window of a given length. The lemmas are proved once for every
  transport that meets the contract of \<open>Transport\<close>.
\<close>

section \<open>The state\<close>

definition READ_BUF :: nat where "READ_BUF = 16384"
definition STREAM_READ_BUF :: nat where "STREAM_READ_BUF = 262144"
definition RECV_TIMEOUT :: nat where "RECV_TIMEOUT = 100"
definition GAZE_TIMEOUT :: nat where "GAZE_TIMEOUT = 1000"
definition HANDSHAKE_STEP_CAP :: nat where "HANDSHAKE_STEP_CAP = 400"
definition DEFAULT_REQUEST_TIMEOUT :: nat where "DEFAULT_REQUEST_TIMEOUT = 10000"
definition CAL_POINT_TIMEOUT :: nat where "CAL_POINT_TIMEOUT = 30000"
definition MIN_PLAUSIBLE_BLOB :: nat where "MIN_PLAUSIBLE_BLOB = 4096"
definition CAL_APPLY_TIMEOUT :: nat where "CAL_APPLY_TIMEOUT = 60000"

lemma read_buf_fits [simp]: "SOAK_SCRATCH \<le> READ_BUF" "SOAK_SCRATCH \<le> STREAM_READ_BUF"
  by (simp_all add: READ_BUF_def STREAM_READ_BUF_def SOAK_SCRATCH_def)

definition is_plausible_calibration :: "bytes \<Rightarrow> bool" where
  "is_plausible_calibration blob \<longleftrightarrow> MIN_PLAUSIBLE_BLOB \<le> length blob"

record 't connection =
  conn_transport :: 't
  parser :: bytes
  gaze_queue :: "gaze_sample list"
  conn_seq :: u32
  request_timeout :: nat

definition set_request_timeout :: "nat \<Rightarrow> 't connection \<Rightarrow> 't connection" where
  "set_request_timeout w c = c\<lparr>request_timeout := w\<rparr>"

definition conn_next_seq :: "'t connection \<Rightarrow> u32 \<times> 't connection" where
  "conn_next_seq c = (conn_seq c, c\<lparr>conn_seq := bump_seq (conn_seq c)\<rparr>)"

section \<open>Reading\<close>

definition route :: "frame \<Rightarrow> handshake option \<Rightarrow> 't connection \<Rightarrow> handshake option \<times> 't connection" where
  "route f hs c =
     (if magic f = TTP_MAGIC_RSP then (map_option (on_response (payload f)) hs, c)
      else if magic f = TTP_MAGIC_NOTIFY \<and> opc f = OP_GAZE_NOTIFY
      then (hs, case gaze_decode (payload f) of
                  Some s \<Rightarrow> c\<lparr>gaze_queue := gaze_queue c @ [s]\<rparr>
                | None \<Rightarrow> c)
      else (hs, c))"

fun route_all :: "frame list \<Rightarrow> handshake option \<Rightarrow> 't connection \<Rightarrow>
    handshake option \<times> 't connection" where
  "route_all [] hs c = (hs, c)"
| "route_all (f # fs) hs c = (case route f hs c of (hs1, c1) \<Rightarrow> route_all fs hs1 c1)"

definition drain :: "'t transport_ops \<Rightarrow> nat \<Rightarrow> nat \<Rightarrow> handshake option \<Rightarrow> 't connection \<Rightarrow>
    handshake option \<times> 't connection" where
  "drain ops n timeout hs c =
     (case op_recv ops n timeout (conn_transport c) of
        (None, t) \<Rightarrow> (hs, c\<lparr>conn_transport := t\<rparr>)
      | (Some b, t) \<Rightarrow>
          (case feed (parser c) b of
             (Inl _, a) \<Rightarrow> (hs, c\<lparr>conn_transport := t, parser := a\<rparr>)
           | (Inr fs, a) \<Rightarrow> route_all fs hs (c\<lparr>conn_transport := t, parser := a\<rparr>)))"

section \<open>Connecting\<close>

text \<open>The loop of \<open>run_handshake\<close> with the iterations left.\<close>

fun handshake_loop :: "'t transport_ops \<Rightarrow> nat \<Rightarrow> handshake \<Rightarrow> 't connection \<Rightarrow>
    (usb_error, unit) result \<times> 't connection" where
  "handshake_loop ops 0 hs c = (Inl HandshakeError, c)"
| "handshake_loop ops (Suc n) hs c =
     (case poll hs of
        (hs1, Send b) \<Rightarrow>
          (case op_send ops b (conn_transport c) of
             (Inl e, t) \<Rightarrow> (Inl e, c\<lparr>conn_transport := t\<rparr>)
           | (Inr _, t) \<Rightarrow>
               (case drain ops READ_BUF RECV_TIMEOUT (Some hs1) (c\<lparr>conn_transport := t\<rparr>) of
                  (hs2, c2) \<Rightarrow> handshake_loop ops n (the hs2) c2))
      | (hs1, Recv) \<Rightarrow>
          (case drain ops READ_BUF RECV_TIMEOUT (Some hs1) c of
             (hs2, c2) \<Rightarrow> handshake_loop ops n (the hs2) c2)
      | (hs1, HsDone) \<Rightarrow> (Inr (), c\<lparr>conn_seq := hs_seq hs1\<rparr>)
      | (hs1, HsFailed) \<Rightarrow> (Inl HandshakeError, c))"

definition run_handshake :: "'t transport_ops \<Rightarrow> 't connection \<Rightarrow>
    (usb_error, unit) result \<times> 't connection" where
  "run_handshake ops c = handshake_loop ops HANDSHAKE_STEP_CAP (handshake_new STREAM_GAZE) c"

definition conn_new :: "'t \<Rightarrow> 't connection" where
  "conn_new t = \<lparr>conn_transport = t, parser = [], gaze_queue = [], conn_seq = 1,
                 request_timeout = DEFAULT_REQUEST_TIMEOUT\<rparr>"

definition connect :: "'t transport_ops \<Rightarrow> 't \<Rightarrow> (usb_error, 't connection) result" where
  "connect ops t =
     (case run_handshake ops (conn_new t) of
        (Inl e, _) \<Rightarrow> Inl e
      | (Inr _, c) \<Rightarrow> Inr c)"

section \<open>Requests\<close>

definition is_reply :: "u32 \<Rightarrow> u32 \<Rightarrow> frame \<Rightarrow> bool" where
  "is_reply op sq f \<longleftrightarrow> magic f = TTP_MAGIC_RSP \<and> opc f = op \<and> sqn f = sq"

text \<open>The loop over the frames of one transfer: the first reply is kept, the rest is routed.\<close>

fun match_frames :: "u32 \<Rightarrow> u32 \<Rightarrow> bytes option \<Rightarrow> frame list \<Rightarrow> 't connection \<Rightarrow>
    bytes option \<times> 't connection" where
  "match_frames op sq m [] c = (m, c)"
| "match_frames op sq m (f # fs) c =
     (if m = None \<and> is_reply op sq f then match_frames op sq (Some (payload f)) fs c
      else match_frames op sq m fs (snd (route f None c)))"

fun request_loop :: "'t transport_ops \<Rightarrow> u32 \<Rightarrow> u32 \<Rightarrow> nat \<Rightarrow> 't connection \<Rightarrow>
    bytes option \<times> 't connection" where
  "request_loop ops op sq 0 c = (None, c)"
| "request_loop ops op sq (Suc n) c =
     (case op_recv ops READ_BUF RECV_TIMEOUT (conn_transport c) of
        (None, t) \<Rightarrow> request_loop ops op sq n (c\<lparr>conn_transport := t\<rparr>)
      | (Some b, t) \<Rightarrow>
          (case feed (parser c) b of
             (Inl _, a) \<Rightarrow> request_loop ops op sq n (c\<lparr>conn_transport := t, parser := a\<rparr>)
           | (Inr fs, a) \<Rightarrow>
               (case match_frames op sq None fs (c\<lparr>conn_transport := t, parser := a\<rparr>) of
                  (Some p, c1) \<Rightarrow> (Some p, c1)
                | (None, c1) \<Rightarrow> request_loop ops op sq n c1)))"

definition request_until :: "'t transport_ops \<Rightarrow> (nat \<Rightarrow> nat) \<Rightarrow> u32 \<Rightarrow> bytes \<Rightarrow> nat \<Rightarrow> 't connection \<Rightarrow>
    (usb_error, bytes option) result \<times> 't connection" where
  "request_until ops passes op pl timeout c =
     (case conn_next_seq c of (sq, c1) \<Rightarrow>
        (case op_send ops (build_out_frame sq op pl) (conn_transport c1) of
           (Inl e, t) \<Rightarrow> (Inl e, c1\<lparr>conn_transport := t\<rparr>)
         | (Inr _, t) \<Rightarrow>
             (case request_loop ops op sq (passes timeout) (c1\<lparr>conn_transport := t\<rparr>) of
                (r, c2) \<Rightarrow> (Inr r, c2))))"

definition request :: "'t transport_ops \<Rightarrow> (nat \<Rightarrow> nat) \<Rightarrow> u32 \<Rightarrow> bytes \<Rightarrow> 't connection \<Rightarrow>
    (usb_error, bytes option) result \<times> 't connection" where
  "request ops passes op pl c = request_until ops passes op pl (request_timeout c) c"

definition expect_response_until :: "'t transport_ops \<Rightarrow> (nat \<Rightarrow> nat) \<Rightarrow> u32 \<Rightarrow> bytes \<Rightarrow> nat \<Rightarrow>
    't connection \<Rightarrow> (usb_error, bytes) result \<times> 't connection" where
  "expect_response_until ops passes op pl timeout c =
     (case request_until ops passes op pl timeout c of
        (Inl e, c1) \<Rightarrow> (Inl e, c1)
      | (Inr None, c1) \<Rightarrow> (Inl (NoResponse op), c1)
      | (Inr (Some p), c1) \<Rightarrow> (Inr p, c1))"

definition expect_response :: "'t transport_ops \<Rightarrow> (nat \<Rightarrow> nat) \<Rightarrow> u32 \<Rightarrow> bytes \<Rightarrow>
    't connection \<Rightarrow> (usb_error, bytes) result \<times> 't connection" where
  "expect_response ops passes op pl c = expect_response_until ops passes op pl (request_timeout c) c"

text \<open>\<^verbatim>\<open>?; Ok(())\<close> and \<^verbatim>\<open>?.is_some()\<close> on a result with its state.\<close>

definition to_unit :: "(usb_error, 'a) result \<times> 's \<Rightarrow> (usb_error, unit) result \<times> 's" where
  "to_unit r = (case r of (Inl e, c) \<Rightarrow> (Inl e, c) | (Inr _, c) \<Rightarrow> (Inr (), c))"

definition to_some :: "(usb_error, 'a option) result \<times> 's \<Rightarrow> (usb_error, bool) result \<times> 's" where
  "to_some r = (case r of (Inl e, c) \<Rightarrow> (Inl e, c) | (Inr x, c) \<Rightarrow> (Inr (x \<noteq> None), c))"

section \<open>The operations\<close>

type_synonym 't op_result = "(usb_error, unit) result \<times> 't connection"

definition start_calibration :: "'t transport_ops \<Rightarrow> (nat \<Rightarrow> nat) \<Rightarrow> 't connection \<Rightarrow> 't op_result" where
  "start_calibration ops passes c = to_unit (expect_response ops passes OP_CAL_START cal_session_payload c)"

definition stop_calibration :: "'t transport_ops \<Rightarrow> (nat \<Rightarrow> nat) \<Rightarrow> 't connection \<Rightarrow> 't op_result" where
  "stop_calibration ops passes c = to_unit (expect_response ops passes OP_CAL_STOP cal_session_payload c)"

definition clear_calibration :: "'t transport_ops \<Rightarrow> (nat \<Rightarrow> nat) \<Rightarrow> 't connection \<Rightarrow> 't op_result" where
  "clear_calibration ops passes c = to_unit (expect_response ops passes OP_CAL_CLEAR cal_session_payload c)"

definition add_calibration_point :: "'t transport_ops \<Rightarrow> (nat \<Rightarrow> nat) \<Rightarrow> f64 \<Rightarrow> f64 \<Rightarrow> u32 \<Rightarrow>
    't connection \<Rightarrow> 't op_result" where
  "add_calibration_point ops passes x y eye c =
     to_unit (expect_response_until ops passes OP_CAL_ADD_POINT (cal_add_point_payload x y eye)
       CAL_POINT_TIMEOUT c)"

definition discard_calibration_point :: "'t transport_ops \<Rightarrow> (nat \<Rightarrow> nat) \<Rightarrow> f64 \<Rightarrow> f64 \<Rightarrow>
    't connection \<Rightarrow> 't op_result" where
  "discard_calibration_point ops passes x y c =
     to_unit (expect_response_until ops passes OP_CAL_DISCARD_POINT (cal_discard_point_payload x y)
       CAL_POINT_TIMEOUT c)"

definition compute_and_apply_calibration :: "'t transport_ops \<Rightarrow> (nat \<Rightarrow> nat) \<Rightarrow>
    't connection \<Rightarrow> 't op_result" where
  "compute_and_apply_calibration ops passes c =
     to_unit (expect_response ops passes OP_CAL_COMPUTE cal_compute_payload c)"

definition retrieve_calibration :: "'t transport_ops \<Rightarrow> (nat \<Rightarrow> nat) \<Rightarrow> 't connection \<Rightarrow>
    (usb_error, bytes) result \<times> 't connection" where
  "retrieve_calibration ops passes c =
     (case expect_response ops passes OP_CAL_RETRIEVE cal_retrieve_payload c of
        (Inl e, c1) \<Rightarrow> (Inl e, c1)
      | (Inr p, c1) \<Rightarrow> (Inr (if 2 \<le> length p then drop 2 p else p), c1))"

definition apply_calibration :: "'t transport_ops \<Rightarrow> (nat \<Rightarrow> nat) \<Rightarrow> bytes \<Rightarrow> 't connection \<Rightarrow> 't op_result" where
  "apply_calibration ops passes blob c =
     (if \<not> is_plausible_calibration blob then (Inl (ImplausibleCalibration (length blob)), c)
      else let window = (if request_timeout c < DEFAULT_REQUEST_TIMEOUT then request_timeout c
                         else CAL_APPLY_TIMEOUT)
        in to_unit (expect_response_until ops passes OP_CAL_APPLY (cal_apply_payload blob) window c))"

definition set_display_area :: "'t transport_ops \<Rightarrow> (nat \<Rightarrow> nat) \<Rightarrow> display_corners \<Rightarrow> 't connection \<Rightarrow>
    (usb_error, bool) result \<times> 't connection" where
  "set_display_area ops passes k c =
     to_some (request ops passes OP_SET_DISPLAY_AREA (set_display_area_corners_payload k) c)"

definition get_enabled_eye :: "'t transport_ops \<Rightarrow> (nat \<Rightarrow> nat) \<Rightarrow> 't connection \<Rightarrow>
    (usb_error, enabled_eye option) result \<times> 't connection" where
  "get_enabled_eye ops passes c =
     (case request ops passes OP_GET_ENABLED_EYE [] c of
        (Inl e, c1) \<Rightarrow> (Inl e, c1)
      | (Inr r, c1) \<Rightarrow> (Inr (Option.bind r parse_enabled_eye), c1))"

definition set_enabled_eye :: "'t transport_ops \<Rightarrow> (nat \<Rightarrow> nat) \<Rightarrow> enabled_eye \<Rightarrow> 't connection \<Rightarrow>
    (usb_error, bool) result \<times> 't connection" where
  "set_enabled_eye ops passes eye c =
     to_some (request ops passes OP_SET_ENABLED_EYE (set_enabled_eye_payload eye) c)"

definition subscribe_stream :: "'t transport_ops \<Rightarrow> (nat \<Rightarrow> nat) \<Rightarrow> u16 \<Rightarrow> 't connection \<Rightarrow>
    (usb_error, bool) result \<times> 't connection" where
  "subscribe_stream ops passes sid c = to_some (request ops passes OP_SUBSCRIBE (subscribe_payload sid) c)"

definition unsubscribe_stream :: "'t transport_ops \<Rightarrow> (nat \<Rightarrow> nat) \<Rightarrow> u16 \<Rightarrow> 't connection \<Rightarrow>
    (usb_error, bool) result \<times> 't connection" where
  "unsubscribe_stream ops passes sid c = to_some (request ops passes OP_UNSUBSCRIBE (subscribe_payload sid) c)"

definition stream_catalog :: "'t transport_ops \<Rightarrow> (nat \<Rightarrow> nat) \<Rightarrow> 't connection \<Rightarrow>
    (usb_error, bytes option) result \<times> 't connection" where
  "stream_catalog ops passes c = request ops passes OP_STREAM_CATALOG [] c"

section \<open>Gaze and notifications\<close>

definition pop_gaze :: "'t connection \<Rightarrow> gaze_sample option \<times> 't connection" where
  "pop_gaze c =
     (case gaze_queue c of
        [] \<Rightarrow> (None, c)
      | s # q \<Rightarrow> (Some s, c\<lparr>gaze_queue := q\<rparr>))"

definition next_gaze :: "'t transport_ops \<Rightarrow> 't connection \<Rightarrow> gaze_sample option \<times> 't connection" where
  "next_gaze ops c =
     (case pop_gaze c of
        (Some s, c1) \<Rightarrow> (Some s, c1)
      | (None, c1) \<Rightarrow> pop_gaze (snd (drain ops READ_BUF GAZE_TIMEOUT None c1)))"

fun find_notification :: "u32 option \<Rightarrow> (u32 \<times> bytes) option \<Rightarrow> frame list \<Rightarrow> 't connection \<Rightarrow>
    (u32 \<times> bytes) option \<times> 't connection" where
  "find_notification want found [] c = (found, c)"
| "find_notification want found (f # fs) c =
     (if found = None \<and> magic f = TTP_MAGIC_NOTIFY \<and>
         (case want of None \<Rightarrow> True | Some op \<Rightarrow> opc f = op)
      then find_notification want (Some (opc f, payload f)) fs c
      else find_notification want found fs (snd (route f None c)))"

definition first_notification :: "'t transport_ops \<Rightarrow> u32 option \<Rightarrow> 't connection \<Rightarrow>
    (u32 \<times> bytes) option \<times> 't connection" where
  "first_notification ops want c =
     (case op_recv ops READ_BUF GAZE_TIMEOUT (conn_transport c) of
        (None, t) \<Rightarrow> (None, c\<lparr>conn_transport := t\<rparr>)
      | (Some b, t) \<Rightarrow>
          (case feed (parser c) b of
             (Inl _, a) \<Rightarrow> (None, c\<lparr>conn_transport := t, parser := a\<rparr>)
           | (Inr fs, a) \<Rightarrow> find_notification want None fs (c\<lparr>conn_transport := t, parser := a\<rparr>)))"

definition next_notification :: "'t transport_ops \<Rightarrow> 't connection \<Rightarrow> (u32 \<times> bytes) option \<times> 't connection" where
  "next_notification ops c = first_notification ops None c"

definition next_gaze_payload :: "'t transport_ops \<Rightarrow> 't connection \<Rightarrow> bytes option \<times> 't connection" where
  "next_gaze_payload ops c =
     (case first_notification ops (Some OP_GAZE_NOTIFY) c of (r, c1) \<Rightarrow> (map_option snd r, c1))"

record notifications =
  frames :: "(u32 \<times> bytes) list"
  saw_traffic :: bool

fun split_notifications :: "frame list \<Rightarrow> (u32 \<times> bytes) list \<Rightarrow> 't connection \<Rightarrow>
    (u32 \<times> bytes) list \<times> 't connection" where
  "split_notifications [] out c = (out, c)"
| "split_notifications (f # fs) out c =
     (if magic f = TTP_MAGIC_NOTIFY then split_notifications fs (out @ [(opc f, payload f)]) c
      else split_notifications fs out (snd (route f None c)))"

definition read_notifications :: "'t transport_ops \<Rightarrow> 't connection \<Rightarrow> notifications \<times> 't connection" where
  "read_notifications ops c =
     (case op_recv ops STREAM_READ_BUF GAZE_TIMEOUT (conn_transport c) of
        (None, t) \<Rightarrow> (\<lparr>frames = [], saw_traffic = False\<rparr>, c\<lparr>conn_transport := t\<rparr>)
      | (Some b, t) \<Rightarrow>
          (case feed (parser c) b of
             (Inl _, a) \<Rightarrow> (\<lparr>frames = [], saw_traffic = True\<rparr>, c\<lparr>conn_transport := t, parser := a\<rparr>)
           | (Inr fs, a) \<Rightarrow>
               (case split_notifications fs [] (c\<lparr>conn_transport := t, parser := a\<rparr>) of
                  (out, c1) \<Rightarrow> (\<lparr>frames = out, saw_traffic = True\<rparr>, c1))))"

section \<open>What a stretch of transfers contains\<close>

text \<open>
  The abstract view of the stream: the frames of a sequence of transfers, whatever way they are cut
  (a framing error loses what was buffered and no frame of that transfer is seen), the gaze samples
  among them, and the replies.
\<close>

fun parsed :: "bytes \<Rightarrow> bytes list \<Rightarrow> frame list \<times> bytes" where
  "parsed a [] = ([], a)"
| "parsed a (b # bs) =
     (case feed a b of
        (Inl _, a1) \<Rightarrow> parsed a1 bs
      | (Inr fs, a1) \<Rightarrow> (case parsed a1 bs of (gs, a2) \<Rightarrow> (fs @ gs, a2)))"

definition gaze_of :: "frame list \<Rightarrow> gaze_sample list" where
  "gaze_of fs = List.map_filter (\<lambda>f. if magic f = TTP_MAGIC_NOTIFY \<and> opc f = OP_GAZE_NOTIFY
     then gaze_decode (payload f) else None) fs"

definition replies_of :: "frame list \<Rightarrow> bytes list" where
  "replies_of fs = List.map payload (filter (\<lambda>f. magic f = TTP_MAGIC_RSP) fs)"

lemma gaze_of_simps [simp]:
  "gaze_of [] = []" "gaze_of (fs @ gs) = gaze_of fs @ gaze_of gs"
  by (simp_all add: gaze_of_def map_filter_def)

lemma gaze_of_reply [simp]: "magic f = TTP_MAGIC_RSP \<Longrightarrow> gaze_of (f # fs) = gaze_of fs"
  by (simp add: gaze_of_def map_filter_def magic_defs)

lemma parsed_append:
  "parsed a (bs @ cs) = (case parsed a bs of (fs, a1) \<Rightarrow> (case parsed a1 cs of (gs, a2) \<Rightarrow> (fs @ gs, a2)))"
  by (induction bs arbitrary: a) (auto split: prod.splits sum.splits)

lemma parsed_one [simp]:
  "feed a b = (Inl e, a1) \<Longrightarrow> parsed a [b] = ([], a1)"
  "feed a b = (Inr fs, a1) \<Longrightarrow> parsed a [b] = (fs, a1)"
  by simp_all

text \<open>Routing leaves everything but the queue alone, and queues the gaze in order.\<close>

definition respond_all :: "bytes list \<Rightarrow> handshake \<Rightarrow> handshake" where
  "respond_all rs hs = fold on_response rs hs"

lemma route_eq:
  "route f hs c = ((if magic f = TTP_MAGIC_RSP then map_option (on_response (payload f)) hs else hs),
     c\<lparr>gaze_queue := gaze_queue c @ gaze_of [f]\<rparr>)"
  by (auto simp: route_def gaze_of_def map_filter_def magic_defs split: option.splits)

lemma gaze_of_Cons: "gaze_of (f # fs) = gaze_of [f] @ gaze_of fs"
  using gaze_of_simps(2) [of "[f]" fs] by simp

lemma route_all_eq:
  "route_all fs hs c = (map_option (respond_all (replies_of fs)) hs,
     c\<lparr>gaze_queue := gaze_queue c @ gaze_of fs\<rparr>)"
proof (induction fs arbitrary: hs c)
  case Nil
  show ?case by (cases hs) (simp_all add: respond_all_def replies_of_def)
next
  case (Cons f fs)
  show ?case
    by (cases hs) (simp_all add: route_eq Cons.IH gaze_of_Cons [of f fs] respond_all_def replies_of_def)
qed

lemma match_frames_eq:
  "match_frames op sq m fs c =
     (case m of Some p \<Rightarrow> Some p | None \<Rightarrow> map_option payload (find (is_reply op sq) fs),
      c\<lparr>gaze_queue := gaze_queue c @ gaze_of fs\<rparr>)"
proof (induction fs arbitrary: m c)
  case (Cons f fs)
  have "is_reply op sq f \<Longrightarrow> gaze_of (f # fs) = gaze_of fs" by (simp add: is_reply_def)
  then show ?case
    by (auto simp: Cons.IH route_eq gaze_of_Cons [of f fs] split: option.splits)
qed (simp split: option.splits)

text \<open>The read of a transfer, in all its outcomes.\<close>

lemma drain_eq:
  "drain ops n w hs c =
     (case op_recv ops n w (conn_transport c) of (x, t) \<Rightarrow>
       (let p = parsed (parser c) (case x of None \<Rightarrow> [] | Some b \<Rightarrow> [b]) in
        (map_option (respond_all (replies_of (fst p))) hs,
         c\<lparr>conn_transport := t, parser := snd p, gaze_queue := gaze_queue c @ gaze_of (fst p)\<rparr>)))"
  by (cases hs) (auto simp: drain_def route_all_eq respond_all_def replies_of_def Let_def
      split: prod.splits option.splits sum.splits)

section \<open>Runs of the driver\<close>

text \<open>
  A client that sends requests, with the passes of the deadline check and the window of each, and
  asks for gaze; the gaze it is handed.
\<close>

datatype driver_call = CallRequest u32 bytes nat nat | CallGaze

fun run_driver :: "'t transport_ops \<Rightarrow> driver_call list \<Rightarrow> 't connection \<Rightarrow>
    gaze_sample list \<times> 't connection" where
  "run_driver ops [] c = ([], c)"
| "run_driver ops (CallRequest op pl w n # ds) c =
     run_driver ops ds (snd (request_until ops (\<lambda>_. n) op pl w c))"
| "run_driver ops (CallGaze # ds) c =
     (case next_gaze ops c of (x, c1) \<Rightarrow>
        (case run_driver ops ds c1 of (out, c2) \<Rightarrow>
           ((case x of None \<Rightarrow> out | Some s \<Rightarrow> s # out), c2)))"

section \<open>The driver over a transport that keeps the contract\<close>

text \<open>
  \<open>advanced\<close>: between two states of a connection the transfers \<open>bs\<close> were consumed, all their gaze
  was queued, and the reassembler is where they left it.
\<close>

definition advanced :: "('t \<Rightarrow> bytes list) \<Rightarrow> 't connection \<Rightarrow> bytes list \<Rightarrow> 't connection \<Rightarrow> bool" where
  "advanced todo c bs c' \<longleftrightarrow>
     todo (conn_transport c) = bs @ todo (conn_transport c') \<and>
     parser c' = snd (parsed (parser c) bs) \<and>
     gaze_queue c' = gaze_queue c @ gaze_of (fst (parsed (parser c) bs)) \<and>
     request_timeout c' = request_timeout c"

lemma advanced_refl: "todo (conn_transport c') = todo (conn_transport c) \<Longrightarrow> parser c' = parser c \<Longrightarrow>
    gaze_queue c' = gaze_queue c \<Longrightarrow> request_timeout c' = request_timeout c \<Longrightarrow> advanced todo c [] c'"
  by (simp add: advanced_def)

lemma advanced_trans:
  "advanced todo c bs c1 \<Longrightarrow> advanced todo c1 cs c2 \<Longrightarrow> advanced todo c (bs @ cs) c2"
  by (auto simp: advanced_def parsed_append split: prod.splits)

lemma parsed_append_fst:
  "fst (parsed a (bs @ cs)) = fst (parsed a bs) @ fst (parsed (snd (parsed a bs)) cs)"
  by (simp add: parsed_append split: prod.split)

lemma find_append:
  "find P (xs @ ys) = (case find P xs of Some x \<Rightarrow> Some x | None \<Rightarrow> find P ys)"
  by (induction xs) auto

context receiver begin

lemma recv_advanced:
  assumes "good (conn_transport c)" "room \<le> n" "op_recv ops n w (conn_transport c) = (x, t)"
  shows "good t \<and> todo (conn_transport c) = (case x of None \<Rightarrow> [] | Some b \<Rightarrow> [b]) @ todo t"
  using recv_cases [OF assms] .

lemma drain_advanced:
  assumes "good (conn_transport c)" "room \<le> n" "drain ops n w hs c = (hs', c')"
  shows "good (conn_transport c') \<and> conn_seq c' = conn_seq c \<and>
    (\<exists>bs. advanced todo c bs c' \<and>
      hs' = map_option (respond_all (replies_of (fst (parsed (parser c) bs)))) hs)"
proof -
  obtain x t where x: "op_recv ops n w (conn_transport c) = (x, t)" by fastforce
  let ?bs = "case x of None \<Rightarrow> [] | Some b \<Rightarrow> [b]"
  have "advanced todo c ?bs c'" "good (conn_transport c')" "conn_seq c' = conn_seq c"
    "hs' = map_option (respond_all (replies_of (fst (parsed (parser c) ?bs)))) hs"
    using recv_advanced [OF assms(1,2) x] assms(3) x
    by (auto simp: drain_eq advanced_def Let_def)
  then show ?thesis by blast
qed

lemma request_loop_advanced:
  assumes "room \<le> READ_BUF" "good (conn_transport c)" "request_loop ops op sq n c = (r, c')"
  shows "good (conn_transport c') \<and> conn_seq c' = conn_seq c \<and>
    (\<exists>bs. advanced todo c bs c' \<and>
       r = map_option payload (find (is_reply op sq) (fst (parsed (parser c) bs))) \<and>
       find (is_reply op sq) (fst (parsed (parser c) (butlast bs))) = None)"
  using assms(2,3)
proof (induction n arbitrary: c)
  case 0
  then have "advanced todo c [] c'" by (simp add: advanced_refl)
  with 0 show ?case by (intro conjI exI [of _ "[]"]) auto
next
  case (Suc n)
  obtain x t where x: "op_recv ops READ_BUF RECV_TIMEOUT (conn_transport c) = (x, t)" by fastforce
  let ?bs = "case x of None \<Rightarrow> [] | Some b \<Rightarrow> [b]"
  let ?p = "parsed (parser c) ?bs"
  define c1 where "c1 = c\<lparr>conn_transport := t, parser := snd ?p, gaze_queue := gaze_queue c @ gaze_of (fst ?p)\<rparr>"
  have a: "advanced todo c ?bs c1" "good (conn_transport c1)" "conn_seq c1 = conn_seq c"
    using recv_advanced [OF Suc.prems(1) assms(1) x] by (auto simp: advanced_def c1_def)
  have l: "request_loop ops op sq (Suc n) c =
      (case find (is_reply op sq) (fst ?p) of
         Some f \<Rightarrow> (Some (payload f), c1) | None \<Rightarrow> request_loop ops op sq n c1)"
    by (auto simp: x c1_def match_frames_eq split: option.splits sum.splits prod.splits)
  show ?case
  proof (cases "find (is_reply op sq) (fst ?p)")
    case (Some f)
    then have "r = Some (payload f)" "c' = c1" using l Suc.prems(2) by simp_all
    moreover have "butlast ?bs = []" by (cases x) simp_all
    ultimately show ?thesis using a Some by (intro conjI exI [of _ ?bs]) auto
  next
    case None
    then have "request_loop ops op sq n c1 = (r, c')" using l Suc.prems(2) by simp
    from Suc.IH [OF a(2) this] obtain bs where b: "advanced todo c1 bs c'" "good (conn_transport c')"
      "conn_seq c' = conn_seq c1"
      "r = map_option payload (find (is_reply op sq) (fst (parsed (parser c1) bs)))"
      "find (is_reply op sq) (fst (parsed (parser c1) (butlast bs))) = None" by blast
    have q: "parser c1 = snd ?p" by (simp add: c1_def)
    have f: "find (is_reply op sq) (fst (parsed (parser c) (?bs @ cs))) =
        find (is_reply op sq) (fst (parsed (parser c1) cs))" for cs
      unfolding parsed_append_fst q [symmetric] using None by (simp add: find_append)
    have "find (is_reply op sq) (fst (parsed (parser c) (butlast (?bs @ bs)))) = None"
    proof (cases "bs = []")
      case True
      then show ?thesis by (cases x) simp_all
    next
      case False
      then have "butlast (?bs @ bs) = ?bs @ butlast bs" by (simp add: butlast_append)
      with f [of "butlast bs"] b(5) show ?thesis by simp
    qed
    moreover have "advanced todo c (?bs @ bs) c'" by (rule advanced_trans [OF a(1) b(1)])
    moreover have "r = map_option payload (find (is_reply op sq) (fst (parsed (parser c) (?bs @ bs))))"
      using f [of bs] b(4) by simp
    ultimately show ?thesis using b(2,3) a(3) by (intro conjI exI [of _ "?bs @ bs"]) simp_all
  qed
qed

lemma next_gaze_advanced:
  assumes "room \<le> READ_BUF" "good (conn_transport c)" "next_gaze ops c = (x, c')"
  shows "good (conn_transport c') \<and> conn_seq c' = conn_seq c \<and>
    (\<exists>bs c1. advanced todo c bs c1 \<and> (x, c') = pop_gaze c1 \<and> (x = None \<longrightarrow> gaze_queue c1 = []))"
proof (cases "gaze_queue c")
  case Nil
  obtain h c1 where d: "drain ops READ_BUF GAZE_TIMEOUT None c = (h, c1)" by fastforce
  have "next_gaze ops c = pop_gaze c1" using Nil d by (simp add: next_gaze_def pop_gaze_def split: list.splits)
  with assms(3) have p: "(x, c') = pop_gaze c1" by simp
  then have "conn_transport c' = conn_transport c1" "conn_seq c' = conn_seq c1"
    "x = None \<longrightarrow> gaze_queue c1 = []"
    by (auto simp: pop_gaze_def split: list.splits)
  with drain_advanced [OF assms(2,1) d] p show ?thesis by auto
next
  case (Cons s q)
  then have p: "(x, c') = pop_gaze c" using assms(3) by (simp add: next_gaze_def pop_gaze_def)
  then have "conn_transport c' = conn_transport c" "conn_seq c' = conn_seq c" "x \<noteq> None"
    using Cons by (simp_all add: pop_gaze_def)
  moreover have "advanced todo c [] c" by (simp add: advanced_refl)
  ultimately show ?thesis using assms(2) p by auto
qed

lemma request_advanced:
  assumes "room \<le> READ_BUF" "good (conn_transport c)"
    and "request_until ops passes op pl w c = (r, c')"
  shows "good (conn_transport c') \<and> conn_seq c' = bump_seq (conn_seq c) \<and>
    (\<exists>bs. advanced todo c bs c' \<and> (case r of Inl e \<Rightarrow> bs = [] | Inr x \<Rightarrow>
       x = map_option payload (find (is_reply op (conn_seq c)) (fst (parsed (parser c) bs))) \<and>
       find (is_reply op (conn_seq c)) (fst (parsed (parser c) (butlast bs))) = None))"
proof -
  define c1 where "c1 = c\<lparr>conn_seq := bump_seq (conn_seq c)\<rparr>"
  obtain y t where s: "op_send ops (build_out_frame (conn_seq c) op pl) (conn_transport c) = (y, t)"
    by fastforce
  define c2 where "c2 = c1\<lparr>conn_transport := t\<rparr>"
  have g: "good (conn_transport c2)" "todo (conn_transport c2) = todo (conn_transport c)"
    using send_todo [OF assms(2) s] by (simp_all add: c2_def)
  have a: "advanced todo c [] c2" using g(2) by (auto simp: c1_def c2_def advanced_def)
  show ?thesis
  proof (cases y)
    case (Inl e)
    then have "r = Inl e" "c' = c2" using assms(3) s
      by (simp_all add: request_until_def conn_next_seq_def c2_def c1_def)
    with a g show ?thesis by (auto simp: c2_def c1_def)
  next
    case (Inr u)
    obtain x c3 where l: "request_loop ops op (conn_seq c) (passes w) c2 = (x, c3)" by fastforce
    then have "r = Inr x" "c' = c3" using assms(3) s Inr
      by (simp_all add: request_until_def conn_next_seq_def c2_def c1_def)
    moreover have "parser c2 = parser c" "conn_seq c2 = bump_seq (conn_seq c)"
      by (simp_all add: c2_def c1_def)
    ultimately show ?thesis
      using request_loop_advanced [OF assms(1) g(1) l] advanced_trans [OF a] by fastforce
  qed
qed

text \<open>Gaze is a queue fed by the transfers: what came out and what is queued is what went in.\<close>

lemma run_driver_gaze:
  "room \<le> READ_BUF \<Longrightarrow> good (conn_transport c) \<Longrightarrow> run_driver ops ds c = (out, c') \<Longrightarrow>
    good (conn_transport c') \<and>
    (\<exists>bs. todo (conn_transport c) = bs @ todo (conn_transport c') \<and>
       parser c' = snd (parsed (parser c) bs) \<and>
       out @ gaze_queue c' = gaze_queue c @ gaze_of (fst (parsed (parser c) bs)))"
proof (induction ds arbitrary: c out c')
  case Nil
  then show ?case by auto
next
  case (Cons d ds)
  show ?case
  proof (cases d)
    case (CallRequest op pl w n)
    obtain r c1 where q: "request_until ops (\<lambda>_. n) op pl w c = (r, c1)" by fastforce
    with Cons.prems CallRequest have l: "run_driver ops ds c1 = (out, c')" by simp
    from request_advanced [OF Cons.prems(1,2) q] obtain bs where b: "advanced todo c bs c1"
      "good (conn_transport c1)" by blast
    from Cons.IH [OF Cons.prems(1) b(2) l] obtain cs where k: "good (conn_transport c')"
      "todo (conn_transport c1) = cs @ todo (conn_transport c')"
      "parser c' = snd (parsed (parser c1) cs)"
      "out @ gaze_queue c' = gaze_queue c1 @ gaze_of (fst (parsed (parser c1) cs))" by blast
    show ?thesis using b k
      by (intro conjI exI [of _ "bs @ cs"]) (auto simp: advanced_def parsed_append split: prod.splits)
  next
    case CallGaze
    obtain x c1 where q: "next_gaze ops c = (x, c1)" by fastforce
    obtain out1 where l: "run_driver ops ds c1 = (out1, c')"
      and o: "out = (case x of None \<Rightarrow> out1 | Some s \<Rightarrow> s # out1)"
      using Cons.prems(3) q CallGaze by (auto split: prod.splits option.splits)
    from next_gaze_advanced [OF Cons.prems(1,2) q] obtain bs c0 where b: "good (conn_transport c1)"
      "advanced todo c bs c0" "(x, c1) = pop_gaze c0" by blast
    from Cons.IH [OF Cons.prems(1) b(1) l] obtain cs where k: "good (conn_transport c')"
      "todo (conn_transport c1) = cs @ todo (conn_transport c')"
      "parser c' = snd (parsed (parser c1) cs)"
      "out1 @ gaze_queue c' = gaze_queue c1 @ gaze_of (fst (parsed (parser c1) cs))" by blast
    have p: "conn_transport c1 = conn_transport c0" "parser c1 = parser c0"
      "gaze_queue c0 = (case x of None \<Rightarrow> [] | Some s \<Rightarrow> [s]) @ gaze_queue c1"
      using b(3) by (auto simp: pop_gaze_def split: list.splits)
    show ?thesis using b(2) k p o
      by (intro conjI exI [of _ "bs @ cs"])
        (auto simp: advanced_def parsed_append split: prod.splits option.splits)
  qed
qed

lemma handshake_advanced:
  "room \<le> READ_BUF \<Longrightarrow> good (conn_transport c) \<Longrightarrow> handshake_loop ops n hs c = (r, c') \<Longrightarrow>
    good (conn_transport c') \<and> (\<exists>bs. advanced todo c bs c')"
proof (induction n arbitrary: hs c)
  case 0
  then show ?case by (auto intro!: exI [of _ "[]"] simp: advanced_refl)
next
  case (Suc n)
  obtain hs1 a where p: "poll hs = (hs1, a)" by fastforce
  have go: "good (conn_transport c') \<and> (\<exists>bs. advanced todo c bs c')"
    if "advanced todo c [] c0" "good (conn_transport c0)"
      "(case drain ops READ_BUF RECV_TIMEOUT (Some hs1) c0 of
         (hs2, c2) \<Rightarrow> handshake_loop ops n (the hs2) c2) = (r, c')" for c0
  proof -
    obtain hs2 c2 where d: "drain ops READ_BUF RECV_TIMEOUT (Some hs1) c0 = (hs2, c2)" by fastforce
    with that(3) have "handshake_loop ops n (the hs2) c2 = (r, c')" by simp
    with drain_advanced [OF that(2) Suc.prems(1) d] Suc.IH [of c2 "the hs2"] Suc.prems(1)
    show ?thesis using advanced_trans [OF that(1)] advanced_trans by blast
  qed
  show ?case
  proof (cases a)
    case (Send b)
    obtain y t where s: "op_send ops b (conn_transport c) = (y, t)" by fastforce
    let ?c0 = "c\<lparr>conn_transport := t\<rparr>"
    have g: "good (conn_transport ?c0)" "advanced todo c [] ?c0"
      using send_todo [OF Suc.prems(2) s] by (simp_all add: advanced_def)
    show ?thesis
    proof (cases y)
      case (Inl e)
      with Suc.prems(3) p s Send have "c' = ?c0" by simp
      with g show ?thesis by blast
    next
      case (Inr u)
      with go [OF g(2,1)] Suc.prems(3) p s Send show ?thesis by simp
    qed
  next
    case Recv
    have "advanced todo c [] c" by (simp add: advanced_refl)
    from go [OF this Suc.prems(2)] Suc.prems(3) p Recv show ?thesis by simp
  next
    case HsDone
    with Suc.prems p show ?thesis by (auto intro!: exI [of _ "[]"] simp: advanced_refl)
  next
    case HsFailed
    with Suc.prems p show ?thesis by (auto intro!: exI [of _ "[]"] simp: advanced_refl)
  qed
qed

end

lemma poll_done: "poll h = (h', a) \<Longrightarrow> a = HsDone \<Longrightarrow> hs_state h' = Done"
proof (induction h rule: poll.induct)
  case (1 h)
  then show ?case
    by (subst (asm) poll.simps)
      (auto simp: poll_step_def next_seq_def Let_def split: prod.splits option.splits hs_state.splits if_splits)
qed

lemma respond_all_path:
  "hs_path R h sent \<Longrightarrow> hs_state h \<noteq> BuildRealmAuth \<Longrightarrow>
    hs_path (R \<union> set rs) (respond_all rs h) sent \<and> hs_state (respond_all rs h) \<noteq> BuildRealmAuth \<and>
    stream_id (respond_all rs h) = stream_id h"
proof (induction rs arbitrary: h R)
  case (Cons r rs)
  from Cons.IH [of "insert r R" "on_response r h"] on_response_path [OF Cons.prems, of r]
  show ?case by (simp add: respond_all_def)
qed (simp add: respond_all_def)

context transport begin

lemma drain_given: "drain ops n w hs c = (hs', c') \<Longrightarrow> given (conn_transport c') = given (conn_transport c)"
  using recv_given [of n w "conn_transport c"] by (auto simp: drain_eq Let_def split: prod.splits)

lemma request_loop_given:
  "request_loop ops op sq n c = (r, c') \<Longrightarrow> given (conn_transport c') = given (conn_transport c)"
proof (induction n arbitrary: c)
  case (Suc n)
  obtain x t where x: "op_recv ops READ_BUF RECV_TIMEOUT (conn_transport c) = (x, t)" by fastforce
  note recv_given [OF x]
  with Suc x show ?case by (fastforce simp: match_frames_eq split: option.splits sum.splits prod.splits)
qed simp

lemma request_given:
  assumes "request_until ops passes op pl w c = (Inr x, c')"
  shows "given (conn_transport c') = given (conn_transport c) @ [build_out_frame (conn_seq c) op pl]"
  using assms send_given request_loop_given
  by (fastforce simp: request_until_def conn_next_seq_def split: prod.splits sum.splits)

text \<open>What a successful handshake has sent.\<close>

lemma handshake_loop_path:
  assumes "room \<le> READ_BUF"
  shows "good (conn_transport c) \<Longrightarrow> hs_path R hs sent \<Longrightarrow> hs_state hs \<noteq> BuildRealmAuth \<Longrightarrow>
    handshake_loop ops n hs c = (Inr u, c') \<Longrightarrow>
    \<exists>bs hs' sent'. advanced todo c bs c' \<and>
      hs_path (R \<union> set (replies_of (fst (parsed (parser c) bs)))) hs' (sent @ sent') \<and>
      hs_state hs' = Done \<and> stream_id hs' = stream_id hs \<and> conn_seq c' = hs_seq hs' \<and>
      given (conn_transport c') = given (conn_transport c) @ sent'"
proof (induction n arbitrary: hs c R sent)
  case (Suc n)
  obtain hs1 a where p: "poll hs = (hs1, a)" by fastforce
  note pp = poll_path [OF Suc.prems(2) p]
  have go: "\<exists>bs hs' sent'. advanced todo c bs c' \<and>
      hs_path (R \<union> set (replies_of (fst (parsed (parser c) bs)))) hs' (sent @ sent') \<and>
      hs_state hs' = Done \<and> stream_id hs' = stream_id hs \<and> conn_seq c' = hs_seq hs' \<and>
      given (conn_transport c') = given (conn_transport c) @ sent'"
    if a0: "advanced todo c [] c0" and g0: "good (conn_transport c0)"
      and s0: "given (conn_transport c0) = given (conn_transport c) @ sent_by (Some a)"
      and l0: "(case drain ops READ_BUF RECV_TIMEOUT (Some hs1) c0 of
         (hs2, c2) \<Rightarrow> handshake_loop ops n (the hs2) c2) = (Inr u, c')" for c0
  proof -
    obtain hs2 c2 where d: "drain ops READ_BUF RECV_TIMEOUT (Some hs1) c0 = (hs2, c2)" by fastforce
    with l0 have l: "handshake_loop ops n (the hs2) c2 = (Inr u, c')" by simp
    from drain_advanced [OF g0 assms d] obtain bs where b: "advanced todo c0 bs c2"
      "hs2 = Some (respond_all (replies_of (fst (parsed (parser c0) bs))) hs1)"
      "good (conn_transport c2)" by auto
    let ?rs = "replies_of (fst (parsed (parser c) bs))"
    have q: "parser c0 = parser c" using a0 by (simp add: advanced_def)
    from respond_all_path [of R hs1 "sent @ sent_by (Some a)" ?rs] pp
    have h: "hs_path (R \<union> set ?rs) (the hs2) (sent @ sent_by (Some a))"
      "hs_state (the hs2) \<noteq> BuildRealmAuth" "stream_id (the hs2) = stream_id hs"
      using b(2) q by simp_all
    from Suc.IH [OF b(3) h(1,2) l] obtain cs hs' sent' where k: "advanced todo c2 cs c'"
      "hs_path (R \<union> set ?rs \<union> set (replies_of (fst (parsed (parser c2) cs)))) hs'
         ((sent @ sent_by (Some a)) @ sent')"
      "hs_state hs' = Done" "stream_id hs' = stream_id (the hs2)" "conn_seq c' = hs_seq hs'"
      "given (conn_transport c') = given (conn_transport c2) @ sent'" by blast
    have ac: "advanced todo c bs c2" using advanced_trans [OF a0 b(1)] by simp
    have "replies_of (fst (parsed (parser c) (bs @ cs))) =
        ?rs @ replies_of (fst (parsed (parser c2) cs))"
      using ac by (simp add: parsed_append_fst advanced_def replies_of_def)
    moreover have "given (conn_transport c2) = given (conn_transport c) @ sent_by (Some a)"
      using drain_given [OF d] s0 by simp
    ultimately show ?thesis using k h(3) advanced_trans [OF ac k(1)]
      by (intro exI [of _ "bs @ cs"] exI [of _ hs'] exI [of _ "sent_by (Some a) @ sent'"])
        (simp add: Un_assoc)
  qed
  show ?case
  proof (cases a)
    case (Send b)
    obtain y t where s: "op_send ops b (conn_transport c) = (y, t)" by fastforce
    then obtain v where y: "y = Inr v" using Suc.prems(4) p Send by (cases y) auto
    let ?c0 = "c\<lparr>conn_transport := t\<rparr>"
    have "good (conn_transport ?c0)" "advanced todo c [] ?c0"
      "given (conn_transport ?c0) = given (conn_transport c) @ sent_by (Some a)"
      using send_todo [OF Suc.prems(1) s] send_given [of b "conn_transport c" v t] s y Send
      by (simp_all add: advanced_def sent_by_def)
    from go [OF this(2,1,3)] Suc.prems(4) p s Send y show ?thesis by simp
  next
    case Recv
    have "advanced todo c [] c" by (simp add: advanced_refl)
    from go [OF this Suc.prems(1)] Suc.prems(4) p Recv show ?thesis by (simp add: sent_by_def)
  next
    case HsDone
    have "hs_state hs1 = Done"
      using p HsDone by (rule poll_done)
    moreover have "c' = c\<lparr>conn_seq := hs_seq hs1\<rparr>" using Suc.prems(4) p HsDone by simp
    ultimately show ?thesis using pp HsDone
      by (intro exI [of _ "[]"] exI [of _ hs1]) (simp add: advanced_def sent_by_def replies_of_def)
  next
    case HsFailed
    with Suc.prems p show ?thesis by simp
  qed
qed simp

end

section \<open>A transport that answers at once\<close>

text \<open>
  The extra promise under which connecting is guaranteed: sends succeed, and a read finds the next
  transfer without timing out.
\<close>

locale prompt_transport = receiver ops good todo room
  for ops :: "'t transport_ops" and good :: "'t \<Rightarrow> bool" and todo :: "'t \<Rightarrow> bytes list"
    and room :: nat +
  assumes recv_next: "good t \<Longrightarrow> room \<le> n \<Longrightarrow> todo t = b # bs \<Longrightarrow> fst (op_recv ops n w t) = Some b"
    and send_ok: "good t \<Longrightarrow> fst (op_send ops d t) = Inr ()"

text \<open>Transfers of one frame each.\<close>

type_synonym wire_frame = "u32 \<times> u32 \<times> u32 \<times> frame"

definition wire_bytes :: "wire_frame \<Rightarrow> bytes" where
  "wire_bytes x = (case x of (e, g, w, f) \<Rightarrow> frame_bytes e g w f)"

definition wire_fits :: "wire_frame \<Rightarrow> bool" where
  "wire_fits x \<longleftrightarrow> (case x of (e, g, w, f) \<Rightarrow> fits e f)"

definition wire_frame :: "wire_frame \<Rightarrow> frame" where
  "wire_frame x = (case x of (e, g, w, f) \<Rightarrow> f)"

definition is_response :: "wire_frame \<Rightarrow> bool" where
  "is_response x \<longleftrightarrow> magic (wire_frame x) = TTP_MAGIC_RSP"

lemma feed_wire: "wire_fits x \<Longrightarrow> feed [] (wire_bytes x) = (Inr [wire_frame x], [])"
proof -
  assume w: "wire_fits x"
  obtain e g v f where x: "x = (e, g, v, f)" by (cases x)
  have "drain_loop (frame_bytes e g v f) = (Inr [f], [])"
    using drain_loop_frames [of "[x]" "[]"] w drain_none_empty by (simp add: x wire_fits_def)
  moreover have "length (frame_bytes e g v f) \<le> ACC_CAP"
    using w by (simp add: x wire_fits_def fits_def)
  moreover have "frame_need [] = None" by simp
  ultimately show ?thesis
    by (simp add: feed_def strip_envelope_def x wire_bytes_def wire_frame_def)
qed

text \<open>A read, then the rest of the handshake.\<close>

definition drain_then :: "'t transport_ops \<Rightarrow> nat \<Rightarrow> handshake \<Rightarrow> 't connection \<Rightarrow>
    (usb_error, unit) result \<times> 't connection" where
  "drain_then ops n hs c =
     (case drain ops READ_BUF RECV_TIMEOUT (Some hs) c of (hs2, c2) \<Rightarrow> handshake_loop ops n (the hs2) c2)"

context prompt_transport begin

lemma drain_next:
  assumes "good (conn_transport c)" "room \<le> READ_BUF" "parser c = []" "wire_fits x"
    and "todo (conn_transport c) = wire_bytes x # bs"
  shows "\<exists>c1. drain ops READ_BUF w (Some hs) c =
      (Some (if is_response x then on_response (payload (wire_frame x)) hs else hs), c1) \<and>
    good (conn_transport c1) \<and> parser c1 = [] \<and> todo (conn_transport c1) = bs"
proof -
  obtain t where r: "op_recv ops READ_BUF w (conn_transport c) = (Some (wire_bytes x), t)"
    using recv_next [OF assms(1,2,5), of w] by (metis prod.collapse)
  have "parsed (parser c) [wire_bytes x] = ([wire_frame x], [])"
    using feed_wire [OF assms(4)] assms(3) by simp
  with r recv_some [OF assms(1,2) r] assms(5) show ?thesis
    by (simp add: drain_eq replies_of_def respond_all_def is_response_def)
qed

lemma wait_reply:
  "room \<le> READ_BUF \<Longrightarrow> awaiting (hs_state hs) \<Longrightarrow> resp hs = None \<Longrightarrow> good (conn_transport c) \<Longrightarrow>
    parser c = [] \<Longrightarrow> list_all (\<lambda>y. wire_fits y \<and> \<not> is_response y) gs \<Longrightarrow> wire_fits x \<Longrightarrow>
    is_response x \<Longrightarrow> todo (conn_transport c) = List.map wire_bytes gs @ wire_bytes x # bs \<Longrightarrow>
    \<exists>c1. good (conn_transport c1) \<and> parser c1 = [] \<and> todo (conn_transport c1) = bs \<and>
      drain_then ops (length gs + n) hs c =
        handshake_loop ops n (on_response (payload (wire_frame x)) hs) c1"
proof (induction gs arbitrary: c)
  case Nil
  from drain_next [OF Nil.prems(4,1,5,7), of bs RECV_TIMEOUT hs] Nil.prems(8,9)
  show ?case by (auto simp: drain_then_def)
next
  case (Cons g gs)
  have g: "wire_fits g" "\<not> is_response g" using Cons.prems(6) by simp_all
  from drain_next [OF Cons.prems(4,1,5) g(1), of _ RECV_TIMEOUT hs] Cons.prems(9) g(2)
  obtain c1 where d: "drain ops READ_BUF RECV_TIMEOUT (Some hs) c = (Some hs, c1)"
    "good (conn_transport c1)" "parser c1 = []"
    "todo (conn_transport c1) = List.map wire_bytes gs @ wire_bytes x # bs" by auto
  have "drain_then ops (length (g # gs) + n) hs c = handshake_loop ops (Suc (length gs + n)) hs c1"
    by (simp add: drain_then_def d(1))
  also have "\<dots> = drain_then ops (length gs + n) hs c1"
    by (simp add: poll_idle [OF Cons.prems(2,3)] drain_then_def)
  finally show ?case
    using Cons.IH [OF Cons.prems(1-3) d(2,3) _ Cons.prems(7,8) d(4)] Cons.prems(6) by simp
qed

lemma send_step:
  assumes "poll hs = (hs1, Send b)" "good (conn_transport c)"
  shows "\<exists>c1. good (conn_transport c1) \<and> parser c1 = parser c \<and>
    todo (conn_transport c1) = todo (conn_transport c) \<and>
    handshake_loop ops (Suc n) hs c = drain_then ops n hs1 c1"
proof -
  obtain t where t: "op_send ops b (conn_transport c) = (Inr (), t)"
    using send_ok [OF assms(2), of b] by (metis prod.collapse)
  from send_todo [OF assms(2) t] t assms(1) show ?thesis
    by (intro exI [of _ "c\<lparr>conn_transport := t\<rparr>"]) (simp add: drain_then_def)
qed

text \<open>One round: a frame is sent and its reply arrives after other traffic.\<close>

lemma round:
  assumes "room \<le> READ_BUF" "poll hs = (hs1, Send b)" "awaiting (hs_state hs1)" "resp hs1 = None"
    and "good (conn_transport c)" "parser c = []"
    and "list_all (\<lambda>y. wire_fits y \<and> \<not> is_response y) gs" "wire_fits x" "is_response x"
    and "todo (conn_transport c) = List.map wire_bytes gs @ wire_bytes x # bs"
  shows "\<exists>c1. good (conn_transport c1) \<and> parser c1 = [] \<and> todo (conn_transport c1) = bs \<and>
    handshake_loop ops (Suc (length gs + n)) hs c =
      handshake_loop ops n (on_response (payload (wire_frame x)) hs1) c1"
proof -
  from send_step [OF assms(2,5)] obtain c1 where c: "good (conn_transport c1)" "parser c1 = []"
    "todo (conn_transport c1) = todo (conn_transport c)"
    "handshake_loop ops (Suc (length gs + n)) hs c = drain_then ops (length gs + n) hs1 c1"
    using assms(6) by metis
  show ?thesis
    using wait_reply [OF assms(1,3,4) c(1,2) assms(7-9), of bs n] assms(10) c(3,4) by simp
qed

lemma finish:
  assumes "room \<le> READ_BUF" "poll hs = (hs1, Send b)" "hs_state hs1 = Done"
    and "good (conn_transport c)"
  shows "\<exists>c1. good (conn_transport c1) \<and>
    handshake_loop ops (Suc (Suc n)) hs c = (Inr (), c1\<lparr>conn_seq := hs_seq hs1\<rparr>)"
proof -
  from send_step [OF assms(2,4)] obtain c1 where c: "good (conn_transport c1)"
    "handshake_loop ops (Suc (Suc n)) hs c = drain_then ops (Suc n) hs1 c1" by metis
  obtain h c2 where d: "drain ops READ_BUF RECV_TIMEOUT (Some hs1) c1 = (h, c2)" by fastforce
  from drain_advanced [OF c(1) assms(1) d] obtain rs where
    h: "h = Some (respond_all rs hs1)" "good (conn_transport c2)" by auto
  have "hs_state (respond_all rs hs1) = Done \<and> hs_seq (respond_all rs hs1) = hs_seq hs1"
    unfolding respond_all_def using assms(3) by (induction rs arbitrary: hs1) (simp_all add: on_response_def)
  then show ?thesis using c(2) d h by (auto simp: drain_then_def poll_final)
qed

lemma connect_ok:
  assumes "room \<le> READ_BUF" "good t"
    and "todo t = List.map wire_bytes (g1 @ [x1] @ g2 @ [x2] @ g3 @ [x3]) @ bs"
    and "list_all wire_fits (g1 @ [x1] @ g2 @ [x2] @ g3 @ [x3])"
    and "list_all (\<lambda>y. \<not> is_response y) (g1 @ g2 @ g3)" "list_all is_response [x1, x2, x3]"
    and "realm_of (payload (wire_frame x2)) = 0"
    and "length (g1 @ g2 @ g3) + 5 \<le> HANDSHAKE_STEP_CAP"
  shows "\<exists>c. connect ops t = Inr c \<and> conn_seq c = 5 \<and> good (conn_transport c)"
proof -
  obtain k where k: "HANDSHAKE_STEP_CAP = length (g1 @ g2 @ g3) + 5 + k"
    using assms(8) by (metis add.commute le_Suc_ex)
  then have n: "HANDSHAKE_STEP_CAP =
      Suc (length g1 + Suc (length g2 + Suc (length g3 + Suc (Suc k))))" by simp
  have f: "list_all (\<lambda>y. wire_fits y \<and> \<not> is_response y) g" if "g \<in> {g1, g2, g3}" for g
    using that assms(4,5) by (auto simp: list_all_iff)
  let ?h0 = "handshake_new STREAM_GAZE"
  let ?h1 = "?h0\<lparr>hs_seq := 2, resp := None, hs_state := AwaitHello\<rparr>"
  let ?p1 = "on_response (payload (wire_frame x1)) ?h1"
  let ?h2 = "?p1\<lparr>hs_seq := 3, resp := None, hs_state := AwaitQueryRealm\<rparr>"
  let ?p2 = "on_response (payload (wire_frame x2)) ?h2"
  let ?h3 = "?p2\<lparr>hs_seq := 4, resp := None, realm_type := 0, hs_state := AwaitOpenRealm\<rparr>"
  let ?p3 = "on_response (payload (wire_frame x3)) ?h3"
  let ?h4 = "?p3\<lparr>hs_seq := 5, hs_state := Done\<rparr>"
  have p: "poll ?h0 = (?h1, Send (build_hello 1))" "poll ?p1 = (?h2, Send (build_query_realm 2))"
    "poll ?p2 = (?h3, Send (build_open_realm 3 0))"
    "poll ?p3 = (?h4, Send (build_subscribe 4 STREAM_GAZE))"
    using assms(7) by (simp_all add: polls handshake_new_def on_response_def)
  have a: "awaiting (hs_state ?h1)" "awaiting (hs_state ?h2)" "awaiting (hs_state ?h3)"
    by (simp_all add: awaiting_def)
  have r: "resp ?h1 = None" "resp ?h2 = None" "resp ?h3 = None" by simp_all
  have x: "wire_fits x1" "wire_fits x2" "wire_fits x3" "is_response x1" "is_response x2" "is_response x3"
    using assms(4,6) by simp_all
  let ?c0 = "conn_new t"
  have c0: "good (conn_transport ?c0)" "parser ?c0 = []" "todo (conn_transport ?c0) =
      List.map wire_bytes g1 @ wire_bytes x1 # List.map wire_bytes (g2 @ [x2] @ g3 @ [x3]) @ bs"
    using assms(2,3) by (simp_all add: conn_new_def)
  from round [OF assms(1) p(1) a(1) r(1) c0(1,2) f x(1,4) c0(3),
      of "Suc (length g2 + Suc (length g3 + Suc (Suc k)))"] obtain c1 where
    c1: "good (conn_transport c1)" "parser c1 = []" "todo (conn_transport c1) =
      List.map wire_bytes (g2 @ [x2] @ g3 @ [x3]) @ bs"
    "handshake_loop ops HANDSHAKE_STEP_CAP ?h0 ?c0 =
       handshake_loop ops (Suc (length g2 + Suc (length g3 + Suc (Suc k)))) ?p1 c1"
    unfolding n by blast
  have t1: "todo (conn_transport c1) =
      List.map wire_bytes g2 @ wire_bytes x2 # List.map wire_bytes (g3 @ [x3]) @ bs" using c1(3) by simp
  from round [OF assms(1) p(2) a(2) r(2) c1(1,2) f x(2,5) t1, of "Suc (length g3 + Suc (Suc k))"]
  obtain c2 where
    c2: "good (conn_transport c2)" "parser c2 = []" "todo (conn_transport c2) = List.map wire_bytes (g3 @ [x3]) @ bs"
    "handshake_loop ops (Suc (length g2 + Suc (length g3 + Suc (Suc k)))) ?p1 c1 =
       handshake_loop ops (Suc (length g3 + Suc (Suc k))) ?p2 c2" by blast
  have t2: "todo (conn_transport c2) = List.map wire_bytes g3 @ wire_bytes x3 # bs" using c2(3) by simp
  from round [OF assms(1) p(3) a(3) r(3) c2(1,2) f x(3,6) t2, of "Suc (Suc k)"] obtain c3 where
    c3: "good (conn_transport c3)"
    "handshake_loop ops (Suc (length g3 + Suc (Suc k))) ?p2 c2 =
       handshake_loop ops (Suc (Suc k)) ?p3 c3" by blast
  from finish [OF assms(1) p(4) _ c3(1)] obtain c4 where "good (conn_transport c4)"
    "handshake_loop ops (Suc (Suc k)) ?p3 c3 = (Inr (), c4\<lparr>conn_seq := 5\<rparr>)"
    by (auto simp del: handshake_loop.simps)
  then show ?thesis using c1(4) c2(4) c3(2)
    by (simp add: connect_def run_handshake_def del: handshake_loop.simps)
qed

end

interpretation replay_prompt: prompt_transport replay_ops "\<lambda>t. fits_buffer n0 (to_deliver t)"
  to_deliver n0 for n0
proof
  fix t :: replay_transport and n b bs w
  assume "fits_buffer n0 (to_deliver t)" "n0 \<le> n" "to_deliver t = b # bs"
  then show "fst (op_recv replay_ops n w t) = Some b" by (simp add: replay_ops_def replay_recv_def)
next
  fix t :: replay_transport and d
  show "fst (op_send replay_ops d t) = Inr ()" by (simp add: replay_ops_def replay_send_def)
qed

text \<open>So is the USB transport over a device that always has its transfer ready.\<close>

definition ready :: "bytes option \<Rightarrow> bool" where
  "ready x \<longleftrightarrow> (case x of None \<Rightarrow> False | Some b \<Rightarrow> b \<noteq> [] \<and> length b \<le> SOAK_SCRATCH)"

definition usb_ready :: "bytes option list usb_transport \<Rightarrow> bool" where
  "usb_ready u \<longleftrightarrow> usb_inv u \<and> list_all ready (handle u)"

lemma read_ready:
  assumes "list_all ready d" "SOAK_SCRATCH \<le> n" "read_bulk list_device n w d = (x, d')"
  shows "list_all ready d' \<and> (d = [] \<or> (\<exists>b. d = Some b # d' \<and> x = Inr b \<and> b \<noteq> []))"
proof (cases d)
  case (Cons y ys)
  with assms show ?thesis
    by (cases y) (auto simp: list_device_def ready_def)
qed (use assms in \<open>auto simp: list_device_def\<close>)

lemma soak_loop_ready: "list_all ready (handle u) \<Longrightarrow> list_all ready (handle (soak_loop list_device u))"
proof (induction "list_device :: bytes option list device_ops" u rule: soak_loop.induct)
  case (1 u)
  obtain x d where x: "read_bulk list_device SOAK_SCRATCH 1 (handle u) = (x, d)" by fastforce
  note d = read_ready [OF "1.prems" order_refl x]
  show ?case
  proof (cases x)
    case (Inl e)
    with x d show ?thesis by (simp add: soak_loop.simps [of _ u])
  next
    case (Inr b)
    with "1.hyps" [OF x [symmetric] Inr _ refl] x d show ?thesis
      by (auto simp: soak_loop.simps [of _ u] Let_def)
  qed
qed

lemma write_ready: "write_all list_device b u = (Inr (), u)"
  by (simp add: write_all_def list_device_def)

lemma send_ready:
  "list_all ready (handle u) \<Longrightarrow> send_parts list_device first ps u = (x, u') \<Longrightarrow>
    x = Inr () \<and> list_all ready (handle u')"
proof (induction ps arbitrary: first u)
  case (Cons p ps)
  define u1 where "u1 = (if first then u else soak_incoming list_device u)"
  have "list_all ready (handle u1)"
    using Cons.prems(1) by (simp add: u1_def soak_incoming_def soak_loop_ready)
  moreover have "send_parts list_device False ps u1 = (x, u')"
    using Cons.prems(2) by (simp add: u1_def write_ready)
  ultimately show ?case by (rule Cons.IH)
qed simp

lemma recv_ready:
  assumes "list_all ready (handle u)" "SOAK_SCRATCH \<le> n" "usb_recv list_device n w u = (x, u')"
  shows "list_all ready (handle u')"
  using assms read_ready [of "handle u" n w]
  by (fastforce simp: usb_recv_def Let_def split: list.splits prod.splits sum.splits if_splits)

interpretation usb_prompt: prompt_transport "usb_ops list_device" usb_ready "usb_todo list_todo" SOAK_SCRATCH
proof
  fix t :: "bytes option list usb_transport" and n w b t'
  assume a: "usb_ready t" "SOAK_SCRATCH \<le> n" "op_recv (usb_ops list_device) n w t = (Some b, t')"
  with usb_recv_ok [OF list_device_ok _ a(2), of t w "Some b" t'] recv_ready [of t n w "Some b" t']
  show "usb_ready t' \<and> usb_todo list_todo t = b # usb_todo list_todo t' \<and> length b \<le> n"
    by (simp add: usb_ready_def usb_ops_def)
next
  fix t :: "bytes option list usb_transport" and n w t'
  assume a: "usb_ready t" "SOAK_SCRATCH \<le> n" "op_recv (usb_ops list_device) n w t = (None, t')"
  with usb_recv_ok [OF list_device_ok _ a(2), of t w None t'] recv_ready [of t n w None t']
  show "usb_ready t' \<and> usb_todo list_todo t' = usb_todo list_todo t"
    by (simp add: usb_ready_def usb_ops_def)
next
  fix t :: "bytes option list usb_transport" and d r t'
  assume a: "usb_ready t" "op_send (usb_ops list_device) d t = (r, t')"
  with send_parts_ok [OF list_device_ok, of t True "chunk_frame d" r t']
    send_ready [of t True "chunk_frame d" r t']
  show "usb_ready t' \<and> usb_todo list_todo t' = usb_todo list_todo t"
    by (simp add: usb_ready_def usb_ops_def usb_send_def)
next
  fix t :: "bytes option list usb_transport" and n b bs w
  assume a: "usb_ready t" "SOAK_SCRATCH \<le> n" "usb_todo list_todo t = b # bs"
  show "fst (op_recv (usb_ops list_device) n w t) = Some b"
  proof (cases "pending t")
    case (Cons p ps)
    with a show ?thesis by (simp add: usb_todo_def usb_ready_def usb_inv_def usb_ops_def usb_recv_def)
  next
    case Nil
    obtain x d where x: "read_bulk list_device n w (handle t) = (x, d)" by fastforce
    with read_ready [of "handle t" n w x d] a Nil show ?thesis
      by (auto simp: usb_todo_def usb_ready_def usb_ops_def usb_recv_def list_todo_def)
  qed
next
  fix t :: "bytes option list usb_transport" and d
  assume "usb_ready t"
  then show "fst (op_send (usb_ops list_device) d t) = Inr ()"
    using send_ready [of t True "chunk_frame d"]
    by (cases "usb_send list_device d t") (simp add: usb_ready_def usb_ops_def usb_send_def)
qed

section \<open>Properties\<close>

text \<open>
  C4. A request is answered by its own reply and nothing else. Over any transport that keeps the
  contract, for every window and every pace of the clock: the request goes out once, with the
  current sequence number; the answer is the payload of the first frame, among the transfers read,
  that is a response with this operation and this sequence number, or nothing when none is; reading
  stops with the transfer that holds it; all gaze in these transfers is queued, in order; and a
  request whose sending fails reads nothing.
\<close>

theorem request_effect:
  assumes "transport ops good todo room given" and "room \<le> READ_BUF" and "good (conn_transport c)"
    and "request_until ops passes op pl w c = (r, c')"
  shows "\<exists>bs. todo (conn_transport c) = bs @ todo (conn_transport c') \<and>
    conn_seq c' = bump_seq (conn_seq c) \<and>
    gaze_queue c' = gaze_queue c @ gaze_of (fst (parsed (parser c) bs)) \<and>
    (case r of
       Inl e \<Rightarrow> bs = []
     | Inr x \<Rightarrow>
         given (conn_transport c') = given (conn_transport c) @ [build_out_frame (conn_seq c) op pl] \<and>
         x = map_option payload (find (is_reply op (conn_seq c)) (fst (parsed (parser c) bs))) \<and>
         find (is_reply op (conn_seq c)) (fst (parsed (parser c) (butlast bs))) = None)"
proof -
  have rc: "receiver ops good todo room" using assms(1) by (rule transport.axioms)
  from receiver.request_advanced [OF rc assms(2-4)] obtain bs where b: "advanced todo c bs c'"
    "conn_seq c' = bump_seq (conn_seq c)" "case r of Inl e \<Rightarrow> bs = [] | Inr x \<Rightarrow>
       x = map_option payload (find (is_reply op (conn_seq c)) (fst (parsed (parser c) bs))) \<and>
       find (is_reply op (conn_seq c)) (fst (parsed (parser c) (butlast bs))) = None" by blast
  show ?thesis
  proof (cases r)
    case (Inl e)
    with b show ?thesis by (intro exI [of _ bs]) (simp add: advanced_def)
  next
    case (Inr x)
    with transport.request_given [OF assms(1), of passes op pl w c x c'] assms(4) b
    show ?thesis by (intro exI [of _ bs]) (simp add: advanced_def)
  qed
qed



text \<open>
  C1. The driver is a queue of gaze. From opening the USB transport through the handshake and any
  requests and gaze reads, in any order and at any pace: the samples handed to the client, followed
  by those still queued, are exactly the decodable gaze notifications of the transfers the device
  delivered, each once and in order.
\<close>

theorem usb_gaze_fifo:
  assumes "device_ok dev dtodo" and "connect (usb_ops dev) (usb_new d) = Inr c"
    and "run_driver (usb_ops dev) ds c = (out, c')"
  shows "\<exists>bs. dtodo d = bs @ usb_todo dtodo (conn_transport c') \<and>
    out @ gaze_queue c' = gaze_of (fst (parsed [] bs))"
proof -
  note rc = usb_receiver [OF assms(1)]
  have g: "usb_inv (conn_transport (conn_new (usb_new d)))"
    by (simp add: usb_inv_def usb_new_def conn_new_def SOAK_CAP_def)
  obtain n hs where l: "handshake_loop (usb_ops dev) n hs (conn_new (usb_new d)) = (Inr (), c)"
    using assms(2) by (auto simp: connect_def run_handshake_def split: prod.splits sum.splits)
  from receiver.handshake_advanced [OF rc read_buf_fits(1) g l] obtain bs where
    b: "usb_inv (conn_transport c)" "advanced (usb_todo dtodo) (conn_new (usb_new d)) bs c" by blast
  from receiver.run_driver_gaze [OF rc read_buf_fits(1) b(1) assms(3)] obtain cs where
    k: "usb_todo dtodo (conn_transport c) = cs @ usb_todo dtodo (conn_transport c')"
    "out @ gaze_queue c' = gaze_queue c @ gaze_of (fst (parsed (parser c) cs))" by blast
  have "dtodo d = (bs @ cs) @ usb_todo dtodo (conn_transport c')"
    using b(2) k(1) by (simp add: advanced_def conn_new_def usb_todo_def usb_new_def)
  moreover have "out @ gaze_queue c' = gaze_of (fst (parsed [] (bs @ cs)))"
    using b(2) k(2) by (simp add: advanced_def conn_new_def parsed_append_fst)
  ultimately show ?thesis by blast
qed

text \<open>
  C36. Applying a calibration, on every branch. A blob below 4096 bytes is refused and nothing at all
  happens on the wire; otherwise one apply request goes out, with its two status bytes before the
  blob, and the result is success, when its reply is among the transfers read within the window (the
  connection's own when that is below the default, a minute otherwise), the error naming the
  operation when it is not, or the error of the send.
\<close>

theorem apply_calibration_outcome:
  assumes "transport ops good todo room given" and "room \<le> READ_BUF" and "good (conn_transport c)"
    and "apply_calibration ops passes blob c = (r, c')"
  shows "if length blob < 4096 then r = Inl (ImplausibleCalibration (length blob)) \<and> c' = c
    else (\<exists>e. r = Inl e \<and> todo (conn_transport c') = todo (conn_transport c) \<and>
        fst (op_send ops (build_out_frame (conn_seq c) OP_CAL_APPLY ([0, 0] @ blob)) (conn_transport c)) = Inl e) \<or>
      (given (conn_transport c') = given (conn_transport c) @
          [build_out_frame (conn_seq c) OP_CAL_APPLY ([0, 0] @ blob)] \<and>
       (\<exists>bs. todo (conn_transport c) = bs @ todo (conn_transport c') \<and>
         r = (if find (is_reply OP_CAL_APPLY (conn_seq c)) (fst (parsed (parser c) bs)) = None
              then Inl (NoResponse OP_CAL_APPLY) else Inr ())))"
proof (cases "length blob < 4096")
  case True
  with assms(4) show ?thesis
    by (simp add: apply_calibration_def is_plausible_calibration_def MIN_PLAUSIBLE_BLOB_def)
next
  case False
  let ?f = "build_out_frame (conn_seq c) OP_CAL_APPLY ([0, 0] @ blob)"
  obtain w where w: "apply_calibration ops passes blob c =
      to_unit (expect_response_until ops passes OP_CAL_APPLY ([0, 0] @ blob) w c)"
    using False by (simp add: apply_calibration_def is_plausible_calibration_def MIN_PLAUSIBLE_BLOB_def
        Let_def cal_apply_payload_def into_vec_def push_bytes_def push_u8_def writer_new_def that)
  obtain q c1 where q: "request_until ops passes OP_CAL_APPLY ([0, 0] @ blob) w c = (q, c1)" by fastforce
  have rc: "receiver ops good todo room" using assms(1) by (rule transport.axioms)
  from receiver.request_advanced [OF rc assms(2,3) q] obtain bs where b: "advanced todo c bs c1"
    "case q of Inl e \<Rightarrow> bs = [] | Inr x \<Rightarrow>
       x = map_option payload (find (is_reply OP_CAL_APPLY (conn_seq c)) (fst (parsed (parser c) bs))) \<and>
       find (is_reply OP_CAL_APPLY (conn_seq c)) (fst (parsed (parser c) (butlast bs))) = None" by blast
  have e: "(r, c') = to_unit (case q of Inl e \<Rightarrow> (Inl e, c1) | Inr None \<Rightarrow> (Inl (NoResponse OP_CAL_APPLY), c1)
      | Inr (Some p) \<Rightarrow> (Inr p, c1))"
    using assms(4) q by (simp add: w expect_response_until_def split: sum.splits option.splits)
  show ?thesis
  proof (cases q)
    case (Inl er)
    then have "fst (op_send ops ?f (conn_transport c)) = Inl er"
      using q by (auto simp: request_until_def conn_next_seq_def split: prod.splits sum.splits)
    with Inl e b False show ?thesis by (auto simp: advanced_def to_unit_def)
  next
    case (Inr x)
    note g = transport.request_given [OF assms(1) q [unfolded Inr]]
    from Inr e have "c' = c1" "r = (if x = None then Inl (NoResponse OP_CAL_APPLY) else Inr ())"
      by (auto simp: to_unit_def split: option.splits)
    with Inr b g False show ?thesis by (auto simp: advanced_def)
  qed
qed

section \<open>Witnesses\<close>

text \<open>A device that acknowledges every step of the handshake, with a gaze notification in between.\<close>

definition ack :: "u32 \<Rightarrow> wire_frame" where
  "ack n = (34, 0, 0, \<lparr>magic = 0x52, sqn = n, opc = 0x3f2, payload = []\<rparr>)"

definition noise :: wire_frame where
  "noise = (34, 0, 0, \<lparr>magic = 0x53, sqn = 9, opc = 0x500, payload = [0, 0]\<rparr>)"

definition session_frames :: "wire_frame list" where
  "session_frames = [ack 1, noise, ack 2, ack 3, noise]"

definition session :: "bytes list" where
  "session = List.map wire_bytes session_frames"

lemma wire_samples [simp]:
  "wire_fits (ack n)" "wire_fits noise" "is_response (ack n)" "\<not> is_response noise"
  "payload (wire_frame (ack n)) = []" "length (wire_bytes (ack n)) = 32" "length (wire_bytes noise) = 34"
  by (simp_all add: ack_def noise_def wire_fits_def fits_def ACC_CAP_def is_response_def wire_frame_def
      magic_defs wire_bytes_def)

lemma realm_of_nil [simp]: "realm_of [] = 0"
  by (simp add: realm_of_def resp_first_u32_opt_def resp_fields_def resp_fields_from.simps)

lemma session_split: "session = List.map wire_bytes ([] @ [ack 1] @ [noise] @ [ack 2] @ [] @ [ack 3]) @ [wire_bytes noise]"
  by (simp add: session_def session_frames_def)

definition session_device :: "bytes option list" where
  "session_device = List.map Some session"

lemma session_device_ready: "usb_ready (usb_new session_device)"
proof -
  have "b \<noteq> [] \<and> length b \<le> SOAK_SCRATCH" if "b \<in> set session" for b
    using that unfolding session_def session_frames_def
    by (auto simp: SOAK_SCRATCH_def dest: arg_cong [of _ "[]" length])
  then show ?thesis
    by (auto simp: usb_ready_def usb_inv_def usb_new_def SOAK_CAP_def session_device_def list_all_iff ready_def)
qed

lemma session_todo: "usb_todo list_todo (usb_new session_device) = session"
proof -
  have "concat (List.map (\<lambda>x. [x]) xs) = xs" for xs :: "bytes list" by (induction xs) simp_all
  then show ?thesis by (simp add: usb_todo_def usb_new_def list_todo_def session_device_def comp_def)
qed


lemma session_connects: "\<exists>c. connect (usb_ops list_device) (usb_new session_device) = Inr c"
  using usb_prompt.connect_ok [OF read_buf_fits(1) session_device_ready,
      of "[]" "ack 1" "[noise]" "ack 2" "[]" "ack 3" "[wire_bytes noise]"]
  by (auto simp: session_todo session_split HANDSHAKE_STEP_CAP_def)

theorem usb_gaze_fifo_witness:
  "\<exists>c. connect (usb_ops list_device) (usb_new session_device) = Inr c \<and>
    (\<exists>bs. session = bs @ usb_todo list_todo (conn_transport
         (snd (run_driver (usb_ops list_device) [CallGaze, CallRequest 0x44c [0, 0] 100 2] c))) \<and>
      fst (run_driver (usb_ops list_device) [CallGaze, CallRequest 0x44c [0, 0] 100 2] c) @
      gaze_queue (snd (run_driver (usb_ops list_device) [CallGaze, CallRequest 0x44c [0, 0] 100 2] c)) =
      gaze_of (fst (parsed [] bs)))"
proof -
  let ?ds = "[CallGaze, CallRequest 0x44c [0, 0] 100 2]"
  obtain c where c: "connect (usb_ops list_device) (usb_new session_device) = Inr c"
    using session_connects by blast
  have "list_todo session_device = session"
    using session_todo by (simp add: usb_todo_def usb_new_def)
  with usb_gaze_fifo [OF list_device_ok c prod.collapse [symmetric], of ?ds] c show ?thesis by auto
qed

definition replay_of :: "bytes list \<Rightarrow> replay_transport" where
  "replay_of bs = replay_new \<lparr>cap_headers = [], cap_events = List.map Received bs\<rparr>"

lemma replay_of_todo [simp]: "to_deliver (replay_of bs) = bs" "replay_sent (replay_of bs) = []"
proof -
  have "received_of (List.map Received bs) = bs" by (induction bs) simp_all
  then show "to_deliver (replay_of bs) = bs" "replay_sent (replay_of bs) = []"
    by (simp_all add: replay_of_def replay_new_def)
qed

lemma session_fits: "fits_buffer READ_BUF (to_deliver (replay_of session))"
  by (simp add: session_def session_frames_def READ_BUF_def)


definition chat :: "replay_transport connection" where
  "chat = conn_new (replay_of [wire_bytes noise, wire_bytes (ack 1), wire_bytes noise])"

lemma feed_samples [simp]:
  "feed [] (wire_bytes (ack n)) = (Inr [wire_frame (ack n)], [])"
  "feed [] (wire_bytes noise) = (Inr [wire_frame noise], [])"
  by (simp_all add: feed_wire)

lemma is_reply_samples [simp]: "is_reply 0x3f2 1 (wire_frame (ack 1))" "\<not> is_reply op sq (wire_frame noise)"
  by (simp_all add: is_reply_def ack_def noise_def wire_frame_def magic_defs)

lemma chat_good: "fits_buffer READ_BUF (to_deliver (conn_transport chat))"
  by (simp add: chat_def conn_new_def READ_BUF_def)

lemma chat_request:
  "fst (request_until replay_ops (\<lambda>_. Suc (Suc (Suc 0))) 0x3f2 [0, 0] 100 chat) = Inr (Some [])"
  by (simp add: request_until_def conn_next_seq_def replay_ops_def replay_send_def replay_recv_def
      chat_def conn_new_def match_frames_eq READ_BUF_def)

theorem request_effect_witness:
  "\<exists>c' bs. request_until replay_ops (\<lambda>_. Suc (Suc (Suc 0))) 0x3f2 [0, 0] 100 chat = (Inr (Some []), c') \<and>
    to_deliver (conn_transport chat) = bs @ to_deliver (conn_transport c') \<and> conn_seq c' = 2 \<and>
    replay_sent (conn_transport c') = [build_out_frame 1 0x3f2 [0, 0]] \<and>
    Some [] = map_option payload (find (is_reply 0x3f2 1) (fst (parsed [] bs)))"
proof -
  obtain c' where c: "request_until replay_ops (\<lambda>_. Suc (Suc (Suc 0))) 0x3f2 [0, 0] 100 chat =
      (Inr (Some []), c')"
    using chat_request by (metis prod.collapse)
  have s: "conn_seq chat = 1" "parser chat = []" "replay_sent (conn_transport chat) = []"
    by (simp_all add: chat_def conn_new_def)
  from request_effect [OF replay.transport_axioms le_refl chat_good c] c show ?thesis
    by (auto simp: s)
qed

theorem apply_calibration_outcome_witness:
  "\<exists>c'. apply_calibration replay_ops (\<lambda>_. 3) [1, 2, 3] chat = (Inl (ImplausibleCalibration 3), c') \<and>
    c' = chat"
proof -
  obtain r c' where c: "apply_calibration replay_ops (\<lambda>_. 3) [1, 2, 3] chat = (r, c')" by fastforce
  from apply_calibration_outcome [OF replay.transport_axioms le_refl chat_good c] c show ?thesis by simp
qed

end
