(* ===== verification/Strings.thy ===== *)
theory Strings
  imports Text "HOL-Library.List_Lexorder" "HOL-Library.Product_Lexorder" "HOL-Library.Option_ord"
begin

text \<open>
  The operations of \<^verbatim>\<open>str\<close> the sources use, on the list of scalar values: trimming, prefixes
  and suffixes, splitting, lines, ASCII case, and reading and printing unsigned decimals. Rust
  compares strings by their UTF-8 bytes, which is the order of the scalar values, the
  lexicographic order of the lists.
\<close>

section \<open>Literals and classes of characters\<close>

definition lit :: "string \<Rightarrow> str" where
  "lit s = List.map of_char s"

lemma lit_simps [simp]: "lit [] = []" "lit (c # s) = of_char c # lit s" "lit (s @ t) = lit s @ lit t"
  by (simp_all add: lit_def)

text \<open>The Unicode property \<^verbatim>\<open>White_Space\<close> of \<^verbatim>\<open>char::is_whitespace\<close>.\<close>

definition is_space :: "nat \<Rightarrow> bool" where
  "is_space c \<longleftrightarrow> (9 \<le> c \<and> c \<le> 13) \<or> c = 32 \<or> c = 0x85 \<or> c = 0xA0 \<or> c = 0x1680 \<or>
     (0x2000 \<le> c \<and> c \<le> 0x200A) \<or> c = 0x2028 \<or> c = 0x2029 \<or> c = 0x202F \<or> c = 0x205F \<or> c = 0x3000"

definition is_digit :: "nat \<Rightarrow> bool" where
  "is_digit c \<longleftrightarrow> 48 \<le> c \<and> c \<le> 57"

text \<open>\<^verbatim>\<open>to_ascii_lowercase\<close>, and the comparison that ignores ASCII case.\<close>

definition ascii_lower :: "nat \<Rightarrow> nat" where
  "ascii_lower c = (if 65 \<le> c \<and> c \<le> 90 then c + 32 else c)"

definition eq_ignore_ascii_case :: "str \<Rightarrow> str \<Rightarrow> bool" where
  "eq_ignore_ascii_case s t \<longleftrightarrow> List.map ascii_lower s = List.map ascii_lower t"

section \<open>Trimming, prefixes, suffixes\<close>

definition trim_start :: "str \<Rightarrow> str" where "trim_start s = dropWhile is_space s"
definition trim_end_matches :: "(nat \<Rightarrow> bool) \<Rightarrow> str \<Rightarrow> str" where
  "trim_end_matches P s = rev (dropWhile P (rev s))"
definition trim :: "str \<Rightarrow> str" where
  "trim s = trim_end_matches is_space (trim_start s)"

fun strip_prefix :: "'a list \<Rightarrow> 'a list \<Rightarrow> 'a list option" where
  "strip_prefix [] s = Some s"
| "strip_prefix (p # ps) [] = None"
| "strip_prefix (p # ps) (c # s) = (if p = c then strip_prefix ps s else None)"

definition starts_with :: "'a list \<Rightarrow> 'a list \<Rightarrow> bool" where
  "starts_with p s \<longleftrightarrow> strip_prefix p s \<noteq> None"

definition ends_with :: "'a list \<Rightarrow> 'a list \<Rightarrow> bool" where
  "ends_with p s \<longleftrightarrow> starts_with (rev p) (rev s)"

fun contains :: "'a list \<Rightarrow> 'a list \<Rightarrow> bool" where
  "contains p [] \<longleftrightarrow> p = []"
| "contains p (c # s) \<longleftrightarrow> starts_with p (c # s) \<or> contains p s"

lemma strip_prefix_iff: "strip_prefix p s = Some t \<longleftrightarrow> s = p @ t"
  by (induction p s rule: strip_prefix.induct) auto

lemma strip_prefix_append [simp]: "strip_prefix p (p @ t) = Some t"
  by (simp add: strip_prefix_iff)

lemma starts_with_iff: "starts_with p s \<longleftrightarrow> (\<exists>t. s = p @ t)"
  by (simp add: starts_with_def not_None_eq strip_prefix_iff)

lemma ends_with_iff: "ends_with p s \<longleftrightarrow> (\<exists>t. s = t @ p)"
proof -
  have "(\<exists>t. rev s = rev p @ t) \<longleftrightarrow> (\<exists>t. s = t @ p)"
    by (metis rev_append rev_rev_ident)
  then show ?thesis by (simp add: ends_with_def starts_with_iff)
qed

lemma contains_iff: "contains p s \<longleftrightarrow> (\<exists>a b. s = a @ p @ b)"
proof (induction s)
  case (Cons c s)
  show ?case unfolding contains.simps starts_with_iff Cons.IH
    by (auto simp: Cons_eq_append_conv)
qed auto

section \<open>Splitting\<close>

text \<open>At the first occurrence of a character; and at every one, which gives at least one part.\<close>

fun split_once :: "'a \<Rightarrow> 'a list \<Rightarrow> ('a list \<times> 'a list) option" where
  "split_once x [] = None"
| "split_once x (c # s) =
     (if c = x then Some ([], s)
      else case split_once x s of None \<Rightarrow> None | Some (a, b) \<Rightarrow> Some (c # a, b))"

fun split_on :: "('a \<Rightarrow> bool) \<Rightarrow> 'a list \<Rightarrow> 'a list list" where
  "split_on P [] = [[]]"
| "split_on P (c # s) =
     (if P c then [] # split_on P s
      else case split_on P s of [] \<Rightarrow> [[c]] | w # ws \<Rightarrow> (c # w) # ws)"

definition split_whitespace :: "str \<Rightarrow> str list" where
  "split_whitespace s = filter (\<lambda>w. w \<noteq> []) (split_on is_space s)"

text \<open>
  \<^verbatim>\<open>str::lines\<close>: split at newlines, no last empty line; the carriage return of a newline is dropped
  with it, one that ends a last line with no newline stays.
\<close>

definition chomp :: "str \<Rightarrow> str" where
  "chomp l = (if l \<noteq> [] \<and> last l = 13 then butlast l else l)"

definition lines :: "str \<Rightarrow> str list" where
  "lines s = (let ps = split_on (\<lambda>c. c = 10) s
     in List.map chomp (butlast ps) @ (if last ps = [] then [] else [last ps]))"

lemma split_on_nonempty [simp]: "split_on P s \<noteq> []"
  by (cases s) (auto split: list.splits)

lemma split_once_Some: "split_once x s = Some (a, b) \<longleftrightarrow> s = a @ x # b \<and> x \<notin> set a"
proof
  assume "split_once x s = Some (a, b)"
  then show "s = a @ x # b \<and> x \<notin> set a"
    by (induction s arbitrary: a) (auto split: option.splits if_splits)
next
  assume "s = a @ x # b \<and> x \<notin> set a"
  then show "split_once x s = Some (a, b)"
    by (induction a arbitrary: s) auto
qed

lemma split_once_None: "split_once x s = None \<longleftrightarrow> x \<notin> set s"
  by (induction s) (auto split: option.splits)

lemma split_once_append [simp]: "x \<notin> set a \<Longrightarrow> split_once x (a @ x # b) = Some (a, b)"
  by (simp add: split_once_Some)

lemma split_on_none: "list_all (\<lambda>c. \<not> P c) s \<Longrightarrow> split_on P s = [s]"
  by (induction s) auto

lemma split_on_sep: "list_all (\<lambda>c. \<not> P c) a \<Longrightarrow> P x \<Longrightarrow> split_on P (a @ x # s) = a # split_on P s"
  by (induction a) auto

lemma lines_Nil [simp]: "lines [] = []"
  by (simp add: lines_def)

lemma lines_Cons: "10 \<notin> set a \<Longrightarrow> lines (a @ 10 # s) = chomp a # lines s"
proof -
  assume "10 \<notin> set a"
  then have "split_on (\<lambda>c. c = 10) (a @ 10 # s) = a # split_on (\<lambda>c. c = 10) s"
    by (intro split_on_sep) (auto simp: list_all_iff)
  then show ?thesis by (simp add: lines_def Let_def)
qed

lemma split_on_parts: "w \<in> set (split_on P s) \<Longrightarrow> list_all (\<lambda>c. \<not> P c) w"
  by (induction s arbitrary: w) (auto split: if_splits list.splits)

lemma split_on_subset: "w \<in> set (split_on P s) \<Longrightarrow> set w \<subseteq> set s"
proof (induction s arbitrary: w)
  case (Cons c s)
  obtain v vs where "split_on P s = v # vs" by (cases "split_on P s") simp_all
  with Cons.IH [of v] Cons.IH [of w] Cons.prems show ?case by (auto split: if_splits)
qed simp

lemma lines_subset:
  assumes "l \<in> set (lines s)" shows "set l \<subseteq> set s"
proof -
  let ?ps = "split_on (\<lambda>c. c = 10) s"
  have "l \<in> chomp ` set (butlast ?ps) \<or> l = last ?ps"
    using assms by (auto simp: lines_def Let_def split: if_splits)
  moreover have "set (chomp w) \<subseteq> set w" for w by (auto simp: chomp_def dest: in_set_butlastD)
  ultimately obtain w where "w \<in> set ?ps" "set l \<subseteq> set w"
    using last_in_set [of ?ps] in_set_butlastD [of _ ?ps] by fastforce
  with split_on_subset [of w _ s] show ?thesis by blast
qed

section \<open>Hexadecimal digits\<close>

text \<open>\<^verbatim>\<open>char::to_digit\<close> with radix 16, and the digit in lower case.\<close>

definition hex_digit :: "nat \<Rightarrow> nat option" where
  "hex_digit c =
     (if is_digit c then Some (c - 48)
      else if 97 \<le> c \<and> c \<le> 102 then Some (c - 87)
      else if 65 \<le> c \<and> c \<le> 70 then Some (c - 55)
      else None)"

definition hex_char :: "nat \<Rightarrow> nat" where
  "hex_char n = (if n < 10 then 48 + n else 87 + n)"

text \<open>The format \<^verbatim>\<open>{b:02x}\<close>.\<close>

definition hex_byte :: "u8 \<Rightarrow> str" where
  "hex_byte b = [hex_char (unat b div 16), hex_char (unat b mod 16)]"

lemma hex_digit_char [simp]: "n < 16 \<Longrightarrow> hex_digit (hex_char n) = Some n"
  by (simp add: hex_digit_def hex_char_def is_digit_def)

lemma hex_char_ascii: "n < 16 \<Longrightarrow> hex_char n < 128 \<and> \<not> is_space (hex_char n) \<and> hex_char n \<noteq> 10"
  by (auto simp: hex_char_def is_space_def)

section \<open>Unsigned decimals\<close>

fun digits_value :: "nat \<Rightarrow> str \<Rightarrow> nat option" where
  "digits_value acc [] = Some acc"
| "digits_value acc (c # s) = (if is_digit c then digits_value (acc * 10 + (c - 48)) s else None)"

text \<open>\<^verbatim>\<open>parse\<close> to an unsigned integer below a bound: an optional plus, at least one digit.\<close>

definition parse_uint :: "nat \<Rightarrow> str \<Rightarrow> nat option" where
  "parse_uint bound s =
     (let ds = (case s of [] \<Rightarrow> [] | c # r \<Rightarrow> if c = 43 then r else s) in
      if ds = [] then None
      else case digits_value 0 ds of
        None \<Rightarrow> None
      | Some v \<Rightarrow> if v < bound then Some v else None)"

text \<open>\<^verbatim>\<open>to_string\<close>\<close>

fun decimal :: "nat \<Rightarrow> str" where
  "decimal n = (if n < 10 then [48 + n] else decimal (n div 10) @ [48 + n mod 10])"

declare decimal.simps [simp del]

lemma digits_value_append:
  "digits_value a (s @ t) = Option.bind (digits_value a s) (\<lambda>b. digits_value b t)"
  by (induction s arbitrary: a) auto

lemma is_digit_mod [simp]: "is_digit (48 + n mod 10)" "n < 10 \<Longrightarrow> is_digit (48 + n)"
  by (auto simp: is_digit_def)

lemma decimal_digits: "list_all is_digit (decimal n) \<and> decimal n \<noteq> []"
proof (induction n rule: decimal.induct)
  case (1 n)
  then show ?case by (subst (1 2) decimal.simps) simp
qed

lemma digits_value_decimal: "digits_value 0 (decimal n) = Some n"
proof (induction n rule: decimal.induct)
  case (1 n)
  then show ?case by (subst decimal.simps) (auto simp: digits_value_append is_digit_def)
qed

lemma parse_uint_decimal [simp]: "n < bound \<Longrightarrow> parse_uint bound (decimal n) = Some n"
proof -
  assume b: "n < bound"
  obtain c r where d: "decimal n = c # r" "is_digit c"
    using decimal_digits [of n] by (cases "decimal n") auto
  then have "c \<noteq> 43" by (auto simp: is_digit_def)
  then show ?thesis using b d digits_value_decimal [of n] by (simp add: parse_uint_def)
qed

lemma parse_uint_bound: "parse_uint bound s = Some v \<Longrightarrow> v < bound"
  by (auto simp: parse_uint_def Let_def split: if_splits option.splits)

section \<open>Trimming facts\<close>

lemma trim_end_matches_eq: "s \<noteq> [] \<Longrightarrow> \<not> P (last s) \<Longrightarrow> trim_end_matches P s = s"
  by (cases s rule: rev_cases) (auto simp: trim_end_matches_def)

lemma trim_id: "s = [] \<or> (\<not> is_space (hd s) \<and> \<not> is_space (last s)) \<Longrightarrow> trim s = s"
  using trim_end_matches_eq [of s is_space]
  by (cases s) (auto simp: trim_def trim_start_def trim_end_matches_def)

lemma trim_split: "\<exists>a b. s = a @ trim s @ b \<and> list_all is_space a \<and> list_all is_space b"
proof -
  let ?d = "dropWhile is_space s"
  let ?b = "rev (takeWhile is_space (rev ?d))"
  have "s = takeWhile is_space s @ ?d" by simp
  moreover have "?d = trim s @ ?b"
    unfolding trim_def trim_start_def trim_end_matches_def
    by (metis rev_append rev_rev_ident takeWhile_dropWhile_id)
  ultimately have "s = takeWhile is_space s @ trim s @ ?b" by metis
  moreover have "list_all is_space (takeWhile is_space s)" "list_all is_space ?b"
    by (auto simp: list_all_iff dest: set_takeWhileD)
  ultimately show ?thesis by blast
qed

lemma trim_ends: "trim s = [] \<or> (\<not> is_space (hd (trim s)) \<and> \<not> is_space (last (trim s)))"
proof (cases "trim s = []")
  case False
  let ?d = "dropWhile is_space s"
  let ?r = "dropWhile is_space (rev ?d)"
  have t: "trim s = rev ?r" by (simp add: trim_def trim_start_def trim_end_matches_def)
  with False have "?r \<noteq> []" by (metis rev.simps(1))
  then have l: "\<not> is_space (last (trim s))" unfolding t last_rev by (rule hd_dropWhile)
  have "?d \<noteq> []"
  proof
    assume "?d = []"
    with t False show False by simp
  qed
  then have h: "\<not> is_space (hd ?d)" by (rule hd_dropWhile)
  obtain w where "?d = trim s @ w"
    using takeWhile_dropWhile_id [of is_space "rev ?d"]
    unfolding trim_def trim_start_def trim_end_matches_def by (metis rev_append rev_rev_ident)
  then have "hd ?d = hd (trim s)" using False by simp
  with h l show ?thesis by simp
qed simp

lemma trim_trim [simp]: "trim (trim s) = trim s"
  using trim_ends trim_id by blast

end
