(* ===== verification/Json.thy ===== *)
theory Json
  imports Strings Float64
begin

text \<open>
  The JSON reader (\<^verbatim>\<open>tobii-update/src/json.rs\<close>). The parser works on the bytes of the text; an
  index stands for the state \<^verbatim>\<open>i\<close> of the parser and an argument for its \<^verbatim>\<open>depth\<close>, which every
  container restores when it ends. The recursion takes fuel; \<open>2 * length + 2\<close> is always enough.
  An object is an association list kept in the order of its keys, as the \<^verbatim>\<open>BTreeMap\<close> is.
\<close>

unbundle bit_operations_syntax

section \<open>Values\<close>

datatype json =
    JNull
  | JBool bool
  | JNumber f64
  | JString str
  | JArray "json list"
  | JObject "(str \<times> json) list"

fun btree_insert :: "'k :: linorder \<Rightarrow> 'v \<Rightarrow> ('k \<times> 'v) list \<Rightarrow> ('k \<times> 'v) list" where
  "btree_insert k v [] = [(k, v)]"
| "btree_insert k v ((k1, v1) # m) =
     (if k < k1 then (k, v) # (k1, v1) # m
      else if k = k1 then (k, v) # m
      else (k1, v1) # btree_insert k v m)"

definition json_get :: "str \<Rightarrow> json \<Rightarrow> json option" where
  "json_get key v = (case v of JObject m \<Rightarrow> map_of m key | _ \<Rightarrow> None)"

definition json_str :: "str \<Rightarrow> json \<Rightarrow> str option" where
  "json_str key v =
     (case json_get key v of Some (JString s) \<Rightarrow> Some s | _ \<Rightarrow> None)"

definition json_flag :: "str \<Rightarrow> json \<Rightarrow> bool" where
  "json_flag key v = (json_get key v = Some (JBool True))"

definition as_array :: "json \<Rightarrow> json list" where
  "as_array v = (case v of JArray vs \<Rightarrow> vs | _ \<Rightarrow> [])"

definition json_array :: "str \<Rightarrow> json \<Rightarrow> json list" where
  "json_array key v = (case json_get key v of None \<Rightarrow> [] | Some a \<Rightarrow> as_array a)"

section \<open>Errors and limits\<close>

datatype json_fault =
    DocumentTooLarge | TrailingData | UnknownLiteral | UnexpectedEnd | NestedTooDeeply | ExpectedKey
  | ExpectedColon | ExpectedCommaOrBrace | ExpectedCommaOrBracket | UnterminatedString
  | UnterminatedEscape | UnknownEscape | InvalidUtf8 | InvalidCodePoint | LoneSurrogate
  | BadSurrogatePair | ShortUEscape | BadUEscape | ExpectedValue | MalformedNumber

datatype json_error = JsonError nat json_fault

definition MAX_DEPTH :: nat where "MAX_DEPTH = 64"
definition MAX_LEN :: nat where "MAX_LEN = 8 * 1024 * 1024"

section \<open>Numbers\<close>

text \<open>
  \<^verbatim>\<open>str::parse\<close> to \<^verbatim>\<open>f64\<close> on the characters a number can hold: the grammar of Rust (digits with at
  most one point and at least one digit, an optional exponent), and the double nearest to the
  decimal, ties to even, from subnormal numbers to infinity.
\<close>

definition div_rne :: "nat \<Rightarrow> nat \<Rightarrow> nat" where
  "div_rne n d =
     (let q = n div d; r = n mod d in if d < 2 * r \<or> (2 * r = d \<and> odd q) then Suc q else q)"

definition f64_of_ratio :: "bool \<Rightarrow> nat \<Rightarrow> nat \<Rightarrow> f64" where
  "f64_of_ratio neg n d =
     (if n = 0 then Fin 0 0
      else let scaled = (\<lambda>e :: int. (n * 2 ^ nat (- e), d * 2 ^ nat e));
               e0 = int (bitlen n) - int (bitlen d) - 53;
               e1 = (case scaled e0 of (a, b) \<Rightarrow> if 2 ^ 53 \<le> a div b then e0 + 1 else e0);
               e = max e1 (- 1074);
               q = (case scaled e of (a, b) \<Rightarrow> div_rne a b)
        in if 971 < e \<or> (e = 971 \<and> 2 ^ 53 \<le> q) then Inf neg
           else Fin (if neg then - int q else int q) e)"

definition take_digits :: "str \<Rightarrow> str \<times> str" where
  "take_digits s = (takeWhile is_digit s, dropWhile is_digit s)"

definition number_of :: "str \<Rightarrow> nat" where
  "number_of ds = foldl (\<lambda>a c. a * 10 + (c - 48)) 0 ds"

definition take_sign :: "str \<Rightarrow> bool \<times> str" where
  "take_sign s = (case s of [] \<Rightarrow> (False, s) | c # r \<Rightarrow> if c = 45 then (True, r) else if c = 43 then (False, r) else (False, s))"

definition parse_exponent :: "str \<Rightarrow> int option" where
  "parse_exponent s =
     (case s of [] \<Rightarrow> Some 0
      | c # r \<Rightarrow>
          if c \<noteq> 101 \<and> c \<noteq> 69 then None
          else (case take_sign r of (neg, ds) \<Rightarrow>
            if ds = [] \<or> \<not> list_all is_digit ds then None
            else Some (if neg then - int (number_of ds) else int (number_of ds))))"

definition parse_f64 :: "str \<Rightarrow> f64 option" where
  "parse_f64 s =
     (case take_sign s of (neg, s1) \<Rightarrow>
      case take_digits s1 of (whole, s2) \<Rightarrow>
      case (case s2 of c # r \<Rightarrow> if c = 46 then take_digits r else ([], s2) | [] \<Rightarrow> ([], [])) of (decimals, s3) \<Rightarrow>
      if whole = [] \<and> decimals = [] then None
      else (case parse_exponent s3 of None \<Rightarrow> None | Some x \<Rightarrow>
        let k = x - int (length decimals); n = number_of (whole @ decimals) in
        Some (f64_of_ratio neg (n * 10 ^ nat k) (10 ^ nat (- k)))))"

section \<open>The lexical level\<close>

function ws :: "bytes \<Rightarrow> nat \<Rightarrow> nat" where
  "ws b i =
     (case get_at b i of
        None \<Rightarrow> i
      | Some c \<Rightarrow> if c \<in> {32, 9, 10, 13} then ws b (i + 1) else i)"
  by pat_completeness auto
termination
  by (relation "measure (\<lambda>(b, i). length b - i)") (auto simp: get_at_def split: if_splits)

function skip_continuation :: "bytes \<Rightarrow> nat \<Rightarrow> nat" where
  "skip_continuation b i =
     (case get_at b i of
        None \<Rightarrow> i
      | Some c \<Rightarrow> if c AND 0xc0 = 0x80 then skip_continuation b (i + 1) else i)"
  by pat_completeness auto
termination
  by (relation "measure (\<lambda>(b, i). length b - i)") (auto simp: get_at_def split: if_splits)

definition number_char :: "u8 \<Rightarrow> bool" where
  "number_char c \<longleftrightarrow> is_digit (unat c) \<or> unat c \<in> {46, 101, 69, 43, 45}"

function skip_number :: "bytes \<Rightarrow> nat \<Rightarrow> nat" where
  "skip_number b i =
     (case get_at b i of
        None \<Rightarrow> i
      | Some c \<Rightarrow> if number_char c then skip_number b (i + 1) else i)"
  by pat_completeness auto
termination
  by (relation "measure (\<lambda>(b, i). length b - i)") (auto simp: get_at_def split: if_splits)

declare ws.simps [simp del] skip_continuation.simps [simp del] skip_number.simps [simp del]

definition lit_at :: "bytes \<Rightarrow> nat \<Rightarrow> bytes \<Rightarrow> json \<Rightarrow> (json_error, json \<times> nat) result" where
  "lit_at b i word v =
     (if starts_with word (drop i b) then Inr (v, i + length word)
      else Inl (JsonError i UnknownLiteral))"

text \<open>\<^verbatim>\<open>u32::from_str_radix\<close> with radix 16: an optional plus, at least one digit.\<close>

fun hex_value :: "nat \<Rightarrow> str \<Rightarrow> nat option" where
  "hex_value acc [] = Some acc"
| "hex_value acc (c # s) = (case hex_digit c of None \<Rightarrow> None | Some d \<Rightarrow> hex_value (acc * 16 + d) s)"

definition from_hex_u32 :: "str \<Rightarrow> nat option" where
  "from_hex_u32 s =
     (let ds = (case s of [] \<Rightarrow> [] | c # r \<Rightarrow> if c = 43 then r else s) in
      if ds = [] then None
      else (case hex_value 0 ds of None \<Rightarrow> None | Some v \<Rightarrow> if v < 2 ^ 32 then Some v else None))"

definition hex4 :: "bytes \<Rightarrow> nat \<Rightarrow> (json_error, nat \<times> nat) result" where
  "hex4 b i =
     (if length b < i + 4 then Inl (JsonError i ShortUEscape)
      else (case utf8_dec (sub_slice i (i + 4) b) of
        None \<Rightarrow> Inl (JsonError i BadUEscape)
      | Some text \<Rightarrow>
          (case from_hex_u32 text of
             None \<Rightarrow> Inl (JsonError i BadUEscape)
           | Some v \<Rightarrow> Inr (v, i + 4))))"

definition unicode_escape :: "bytes \<Rightarrow> nat \<Rightarrow> (json_error, nat \<times> nat) result" where
  "unicode_escape b i =
     (case hex4 b i of
        Inl e \<Rightarrow> Inl e
      | Inr (hi, i1) \<Rightarrow>
          if \<not> (0xd800 \<le> hi \<and> hi < 0xdc00) then
            (if is_scalar hi then Inr (hi, i1) else Inl (JsonError i1 InvalidCodePoint))
          else if \<not> (get_at b i1 = Some 92 \<and> get_at b (i1 + 1) = Some 117)
          then Inl (JsonError i1 LoneSurrogate)
          else (case hex4 b (i1 + 2) of
             Inl e \<Rightarrow> Inl e
           | Inr (lo, i2) \<Rightarrow>
               if \<not> (0xdc00 \<le> lo \<and> lo < 0xe000) then Inl (JsonError i2 BadSurrogatePair)
               else let c = 0x10000 + (hi - 0xd800) * 1024 + (lo - 0xdc00) in
                 (if is_scalar c then Inr (c, i2) else Inl (JsonError i2 InvalidCodePoint))))"

definition simple_escape :: "u8 \<Rightarrow> nat option" where
  "simple_escape e =
     (if e = 34 then Some 34 else if e = 92 then Some 92 else if e = 47 then Some 47
      else if e = 98 then Some 8 else if e = 102 then Some 12 else if e = 110 then Some 10
      else if e = 114 then Some 13 else if e = 116 then Some 9 else None)"

lemma get_at_less: "get_at b i = Some c \<Longrightarrow> i < length b"
  by (simp add: get_at_def split: if_splits)

lemma hex4_pos: "hex4 b i = Inr (v, j) \<Longrightarrow> j = i + 4 \<and> j \<le> length b"
  by (auto simp: hex4_def split: if_splits option.splits)

lemma unicode_escape_pos: "unicode_escape b i = Inr (v, j) \<Longrightarrow> i < j \<and> j \<le> length b \<and> is_scalar v"
  by (auto simp: unicode_escape_def Let_def dest!: hex4_pos split: sum.splits prod.splits if_splits)

lemma skip_continuation_pos: "i \<le> skip_continuation b i \<and> (i \<le> length b \<longrightarrow> skip_continuation b i \<le> length b)"
proof (induction b i rule: skip_continuation.induct)
  case (1 b i)
  then show ?case
    by (subst (1 2) skip_continuation.simps) (force split: option.splits dest: get_at_less)
qed

text \<open>The loop of \<open>string\<close>, past the opening quote.\<close>

function string_loop :: "bytes \<Rightarrow> nat \<Rightarrow> str \<Rightarrow> (json_error, str \<times> nat) result" where
  "string_loop b i s =
     (case get_at b i of
        None \<Rightarrow> Inl (JsonError i UnterminatedString)
      | Some c \<Rightarrow>
          if c = 34 then Inr (s, i + 1)
          else if c = 92 then
            (case get_at b (i + 1) of
               None \<Rightarrow> Inl (JsonError (i + 1) UnterminatedEscape)
             | Some e \<Rightarrow>
                 if e = 117 then
                   (case unicode_escape b (i + 2) of
                      Inl err \<Rightarrow> Inl err
                    | Inr (ch, j) \<Rightarrow> string_loop b j (s @ [ch]))
                 else (case simple_escape e of
                      None \<Rightarrow> Inl (JsonError (i + 2) UnknownEscape)
                    | Some ch \<Rightarrow> string_loop b (i + 2) (s @ [ch])))
          else let j = skip_continuation b (i + 1) in
            (case utf8_dec (sub_slice i j b) of
               None \<Rightarrow> Inl (JsonError j InvalidUtf8)
             | Some part \<Rightarrow> string_loop b j (s @ part)))"
  by pat_completeness auto
termination
proof (relation "measure (\<lambda>(b, i, s). length b - i)", goal_cases)
  case (2 b i s c e p x j)
  then show ?case using unicode_escape_pos [of b "i + 2" x j] by (auto dest!: get_at_less)
next
  case (3 b i s c e ch)
  then show ?case by (auto dest!: get_at_less)
next
  case (4 b i s c x)
  then show ?case using skip_continuation_pos [of "i + 1" b] by (auto dest: get_at_less)
qed simp

declare string_loop.simps [simp del]

definition json_string :: "bytes \<Rightarrow> nat \<Rightarrow> (json_error, str \<times> nat) result" where
  "json_string b i = string_loop b (i + 1) []"

definition number :: "bytes \<Rightarrow> nat \<Rightarrow> (json_error, json \<times> nat) result" where
  "number b i =
     (let j = skip_number b (if get_at b i = Some 45 then i + 1 else i) in
      if j = i then Inl (JsonError i ExpectedValue)
      else (case utf8_dec (sub_slice i j b) of
        None \<Rightarrow> Inl (JsonError i MalformedNumber)
      | Some text \<Rightarrow>
          (case parse_f64 text of
             None \<Rightarrow> Inl (JsonError i MalformedNumber)
           | Some x \<Rightarrow> Inr (JNumber x, j))))"

section \<open>Values, arrays and objects\<close>

text \<open>No result at all stands for fuel that ran out.\<close>

type_synonym json_result = "(json_error, json \<times> nat) result option"

definition json_scalar :: "bytes \<Rightarrow> nat \<Rightarrow> u8 \<Rightarrow> (json_error, json \<times> nat) result" where
  "json_scalar b i c =
     (if c = 34 then res_bind (json_string b i) (\<lambda>(s, j). Inr (JString s, j))
      else if c = 116 then lit_at b i [116, 114, 117, 101] (JBool True)
      else if c = 102 then lit_at b i [102, 97, 108, 115, 101] (JBool False)
      else if c = 110 then lit_at b i [110, 117, 108, 108] JNull
      else number b i)"

text \<open>
  The loops of \<open>array\<close> and \<open>object\<close>, past the opening bracket and the test for an empty container.
  \<open>val\<close> is the parser of a value one level down; the fuel bounds the number of entries.
\<close>

fun array_loop :: "(nat \<Rightarrow> json_result) \<Rightarrow> nat \<Rightarrow> bytes \<Rightarrow> nat \<Rightarrow> json list \<Rightarrow> json_result" where
  "array_loop val 0 b i out = None"
| "array_loop val (Suc n) b i out =
     (case val (ws b i) of
        None \<Rightarrow> None
      | Some (Inl e) \<Rightarrow> Some (Inl e)
      | Some (Inr (v, j)) \<Rightarrow>
          (let out1 = out @ [v]; k = ws b j in
           if get_at b k = Some 44 then array_loop val n b (k + 1) out1
           else if get_at b k = Some 93 then Some (Inr (JArray out1, k + 1))
           else Some (Inl (JsonError k ExpectedCommaOrBracket))))"

text \<open>One member of an object: its key, the colon, and where its value starts.\<close>

definition member_key :: "bytes \<Rightarrow> nat \<Rightarrow> (json_error, str \<times> nat) result" where
  "member_key b i =
     (let i1 = ws b i in
      if get_at b i1 \<noteq> Some 34 then Inl (JsonError i1 ExpectedKey)
      else res_bind (json_string b i1) (\<lambda>(key, i2).
        let i3 = ws b i2 in
        if get_at b i3 \<noteq> Some 58 then Inl (JsonError i3 ExpectedColon)
        else Inr (key, ws b (i3 + 1))))"

fun object_loop :: "(nat \<Rightarrow> json_result) \<Rightarrow> nat \<Rightarrow> bytes \<Rightarrow> nat \<Rightarrow> (str \<times> json) list \<Rightarrow> json_result" where
  "object_loop val 0 b i m = None"
| "object_loop val (Suc n) b i m =
     (case member_key b i of
        Inl e \<Rightarrow> Some (Inl e)
      | Inr (key, i4) \<Rightarrow>
          (case val i4 of
             None \<Rightarrow> None
           | Some (Inl e) \<Rightarrow> Some (Inl e)
           | Some (Inr (v, j)) \<Rightarrow>
               (let m1 = btree_insert key v m; k = ws b j in
                if get_at b k = Some 44 then object_loop val n b (k + 1) m1
                else if get_at b k = Some 125 then Some (Inr (JObject m1, k + 1))
                else Some (Inl (JsonError k ExpectedCommaOrBrace)))))"

fun json_value :: "nat \<Rightarrow> bytes \<Rightarrow> nat \<Rightarrow> nat \<Rightarrow> json_result" where
  "json_value 0 b d i = None"
| "json_value (Suc n) b d i =
     (case get_at b i of
        None \<Rightarrow> Some (Inl (JsonError i UnexpectedEnd))
      | Some c \<Rightarrow>
          if c = 123 then
            (if MAX_DEPTH < d + 1 then Some (Inl (JsonError i NestedTooDeeply))
             else let j = ws b (i + 1) in
               if get_at b j = Some 125 then Some (Inr (JObject [], j + 1))
               else object_loop (json_value n b (d + 1)) (length b) b j [])
          else if c = 91 then
            (if MAX_DEPTH < d + 1 then Some (Inl (JsonError i NestedTooDeeply))
             else let j = ws b (i + 1) in
               if get_at b j = Some 93 then Some (Inr (JArray [], j + 1))
               else array_loop (json_value n b (d + 1)) (length b) b j [])
          else Some (json_scalar b i c))"

definition json_parse_fuel :: "nat \<Rightarrow> str \<Rightarrow> (json_error, json) result option" where
  "json_parse_fuel n text =
     (let b = utf8_enc text in
      if MAX_LEN < length b then Some (Inl (JsonError 0 DocumentTooLarge))
      else (case json_value n b 0 (ws b 0) of
        None \<Rightarrow> None
      | Some (Inl e) \<Rightarrow> Some (Inl e)
      | Some (Inr (v, i)) \<Rightarrow>
          (let j = ws b i in
           if j \<noteq> length b then Some (Inl (JsonError j TrailingData)) else Some (Inr v))))"

definition json_parse :: "str \<Rightarrow> (json_error, json) result" where
  "json_parse text = the (json_parse_fuel (MAX_DEPTH + 1) text)"

section \<open>Positions\<close>

text \<open>Everything that succeeds has moved on, and not past the end.\<close>

lemma ws_pos: "i \<le> ws b i \<and> (i \<le> length b \<longrightarrow> ws b i \<le> length b)"
proof (induction b i rule: ws.induct)
  case (1 b i)
  then show ?case by (subst (1 2) ws.simps) (force split: option.splits dest: get_at_less)
qed

lemma skip_number_pos: "i \<le> skip_number b i \<and> (i \<le> length b \<longrightarrow> skip_number b i \<le> length b)"
proof (induction b i rule: skip_number.induct)
  case (1 b i)
  then show ?case by (subst (1 2) skip_number.simps) (force split: option.splits dest: get_at_less)
qed

lemma simple_escape_scalar: "simple_escape e = Some ch \<Longrightarrow> is_scalar ch"
  by (auto simp: simple_escape_def is_scalar_def split: if_splits)

lemma string_loop_result:
  "string_loop b i s = Inr (t, j) \<Longrightarrow> i < j \<and> j \<le> length b \<and> (\<exists>u. t = s @ u \<and> wf_str u)"
proof (induction b i s arbitrary: t j rule: string_loop.induct)
  case (1 b i s)
  from "1.prems" obtain c where c: "get_at b i = Some c"
    by (subst (asm) string_loop.simps) (auto split: option.splits)
  note ic = get_at_less [OF c]
  consider (quote) "c = 34" | (esc) "c = 92" | (raw) "c \<noteq> 34" "c \<noteq> 92" by blast
  then show ?case
  proof cases
    case quote
    with "1.prems" c ic show ?thesis by (subst (asm) string_loop.simps) auto
  next
    case esc
    from "1.prems" c esc obtain e where e: "get_at b (i + 1) = Some e"
      by (subst (asm) string_loop.simps) (auto split: option.splits)
    show ?thesis
    proof (cases "e = 117")
      case True
      with "1.prems" c esc e obtain ch k where u: "unicode_escape b (i + 2) = Inr (ch, k)"
        "string_loop b k (s @ [ch]) = Inr (t, j)"
        by (subst (asm) string_loop.simps) (auto split: sum.splits)
      from "1.IH"(1) [OF c _ esc e True u(1) refl u(2)] esc unicode_escape_pos [OF u(1)] show ?thesis by auto
    next
      case False
      with "1.prems" c esc e obtain ch where u: "simple_escape e = Some ch"
        "string_loop b (i + 2) (s @ [ch]) = Inr (t, j)"
        by (subst (asm) string_loop.simps) (auto split: option.splits)
      from "1.IH"(2) [OF c _ esc e False u] esc simple_escape_scalar [OF u(1)] show ?thesis by auto
    qed
  next
    case raw
    let ?k = "skip_continuation b (i + 1)"
    from "1.prems" c raw obtain part where p: "utf8_dec (sub_slice i ?k b) = Some part"
      "string_loop b ?k (s @ part) = Inr (t, j)"
      by (subst (asm) string_loop.simps) (auto simp: Let_def split: option.splits)
    from "1.IH"(3) [OF c raw refl p] skip_continuation_pos [of "i + 1" b] utf8_dec_Some [OF p(1)]
    show ?thesis by auto
  qed
qed

lemma string_loop_pos: "string_loop b i s = Inr (t, j) \<Longrightarrow> i < j \<and> j \<le> length b"
  using string_loop_result by blast

lemma json_string_wf: "json_string b i = Inr (t, j) \<Longrightarrow> wf_str t"
  using string_loop_result [of b "i + 1" "[]"] by (auto simp: json_string_def)

lemma json_scalar_pos:
  assumes "json_scalar b i c = Inr (v, j)" "get_at b i = Some c"
  shows "i < j \<and> j \<le> length b"
proof -
  have l: "lit_at b i w x = Inr (v, j) \<Longrightarrow> w \<noteq> [] \<Longrightarrow> i < j \<and> j \<le> length b" for w x
    by (auto simp: lit_at_def starts_with_iff split: if_splits)
      (metis length_append length_drop le_add1 add.commute less_or_eq_imp_le nat_le_linear
        le_diff_conv2 get_at_less [OF assms(2)])
  have n: "number b i = Inr (v, j) \<Longrightarrow> i < j \<and> j \<le> length b"
    using skip_number_pos [of "if get_at b i = Some 45 then i + 1 else i" b] get_at_less [OF assms(2)]
    by (auto simp: number_def Let_def split: if_splits option.splits)
  show ?thesis
    using assms(1) l n string_loop_pos [of b "i + 1" "[]"]
    by (auto simp: json_scalar_def json_string_def res_bind_def split: if_splits sum.splits)
qed

definition moves :: "bytes \<Rightarrow> (nat \<Rightarrow> json_result) \<Rightarrow> bool" where
  "moves b f \<longleftrightarrow> (\<forall>i v j. f i = Some (Inr (v, j)) \<longrightarrow> i < j \<and> j \<le> length b)"

lemma member_key_pos: "member_key b i = Inr (key, j) \<Longrightarrow> i < j \<and> j \<le> length b"
proof -
  assume m: "member_key b i = Inr (key, j)"
  then obtain i2 where s: "string_loop b (ws b i + 1) [] = Inr (key, i2)"
    and c: "get_at b (ws b i2) = Some 58" and j: "j = ws b (ws b i2 + 1)"
    by (auto simp: member_key_def Let_def json_string_def res_bind_def split: if_splits sum.splits prod.splits)
  from string_loop_pos [OF s] ws_pos [of i b] ws_pos [of i2 b] ws_pos [of "ws b i2 + 1" b]
    get_at_less [OF c] show ?thesis by (simp add: j)
qed

lemma array_loop_pos:
  "moves b val \<Longrightarrow> array_loop val n b i out = Some (Inr (v, j)) \<Longrightarrow> i < j \<and> j \<le> length b"
proof (induction n arbitrary: i out)
  case (Suc n)
  from Suc.prems(2) obtain x k where v: "val (ws b i) = Some (Inr (x, k))"
    by (auto split: option.splits sum.splits)
  with Suc.prems(1) have k: "ws b i < k" "k \<le> length b" by (auto simp: moves_def)
  with ws_pos [of i b] ws_pos [of k b] have le: "i < ws b k" by simp
  show ?case
  proof (cases "get_at b (ws b k) = Some 44")
    case True
    with Suc.prems(2) v have "array_loop val n b (ws b k + 1) (out @ [x]) = Some (Inr (v, j))"
      by (simp add: Let_def)
    from Suc.IH [OF Suc.prems(1) this] le show ?thesis by simp
  next
    case False
    with Suc.prems(2) v le show ?thesis by (auto simp: Let_def split: if_splits dest: get_at_less)
  qed
qed simp

lemma object_loop_pos:
  "moves b val \<Longrightarrow> object_loop val n b i m = Some (Inr (v, j)) \<Longrightarrow> i < j \<and> j \<le> length b"
proof (induction n arbitrary: i m)
  case (Suc n)
  from Suc.prems(2) obtain key i4 x k where q: "member_key b i = Inr (key, i4)"
    and v: "val i4 = Some (Inr (x, k))"
    by (auto split: option.splits sum.splits)
  with Suc.prems(1) have k: "i4 < k" "k \<le> length b" by (auto simp: moves_def)
  with member_key_pos [OF q] ws_pos [of k b] have le: "i < ws b k" by simp
  show ?case
  proof (cases "get_at b (ws b k) = Some 44")
    case True
    with Suc.prems(2) q v have "object_loop val n b (ws b k + 1) (btree_insert key x m) = Some (Inr (v, j))"
      by (simp add: Let_def)
    from Suc.IH [OF Suc.prems(1) this] le show ?thesis by simp
  next
    case False
    with Suc.prems(2) q v le show ?thesis by (auto simp: Let_def split: if_splits dest: get_at_less)
  qed
qed simp

lemma json_value_moves: "moves b (json_value n b d)"
proof (induction n arbitrary: d)
  case 0
  then show ?case by (simp add: moves_def)
next
  case (Suc n)
  show ?case unfolding moves_def
  proof (intro allI impI)
    fix i v j
    assume p: "json_value (Suc n) b d i = Some (Inr (v, j))"
    then obtain c where c: "get_at b i = Some c" by (auto split: option.splits)
    have w: "i < ws b (i + 1)" using ws_pos [of "i + 1" b] by simp
    note loops = object_loop_pos [OF Suc.IH] array_loop_pos [OF Suc.IH]
    show "i < j \<and> j \<le> length b"
      using p c w json_scalar_pos [OF _ c] loops [of "d + 1" "length b" "ws b (i + 1)" "[]" v j]
      by (auto simp: Let_def split: if_splits dest: get_at_less)
  qed
qed

section \<open>The fuel is enough\<close>

definition returns :: "(nat \<Rightarrow> json_result) \<Rightarrow> bool" where
  "returns f \<longleftrightarrow> (\<forall>i. f i \<noteq> None)"

text \<open>Where \<open>f\<close> has a result, \<open>g\<close> has the same.\<close>

definition extends :: "(nat \<Rightarrow> json_result) \<Rightarrow> (nat \<Rightarrow> json_result) \<Rightarrow> bool" where
  "extends f g \<longleftrightarrow> (\<forall>i r. f i = Some r \<longrightarrow> g i = Some r)"

lemma array_loop_returns:
  "moves b val \<Longrightarrow> returns val \<Longrightarrow> length b - i < n \<Longrightarrow> array_loop val n b i out \<noteq> None"
proof (induction n arbitrary: i out)
  case (Suc n)
  obtain r where r: "val (ws b i) = Some r" using Suc.prems(2) by (auto simp: returns_def)
  show ?case
  proof (cases r)
    case (Inl e)
    with r show ?thesis by simp
  next
    case (Inr vj)
    obtain v j where vj: "vj = (v, j)" by fastforce
    have "i < j" using Suc.prems(1) r Inr vj ws_pos [of i b] by (fastforce simp: moves_def)
    then have "length b - (ws b j + 1) < n" if "ws b j < length b"
      using that Suc.prems(3) ws_pos [of j b] by linarith
    with Suc.IH [OF Suc.prems(1,2), of "ws b j + 1"] r Inr vj show ?thesis
      by (auto simp: Let_def dest: get_at_less)
  qed
qed simp

lemma object_loop_returns:
  "moves b val \<Longrightarrow> returns val \<Longrightarrow> length b - i < n \<Longrightarrow> object_loop val n b i m \<noteq> None"
proof (induction n arbitrary: i m)
  case (Suc n)
  show ?case
  proof (cases "member_key b i")
    case (Inl e)
    then show ?thesis by simp
  next
    case (Inr ki)
    obtain key i4 where ki: "ki = (key, i4)" by fastforce
    with Inr member_key_pos have i4: "i < i4" by simp
    obtain r where r: "val i4 = Some r" using Suc.prems(2) by (auto simp: returns_def)
    show ?thesis
    proof (cases r)
      case (Inl e)
      with Inr ki r show ?thesis by simp
    next
      fix vj assume vj: "r = Inr vj"
      obtain v j where vj2: "vj = (v, j)" by fastforce
      have "i < j" using Suc.prems(1) r vj vj2 i4 by (fastforce simp: moves_def)
      then have "length b - (ws b j + 1) < n" if "ws b j < length b"
        using that Suc.prems(3) ws_pos [of j b] by linarith
      with Suc.IH [OF Suc.prems(1,2), of "ws b j + 1"] Inr ki r vj vj2 show ?thesis
        by (auto simp: Let_def dest: get_at_less)
    qed
  qed
qed simp

lemma json_value_returns:
  "d \<le> MAX_DEPTH \<Longrightarrow> MAX_DEPTH < n + d \<Longrightarrow> returns (json_value n b d)"
proof (induction n arbitrary: d)
  case (Suc n)
  show ?case unfolding returns_def
  proof
    fix i
    have f: "length b - ws b (i + 1) < length b" if "get_at b i = Some c" for c
      using get_at_less [OF that] ws_pos [of "i + 1" b] by linarith
    have r: "returns (json_value n b (d + 1))" if "\<not> MAX_DEPTH < d + 1"
      using Suc.IH [of "d + 1"] that Suc.prems by simp
    show "json_value (Suc n) b d i \<noteq> None"
      using array_loop_returns [OF json_value_moves r f] object_loop_returns [OF json_value_moves r f]
      by (auto simp: Let_def split: option.splits)
  qed
qed simp

lemma array_loop_extends:
  "extends f g \<Longrightarrow> array_loop f n b i out = Some r \<Longrightarrow> array_loop g n b i out = Some r"
proof (induction n arbitrary: i out)
  case (Suc n)
  from Suc.prems(2) obtain x where x: "f (ws b i) = Some x" by (auto split: option.splits)
  with Suc.prems(1) have "g (ws b i) = Some x" by (simp add: extends_def)
  with Suc x show ?case by (auto simp: Let_def split: sum.splits prod.splits if_splits)
qed simp

lemma object_loop_extends:
  "extends f g \<Longrightarrow> object_loop f n b i m = Some r \<Longrightarrow> object_loop g n b i m = Some r"
proof (induction n arbitrary: i m)
  case (Suc n)
  show ?case
  proof (cases "member_key b i")
    case (Inr ki)
    obtain key i4 where ki: "ki = (key, i4)" by fastforce
    from Suc.prems(2) Inr ki obtain x where x: "f i4 = Some x" by (auto split: option.splits)
    with Suc.prems(1) have "g i4 = Some x" by (simp add: extends_def)
    with Suc x Inr ki show ?thesis by (auto simp: Let_def split: sum.splits prod.splits if_splits)
  qed (use Suc.prems(2) in simp)
qed simp

lemma json_value_extends: "extends (json_value n b d) (json_value (Suc n) b d)"
proof (induction n arbitrary: d)
  case (Suc n)
  note e = Suc.IH [of "d + 1"]
  show ?case unfolding extends_def
  proof (intro allI impI)
    fix i r
    assume "json_value (Suc n) b d i = Some r"
    then show "json_value (Suc (Suc n)) b d i = Some r"
      using array_loop_extends [OF e] object_loop_extends [OF e]
      unfolding json_value.simps(2) [of n b d i] json_value.simps(2) [of "Suc n" b d i] Let_def
      by (auto simp del: json_value.simps split: option.splits if_splits)
  qed
qed (simp add: extends_def)

lemma json_value_more: "json_value n b d i = Some r \<Longrightarrow> n \<le> m \<Longrightarrow> json_value m b d i = Some r"
proof (induction m)
  case (Suc m)
  then show ?case
    using json_value_extends [of m b d] by (cases "n = Suc m") (auto simp: extends_def)
qed simp

lemma json_fuel:
  assumes "MAX_DEPTH < n"
  shows "json_parse_fuel n text = Some (json_parse text)"
proof -
  let ?b = "utf8_enc text"
  obtain r where r: "json_value (MAX_DEPTH + 1) ?b 0 (ws ?b 0) = Some r"
    using json_value_returns [of 0 "MAX_DEPTH + 1" ?b] by (auto simp: returns_def)
  with json_value_more [OF r, of n] assms show ?thesis
    by (auto simp: json_parse_def json_parse_fuel_def Let_def simp del: json_value.simps
        split: sum.splits prod.splits)
qed

section \<open>Well-formed values\<close>

text \<open>At most \<open>n\<close> levels of nesting, strings of scalar values, objects ordered by distinct keys.\<close>

fun json_ok :: "nat \<Rightarrow> json \<Rightarrow> bool" where
  "json_ok n (JString s) \<longleftrightarrow> wf_str s"
| "json_ok n (JArray vs) \<longleftrightarrow> 0 < n \<and> list_all (json_ok (n - 1)) vs"
| "json_ok n (JObject m) \<longleftrightarrow> 0 < n \<and> sorted_wrt (<) (List.map fst m) \<and>
     list_all (\<lambda>kv. wf_str (fst kv) \<and> json_ok (n - 1) (snd kv)) m"
| "json_ok n v \<longleftrightarrow> True"

lemma btree_insert_keys: "set (List.map fst (btree_insert k v m)) = insert k (set (List.map fst m))"
  by (induction k v m rule: btree_insert.induct) auto

lemma btree_insert_sorted: "sorted_wrt (<) (List.map fst m) \<Longrightarrow> sorted_wrt (<) (List.map fst (btree_insert k v m))"
proof (induction k v m rule: btree_insert.induct)
  case (2 k v k1 v1 m)
  have "\<forall>x \<in> set (List.map fst (btree_insert k v m)). k1 < x" if "\<not> k < k1" "k \<noteq> k1"
    using that "2.prems" unfolding btree_insert_keys by auto
  with 2 show ?case by auto
qed simp

lemma btree_insert_all: "list_all P m \<Longrightarrow> P (k, v) \<Longrightarrow> list_all P (btree_insert k v m)"
  by (induction k v m rule: btree_insert.induct) auto

lemma btree_insert_lookup: "map_of (btree_insert k v m) = (map_of m)(k \<mapsto> v)"
  by (induction k v m rule: btree_insert.induct) (auto simp: fun_eq_iff)

lemma member_key_wf: "member_key b i = Inr (key, j) \<Longrightarrow> wf_str key"
  by (auto simp: member_key_def Let_def res_bind_def dest!: json_string_wf
      split: if_splits sum.splits prod.splits)

lemma array_loop_ok:
  assumes "\<And>i v j. val i = Some (Inr (v, j)) \<Longrightarrow> json_ok m v"
  shows "list_all (json_ok m) out \<Longrightarrow> array_loop val n b i out = Some (Inr (v, j)) \<Longrightarrow> json_ok (Suc m) v"
proof (induction n arbitrary: i out)
  case (Suc n)
  from Suc.prems(2) obtain x k where x: "val (ws b i) = Some (Inr (x, k))"
    by (auto split: option.splits sum.splits)
  have o: "list_all (json_ok m) (out @ [x])" using assms [OF x] Suc.prems(1) by simp
  show ?case
    using Suc.prems(2) x o Suc.IH [OF o] by (auto simp: Let_def split: if_splits)
qed simp

lemma object_loop_ok:
  assumes "\<And>i v j. val i = Some (Inr (v, j)) \<Longrightarrow> json_ok m v"
  shows "json_ok (Suc m) (JObject es) \<Longrightarrow> object_loop val n b i es = Some (Inr (v, j)) \<Longrightarrow> json_ok (Suc m) v"
proof (induction n arbitrary: i es)
  case (Suc n)
  from Suc.prems(2) obtain key i4 x k where q: "member_key b i = Inr (key, i4)"
    and x: "val i4 = Some (Inr (x, k))"
    by (auto split: option.splits sum.splits)
  have o: "json_ok (Suc m) (JObject (btree_insert key x es))"
    using assms [OF x] member_key_wf [OF q] Suc.prems(1)
    by (auto intro!: btree_insert_sorted btree_insert_all)
  show ?case
    using Suc.prems(2) q x o Suc.IH [OF o] by (auto simp: Let_def split: if_splits)
qed simp

lemma json_scalar_ok: "json_scalar b i c = Inr (v, j) \<Longrightarrow> json_ok n v"
  by (auto simp: json_scalar_def lit_at_def number_def Let_def res_bind_def dest!: json_string_wf
      split: if_splits sum.splits option.splits prod.splits)

lemma json_value_ok:
  "d \<le> MAX_DEPTH \<Longrightarrow> json_value n b d i = Some (Inr (v, j)) \<Longrightarrow> json_ok (MAX_DEPTH - d) v"
proof (induction n arbitrary: d i v j)
  case (Suc n)
  from Suc.prems(2) obtain c where c: "get_at b i = Some c" by (auto split: option.splits)
  have m: "MAX_DEPTH - d = Suc (MAX_DEPTH - (d + 1))" if "\<not> MAX_DEPTH < d + 1" using that by simp
  note ih = Suc.IH [of "d + 1"]
  have a: "json_ok (MAX_DEPTH - d) v" if "\<not> MAX_DEPTH < d + 1"
    "array_loop (json_value n b (d + 1)) k b j' [] = Some (Inr (v, j))" for k j'
    unfolding m [OF that(1)] using that by (intro array_loop_ok [OF ih _ that(2)]) auto
  have o: "json_ok (MAX_DEPTH - d) v" if "\<not> MAX_DEPTH < d + 1"
    "object_loop (json_value n b (d + 1)) k b j' [] = Some (Inr (v, j))" for k j'
    unfolding m [OF that(1)] using that by (intro object_loop_ok [OF ih _ that(2)]) auto
  show ?case
    using Suc.prems(2) c a o json_scalar_ok
    by (auto simp: Let_def m split: if_splits)
qed simp

section \<open>Properties\<close>

text \<open>
  C37. The reader always ends, and never recurses deeper than its limit: with 65 levels of fuel or
  more every text, of any size and however many brackets it opens, gives a result, the same one.
\<close>

theorem json_terminates:
  assumes "64 < n"
  shows "json_parse_fuel n text = Some (json_parse text)"
  using assms json_fuel by (simp add: MAX_DEPTH_def)

theorem json_terminates_witness:
  "json_parse_fuel 100 (lit ''[ []'') = Some (json_parse (lit ''[ []''))"
  by (rule json_terminates) simp

end
