(* ===== verification/JsonGrammar.thy ===== *)
theory JsonGrammar
  imports Json
begin

text \<open>
  The JSON reader against the grammar of RFC 8259: the texts of a value as an inductive relation, and
  the proof that the reader reads every one of them in place. The lexical level first (white space,
  strings with their escapes, numbers), then the entries of the containers, then the values.
\<close>

unbundle bit_operations_syntax

section \<open>The grammar\<close>

text \<open>
  A reference: the texts of a value by the JSON grammar (RFC 8259), with any white space, any choice
  of escapes, and members of an object in any order, where a later duplicate of a key replaces the
  earlier. The text of a number is one that the reader of doubles accepts.
\<close>

definition blank :: "str \<Rightarrow> bool" where
  "blank w \<longleftrightarrow> list_all (\<lambda>c. c \<in> {32, 9, 10, 13}) w"

definition hex_text :: "nat \<Rightarrow> str \<Rightarrow> bool" where
  "hex_text v h \<longleftrightarrow> length h = 4 \<and> list_all (\<lambda>c. hex_digit c \<noteq> None) h \<and> hex_value 0 h = Some v"

inductive string_text :: "str \<Rightarrow> str \<Rightarrow> bool" where
  string_nil: "string_text [] []"
| string_raw: "is_scalar c \<Longrightarrow> 32 \<le> c \<Longrightarrow> c \<noteq> 34 \<Longrightarrow> c \<noteq> 92 \<Longrightarrow> string_text s t \<Longrightarrow>
    string_text (c # s) (c # t)"
| string_esc: "e < 128 \<Longrightarrow> simple_escape (byte e) = Some c \<Longrightarrow> string_text s t \<Longrightarrow>
    string_text (c # s) (92 # e # t)"
| string_u: "hex_text v h \<Longrightarrow> is_scalar v \<Longrightarrow> string_text s t \<Longrightarrow> string_text (v # s) (92 # 117 # h @ t)"
| string_pair: "hex_text hi h \<Longrightarrow> hex_text lo k \<Longrightarrow> 0xd800 \<le> hi \<Longrightarrow> hi < 0xdc00 \<Longrightarrow> 0xdc00 \<le> lo \<Longrightarrow>
    lo < 0xe000 \<Longrightarrow> string_text s t \<Longrightarrow>
    string_text ((0x10000 + (hi - 0xd800) * 1024 + (lo - 0xdc00)) # s) (92 # 117 # h @ 92 # 117 # k @ t)"

definition number_text :: "f64 \<Rightarrow> str \<Rightarrow> bool" where
  "number_text x t \<longleftrightarrow> parse_f64 t = Some x \<and> t \<noteq> [] \<and> (hd t = 45 \<or> is_digit (hd t)) \<and>
     list_all (\<lambda>c. c < 128 \<and> number_char (byte c)) t"

text \<open>The number bounds the nesting.\<close>

inductive json_text :: "nat \<Rightarrow> json \<Rightarrow> str \<Rightarrow> bool"
  and items_text :: "nat \<Rightarrow> json list \<Rightarrow> str \<Rightarrow> bool"
  and members_text :: "nat \<Rightarrow> (str \<times> json) list \<Rightarrow> str \<Rightarrow> bool" where
  text_null: "json_text n JNull (lit ''null'')"
| text_true: "json_text n (JBool True) (lit ''true'')"
| text_false: "json_text n (JBool False) (lit ''false'')"
| text_number: "number_text x t \<Longrightarrow> json_text n (JNumber x) t"
| text_string: "string_text s t \<Longrightarrow> json_text n (JString s) (34 # t @ [34])"
| text_array_nil: "blank w \<Longrightarrow> json_text (Suc n) (JArray []) (91 # w @ [93])"
| text_array: "items_text n vs t \<Longrightarrow> json_text (Suc n) (JArray vs) (91 # t @ [93])"
| text_object_nil: "blank w \<Longrightarrow> json_text (Suc n) (JObject []) (123 # w @ [125])"
| text_object: "members_text n m t \<Longrightarrow>
    json_text (Suc n) (JObject (foldl (\<lambda>a (k, v). btree_insert k v a) [] m)) (123 # t @ [125])"
| items_one: "blank w \<Longrightarrow> blank w' \<Longrightarrow> json_text n v t \<Longrightarrow> items_text n [v] (w @ t @ w')"
| items_more: "blank w \<Longrightarrow> blank w' \<Longrightarrow> json_text n v t \<Longrightarrow> items_text n vs u \<Longrightarrow>
    items_text n (v # vs) (w @ t @ w' @ 44 # u)"
| members_one: "blank w \<Longrightarrow> blank w1 \<Longrightarrow> blank w2 \<Longrightarrow> blank w3 \<Longrightarrow> string_text k q \<Longrightarrow> json_text n v t \<Longrightarrow>
    members_text n [(k, v)] (w @ 34 # q @ 34 # w1 @ 58 # w2 @ t @ w3)"
| members_more: "blank w \<Longrightarrow> blank w1 \<Longrightarrow> blank w2 \<Longrightarrow> blank w3 \<Longrightarrow> string_text k q \<Longrightarrow> json_text n v t \<Longrightarrow>
    members_text n m u \<Longrightarrow> members_text n ((k, v) # m) (w @ 34 # q @ 34 # w1 @ 58 # w2 @ t @ w3 @ 44 # u)"

section \<open>The lexical level of the grammar\<close>

lemma get_at_append [simp]: "get_at (p @ x # r) (length p) = Some x"
  by (simp add: get_at_def)

lemma get_at_shift: "get_at (p @ q) (length p + i) = get_at q i"
  by (simp add: get_at_def)

lemma get_at_end [simp]: "get_at p (length p) = None"
  by (simp add: get_at_def)

text \<open>A run of bytes that satisfy a test, and then one that does not.\<close>

definition stops :: "(u8 \<Rightarrow> bool) \<Rightarrow> bytes \<Rightarrow> bool" where
  "stops P r \<longleftrightarrow> (case r of [] \<Rightarrow> True | x # _ \<Rightarrow> \<not> P x)"

definition ws_byte :: "u8 \<Rightarrow> bool" where
  "ws_byte c \<longleftrightarrow> c \<in> {32, 9, 10, 13}"

lemma ws_run: "list_all ws_byte w \<Longrightarrow> stops ws_byte r \<Longrightarrow> ws (p @ w @ r) (length p) = length p + length w"
proof (induction w arbitrary: p)
  case Nil
  then show ?case by (cases r) (simp_all add: ws.simps [of _ "length p"] stops_def ws_byte_def)
next
  case (Cons x w)
  have "ws (p @ (x # w) @ r) (length p) = ws ((p @ [x]) @ w @ r) (length (p @ [x]))"
    using Cons.prems(1) by (simp add: ws.simps [of _ "length p"] ws_byte_def)
  with Cons.IH [of "p @ [x]"] Cons.prems show ?case by simp
qed

lemma number_run: "list_all number_char w \<Longrightarrow> stops number_char r \<Longrightarrow>
    skip_number (p @ w @ r) (length p) = length p + length w"
proof (induction w arbitrary: p)
  case Nil
  then show ?case by (cases r) (simp_all add: skip_number.simps [of _ "length p"] stops_def)
next
  case (Cons x w)
  have "skip_number (p @ (x # w) @ r) (length p) = skip_number ((p @ [x]) @ w @ r) (length (p @ [x]))"
    using Cons.prems(1) by (simp add: skip_number.simps [of _ "length p"])
  with Cons.IH [of "p @ [x]"] Cons.prems show ?case by simp
qed

definition cont_byte :: "u8 \<Rightarrow> bool" where
  "cont_byte x \<longleftrightarrow> x AND 0xc0 = 0x80"

lemma cont_run: "list_all cont_byte w \<Longrightarrow> stops cont_byte r \<Longrightarrow>
    skip_continuation (p @ w @ r) (length p) = length p + length w"
proof (induction w arbitrary: p)
  case Nil
  then show ?case by (cases r) (simp_all add: skip_continuation.simps [of _ "length p"] stops_def cont_byte_def)
next
  case (Cons x w)
  have "skip_continuation (p @ (x # w) @ r) (length p) =
      skip_continuation ((p @ [x]) @ w @ r) (length (p @ [x]))"
    using Cons.prems(1) by (simp add: skip_continuation.simps [of _ "length p"] cont_byte_def)
  with Cons.IH [of "p @ [x]"] Cons.prems show ?case by simp
qed

lemma cont_byte_table: "list_all (\<lambda>n. cont_byte (of_nat n) = (128 \<le> n \<and> n < 192)) [0..<256]"
  unfolding cont_byte_def by code_simp

lemma cont_byte_iff: "cont_byte x \<longleftrightarrow> 128 \<le> unat x \<and> unat x < 192"
proof -
  have "unat x \<in> set [0..<256]" by simp
  then show ?thesis using cont_byte_table unfolding list_all_iff by fastforce
qed

lemma enc1_cont: "is_scalar c \<Longrightarrow>
    \<exists>x xs. utf8_enc1 c = x # xs \<and> \<not> cont_byte x \<and> list_all cont_byte xs \<and> (c < 128 \<longleftrightarrow> unat x < 128) \<and>
      (c < 128 \<longrightarrow> x = byte c)"
  by (auto simp: utf8_enc1_def cont_byte_iff is_scalar_def)

lemma enc_nil [simp]: "utf8_enc s = [] \<longleftrightarrow> s = []"
  by (cases s) auto

lemma enc_ascii: "c < 128 \<Longrightarrow> utf8_enc1 c = [byte c]"
  by (simp add: utf8_enc1_def)

lemma enc_ascii_all: "list_all (\<lambda>c. c < 128) s \<Longrightarrow> utf8_enc s = List.map byte s"
  by (induction s) (simp_all add: enc_ascii)

lemma enc_stops: "wf_str s \<Longrightarrow> \<not> cont_byte x \<Longrightarrow> stops cont_byte (utf8_enc s @ x # r)"
proof (cases s)
  case (Cons c t)
  assume "wf_str s" "\<not> cont_byte x"
  with Cons enc1_cont [of c] show ?thesis by (auto simp: stops_def)
qed (simp add: stops_def)

lemma hex_text_ascii: "hex_text v h \<Longrightarrow> list_all (\<lambda>c. c < 128 \<and> is_scalar c \<and> c \<noteq> 43) h"
  by (auto simp: hex_text_def list_all_iff hex_digit_def is_digit_def is_scalar_def split: if_splits)

lemma hex_value_bound: "hex_value a h = Some v \<Longrightarrow> v < (a + 1) * 16 ^ length h"
proof (induction h arbitrary: a)
  case (Cons c h)
  then obtain d where d: "hex_digit c = Some d" "hex_value (a * 16 + d) h = Some v"
    by (auto split: option.splits)
  have "d < 16" using d(1) by (auto simp: hex_digit_def is_digit_def split: if_splits)
  then have "a * 16 + d + 1 \<le> (a + 1) * 16" by simp
  then have "(a * 16 + d + 1) * 16 ^ length h \<le> ((a + 1) * 16) * 16 ^ length h"
    by (rule mult_le_mono1)
  also have "\<dots> = (a + 1) * 16 ^ length (c # h)" by (simp add: algebra_simps)
  finally have "(a * 16 + d + 1) * 16 ^ length h \<le> (a + 1) * 16 ^ length (c # h)" .
  with Cons.IH [OF d(2)] show ?case by linarith
qed simp

lemma hex4_text:
  assumes "hex_text v h"
  shows "hex4 (p @ utf8_enc h @ r) (length p) = Inr (v, length p + 4)" "length (utf8_enc h) = 4"
proof -
  note a = hex_text_ascii [OF assms]
  have e: "utf8_enc h = List.map byte h" using a by (intro enc_ascii_all) (simp add: list_all_iff)
  show l: "length (utf8_enc h) = 4" using assms by (simp add: e hex_text_def)
  have w: "wf_str h" using a by (simp add: wf_str_def list_all_iff)
  have s: "sub_slice (length p) (length p + 4) (p @ utf8_enc h @ r) = utf8_enc h"
    using l by simp
  obtain c t where h: "h = c # t" using assms by (cases h) (auto simp: hex_text_def)
  then have "c \<noteq> 43" using a by simp
  moreover have "v < 2 ^ 32" using hex_value_bound [of 0 h v] assms by (auto simp: hex_text_def)
  ultimately have "from_hex_u32 h = Some v"
    using assms h by (simp add: from_hex_u32_def hex_text_def)
  then show "hex4 (p @ utf8_enc h @ r) (length p) = Inr (v, length p + 4)"
    unfolding hex4_def s utf8_dec_enc [OF w] using l by simp
qed

lemma escape_plain:
  assumes "hex_text v h" "is_scalar v"
  shows "unicode_escape (p @ utf8_enc h @ r) (length p) = Inr (v, length p + 4)"
proof -
  have "\<not> (0xd800 \<le> v \<and> v < 0xdc00)" using assms(2) by (auto simp: is_scalar_def)
  with hex4_text(1) [OF assms(1)] assms(2) show ?thesis by (simp add: unicode_escape_def)
qed

lemma escape_pair:
  assumes "hex_text hi h" "hex_text lo k" "0xd800 \<le> hi" "hi < 0xdc00" "0xdc00 \<le> lo" "lo < 0xe000"
  defines "c \<equiv> 0x10000 + (hi - 0xd800) * 1024 + (lo - 0xdc00)"
  shows "unicode_escape (p @ utf8_enc h @ 92 # 117 # utf8_enc k @ r) (length p) = Inr (c, length p + 10)"
    and "is_scalar c"
proof -
  let ?b = "p @ utf8_enc h @ 92 # 117 # utf8_enc k @ r"
  have l: "length (utf8_enc h) = 4" by (rule hex4_text(2) [OF assms(1)])
  have h4: "hex4 ?b (length p) = Inr (hi, length p + 4)" by (rule hex4_text(1) [OF assms(1)])
  have "?b = (p @ utf8_enc h) @ 92 # 117 # utf8_enc k @ r" by simp
  then have g: "get_at ?b (length p + 4) = Some 92" using l by (metis get_at_append length_append)
  have "?b = (p @ utf8_enc h @ [92]) @ 117 # utf8_enc k @ r" by simp
  then have g1: "get_at ?b (length p + 4 + 1) = Some 117"
    using l get_at_append [of "p @ utf8_enc h @ [92]" 117 "utf8_enc k @ r"] by (simp add: add.commute)
  have "hex4 ((p @ utf8_enc h @ [92, 117]) @ utf8_enc k @ r) (length (p @ utf8_enc h @ [92, 117])) =
      Inr (lo, length (p @ utf8_enc h @ [92, 117]) + 4)" by (rule hex4_text(1) [OF assms(2)])
  then have k4: "hex4 ?b (length p + 4 + 2) = Inr (lo, length p + 10)" using l by (simp add: add.commute)
  show "is_scalar c" using assms(3-6) by (auto simp: c_def is_scalar_def)
  then show "unicode_escape ?b (length p) = Inr (c, length p + 10)"
    unfolding unicode_escape_def h4 using assms(3-6) g g1 k4 by (simp add: c_def)
qed

lemma string_text_wf: "string_text s t \<Longrightarrow> wf_str t"
proof (induction rule: string_text.induct)
  case (string_u v h s t)
  then show ?case using hex_text_ascii [OF string_u(1)] by (auto simp: wf_str_def list_all_iff is_scalar_def)
next
  case (string_pair hi h lo k s t)
  then show ?case using hex_text_ascii [OF string_pair(1)] hex_text_ascii [OF string_pair(2)]
    by (auto simp: wf_str_def list_all_iff is_scalar_def)
qed (auto simp: is_scalar_def)

lemma string_loop_text:
  "string_text s t \<Longrightarrow> string_loop (p @ utf8_enc t @ 34 # r) (length p) a =
     Inr (a @ s, length p + length (utf8_enc t) + 1)"
proof (induction arbitrary: p a rule: string_text.induct)
  case string_nil
  then show ?case by (simp add: string_loop.simps [of _ "length p"])
next
  case (string_raw c s t)
  obtain x xs where x: "utf8_enc1 c = x # xs" "list_all cont_byte xs" "c < 128 \<longleftrightarrow> unat x < 128"
    "c < 128 \<Longrightarrow> x = byte c" using enc1_cont [OF string_raw(1)] by blast
  have u: "unat x = c" if "unat x < 128"
  proof -
    have "c < 128" using x(3) that by simp
    then show ?thesis using x(4) by simp
  qed
  have q: "x \<noteq> 34" "x \<noteq> 92" using u string_raw(3,4) by auto
  let ?r = "utf8_enc t @ 34 # r"
  have st: "stops cont_byte ?r"
    by (rule enc_stops [OF string_text_wf [OF string_raw(5)]]) (simp add: cont_byte_iff)
  have k: "skip_continuation ((p @ [x]) @ xs @ ?r) (length (p @ [x])) = length (p @ [x]) + length xs"
    by (rule cont_run [OF x(2) st])
  have b: "p @ utf8_enc (c # t) @ 34 # r = p @ x # xs @ ?r" using x(1) by simp
  have sl: "sub_slice (length p) (length p + length (x # xs)) (p @ (x # xs) @ ?r) = x # xs"
    by (simp only: sub_slice_append_len) simp
  have d: "utf8_dec (x # xs) = Some [c]"
    using utf8_dec_enc [of "[c]"] string_raw(1) x(1) by simp
  have "string_loop (p @ x # xs @ ?r) (length p) a =
      string_loop (p @ x # xs @ ?r) (length p + length (x # xs)) (a @ [c])"
    using q k sl d by (simp add: string_loop.simps [of _ "length p"] Let_def)
  also have "\<dots> = string_loop ((p @ x # xs) @ ?r) (length (p @ x # xs)) (a @ [c])" by simp
  also have "\<dots> = Inr ((a @ [c]) @ s, length (p @ x # xs) + length (utf8_enc t) + 1)"
    by (rule string_raw(6))
  finally show ?case unfolding b using x(1) by simp
next
  case (string_esc e c s t)
  have b: "p @ utf8_enc (92 # e # t) @ 34 # r = p @ 92 # byte e # utf8_enc t @ 34 # r"
    using string_esc(1) by (simp add: enc_ascii byte_def)
  have g: "get_at (p @ 92 # byte e # utf8_enc t @ 34 # r) (length p + 1) = Some (byte e)"
    using get_at_append [of "p @ [92]" "byte e"] by simp
  have ne: "byte e \<noteq> 117" using string_esc(2) by (auto simp: simple_escape_def)
  have "string_loop (p @ 92 # byte e # utf8_enc t @ 34 # r) (length p) a =
      string_loop ((p @ [92, byte e]) @ utf8_enc t @ 34 # r) (length (p @ [92, byte e])) (a @ [c])"
    using g ne string_esc(2) by (simp add: string_loop.simps [of _ "length p"])
  also have "\<dots> = Inr ((a @ [c]) @ s, length (p @ [92, byte e]) + length (utf8_enc t) + 1)"
    by (rule string_esc(4))
  finally show ?case unfolding b using string_esc(1) by (simp add: enc_ascii)
next
  case (string_u v h s t)
  let ?r = "utf8_enc t @ 34 # r"
  have b: "p @ utf8_enc (92 # 117 # h @ t) @ 34 # r = p @ 92 # 117 # utf8_enc h @ ?r"
    by (simp add: enc_ascii byte_def)
  have g: "get_at (p @ 92 # 117 # utf8_enc h @ ?r) (length p + 1) = Some 117"
    using get_at_append [of "p @ [92]" 117] by simp
  have u: "unicode_escape (p @ 92 # 117 # utf8_enc h @ ?r) (length p + 2) = Inr (v, length p + 6)"
    using escape_plain [OF string_u(1,2), of "p @ [92, 117]" ?r] by simp
  have l: "length (utf8_enc h) = 4" by (rule hex4_text(2) [OF string_u(1)])
  have "string_loop (p @ 92 # 117 # utf8_enc h @ ?r) (length p) a =
      string_loop ((p @ 92 # 117 # utf8_enc h) @ ?r) (length (p @ 92 # 117 # utf8_enc h)) (a @ [v])"
    using g u l by (simp add: string_loop.simps [of _ "length p"])
  also have "\<dots> = Inr ((a @ [v]) @ s, length (p @ 92 # 117 # utf8_enc h) + length (utf8_enc t) + 1)"
    by (rule string_u(4))
  finally show ?case unfolding b using l by (simp add: enc_ascii)
next
  case (string_pair hi h lo k s t)
  let ?c = "0x10000 + (hi - 0xd800) * 1024 + (lo - 0xdc00)"
  let ?r = "utf8_enc t @ 34 # r"
  let ?e = "92 # 117 # utf8_enc h @ 92 # 117 # utf8_enc k"
  have b: "p @ utf8_enc (92 # 117 # h @ 92 # 117 # k @ t) @ 34 # r = p @ ?e @ ?r"
    by (simp add: enc_ascii byte_def)
  have g: "get_at (p @ ?e @ ?r) (length p + 1) = Some 117"
    using get_at_append [of "p @ [92]" 117] by simp
  have u: "unicode_escape (p @ ?e @ ?r) (length p + 2) = Inr (?c, length p + 12)"
    using escape_pair(1) [OF string_pair(1-6), of "p @ [92, 117]" ?r] by simp
  have l: "length (utf8_enc h) = 4" "length (utf8_enc k) = 4"
    by (rule hex4_text(2) [OF string_pair(1)], rule hex4_text(2) [OF string_pair(2)])
  have "string_loop (p @ ?e @ ?r) (length p) a =
      string_loop ((p @ ?e) @ ?r) (length (p @ ?e)) (a @ [?c])"
    using g u l by (simp add: string_loop.simps [of _ "length p"])
  also have "\<dots> = Inr ((a @ [?c]) @ s, length (p @ ?e) + length (utf8_enc t) + 1)"
    by (rule string_pair(8))
  finally show ?case unfolding b using l by (simp add: enc_ascii)
qed

section \<open>Values of the grammar\<close>

lemma blank_enc: "blank w \<Longrightarrow> list_all ws_byte (utf8_enc w) \<and> length (utf8_enc w) = length w"
  by (induction w) (auto simp: blank_def enc_ascii ws_byte_def byte_def)

text \<open>What may follow a value: the end, white space, or a separator.\<close>

definition follows :: "bytes \<Rightarrow> bool" where
  "follows r \<longleftrightarrow> stops number_char r"

lemma stops_simps [simp]: "stops P [] \<longleftrightarrow> True" "stops P (x # r) \<longleftrightarrow> \<not> P x"
  by (simp_all add: stops_def)

lemma ws_not_number: "ws_byte x \<Longrightarrow> \<not> number_char x"
  by (auto simp: ws_byte_def number_char_def is_digit_def)

lemma blank_follows: "blank w \<Longrightarrow> follows r \<Longrightarrow> follows (utf8_enc w @ r)"
proof -
  assume w: "blank w" and r: "follows r"
  have "list_all ws_byte e \<Longrightarrow> follows (e @ r)" for e
    using r ws_not_number by (cases e) (auto simp: follows_def)
  with blank_enc [OF w] show ?thesis by blast
qed

lemma separators [simp]:
  "follows (44 # r)" "follows (93 # r)" "follows (125 # r)" "\<not> ws_byte 44" "\<not> ws_byte 93" "\<not> ws_byte 125"
  "\<not> ws_byte 34" "\<not> ws_byte 58" "follows []"
  by (simp_all add: follows_def number_char_def is_digit_def ws_byte_def)

lemma ws_blank: "blank w \<Longrightarrow> stops ws_byte r \<Longrightarrow> ws (p @ utf8_enc w @ r) (length p) = length p + length (utf8_enc w)"
  using blank_enc ws_run by blast

text \<open>A value starts with none of the bytes the containers look for first.\<close>

definition opens :: "bytes \<Rightarrow> bool" where
  "opens t \<longleftrightarrow> (case t of [] \<Rightarrow> False | x # _ \<Rightarrow> \<not> ws_byte x \<and> x \<noteq> 93 \<and> x \<noteq> 125)"

lemma number_char_not: "number_char x \<Longrightarrow> x \<notin> {123, 91, 34, 116, 102, 110, 93, 125} \<and> \<not> ws_byte x"
  by (auto simp: number_char_def is_digit_def ws_byte_def)

lemma number_text_opens: "number_text x t \<Longrightarrow> opens (utf8_enc t)"
  using number_char_not by (cases t) (auto simp: number_text_def opens_def enc_ascii)

lemma json_text_opens: "json_text n v t \<Longrightarrow> opens (utf8_enc t)"
  by (erule json_text.cases)
    (auto simp: opens_def enc_ascii ws_byte_def byte_def dest: number_text_opens [unfolded opens_def])

lemma opens_stops: "opens t \<Longrightarrow> stops ws_byte (t @ r)"
  by (cases t) (auto simp: opens_def)

lemma lit_at_text: "lit_at (p @ w @ r) (length p) w v = Inr (v, length p + length w)"
  by (simp add: lit_at_def starts_with_def)

lemma number_at_text:
  assumes "number_text x t" "follows r"
  shows "json_value (Suc n) (p @ utf8_enc t @ r) d (length p) = Some (Inr (JNumber x, length p + length (utf8_enc t)))"
proof -
  obtain c s where t: "t = c # s" using assms(1) by (cases t) (auto simp: number_text_def)
  have a: "list_all (\<lambda>c. c < 128) t" "list_all (\<lambda>c. number_char (byte c)) t"
    using assms(1) by (auto simp: number_text_def list_all_iff)
  have e: "utf8_enc t = List.map byte t" by (rule enc_ascii_all [OF a(1)])
  let ?b = "p @ utf8_enc t @ r"
  have b: "?b = p @ byte c # utf8_enc s @ r" using t a by (simp add: enc_ascii)
  have nc: "list_all number_char (utf8_enc t)" using a(2) by (simp add: e list_all_iff)
  have ns: "list_all number_char (utf8_enc s)" using nc t a by (simp add: enc_ascii)
  have "skip_number ?b (length p) = length p + length (utf8_enc t)"
    using number_run [OF nc] assms(2) by (simp add: follows_def)
  moreover have "skip_number ?b (length p + 1) = length p + length (utf8_enc t)"
  proof -
    have "skip_number ((p @ [byte c]) @ utf8_enc s @ r) (length (p @ [byte c])) =
        length (p @ [byte c]) + length (utf8_enc s)"
      using number_run [OF ns] assms(2) unfolding follows_def by blast
    then show ?thesis unfolding b using t a by (simp add: enc_ascii)
  qed
  ultimately have j: "skip_number ?b (if get_at ?b (length p) = Some 45 then length p + 1 else length p) =
      length p + length (utf8_enc t)" by simp
  have w: "wf_str t" using a(1) by (auto simp: wf_str_def list_all_iff is_scalar_def)
  have sl: "sub_slice (length p) (length p + length (utf8_enc t)) ?b = utf8_enc t" by simp
  have ne: "length p + length (utf8_enc t) \<noteq> length p" using t a by (simp add: enc_ascii)
  have "number ?b (length p) = Inr (JNumber x, length p + length (utf8_enc t))"
    unfolding number_def j Let_def sl utf8_dec_enc [OF w] using assms(1) ne by (simp add: number_text_def)
  moreover have "get_at ?b (length p) = Some (byte c)" unfolding b by simp
  moreover have "byte c \<notin> {123, 91, 34, 116, 102, 110}"
    using a(2) t number_char_not [of "byte c"] by simp
  ultimately show ?thesis by (simp add: json_scalar_def)
qed

lemma string_at_text:
  assumes "string_text s t"
  shows "json_string (p @ 34 # utf8_enc t @ 34 # r) (length p) = Inr (s, length p + length (utf8_enc t) + 2)"
  using string_loop_text [OF assms, of "p @ [34]" r "[]"] by (simp add: json_string_def)

lemma ws_idem [simp]: "ws b (ws b i) = ws b i"
proof (induction b i rule: ws.induct)
  case (1 b i)
  then show ?case by (cases "get_at b i") (auto simp: ws.simps [of b i])
qed

lemma array_loop_ws: "array_loop val k b (ws b i) out = array_loop val k b i out"
  by (cases k) simp_all

lemma object_loop_ws: "object_loop val k b (ws b i) m = object_loop val k b i m"
  by (cases k) (simp_all add: member_key_def)

text \<open>One entry of each container, and what follows it.\<close>

lemma item_step:
  assumes "blank w" "blank w'" "opens t" "\<not> ws_byte x"
    and b: "b = p @ utf8_enc w @ t @ utf8_enc w' @ x # r"
    and v: "val (length (p @ utf8_enc w)) = Some (Inr (v, length (p @ utf8_enc w) + length t))"
  shows "array_loop val (Suc k) b (length p) out =
    (let e = length (p @ utf8_enc w @ t @ utf8_enc w') in
     if x = 44 then array_loop val k b (e + 1) (out @ [v])
     else if x = 93 then Some (Inr (JArray (out @ [v]), e + 1))
     else Some (Inl (JsonError e ExpectedCommaOrBracket)))"
proof -
  have w1: "ws b (length p) = length p + length (utf8_enc w)"
    unfolding b by (rule ws_blank [OF assms(1) opens_stops [OF assms(3)]])
  have "ws ((p @ utf8_enc w @ t) @ utf8_enc w' @ x # r) (length (p @ utf8_enc w @ t)) =
      length (p @ utf8_enc w @ t) + length (utf8_enc w')"
    using assms(4) by (intro ws_blank [OF assms(2)]) simp
  then have w2: "ws b (length p + length (utf8_enc w) + length t) = length (p @ utf8_enc w @ t @ utf8_enc w')"
    unfolding b by (simp add: add.assoc)
  have g: "get_at b (length (p @ utf8_enc w @ t @ utf8_enc w')) = Some x"
    unfolding b using get_at_append [of "p @ utf8_enc w @ t @ utf8_enc w'" x r] by simp
  show ?thesis using v w1 w2 g by (simp add: Let_def)
qed

lemma member_step:
  assumes "blank w" "blank w1" "blank w2" "blank w3" "string_text key q" "opens t" "\<not> ws_byte x"
    and b: "b = p @ utf8_enc w @ 34 # utf8_enc q @ 34 # utf8_enc w1 @ 58 # utf8_enc w2 @ t @ utf8_enc w3 @ x # r"
    and h: "h = p @ utf8_enc w @ 34 # utf8_enc q @ 34 # utf8_enc w1 @ 58 # utf8_enc w2"
    and v: "val (length h) = Some (Inr (v, length h + length t))"
  shows "object_loop val (Suc k) b (length p) m =
    (let e = length (h @ t @ utf8_enc w3) in
     if x = 44 then object_loop val k b (e + 1) (btree_insert key v m)
     else if x = 125 then Some (Inr (JObject (btree_insert key v m), e + 1))
     else Some (Inl (JsonError e ExpectedCommaOrBrace)))"
proof -
  let ?r1 = "utf8_enc w1 @ 58 # utf8_enc w2 @ t @ utf8_enc w3 @ x # r"
  let ?p1 = "p @ utf8_enc w" let ?p2 = "?p1 @ 34 # utf8_enc q @ [34]" let ?p3 = "?p2 @ utf8_enc w1 @ [58]"
  have "b = p @ utf8_enc w @ 34 # utf8_enc q @ 34 # ?r1" by (simp add: b)
  then have s1: "ws b (length p) = length ?p1"
    using ws_blank [OF assms(1), of "34 # utf8_enc q @ 34 # ?r1" p] by simp
  have b1: "b = ?p1 @ 34 # utf8_enc q @ 34 # ?r1" by (simp add: b)
  have g1: "get_at b (length ?p1) = Some 34" unfolding b1 by (rule get_at_append)
  have k1: "json_string b (length ?p1) = Inr (key, length ?p2)"
    unfolding b1 using string_at_text [OF assms(5), of ?p1 ?r1] by simp
  have b2: "b = ?p2 @ utf8_enc w1 @ 58 # utf8_enc w2 @ t @ utf8_enc w3 @ x # r" by (simp add: b)
  have s2: "ws b (length ?p2) = length (?p2 @ utf8_enc w1)"
    unfolding b2 using ws_blank [OF assms(2), of "58 # utf8_enc w2 @ t @ utf8_enc w3 @ x # r" ?p2] by simp
  have g2: "get_at b (length (?p2 @ utf8_enc w1)) = Some 58"
    using get_at_append [of "?p2 @ utf8_enc w1" 58] by (simp add: b)
  have b3: "b = ?p3 @ utf8_enc w2 @ t @ utf8_enc w3 @ x # r" by (simp add: b)
  have s3: "ws b (length ?p3) = length h"
    unfolding b3 using ws_blank [OF assms(3) opens_stops [OF assms(6)], of ?p3] by (simp add: h)
  have mk: "member_key b (length p) = Inr (key, length h)"
    using s1 g1 k1 s2 g2 s3 by (simp add: member_key_def Let_def)
  have b4: "b = (h @ t) @ utf8_enc w3 @ x # r" by (simp add: b h)
  have s4: "ws b (length h + length t) = length (h @ t @ utf8_enc w3)"
    unfolding b4 using ws_blank [OF assms(4), of "x # r" "h @ t"] assms(7) by (simp add: add.assoc)
  have g4: "get_at b (length (h @ t @ utf8_enc w3)) = Some x"
    unfolding b4 using get_at_append [of "h @ t @ utf8_enc w3" x r] by simp
  show ?thesis using mk v s4 g4 by (simp add: Let_def)
qed

lemma json_text_length:
  "json_text n v t \<Longrightarrow> utf8_enc t \<noteq> []"
  and items_length: "items_text n vs t \<Longrightarrow> vs \<noteq> [] \<and> length vs \<le> length (utf8_enc t)"
  and members_length: "members_text n m t \<Longrightarrow> m \<noteq> [] \<and> length m \<le> length (utf8_enc t)"
proof (induction rule: json_text_items_text_members_text.inducts)
  case (items_one w w' n v t)
  then show ?case by (cases "utf8_enc t") auto
qed (auto simp: number_text_def enc_ascii Suc_le_eq)

text \<open>The containers, past their opening bracket.\<close>

lemma get_at_head: "get_at (p @ t @ r) (length p) = (case t of [] \<Rightarrow> get_at (p @ r) (length p) | x # _ \<Rightarrow> Some x)"
  by (cases t) simp_all

lemma items_not_closed:
  assumes "items_text l vs t"
  shows "get_at (p @ utf8_enc t @ r) (ws (p @ utf8_enc t @ r) (length p)) \<noteq> Some 93"
proof -
  obtain w v t1 r1 where w: "blank w" "json_text l v t1" "t = w @ t1 @ r1"
    using assms by (cases rule: items_text.cases) auto
  let ?b = "p @ utf8_enc w @ utf8_enc t1 @ utf8_enc r1 @ r"
  have o: "opens (utf8_enc t1)" by (rule json_text_opens [OF w(2)])
  have b: "p @ utf8_enc t @ r = ?b" by (simp add: w(3))
  have "ws ?b (length p) = length (p @ utf8_enc w)"
    using ws_blank [OF w(1) opens_stops [OF o], of p] by simp
  moreover have "get_at ?b (length (p @ utf8_enc w)) \<noteq> Some 93"
    using o get_at_head [of "p @ utf8_enc w" "utf8_enc t1" "utf8_enc r1 @ r"]
    by (cases "utf8_enc t1") (auto simp: opens_def)
  ultimately show ?thesis unfolding b by simp
qed

lemma members_not_closed:
  assumes "members_text l m t"
  shows "get_at (p @ utf8_enc t @ r) (ws (p @ utf8_enc t @ r) (length p)) \<noteq> Some 125"
proof -
  obtain w r1 where w: "blank w" "t = w @ 34 # r1"
    using assms by (cases rule: members_text.cases) auto
  let ?b = "p @ utf8_enc w @ 34 # utf8_enc r1 @ r"
  have b: "p @ utf8_enc t @ r = ?b" by (simp add: w(2) enc_ascii byte_def)
  have "ws ?b (length p) = length (p @ utf8_enc w)"
    using ws_blank [OF w(1), of "34 # utf8_enc r1 @ r" p] by simp
  moreover have "get_at ?b (length (p @ utf8_enc w)) = Some 34"
    using get_at_append [of "p @ utf8_enc w" 34 "utf8_enc r1 @ r"] by simp
  ultimately show ?thesis unfolding b by simp
qed

lemma array_read:
  assumes "b = p @ 91 # u" "d + 1 \<le> MAX_DEPTH" "get_at b (ws b (length (p @ [91]))) \<noteq> Some 93"
    and "array_loop (json_value n b (d + 1)) (length b) b (length (p @ [91])) [] = x"
  shows "json_value (Suc n) b d (length p) = x"
  using assms(2-4) array_loop_ws [of "json_value n b (d + 1)" "length b" b "length p + 1" "[]"]
  by (simp add: assms(1) Let_def)

lemma object_read:
  assumes "b = p @ 123 # u" "d + 1 \<le> MAX_DEPTH" "get_at b (ws b (length (p @ [123]))) \<noteq> Some 125"
    and "object_loop (json_value n b (d + 1)) (length b) b (length (p @ [123])) [] = x"
  shows "json_value (Suc n) b d (length p) = x"
  using assms(2-4) object_loop_ws [of "json_value n b (d + 1)" "length b" b "length p + 1" "[]"]
  by (simp add: assms(1) Let_def)

lemma empty_read:
  assumes "blank w" "d + 1 \<le> MAX_DEPTH"
  shows "json_value (Suc n) (p @ 91 # utf8_enc w @ 93 # r) d (length p) =
      Some (Inr (JArray [], length p + length (utf8_enc w) + 2))"
    and "json_value (Suc n) (p @ 123 # utf8_enc w @ 125 # r) d (length p) =
      Some (Inr (JObject [], length p + length (utf8_enc w) + 2))"
proof -
  have a: "ws ((p @ [x]) @ utf8_enc w @ y # r) (length (p @ [x])) = length (p @ [x]) + length (utf8_enc w)"
    if "\<not> ws_byte y" for x y
    using that by (intro ws_blank [OF assms(1)]) simp
  have g: "get_at ((p @ x # utf8_enc w) @ y # r) (length (p @ x # utf8_enc w)) = Some y" for x y
    by (rule get_at_append)
  show "json_value (Suc n) (p @ 91 # utf8_enc w @ 93 # r) d (length p) =
      Some (Inr (JArray [], length p + length (utf8_enc w) + 2))"
    using a [of 93 91] g [of 91 93] assms(2) by (simp add: Let_def)
  show "json_value (Suc n) (p @ 123 # utf8_enc w @ 125 # r) d (length p) =
      Some (Inr (JObject [], length p + length (utf8_enc w) + 2))"
    using a [of 125 123] g [of 123 125] assms(2) by (simp add: Let_def)
qed

lemma literal_read:
  "json_value (Suc n) (p @ utf8_enc (lit ''null'') @ r) d (length p) =
     Some (Inr (JNull, length p + length (utf8_enc (lit ''null''))))"
  "json_value (Suc n) (p @ utf8_enc (lit ''true'') @ r) d (length p) =
     Some (Inr (JBool True, length p + length (utf8_enc (lit ''true''))))"
  "json_value (Suc n) (p @ utf8_enc (lit ''false'') @ r) d (length p) =
     Some (Inr (JBool False, length p + length (utf8_enc (lit ''false''))))"
  using lit_at_text [of p "[110, 117, 108, 108]" r JNull] lit_at_text [of p "[116, 114, 117, 101]" r "JBool True"]
    lit_at_text [of p "[102, 97, 108, 115, 101]" r "JBool False"]
  by (simp_all add: enc_ascii byte_def json_scalar_def)

lemma string_read:
  assumes "string_text s t"
  shows "json_value (Suc n) (p @ utf8_enc (34 # t @ [34]) @ r) d (length p) =
    Some (Inr (JString s, length p + length (utf8_enc (34 # t @ [34]))))"
  using string_at_text [OF assms, of p r] by (simp add: enc_ascii byte_def json_scalar_def)

text \<open>Where the grammar derives a text, the parser reads it in place.\<close>

definition value_read :: "nat \<Rightarrow> json \<Rightarrow> bytes \<Rightarrow> bool" where
  "value_read l v t \<longleftrightarrow> (\<forall>n d p r. l + d \<le> MAX_DEPTH \<longrightarrow> MAX_DEPTH < n + d \<longrightarrow> follows r \<longrightarrow>
     json_value n (p @ t @ r) d (length p) = Some (Inr (v, length p + length t)))"

definition items_read :: "nat \<Rightarrow> json list \<Rightarrow> bytes \<Rightarrow> bool" where
  "items_read l vs t \<longleftrightarrow> (\<forall>n d p r k out. l + d \<le> MAX_DEPTH \<longrightarrow> MAX_DEPTH < n + d \<longrightarrow> length vs \<le> k \<longrightarrow>
     array_loop (json_value n (p @ t @ 93 # r) d) k (p @ t @ 93 # r) (length p) out =
       Some (Inr (JArray (out @ vs), length p + length t + 1)))"

definition members_read :: "nat \<Rightarrow> (str \<times> json) list \<Rightarrow> bytes \<Rightarrow> bool" where
  "members_read l m t \<longleftrightarrow> (\<forall>n d p r k a. l + d \<le> MAX_DEPTH \<longrightarrow> MAX_DEPTH < n + d \<longrightarrow> length m \<le> k \<longrightarrow>
     object_loop (json_value n (p @ t @ 125 # r) d) k (p @ t @ 125 # r) (length p) a =
       Some (Inr (JObject (foldl (\<lambda>a (k, v). btree_insert k v a) a m), length p + length t + 1)))"

lemma value_readI:
  assumes "\<And>n d p r. l + d \<le> MAX_DEPTH \<Longrightarrow> MAX_DEPTH < Suc n + d \<Longrightarrow> follows r \<Longrightarrow>
    json_value (Suc n) (p @ t @ r) d (length p) = Some (Inr (v, length p + length t))"
  shows "value_read l v t"
  unfolding value_read_def
proof (intro allI impI)
  fix n d p r
  assume a: "l + d \<le> MAX_DEPTH" "MAX_DEPTH < n + d" "follows r"
  then obtain m where "n = Suc m" by (cases n) auto
  with assms [of d m r p] a show "json_value n (p @ t @ r) d (length p) = Some (Inr (v, length p + length t))"
    by simp
qed

lemma item_read:
  assumes "blank w" "blank w'" "json_text l v t" "value_read l v (utf8_enc t)" "follows (x # r)" "\<not> ws_byte x"
    and "l + d \<le> MAX_DEPTH" "MAX_DEPTH < n + d" "b = p @ utf8_enc w @ utf8_enc t @ utf8_enc w' @ x # r"
  shows "array_loop (json_value n b d) (Suc k) b (length p) out =
    (let e = length (p @ utf8_enc w @ utf8_enc t @ utf8_enc w') in
     if x = 44 then array_loop (json_value n b d) k b (e + 1) (out @ [v])
     else if x = 93 then Some (Inr (JArray (out @ [v]), e + 1))
     else Some (Inl (JsonError e ExpectedCommaOrBracket)))"
proof -
  have "json_value n b d (length (p @ utf8_enc w)) =
      Some (Inr (v, length (p @ utf8_enc w) + length (utf8_enc t)))"
    using assms(4,7,8) blank_follows [OF assms(2,5)] unfolding value_read_def assms(9)
    by (metis append_assoc)
  from item_step [where val = "json_value n b d", OF assms(1,2) json_text_opens [OF assms(3)] assms(6,9) this] show ?thesis .
qed

lemma member_read:
  assumes "blank w" "blank w1" "blank w2" "blank w3" "string_text key q" "json_text l v t"
    and "value_read l v (utf8_enc t)" "follows (x # r)" "\<not> ws_byte x" "l + d \<le> MAX_DEPTH" "MAX_DEPTH < n + d"
    and b: "b = p @ utf8_enc (w @ 34 # q @ 34 # w1 @ 58 # w2 @ t @ w3) @ x # r"
  shows "object_loop (json_value n b d) (Suc k) b (length p) m =
    (let e = length (p @ utf8_enc (w @ 34 # q @ 34 # w1 @ 58 # w2 @ t @ w3)) in
     if x = 44 then object_loop (json_value n b d) k b (e + 1) (btree_insert key v m)
     else if x = 125 then Some (Inr (JObject (btree_insert key v m), e + 1))
     else Some (Inl (JsonError e ExpectedCommaOrBrace)))"
proof -
  define h where "h = p @ utf8_enc w @ 34 # utf8_enc q @ 34 # utf8_enc w1 @ 58 # utf8_enc w2"
  have e: "utf8_enc1 34 = [34]" "utf8_enc1 58 = [58]" by (simp_all add: enc_ascii byte_def)
  have b': "b = p @ utf8_enc w @ 34 # utf8_enc q @ 34 # utf8_enc w1 @ 58 # utf8_enc w2 @ utf8_enc t @
      utf8_enc w3 @ x # r" by (simp add: b e)
  have bh: "b = h @ utf8_enc t @ utf8_enc w3 @ x # r" by (simp add: b' h_def)
  have "json_value n b d (length h) = Some (Inr (v, length h + length (utf8_enc t)))"
    using assms(7,10,11) blank_follows [OF assms(4,8)] unfolding value_read_def bh by blast
  from member_step [where val = "json_value n b d", OF assms(1-5) json_text_opens [OF assms(6)] assms(9) b' h_def this, of k m]
  show ?thesis by (simp add: h_def e)
qed

lemma json_complete:
  "json_text l v t \<Longrightarrow> value_read l v (utf8_enc t)"
  and "items_text l vs t \<Longrightarrow> items_read l vs (utf8_enc t)"
  and "members_text l m t \<Longrightarrow> members_read l m (utf8_enc t)"
proof (induction rule: json_text_items_text_members_text.inducts)
  case (text_null l)
  show ?case by (rule value_readI) (rule literal_read)
next
  case (text_true l)
  show ?case by (rule value_readI) (rule literal_read)
next
  case (text_false l)
  show ?case by (rule value_readI) (rule literal_read)
next
  case (text_number x t l)
  then show ?case by (intro value_readI number_at_text)
next
  case (text_string s t l)
  then show ?case by (intro value_readI string_read)
next
  case (text_array_nil w l)
  show ?case
  proof (rule value_readI)
    fix n d p r
    assume "Suc l + d \<le> MAX_DEPTH"
    with empty_read(1) [OF text_array_nil, of d n p r]
    show "json_value (Suc n) (p @ utf8_enc (91 # w @ [93]) @ r) d (length p) =
        Some (Inr (JArray [], length p + length (utf8_enc (91 # w @ [93]))))"
      by (simp add: enc_ascii byte_def del: json_value.simps)
  qed
next
  case (text_object_nil w l)
  show ?case
  proof (rule value_readI)
    fix n d p r
    assume "Suc l + d \<le> MAX_DEPTH"
    with empty_read(2) [OF text_object_nil, of d n p r]
    show "json_value (Suc n) (p @ utf8_enc (123 # w @ [125]) @ r) d (length p) =
        Some (Inr (JObject [], length p + length (utf8_enc (123 # w @ [125]))))"
      by (simp add: enc_ascii byte_def del: json_value.simps)
  qed
next
  case (text_array l vs t)
  show ?case
  proof (rule value_readI)
    fix n d p r
    assume d: "Suc l + d \<le> MAX_DEPTH" "MAX_DEPTH < Suc n + d"
    let ?b = "(p @ [91]) @ utf8_enc t @ 93 # r"
    have "length vs \<le> length ?b" using items_length [OF text_array.hyps] by simp
    then have "array_loop (json_value n ?b (d + 1)) (length ?b) ?b (length (p @ [91])) [] =
        Some (Inr (JArray vs, length p + length (utf8_enc t) + 2))"
      using text_array.IH [unfolded items_read_def, rule_format,
          where d = "d + 1" and n = n and p = "p @ [91]" and r = r and out = "[]"] d
      by (simp del: array_loop.simps json_value.simps)
    from array_read [OF _ _ items_not_closed [OF text_array.hyps, of "p @ [91]" "93 # r"] this] d
    show "json_value (Suc n) (p @ utf8_enc (91 # t @ [93]) @ r) d (length p) =
        Some (Inr (JArray vs, length p + length (utf8_enc (91 # t @ [93]))))"
      by (simp add: enc_ascii byte_def del: json_value.simps)
  qed
next
  case (text_object l m t)
  show ?case
  proof (rule value_readI)
    fix n d p r
    let ?o = "JObject (foldl (\<lambda>a (k, v). btree_insert k v a) [] m)"
    assume d: "Suc l + d \<le> MAX_DEPTH" "MAX_DEPTH < Suc n + d"
    let ?b = "(p @ [123]) @ utf8_enc t @ 125 # r"
    have "length m \<le> length ?b" using members_length [OF text_object.hyps] by simp
    then have "object_loop (json_value n ?b (d + 1)) (length ?b) ?b (length (p @ [123])) [] =
        Some (Inr (?o, length p + length (utf8_enc t) + 2))"
      using text_object.IH [unfolded members_read_def, rule_format,
          where d = "d + 1" and n = n and p = "p @ [123]" and r = r and a = "[]"] d
      by (simp del: object_loop.simps json_value.simps)
    from object_read [OF _ _ members_not_closed [OF text_object.hyps, of "p @ [123]" "125 # r"] this] d
    show "json_value (Suc n) (p @ utf8_enc (123 # t @ [125]) @ r) d (length p) =
        Some (Inr (?o, length p + length (utf8_enc (123 # t @ [125]))))"
      by (simp add: enc_ascii byte_def del: json_value.simps)
  qed
next
  case (items_one w w' l v t)
  show ?case unfolding items_read_def
  proof (intro allI impI)
    fix n d p r k out
    assume d: "l + d \<le> MAX_DEPTH" "MAX_DEPTH < n + d" and "length [v] \<le> k"
    then obtain k' where k: "k = Suc k'" by (cases k) auto
    show "array_loop (json_value n (p @ utf8_enc (w @ t @ w') @ 93 # r) d) k (p @ utf8_enc (w @ t @ w') @ 93 # r)
        (length p) out = Some (Inr (JArray (out @ [v]), length p + length (utf8_enc (w @ t @ w')) + 1))"
      unfolding k using item_read [OF items_one.hyps items_one.IH _ _ d, of 93 r _ p k' out] by simp
  qed
next
  case (items_more w w' l v t vs u)
  show ?case unfolding items_read_def
  proof (intro allI impI)
    fix n d p r k out
    assume d: "l + d \<le> MAX_DEPTH" "MAX_DEPTH < n + d" and "length (v # vs) \<le> k"
    then obtain k' where k: "k = Suc k'" "length vs \<le> k'" by (cases k) auto
    let ?p = "p @ utf8_enc w @ utf8_enc t @ utf8_enc w' @ [44]"
    let ?b = "p @ utf8_enc w @ utf8_enc t @ utf8_enc w' @ 44 # utf8_enc u @ 93 # r"
    have "array_loop (json_value n (?p @ utf8_enc u @ 93 # r) d) k' (?p @ utf8_enc u @ 93 # r) (length ?p) (out @ [v]) =
        Some (Inr (JArray ((out @ [v]) @ vs), length ?p + length (utf8_enc u) + 1))"
      using items_more.IH(2) [unfolded items_read_def, rule_format, OF d k(2)] .
    moreover have "array_loop (json_value n ?b d) (Suc k') ?b (length p) out =
        array_loop (json_value n ?b d) k' ?b (length ?p) (out @ [v])"
      using item_read [OF items_more.hyps(1-3) items_more.IH(1) _ _ d refl, of 44 "utf8_enc u @ 93 # r" p k' out]
      by (simp add: Let_def del: array_loop.simps)
    ultimately show "array_loop (json_value n (p @ utf8_enc (w @ t @ w' @ 44 # u) @ 93 # r) d) k
        (p @ utf8_enc (w @ t @ w' @ 44 # u) @ 93 # r) (length p) out =
        Some (Inr (JArray (out @ v # vs), length p + length (utf8_enc (w @ t @ w' @ 44 # u)) + 1))"
      by (simp add: k(1) enc_ascii byte_def del: array_loop.simps json_value.simps)
  qed
next
  case (members_one w w1 w2 w3 key q l v t)
  show ?case unfolding members_read_def
  proof (intro allI impI)
    fix n d p r k a
    assume d: "l + d \<le> MAX_DEPTH" "MAX_DEPTH < n + d" and "length [(key, v)] \<le> k"
    then obtain k' where k: "k = Suc k'" by (cases k) auto
    let ?t = "w @ 34 # q @ 34 # w1 @ 58 # w2 @ t @ w3"
    show "object_loop (json_value n (p @ utf8_enc ?t @ 125 # r) d) k (p @ utf8_enc ?t @ 125 # r) (length p) a =
        Some (Inr (JObject (foldl (\<lambda>a (k, v). btree_insert k v a) a [(key, v)]), length p + length (utf8_enc ?t) + 1))"
      unfolding k using member_read [OF members_one.hyps members_one.IH _ _ d refl, of 125 r p k' a]
      by (simp add: Let_def del: utf8_enc_simps object_loop.simps json_value.simps)
  qed
next
  case (members_more w w1 w2 w3 key q l v t m u)
  show ?case unfolding members_read_def
  proof (intro allI impI)
    fix n d p r k a
    assume d: "l + d \<le> MAX_DEPTH" "MAX_DEPTH < n + d" and "length ((key, v) # m) \<le> k"
    then obtain k' where k: "k = Suc k'" "length m \<le> k'" by (cases k) auto
    let ?t = "w @ 34 # q @ 34 # w1 @ 58 # w2 @ t @ w3"
    let ?p = "p @ utf8_enc ?t @ [44]"
    let ?b = "p @ utf8_enc ?t @ 44 # utf8_enc u @ 125 # r"
    have "object_loop (json_value n (?p @ utf8_enc u @ 125 # r) d) k' (?p @ utf8_enc u @ 125 # r) (length ?p)
          (btree_insert key v a) =
        Some (Inr (JObject (foldl (\<lambda>a (k, v). btree_insert k v a) (btree_insert key v a) m),
          length ?p + length (utf8_enc u) + 1))"
      using members_more.IH(2) [unfolded members_read_def, rule_format, OF d k(2)] .
    moreover have "object_loop (json_value n ?b d) (Suc k') ?b (length p) a =
        object_loop (json_value n ?b d) k' ?b (length ?p) (btree_insert key v a)"
      using member_read [OF members_more.hyps(1-6) members_more.IH(1) _ _ d refl,
          of 44 "utf8_enc u @ 125 # r" p k' a]
      by (simp add: Let_def del: utf8_enc_simps object_loop.simps json_value.simps)
    moreover have "utf8_enc (w @ 34 # q @ 34 # w1 @ 58 # w2 @ t @ w3 @ 44 # u) = utf8_enc ?t @ 44 # utf8_enc u"
      by (simp add: enc_ascii byte_def)
    ultimately show "object_loop (json_value n (p @ utf8_enc (w @ 34 # q @ 34 # w1 @ 58 # w2 @ t @ w3 @ 44 # u) @ 125 # r) d) k
        (p @ utf8_enc (w @ 34 # q @ 34 # w1 @ 58 # w2 @ t @ w3 @ 44 # u) @ 125 # r) (length p) a =
        Some (Inr (JObject (foldl (\<lambda>a (k, v). btree_insert k v a) a ((key, v) # m)),
          length p + length (utf8_enc (w @ 34 # q @ 34 # w1 @ 58 # w2 @ t @ w3 @ 44 # u)) + 1))"
      by (simp add: k(1) del: utf8_enc_simps object_loop.simps json_value.simps)
  qed
qed

lemma json_parse_text:
  assumes "json_text 64 v t" and "blank w" and "blank w'"
    and "length (utf8_enc (w @ t @ w')) \<le> 8 * 1024 * 1024"
  shows "json_parse (w @ t @ w') = Inr v"
proof -
  let ?w = "utf8_enc w" and ?t = "utf8_enc t" and ?r = "utf8_enc w'"
  let ?b = "?w @ ?t @ ?r"
  have o: "opens ?t" by (rule json_text_opens [OF assms(1)])
  have w1: "ws ?b 0 = length ?w"
    using ws_blank [OF assms(2) opens_stops [OF o], of "[]" ?r] by simp
  have f: "follows ?r" using blank_follows [OF assms(3), of "[]"] by simp
  have v: "json_value 65 ?b 0 (length ?w) = Some (Inr (v, length ?w + length ?t))"
    using json_complete(1) [OF assms(1)] f unfolding value_read_def
    by (simp add: MAX_DEPTH_def del: json_value.simps)
  have w2: "ws ?b (length ?w + length ?t) = length ?b"
    using ws_blank [OF assms(3), of "[]" "?w @ ?t"] by (simp add: add.assoc)
  have "\<not> MAX_LEN < length ?b" using assms(4) by (simp add: MAX_LEN_def)
  then have "json_parse_fuel 65 (w @ t @ w') = Some (Inr v)"
    using w1 v w2 by (simp add: json_parse_fuel_def Let_def del: json_value.simps)
  then show ?thesis by (simp add: json_parse_def MAX_DEPTH_def)
qed

section \<open>Properties\<close>

text \<open>
  C22. The reader is complete: every text the JSON grammar derives for a value, with white space
  around it and inside it, any choice of escapes, and at most 64 levels of nesting, in a document
  within the size limit, is read as exactly that value.
\<close>

theorem json_parse_complete:
  assumes "json_text 64 v t" and "blank w" and "blank w'"
    and "length (utf8_enc (w @ t @ w')) \<le> 8 * 1024 * 1024"
  shows "json_parse (w @ t @ w') = Inr v"
  using assms by (rule json_parse_text)

theorem json_parse_complete_witness:
  "json_parse ([32] @ (123 # ([32] @ 34 # lit ''k'' @ 34 # [] @ 58 # [9] @ (91 # ([] @ lit ''null'' @ [10]) @ [93]) @ []) @ [125]) @ []) =
    Inr (JObject [(lit ''k'', JArray [JNull])])"
proof -
  have "string_text (lit ''k'') (lit ''k'')"
    using string_raw [OF _ _ _ _ string_nil, of 107] by (simp add: is_scalar_def)
  moreover have "items_text 62 [JNull] ([] @ lit ''null'' @ [10])"
    by (rule items_one) (simp_all add: blank_def text_null del: append_Nil lit_simps)
  then have "json_text (Suc 62) (JArray [JNull]) (91 # ([] @ lit ''null'' @ [10]) @ [93])"
    by (rule text_array)
  ultimately have "members_text (Suc 62) [(lit ''k'', JArray [JNull])]
      ([32] @ 34 # lit ''k'' @ 34 # [] @ 58 # [9] @ (91 # ([] @ lit ''null'' @ [10]) @ [93]) @ [])"
    by (intro members_one) (simp_all add: blank_def)
  from text_object [OF this] have t: "json_text 64 (JObject [(lit ''k'', JArray [JNull])])
      (123 # ([32] @ 34 # lit ''k'' @ 34 # [] @ 58 # [9] @ (91 # ([] @ lit ''null'' @ [10]) @ [93]) @ []) @ [125])"
    by simp
  show ?thesis
    by (rule json_parse_complete [OF t]) (simp_all add: blank_def enc_ascii)
qed

text \<open>
  C38. What the reader returns is well formed: it nests at most 64 deep, every string and every key
  is a sequence of Unicode scalar values (no lone surrogate survives an escape), and the keys of
  every object are distinct and in order.
\<close>

theorem json_parse_type:
  assumes "json_parse text = Inr v"
  shows "json_ok 64 v"
proof -
  let ?b = "utf8_enc text"
  have "json_parse_fuel (MAX_DEPTH + 1) text = Some (Inr v)"
    using json_fuel [of "MAX_DEPTH + 1" "text"] assms by simp
  then obtain i where "json_value (MAX_DEPTH + 1) ?b 0 (ws ?b 0) = Some (Inr (v, i))"
    by (auto simp: json_parse_fuel_def Let_def simp del: json_value.simps
        split: if_splits option.splits sum.splits)
  from json_value_ok [OF _ this] show ?thesis by (simp add: MAX_DEPTH_def)
qed

lemma json_sample: "json_parse ([] @ (91 # [32] @ [93]) @ []) = Inr (JArray [])"
proof -
  have "json_text (Suc 63) (JArray []) (91 # [32] @ [93])" by (rule text_array_nil) (simp add: blank_def)
  then have t: "json_text 64 (JArray []) (91 # [32] @ [93])" by simp
  show ?thesis by (rule json_parse_text [OF t]) (simp_all add: blank_def enc_ascii)
qed

theorem json_parse_type_witness: "json_ok 64 (JArray [])"
  by (rule json_parse_type [OF json_sample])

text \<open>The four digits of an escape may start with a plus sign, which the grammar does not allow.\<close>

lemma hex4_accepts_plus: "hex4 [43, 48, 52, 49] 0 = Inr (65, 4) \<and> \<not> hex_text 65 [43, 48, 52, 49]"
proof -
  have "utf8_dec [43, 48, 52, 49] = Some [43, 48, 52, 49]"
    using utf8_dec_enc [of "[43, 48, 52, 49]"] by (simp add: enc_ascii byte_def is_scalar_def)
  then show ?thesis
    by (simp add: hex4_def sub_slice_def from_hex_u32_def hex_digit_def is_digit_def hex_text_def)
qed

end
