(* ===== verification/Version.thy ===== *)
theory Version
  imports Strings
begin

text \<open>
  Release versions (\<^verbatim>\<open>tobii-update/src/version.rs\<close>): parsing a tag, printing a version, and the
  comparison that decides whether a release is an update. The reference for the comparison is a key
  in the linear orders of the library (products, lists and options, compared lexicographically).
\<close>

section \<open>Versions\<close>

record version =
  major :: u32
  minor :: u32
  patch :: u32
  pre :: str

definition parse_u32 :: "str \<Rightarrow> u32 option" where
  "parse_u32 s = map_option of_nat (parse_uint (2 ^ 32) s)"

definition strip_v :: "str \<Rightarrow> str" where
  "strip_v t =
     (case strip_prefix (lit ''v'') t of
        Some r \<Rightarrow> r
      | None \<Rightarrow> (case strip_prefix (lit ''V'') t of Some r \<Rightarrow> r | None \<Rightarrow> t))"

text \<open>The next part of the numbers: absent reads as zero.\<close>

definition part_value :: "str list \<Rightarrow> u32 option" where
  "part_value ps = (case ps of [] \<Rightarrow> Some 0 | s # _ \<Rightarrow> parse_u32 s)"

definition parse_numbers :: "str \<Rightarrow> str \<Rightarrow> version option" where
  "parse_numbers nums tail =
     (if nums = [] then None
      else let parts = split_on (\<lambda>c. c = 46) nums in
        Option.bind (part_value parts) (\<lambda>a.
        Option.bind (part_value (drop 1 parts)) (\<lambda>b.
        Option.bind (part_value (drop 2 parts)) (\<lambda>c.
          if drop 3 parts \<noteq> [] then None
          else Some \<lparr>major = a, minor = b, patch = c, pre = tail\<rparr>))))"

definition parse_version :: "str \<Rightarrow> version option" where
  "parse_version text =
     (let t1 = strip_v (trim text);
          t2 = (case split_once 43 t1 of Some (v, _) \<Rightarrow> v | None \<Rightarrow> t1) in
      case split_once 45 t2 of
        Some (n, p) \<Rightarrow> parse_numbers n p
      | None \<Rightarrow> parse_numbers t2 [])"

definition show_version :: "version \<Rightarrow> str" where
  "show_version v =
     decimal (unat (major v)) @ [46] @ decimal (unat (minor v)) @ [46] @ decimal (unat (patch v)) @
     (if pre v = [] then [] else 45 # pre v)"

section \<open>Comparing\<close>

datatype ordering = Less | Equal | Greater

definition cmp :: "'a :: linorder \<Rightarrow> 'a \<Rightarrow> ordering" where
  "cmp a b = (if a < b then Less else if a = b then Equal else Greater)"

text \<open>An identifier as its stem and its trailing number, where that fits 64 bits.\<close>

definition split_ident :: "str \<Rightarrow> str \<times> nat option" where
  "split_ident s =
     (let stem = trim_end_matches is_digit s in (stem, parse_uint (2 ^ 64) (drop (length stem) s)))"

definition cmp_ident :: "str \<Rightarrow> str \<Rightarrow> ordering" where
  "cmp_ident a b =
     (case (split_ident a, split_ident b) of ((a_stem, a_num), (b_stem, b_num)) \<Rightarrow>
        if a_stem \<noteq> b_stem then
          (case (a_stem = [], b_stem = []) of
             (True, False) \<Rightarrow> Less
           | (False, True) \<Rightarrow> Greater
           | _ \<Rightarrow> cmp a_stem b_stem)
        else
          (case (a_num, b_num) of
             (Some x, Some y) \<Rightarrow> cmp x y
           | (None, Some _) \<Rightarrow> Less
           | (Some _, None) \<Rightarrow> Greater
           | (None, None) \<Rightarrow> Equal))"

fun cmp_idents :: "str list \<Rightarrow> str list \<Rightarrow> ordering" where
  "cmp_idents [] [] = Equal"
| "cmp_idents [] (y # ys) = Less"
| "cmp_idents (x # xs) [] = Greater"
| "cmp_idents (x # xs) (y # ys) =
     (case cmp_ident x y of Equal \<Rightarrow> cmp_idents xs ys | other \<Rightarrow> other)"

definition cmp_pre :: "str \<Rightarrow> str \<Rightarrow> ordering" where
  "cmp_pre a b = cmp_idents (split_on (\<lambda>c. c = 46) a) (split_on (\<lambda>c. c = 46) b)"

definition is_newer_than :: "version \<Rightarrow> version \<Rightarrow> bool" where
  "is_newer_than v w =
     (let mine = (major v, minor v, patch v); theirs = (major w, minor w, patch w) in
      if mine \<noteq> theirs then theirs < mine
      else (case (pre v = [], pre w = []) of
              (True, False) \<Rightarrow> True
            | (False, True) \<Rightarrow> False
            | _ \<Rightarrow> cmp_pre (pre v) (pre w) = Greater))"

section \<open>The reference order\<close>

text \<open>
  An identifier is a stem and the digits it ends in, as many as there are; the digits rank by the number
  they write in base ten, below all numbers when there are none or the number takes more than 64 bits.
\<close>

definition ident_digits :: "str \<Rightarrow> str" where
  "ident_digits s = rev (takeWhile (\<lambda>c. 48 \<le> c \<and> c \<le> 57) (rev s))"

definition ident_number :: "str \<Rightarrow> nat" where
  "ident_number s = foldl (\<lambda>n c. 10 * n + (c - 48)) 0 (ident_digits s)"

definition ident_rank :: "str \<Rightarrow> nat option" where
  "ident_rank s = (if ident_digits s = [] \<or> 2 ^ 64 \<le> ident_number s then None else Some (ident_number s))"

definition ident_stem :: "str \<Rightarrow> str" where
  "ident_stem s = take (length s - length (ident_digits s)) s"

text \<open>Numbers first; among equals a release above its pre-releases; then identifier by identifier.\<close>

definition version_key :: "version \<Rightarrow> (u32 \<times> u32 \<times> u32) \<times> bool \<times> (str \<times> nat option) list" where
  "version_key v = ((major v, minor v, patch v), pre v = [],
     List.map (\<lambda>s. (ident_stem s, ident_rank s)) (split_on (\<lambda>c. c = 46) (pre v)))"

lemma ident_parts: "s = trim_end_matches is_digit s @ ident_digits s"
proof -
  have "is_digit = (\<lambda>c. 48 \<le> c \<and> c \<le> 57)" by (auto simp: is_digit_def)
  then have "trim_end_matches is_digit s @ ident_digits s = rev (takeWhile is_digit (rev s) @ dropWhile is_digit (rev s))"
    by (simp only: trim_end_matches_def ident_digits_def rev_append)
  then show ?thesis by (simp only: takeWhile_dropWhile_id rev_rev_ident)
qed

lemma digits_value_foldl:
  "list_all is_digit ds \<Longrightarrow> digits_value a ds = Some (foldl (\<lambda>n c. 10 * n + (c - 48)) a ds)"
  by (induction ds arbitrary: a) (auto simp: mult.commute)

lemma split_ident_key: "split_ident s = (ident_stem s, ident_rank s)"
proof -
  let ?d = "ident_digits s"
  have d: "list_all is_digit ?d" by (auto simp: ident_digits_def list_all_iff is_digit_def dest: set_takeWhileD)
  have l: "length s = length (trim_end_matches is_digit s) + length ?d"
    using arg_cong [OF ident_parts [of s], of length] by simp
  have st: "ident_stem s = trim_end_matches is_digit s"
    unfolding ident_stem_def using l ident_parts [of s] by (metis add_diff_cancel_right' append_eq_conv_conj)
  have "drop (length (trim_end_matches is_digit s)) s = ?d"
    using ident_parts [of s] by (metis append_eq_conv_conj)
  moreover have "parse_uint (2 ^ 64) ?d = ident_rank s"
    using d digits_value_foldl [OF d, of 0]
    by (cases ?d) (simp_all add: parse_uint_def ident_rank_def ident_number_def not_le is_digit_def)
  ultimately show ?thesis by (simp only: split_ident_def Let_def st)
qed

lemma cmp_simps [simp]:
  "cmp a b = Less \<longleftrightarrow> a < b" "cmp a b = Equal \<longleftrightarrow> a = b" "cmp a b = Greater \<longleftrightarrow> b < a"
  by (auto simp: cmp_def)

lemma Nil_less [simp]: "[] < xs \<longleftrightarrow> xs \<noteq> ([] :: 'a :: linorder list)"
  by (cases xs) simp_all

lemma cmp_ident_key: "cmp_ident a b = cmp (split_ident a) (split_ident b)"
  by (auto simp: cmp_ident_def cmp_def less_prod_def less_eq_prod_def split: option.splits bool.splits prod.splits)

lemma cmp_idents_key: "cmp_idents xs ys = cmp (List.map split_ident xs) (List.map split_ident ys)"
  by (induction xs ys rule: cmp_idents.induct)
    (auto simp: cmp_ident_key cmp_def split: ordering.splits if_splits)

lemma newer_key: "is_newer_than v w \<longleftrightarrow> version_key w < version_key v"
  by (auto simp: is_newer_than_def version_key_def cmp_pre_def cmp_idents_key less_prod_def
      less_eq_prod_def Let_def split_ident_key [abs_def] split: bool.splits)

text \<open>The part of a version's text that survives printing and reading back.\<close>

definition pre_ok :: "str \<Rightarrow> bool" where
  "pre_ok p \<longleftrightarrow> 43 \<notin> set p \<and> (p = [] \<or> \<not> is_space (last p))"

lemma decimal_chars: "c \<in> set (decimal n) \<Longrightarrow> is_digit c"
  using decimal_digits [of n] by (simp add: list_all_iff)

lemma decimal_head: "\<exists>c r. decimal n = c # r \<and> is_digit c"
  using decimal_digits [of n] by (cases "decimal n") auto

lemma decimal_no: "\<not> is_digit c \<Longrightarrow> c \<notin> set (decimal n)"
  using decimal_chars by blast

lemma decimal_last: "is_digit (last (decimal n))"
  using decimal_digits [of n] by (simp add: list_all_iff)

lemma parse_u32_decimal [simp]: "parse_u32 (decimal (unat (w :: u32))) = Some w"
proof -
  have "unat w < 2 ^ 32" using unsigned_less [of w, where ?'a = nat] by simp
  then show ?thesis unfolding parse_u32_def by (simp only: parse_uint_decimal) simp
qed

lemma no_dot: "list_all (\<lambda>c. \<not> c = 46) (decimal n)"
  using decimal_no [of 46 n] by (auto simp: list_all_iff is_digit_def)

lemma show_version_parts:
  "split_on (\<lambda>c. c = 46) (decimal a @ [46] @ decimal b @ [46] @ decimal c) =
     [decimal a, decimal b, decimal c]"
  using split_on_sep [OF no_dot, of 46] split_on_none [OF no_dot] by simp

section \<open>Properties\<close>

text \<open>
  C39. The comparison is a linear order on keys: a version is newer than another exactly when its key
  is greater, where keys compare the three numbers, then a release above a pre-release, then the
  identifiers one by one, by the text before their longest run of digits at the end and then by the
  number these digits write in base ten. An identifier that ends in no digits, or in a number of more
  than 64 bits, ranks below those of its stem that end in a number (\<open>huge_number_ranks_lowest\<close>). So
  "newer" is a strict weak order, and the newest of a list is well defined.
\<close>

theorem is_newer_than_key: "is_newer_than v w \<longleftrightarrow> version_key w < version_key v"
  by (rule newer_key)

text \<open>
  Printing and reading a version back gives the version, whenever its tail holds no plus sign
  and does not end in white space; a tag with \<open>v\<close> in front reads the same.
\<close>

theorem version_roundtrip:
  assumes "pre_ok (pre v)"
  shows "parse_version (show_version v) = Some v \<and> parse_version (118 # show_version v) = Some v"
proof -
  let ?n = "decimal (unat (major v)) @ [46] @ decimal (unat (minor v)) @ [46] @ decimal (unat (patch v))"
  let ?t = "show_version v"
  obtain c r where h: "decimal (unat (major v)) = c # r" "is_digit c" using decimal_head by blast
  have "\<not> is_digit 43" "\<not> is_digit 45" by (simp_all add: is_digit_def)
  then have n: "43 \<notin> set ?n" "45 \<notin> set ?n" "?n \<noteq> []"
    by (simp_all add: decimal_no)
  have t: "?t = ?n @ (if pre v = [] then [] else 45 # pre v)" by (simp add: show_version_def)
  have l: "\<not> is_space (last ?t)"
  proof (cases "pre v = []")
    case True
    then have "last ?t = last (decimal (unat (patch v)))"
      using decimal_digits [of "unat (patch v)"] by (simp add: t)
    then show ?thesis using decimal_last [of "unat (patch v)"] by (auto simp: is_digit_def is_space_def)
  next
    case False
    then show ?thesis using assms by (simp add: t pre_ok_def)
  qed
  have c: "\<not> is_space c" "c \<noteq> 118" "c \<noteq> 86" using h(2) by (auto simp: is_digit_def is_space_def)
  have ne: "?t = c # tl ?t" using h by (simp add: t)
  have trims: "trim ?t = ?t" "trim (118 # ?t) = 118 # ?t"
    using l c(1) ne by (intro trim_id disjI2; simp add: is_space_def; metis list.sel(1))+
  have "43 \<notin> set ?t" using n(1) assms by (simp add: t pre_ok_def)
  then have plus: "split_once 43 ?t = None" by (simp add: split_once_None)
  have "strip_prefix [118] ?t = None" "strip_prefix [86] ?t = None"
    using ne c(2,3) by (metis strip_prefix.simps(3))+
  then have strip: "strip_v ?t = ?t" "strip_v (118 # ?t) = ?t"
    by (simp_all add: strip_v_def lit_def)
  have nums: "parse_numbers ?n (pre v) = Some v"
    using n(3) show_version_parts [of "unat (major v)" "unat (minor v)" "unat (patch v)"]
    by (simp add: parse_numbers_def part_value_def)
  have dash: "(case split_once 45 ?t of Some (n, p) \<Rightarrow> parse_numbers n p | None \<Rightarrow> parse_numbers ?t []) = Some v"
    using n(2) split_once_None [of 45 ?n] split_once_append [OF n(2), of "pre v"] nums
    by (cases "pre v = []") (simp_all add: t del: append_assoc)
  show ?thesis
    unfolding parse_version_def Let_def trims plus strip option.case using dash by simp
qed

theorem version_roundtrip_witness:
  "parse_version (show_version \<lparr>major = 1, minor = 10, patch = 3, pre = lit ''rc1''\<rparr>) =
      Some \<lparr>major = 1, minor = 10, patch = 3, pre = lit ''rc1''\<rparr> \<and>
    parse_version (118 # show_version \<lparr>major = 1, minor = 10, patch = 3, pre = lit ''rc1''\<rparr>) =
      Some \<lparr>major = 1, minor = 10, patch = 3, pre = lit ''rc1''\<rparr>"
proof -
  have "pre_ok (lit ''rc1'')" by code_simp
  then show ?thesis
    using version_roundtrip [of "\<lparr>major = 1, minor = 10, patch = 3, pre = lit ''rc1''\<rparr>"] by simp
qed

text \<open>A numeric identifier beyond 64 bits ranks below every other number.\<close>

lemma huge_number_ranks_lowest:
  "cmp_ident (lit ''18446744073709551616'') (lit ''1'') = Less"
  by (simp add: cmp_ident_def split_ident_def trim_end_matches_def parse_uint_def is_digit_def)

end
