(* ===== verification/Net.thy ===== *)
theory Net
  imports Strings
begin

text \<open>
  The network side of the updater (\<^verbatim>\<open>tobii-update/src/net.rs\<close>): which URLs are fetched, how curl
  and wget are run, how the redirects of wget are followed, and what is accepted as a download.
  Running a program, removing a file and asking for its size are parameters, a record of functions
  on some state of the machine; what this code makes of a child's output, its caps included, is
  modelled. The trace of the commands run is kept by a wrapper of the record, so that the safety
  properties speak about every process started.
\<close>

section \<open>Constants\<close>

definition ALLOWED_HOSTS :: "str list" where
  "ALLOWED_HOSTS = [lit ''api.github.com'', lit ''github.com'', lit ''objects.githubusercontent.com'',
     lit ''release-assets.githubusercontent.com'']"

definition CONNECT_TIMEOUT :: str where "CONNECT_TIMEOUT = lit ''10''"
definition MAX_TIME :: str where "MAX_TIME = lit ''600''"
definition MAX_REDIRECTS :: nat where "MAX_REDIRECTS = 5"
definition MAX_DOWNLOAD :: nat where "MAX_DOWNLOAD = 512 * 1024 * 1024"
definition READ_TIMEOUT :: str where "READ_TIMEOUT = lit ''60''"
definition CURL_TOO_LARGE :: int where "CURL_TOO_LARGE = 63"
definition MAX_HEADER_BYTES :: nat where "MAX_HEADER_BYTES = 256 * 1024"

section \<open>The machine\<close>

text \<open>Errors of the operating system, by the one kind that is told apart.\<close>

datatype io_error = IoNotFound | IoOther nat

datatype net_error =
    Untrusted str
  | NoFetcher
  | Failed str
  | TooLarge nat
  | TooManyRedirects
  | Io io_error

text \<open>A path is its bytes; it is displayed with ill-formed parts replaced.\<close>

type_synonym path = bytes

definition display :: "path \<Rightarrow> str" where "display p = utf8_lossy p"

text \<open>
  What a child that was started does: the bytes it writes to its output, and whether reading them
  ends in an error; the bytes on its error output; and how it ends, the exit code or a signal.
\<close>

record child =
  child_out :: bytes
  child_fault :: "io_error option"
  child_err :: bytes
  child_status :: "(io_error, int option) result"

record 'w net_ops =
  spawn :: "str \<Rightarrow> str list \<Rightarrow> 'w \<Rightarrow> (io_error, child) result \<times> 'w"
  remove_file :: "path \<Rightarrow> 'w \<Rightarrow> 'w"
  file_len :: "path \<Rightarrow> 'w \<Rightarrow> (io_error, nat) result"

text \<open>\<^verbatim>\<open>Read::take(n).read_to_end\<close>: the limit hides an error that comes later.\<close>

definition read_capped :: "nat \<Rightarrow> child \<Rightarrow> (io_error, bytes) result" where
  "read_capped n c =
     (if n \<le> length (child_out c) then Inr (take n (child_out c))
      else case child_fault c of Some e \<Rightarrow> Inl e | None \<Rightarrow> Inr (child_out c))"

record ran =
  ran_stdout :: bytes
  ran_stderr :: str
  ran_code :: "int option"
  ran_ok :: bool

definition collect :: "child \<Rightarrow> (io_error, ran) result" where
  "collect c =
     res_bind (read_capped (MAX_DOWNLOAD + 1) c) (\<lambda>stdout.
       let stderr = trim (utf8_lossy (take MAX_HEADER_BYTES (child_err c))) in
       res_bind (child_status c) (\<lambda>code.
         Inr \<lparr>ran_stdout = stdout, ran_stderr = stderr, ran_code = code, ran_ok = (code = Some 0)\<rparr>))"

definition run :: "'w net_ops \<Rightarrow> str \<Rightarrow> str list \<Rightarrow> 'w \<Rightarrow> (io_error, ran) result \<times> 'w" where
  "run ops prog args w =
     (case spawn ops prog args w of
        (Inl e, w1) \<Rightarrow> (Inl e, w1)
      | (Inr c, w1) \<Rightarrow> (collect c, w1))"

section \<open>URLs\<close>

definition is_trusted :: "str \<Rightarrow> bool" where
  "is_trusted url =
     (case strip_prefix (lit ''https://'') url of
        None \<Rightarrow> False
      | Some tail \<Rightarrow>
          let authority = hd (split_on (\<lambda>c. c \<in> {47, 63, 35}) tail) in
          if 64 \<in> set authority \<or> authority = [] then False
          else let host = hd (split_on (\<lambda>c. c = 58) authority) in
            list_ex (\<lambda>h. eq_ignore_ascii_case host h) ALLOWED_HOSTS)"

definition check :: "str \<Rightarrow> (net_error, unit) result" where
  "check url = (if is_trusted url then Inr () else Inl (Untrusted url))"

section \<open>Command lines\<close>

definition curl_args :: "str \<Rightarrow> path option \<Rightarrow> str list" where
  "curl_args url dest =
     [lit ''-sS'', lit ''--fail'', lit ''--location'', lit ''--proto'', lit ''=https'',
      lit ''--proto-redir'', lit ''=https'', lit ''--max-redirs'', decimal MAX_REDIRECTS,
      lit ''--connect-timeout'', CONNECT_TIMEOUT, lit ''--max-time'', MAX_TIME,
      lit ''--max-filesize'', decimal MAX_DOWNLOAD,
      lit ''-H'', lit ''Accept: application/vnd.github+json'', lit ''-H'', lit ''User-Agent: tobii-linux''] @
     (case dest of None \<Rightarrow> [] | Some p \<Rightarrow> [lit ''-o'', display p]) @
     [lit ''--'', url]"

definition wget_args :: "str \<Rightarrow> path option \<Rightarrow> str list" where
  "wget_args url dest =
     [lit ''-q'', lit ''-S'', lit ''--max-redirect=0'', lit ''--timeout'', CONNECT_TIMEOUT,
      lit ''--tries'', lit ''2'', lit ''--quota'', decimal MAX_DOWNLOAD,
      lit ''--read-timeout'', READ_TIMEOUT, lit ''--header'', lit ''Accept: application/vnd.github+json'',
      lit ''--user-agent'', lit ''tobii-linux'', lit ''-O''] @
     [case dest of Some p \<Rightarrow> display p | None \<Rightarrow> lit ''-''] @
     [lit ''--'', url]"

section \<open>The headers wget prints\<close>

definition strip_header :: "str \<Rightarrow> str \<Rightarrow> str option" where
  "strip_header line name =
     Option.bind (split_once 58 line) (\<lambda>(k, v).
       if eq_ignore_ascii_case (trim k) name then Some (trim v) else None)"

text \<open>The status code of a line, where it is a status line; the code may be missing.\<close>

definition http_status :: "str \<Rightarrow> nat option" where
  "http_status tail =
     (case drop 1 (split_whitespace tail) of [] \<Rightarrow> None | c # _ \<Rightarrow> parse_uint (2 ^ 16) c)"

definition redirect_line :: "str \<Rightarrow> bool \<times> str option \<Rightarrow> bool \<times> str option" where
  "redirect_line line st =
     (case st of (is_redirect, location) \<Rightarrow>
      case strip_prefix (lit ''HTTP/'') line of
        Some tail \<Rightarrow>
          ((case http_status tail of Some c \<Rightarrow> 300 \<le> c \<and> c \<le> 399 | None \<Rightarrow> False), None)
      | None \<Rightarrow>
          (case strip_header line (lit ''location'') of
             Some v \<Rightarrow> (is_redirect, Some v)
           | None \<Rightarrow> (is_redirect, location)))"

definition redirect_target :: "str \<Rightarrow> str option" where
  "redirect_target headers =
     (case fold (\<lambda>l. redirect_line (trim l)) (lines headers) (False, None) of
        (is_redirect, location) \<Rightarrow> if is_redirect then location else None)"

definition content_length :: "str \<Rightarrow> nat option" where
  "content_length headers =
     fold (\<lambda>l last'. case strip_header (trim l) (lit ''content-length'') of
         Some v \<Rightarrow> parse_uint (2 ^ 64) v
       | None \<Rightarrow> last') (lines headers) None"

section \<open>Fetching\<close>

definition int_decimal :: "int \<Rightarrow> str" where
  "int_decimal c = (if c < 0 then 45 # decimal (nat (- c)) else decimal (nat c))"

definition reason :: "str \<Rightarrow> ran \<Rightarrow> str" where
  "reason prog r =
     (if ran_stderr r = [] then
        (case ran_code r of
           Some c \<Rightarrow> prog @ lit '' exited with status '' @ int_decimal c
         | None \<Rightarrow> prog @ lit '' was killed by a signal'')
      else ran_stderr r)"

definition discard :: "'w net_ops \<Rightarrow> path option \<Rightarrow> 'w \<Rightarrow> 'w" where
  "discard ops dest w = (case dest of Some p \<Rightarrow> remove_file ops p w | None \<Rightarrow> w)"

definition finish :: "'w net_ops \<Rightarrow> path option \<Rightarrow> bytes \<Rightarrow> 'w \<Rightarrow> (net_error, bytes) result \<times> 'w" where
  "finish ops dest body w =
     (case dest of
        None \<Rightarrow> (if MAX_DOWNLOAD < length body then Inl (TooLarge (length body)) else Inr body, w)
      | Some p \<Rightarrow>
          (case file_len ops p w of
             Inl e \<Rightarrow> (Inl (Io e), w)
           | Inr n \<Rightarrow>
               if MAX_DOWNLOAD < n then (Inl (TooLarge n), remove_file ops p w) else (Inr [], w)))"

text \<open>One reply of wget that is no redirect.\<close>

definition wget_reply :: "'w net_ops \<Rightarrow> path option \<Rightarrow> ran \<Rightarrow> 'w \<Rightarrow> (net_error, bytes) result \<times> 'w" where
  "wget_reply ops dest r w =
     (if \<not> ran_ok r then (Inl (Failed (reason (lit ''wget'') r)), discard ops dest w)
      else case content_length (ran_stderr r) of
        Some n \<Rightarrow>
          if MAX_DOWNLOAD < n then (Inl (TooLarge n), discard ops dest w)
          else finish ops dest (ran_stdout r) w
      | None \<Rightarrow> finish ops dest (ran_stdout r) w)"

fun wget_loop :: "'w net_ops \<Rightarrow> path option \<Rightarrow> nat \<Rightarrow> str \<Rightarrow> 'w \<Rightarrow> (net_error, bytes) result \<times> 'w" where
  "wget_loop ops dest 0 current w = (Inl TooManyRedirects, w)"
| "wget_loop ops dest (Suc n) current w =
     (case check current of
        Inl e \<Rightarrow> (Inl e, w)
      | Inr _ \<Rightarrow>
          (case run ops (lit ''wget'') (wget_args current dest) w of
             (Inl e, w1) \<Rightarrow> (Inl (if e = IoNotFound then NoFetcher else Io e), w1)
           | (Inr r, w1) \<Rightarrow>
               (case redirect_target (ran_stderr r) of
                  Some next_url \<Rightarrow> wget_loop ops dest n next_url (discard ops dest w1)
                | None \<Rightarrow> wget_reply ops dest r w1)))"

definition wget_fetch :: "'w net_ops \<Rightarrow> str \<Rightarrow> path option \<Rightarrow> 'w \<Rightarrow> (net_error, bytes) result \<times> 'w" where
  "wget_fetch ops url dest w = wget_loop ops dest (MAX_REDIRECTS + 1) url w"

definition curl_reply :: "'w net_ops \<Rightarrow> path option \<Rightarrow> ran \<Rightarrow> 'w \<Rightarrow> (net_error, bytes) result \<times> 'w" where
  "curl_reply ops dest r w =
     (if ran_ok r then finish ops dest (ran_stdout r) w
      else (Inl (if ran_code r = Some CURL_TOO_LARGE then TooLarge MAX_DOWNLOAD
                 else Failed (reason (lit ''curl'') r)), discard ops dest w))"

definition fetch :: "'w net_ops \<Rightarrow> str \<Rightarrow> path option \<Rightarrow> 'w \<Rightarrow> (net_error, bytes) result \<times> 'w" where
  "fetch ops url dest w =
     (case check url of
        Inl e \<Rightarrow> (Inl e, w)
      | Inr _ \<Rightarrow>
          (case run ops (lit ''curl'') (curl_args url dest) w of
             (Inl e, w1) \<Rightarrow> if e = IoNotFound then wget_fetch ops url dest w1 else (Inl (Io e), w1)
           | (Inr r, w1) \<Rightarrow> curl_reply ops dest r w1))"

definition get :: "'w net_ops \<Rightarrow> str \<Rightarrow> 'w \<Rightarrow> (net_error, bytes) result \<times> 'w" where
  "get ops url w = fetch ops url None w"

definition download :: "'w net_ops \<Rightarrow> str \<Rightarrow> path \<Rightarrow> 'w \<Rightarrow> (net_error, unit) result \<times> 'w" where
  "download ops url dest w =
     (case fetch ops url (Some dest) w of
        (Inl e, w1) \<Rightarrow> (Inl e, w1)
      | (Inr _, w1) \<Rightarrow> (Inr (), w1))"


section \<open>Which URLs are fetched\<close>

text \<open>
  The shape of a URL that may be fetched: https, a host of the list in any case, perhaps a port, which
  holds no user information, and then the end or a path, a query or a fragment.
\<close>

definition trusted_url :: "str \<Rightarrow> bool" where
  "trusted_url u \<longleftrightarrow> (\<exists>host port tail. u = lit ''https://'' @ host @ port @ tail \<and>
     (\<exists>h \<in> set ALLOWED_HOSTS. eq_ignore_ascii_case host h) \<and>
     set port \<inter> {64, 47, 63, 35} = {} \<and> (port = [] \<or> hd port = 58) \<and>
     (tail = [] \<or> hd tail \<in> {47, 63, 35}))"

lemma hd_split_on: "hd (split_on P s) = takeWhile (\<lambda>c. \<not> P c) s"
  by (induction s) (auto split: list.splits)

lemma takeWhile_delim: "list_all (\<lambda>c. \<not> P c) a \<Longrightarrow> b = [] \<or> P (hd b) \<Longrightarrow> takeWhile (\<lambda>c. \<not> P c) (a @ b) = a"
  by (cases b) (auto simp: list_all_iff takeWhile_append)

lemma host_chars: "h \<in> set ALLOWED_HOSTS \<Longrightarrow> eq_ignore_ascii_case host h \<Longrightarrow>
    host \<noteq> [] \<and> list_all (\<lambda>c. c \<notin> {64, 47, 63, 35, 58}) host"
proof -
  assume h: "h \<in> set ALLOWED_HOSTS" "eq_ignore_ascii_case host h"
  have "h \<noteq> [] \<and> list_all (\<lambda>c. c \<notin> {64, 47, 63, 35, 58}) (List.map ascii_lower h)"
    using h(1) by (auto simp: ALLOWED_HOSTS_def ascii_lower_def)
  then have "host \<noteq> [] \<and> list_all (\<lambda>c. c \<notin> {64, 47, 63, 35, 58}) (List.map ascii_lower host)"
    using h(2) by (auto simp: eq_ignore_ascii_case_def)
  then show ?thesis by (fastforce simp: list_all_iff ascii_lower_def split: if_splits)
qed

lemma is_trusted_url: "is_trusted u \<longleftrightarrow> trusted_url u"
proof
  assume "is_trusted u"
  then obtain rst where u: "u = lit ''https://'' @ rst" and
    t: "let a = takeWhile (\<lambda>c. c \<notin> {47, 63, 35}) rst in 64 \<notin> set a \<and>
      list_ex (\<lambda>h. eq_ignore_ascii_case (takeWhile (\<lambda>c. c \<noteq> 58) a) h) ALLOWED_HOSTS"
    by (auto simp: is_trusted_def hd_split_on Let_def strip_prefix_iff simp del: lit_simps
        split: option.splits if_splits)
  define a where "a = takeWhile (\<lambda>c. c \<notin> {47, 63, 35}) rst"
  define tail where "tail = dropWhile (\<lambda>c. c \<notin> {47, 63, 35 :: nat}) rst"
  define host where "host = takeWhile (\<lambda>c. c \<noteq> 58) a"
  define port where "port = dropWhile (\<lambda>c. c \<noteq> 58) a"
  have "a = host @ port" "rst = a @ tail"
    by (simp_all only: host_def port_def a_def tail_def takeWhile_dropWhile_id)
  then have r: "rst = host @ port @ tail" by simp
  have "port = [] \<or> hd port = 58" using hd_dropWhile [of "\<lambda>c. c \<noteq> 58" a] by (auto simp: port_def)
  moreover have "tail = [] \<or> hd tail \<in> {47, 63, 35}"
    using hd_dropWhile [of "\<lambda>c. c \<notin> {47, 63, 35}" rst] unfolding tail_def by blast
  moreover have "set port \<inter> {64, 47, 63, 35} = {}"
  proof -
    have "set port \<subseteq> set a" unfolding port_def by (rule set_dropWhileD [THEN subsetI])
    moreover have "c \<notin> {47, 63, 35}" if "c \<in> set a" for c
      using that set_takeWhileD unfolding a_def by fast
    moreover have "64 \<notin> set a" using t by (simp add: a_def Let_def)
    ultimately show ?thesis by blast
  qed
  moreover have "\<exists>h \<in> set ALLOWED_HOSTS. eq_ignore_ascii_case host h"
    using t unfolding Let_def a_def [symmetric] host_def [symmetric] by (simp add: list_ex_iff)
  ultimately show "trusted_url u" unfolding trusted_url_def using u r by blast
next
  assume "trusted_url u"
  then obtain host port tail h where u: "u = lit ''https://'' @ host @ port @ tail"
    and h: "h \<in> set ALLOWED_HOSTS" "eq_ignore_ascii_case host h"
    and p: "set port \<inter> {64, 47, 63, 35} = {}" "port = [] \<or> hd port = 58"
    and t: "tail = [] \<or> hd tail \<in> {47, 63, 35}"
    unfolding trusted_url_def by (elim exE conjE bexE) (rule that)
  note c = host_chars [OF h]
  have "list_all (\<lambda>c. \<not> c \<in> {47, 63, 35}) (host @ port)" using c p(1) unfolding list_all_iff set_append by blast
  from takeWhile_delim [OF this, of tail] t
  have a: "takeWhile (\<lambda>c. \<not> c \<in> {47, 63, 35}) (host @ port @ tail) = host @ port" by simp
  have "list_all (\<lambda>c. \<not> c = 58) host" using c unfolding list_all_iff by blast
  from takeWhile_delim [OF this, of port] p(2)
  have b: "takeWhile (\<lambda>c. \<not> c = 58) (host @ port) = host" by simp
  have n: "64 \<notin> set (host @ port)" "host @ port \<noteq> []"
    using c p(1) unfolding list_all_iff set_append by blast+
  show "is_trusted u"
    unfolding is_trusted_def u strip_prefix_append option.case hd_split_on a b Let_def
    using n h by (auto simp: list_ex_iff)
qed

lemma check_url [simp]: "check u = (if trusted_url u then Inr () else Inl (Untrusted u))"
  by (simp add: check_def is_trusted_url)

section \<open>The trace of the commands\<close>

type_synonym command = "str \<times> str list"

definition logged :: "'w net_ops \<Rightarrow> ('w \<times> command list) net_ops" where
  "logged ops = \<lparr>
     spawn = (\<lambda>prog args (w, l). case spawn ops prog args w of (r, w1) \<Rightarrow> (r, w1, l @ [(prog, args)])),
     remove_file = (\<lambda>p (w, l). (remove_file ops p w, l)),
     file_len = (\<lambda>p (w, l). file_len ops p w)\<rparr>"

lemma run_logged: "run (logged ops) prog args (w, l) =
    (case run ops prog args w of (r, w1) \<Rightarrow> (r, w1, l @ [(prog, args)]))"
  by (auto simp: run_def logged_def split: prod.splits sum.splits)

lemma discard_logged: "discard (logged ops) dest (w, l) = (discard ops dest w, l)"
  by (auto simp: discard_def logged_def split: option.splits)

lemma finish_logged: "finish (logged ops) dest b (w, l) = (case finish ops dest b w of (r, w1) \<Rightarrow> (r, w1, l))"
  by (auto simp: finish_def logged_def split: option.splits sum.splits)

lemma wget_reply_logged:
  "wget_reply (logged ops) dest r (w, l) = (case wget_reply ops dest r w of (x, w1) \<Rightarrow> (x, w1, l))"
  by (auto simp: wget_reply_def finish_logged discard_logged split: option.splits)

lemma curl_reply_logged:
  "curl_reply (logged ops) dest r (w, l) = (case curl_reply ops dest r w of (x, w1) \<Rightarrow> (x, w1, l))"
  by (auto simp: curl_reply_def finish_logged discard_logged)

lemmas logged_simps = run_logged discard_logged finish_logged wget_reply_logged curl_reply_logged

text \<open>A command line that fetches one trusted URL, by the given program.\<close>

definition wget_of :: "path option \<Rightarrow> command \<Rightarrow> bool" where
  "wget_of dest c \<longleftrightarrow> (\<exists>u. trusted_url u \<and> c = (lit ''wget'', wget_args u dest))"

lemma wget_loop_commands:
  "wget_loop (logged ops) dest n url (w, l) = (r, w', cmds) \<Longrightarrow>
    wget_loop ops dest n url w = (r, w') \<and> (\<exists>ws. cmds = l @ ws \<and> list_all (wget_of dest) ws \<and> length ws \<le> n)"
proof (induction n arbitrary: url w l)
  case (Suc n)
  show ?case
  proof (cases "trusted_url url")
    case False
    with Suc.prems show ?thesis by simp
  next
    case Inr: True
    then have t: "wget_of dest (lit ''wget'', wget_args url dest)" by (auto simp: wget_of_def)
    obtain q w1 where q: "run ops (lit ''wget'') (wget_args url dest) w = (q, w1)" by fastforce
    show ?thesis
    proof (cases "\<exists>y next_url. q = Inr y \<and> redirect_target (ran_stderr y) = Some next_url")
      case True
      then obtain y next_url where y: "q = Inr y" "redirect_target (ran_stderr y) = Some next_url" by blast
      with Suc.prems Inr q have
        "wget_loop (logged ops) dest n next_url (discard ops dest w1, l @ [(lit ''wget'', wget_args url dest)]) =
          (r, w', cmds)" by (simp add: logged_simps del: lit_simps)
      from Suc.IH [OF this] Inr q y t show ?thesis by (auto simp del: lit_simps)
    next
      case False
      with Suc.prems Inr q t show ?thesis
        by (auto simp: logged_simps simp del: lit_simps split: sum.splits option.splits prod.splits)
    qed
  qed
qed simp

section \<open>What is accepted\<close>

text \<open>A child that was run to a successful end and whose whole output is the given one.\<close>

definition completed :: "'w net_ops \<Rightarrow> bytes \<Rightarrow> 'w \<Rightarrow> bool" where
  "completed ops b w' \<longleftrightarrow> (\<exists>prog args w c. spawn ops prog args w = (Inr c, w') \<and> child_out c = b \<and>
     child_fault c = None \<and> child_status c = Inr (Some 0))"

text \<open>What a successful fetch hands over, in memory and in a file.\<close>

definition accepted :: "'w net_ops \<Rightarrow> path option \<Rightarrow> bytes \<Rightarrow> 'w \<Rightarrow> bool" where
  "accepted ops dest body w =
     (case dest of
        None \<Rightarrow> length body \<le> MAX_DOWNLOAD \<and> completed ops body w
      | Some p \<Rightarrow> body = [] \<and> (\<exists>n \<le> MAX_DOWNLOAD. file_len ops p w = Inr n))"

lemma run_completed:
  assumes "run ops prog args w = (Inr r, w1)" and "ran_ok r" and "length (ran_stdout r) \<le> MAX_DOWNLOAD"
  shows "completed ops (ran_stdout r) w1"
  using assms unfolding completed_def
  by (auto simp: run_def collect_def read_capped_def res_bind_def Let_def
      split: prod.splits sum.splits if_splits option.splits) blast

lemma finish_accepted:
  assumes "finish ops dest b w = (Inr body, w')" and "length b \<le> MAX_DOWNLOAD \<Longrightarrow> completed ops b w"
  shows "accepted ops dest body w'"
  using assms by (auto simp: finish_def accepted_def not_less split: option.splits sum.splits if_splits)

lemma wget_loop_accepted:
  "wget_loop ops dest n url w = (Inr body, w') \<Longrightarrow> accepted ops dest body w'"
proof (induction n arbitrary: url w)
  case (Suc n)
  from Suc.prems obtain r w1 where r: "run ops (lit ''wget'') (wget_args url dest) w = (Inr r, w1)"
    by (auto simp del: lit_simps split: sum.splits prod.splits)
  show ?case
  proof (cases "redirect_target (ran_stderr r)")
    case (Some u)
    with Suc r show ?thesis by (auto simp del: lit_simps split: sum.splits)
  next
    case None
    with Suc.prems r have "wget_reply ops dest r w1 = (Inr body, w')"
      by (auto simp del: lit_simps split: sum.splits)
    then have "ran_ok r" "finish ops dest (ran_stdout r) w1 = (Inr body, w')"
      by (auto simp: wget_reply_def split: if_splits option.splits)
    with run_completed [OF r] show ?thesis by (blast intro: finish_accepted)
  qed
qed simp

section \<open>What a failure leaves behind\<close>

text \<open>Failures of the request or the reply, as opposed to those of this machine.\<close>

definition reply_failure :: "net_error \<Rightarrow> bool" where
  "reply_failure e = (case e of Failed _ \<Rightarrow> True | TooLarge _ \<Rightarrow> True | TooManyRedirects \<Rightarrow> True
     | Untrusted _ \<Rightarrow> True | _ \<Rightarrow> False)"

definition removed :: "'w net_ops \<Rightarrow> path \<Rightarrow> 'w \<Rightarrow> bool" where
  "removed ops p w' \<longleftrightarrow> (\<exists>w. w' = remove_file ops p w)"

lemma reply_failure_simps [simp]:
  "reply_failure (Failed s)" "reply_failure (TooLarge n)" "reply_failure TooManyRedirects"
  "reply_failure (Untrusted u)" "\<not> reply_failure NoFetcher" "\<not> reply_failure (Io x)"
  by (simp_all add: reply_failure_def)

lemma finish_removes: "finish ops (Some p) b w = (Inl e, w') \<Longrightarrow> reply_failure e \<Longrightarrow> removed ops p w'"
  by (auto simp: finish_def removed_def split: sum.splits if_splits)

lemma wget_reply_removes: "wget_reply ops (Some p) r w = (Inl e, w') \<Longrightarrow> reply_failure e \<Longrightarrow> removed ops p w'"
  by (auto simp: wget_reply_def discard_def removed_def finish_def split: sum.splits if_splits option.splits)

lemma wget_loop_removes:
  "wget_loop ops (Some p) n url w = (Inl e, w') \<Longrightarrow> reply_failure e \<Longrightarrow>
    removed ops p w' \<or> w' = w \<and> (n = 0 \<or> \<not> trusted_url url)"
proof (induction n arbitrary: url w)
  case (Suc n)
  show ?case
  proof (cases "trusted_url url")
    case Inr: True
    obtain q w1 where q: "run ops (lit ''wget'') (wget_args url (Some p)) w = (q, w1)" by fastforce
    have g: "removed ops p (discard ops (Some p) w1)" by (auto simp: discard_def removed_def)
    show ?thesis
    proof (cases "\<exists>y next_url. q = Inr y \<and> redirect_target (ran_stderr y) = Some next_url")
      case True
      then obtain y next_url where y: "q = Inr y" "redirect_target (ran_stderr y) = Some next_url" by blast
      with Suc.prems Inr q have "wget_loop ops (Some p) n next_url (discard ops (Some p) w1) = (Inl e, w')"
        by (simp del: lit_simps)
      from Suc.IH [OF this] g Suc.prems show ?thesis by auto
    next
      case False
      with Suc.prems Inr q show ?thesis
        by (auto simp del: lit_simps split: sum.splits option.splits if_splits dest: wget_reply_removes)
    qed
  qed (use Suc.prems in auto)
qed simp

section \<open>Redirects\<close>

definition status_line :: "str \<Rightarrow> bool" where
  "status_line l \<longleftrightarrow> starts_with (lit ''HTTP/'') l"

definition redirects :: "str \<Rightarrow> bool" where
  "redirects l \<longleftrightarrow> (\<exists>tail c. l = lit ''HTTP/'' @ tail \<and> http_status tail = Some c \<and> 300 \<le> c \<and> c \<le> 399)"

definition location_of :: "str \<Rightarrow> str option" where
  "location_of l = (if status_line l then None else strip_header l (lit ''location''))"

lemma redirect_line_cases:
  "redirect_line l (b, v) =
     (if status_line l then (redirects l, None)
      else case location_of l of None \<Rightarrow> (b, v) | Some u \<Rightarrow> (b, Some u))"
  by (auto simp: redirect_line_def status_line_def starts_with_def redirects_def strip_prefix_iff location_of_def
      simp del: lit_simps split: option.splits)

text \<open>The last reply of a dump, its status line first, and the last location in it.\<close>

definition last_reply :: "str list \<Rightarrow> str \<Rightarrow> str list \<Rightarrow> bool" where
  "last_reply ls st hs \<longleftrightarrow> (\<exists>before. ls = before @ st # hs) \<and> status_line st \<and> list_all (\<lambda>l. \<not> status_line l) hs"

definition last_location :: "str list \<Rightarrow> str \<Rightarrow> bool" where
  "last_location hs v \<longleftrightarrow> (\<exists>a l b. hs = a @ l # b \<and> location_of l = Some v \<and>
     list_all (\<lambda>l. location_of l = None) b)"

lemma last_reply_snoc: "last_reply (ls @ [l]) st hs \<longleftrightarrow>
    (if status_line l then st = l \<and> hs = [] else \<exists>hs'. hs = hs' @ [l] \<and> last_reply ls st hs')"
  by (cases hs rule: rev_cases) (auto simp: last_reply_def)

lemma last_location_snoc: "last_location (hs @ [l]) v \<longleftrightarrow>
    (case location_of l of Some u \<Rightarrow> v = u | None \<Rightarrow> last_location hs v)"
proof
  assume "last_location (hs @ [l]) v"
  then obtain a x b where "hs @ [l] = a @ x # b" "location_of x = Some v"
    "list_all (\<lambda>l. location_of l = None) b" unfolding last_location_def by blast
  then show "case location_of l of Some u \<Rightarrow> v = u | None \<Rightarrow> last_location hs v"
  proof (cases b rule: rev_cases)
    case (snoc ys y)
    then have "hs = a @ x # ys" "y = l" "list_all (\<lambda>l. location_of l = None) ys" "location_of y = None"
      using \<open>hs @ [l] = a @ x # b\<close> \<open>list_all (\<lambda>l. location_of l = None) b\<close> by auto
    with \<open>location_of x = Some v\<close> show ?thesis by (auto simp: last_location_def)
  qed (use \<open>hs @ [l] = a @ x # b\<close> \<open>location_of x = Some v\<close> in simp)
next
  assume r: "case location_of l of Some u \<Rightarrow> v = u | None \<Rightarrow> last_location hs v"
  show "last_location (hs @ [l]) v"
  proof (cases "location_of l")
    case (Some u)
    with r show ?thesis unfolding last_location_def
      by (intro exI [of _ hs] exI [of _ l] exI [of _ "[]"]) simp
  next
    case None
    with r obtain a x b where "hs = a @ x # b" "location_of x = Some v"
      "list_all (\<lambda>l. location_of l = None) b" unfolding last_location_def by auto
    with None show ?thesis unfolding last_location_def
      by (intro exI [of _ a] exI [of _ x] exI [of _ "b @ [l]"]) simp
  qed
qed

lemma last_location_nil [simp]: "\<not> last_location [] v" by (simp add: last_location_def)
lemma last_reply_nil [simp]: "\<not> last_reply [] st hs" by (simp add: last_reply_def)

lemma last_reply_unique: "last_reply ls st hs \<Longrightarrow> last_reply ls st' hs' \<Longrightarrow> st = st' \<and> hs = hs'"
  by (induction ls arbitrary: hs hs' rule: rev_induct) (auto simp: last_reply_snoc split: if_splits)

lemma redirect_fold:
  "fold redirect_line ls (False, None) = (b, v) \<Longrightarrow>
    (\<forall>st hs. \<not> last_reply ls st hs) \<and> \<not> b \<or>
    (\<exists>st hs. last_reply ls st hs \<and> b = redirects st \<and> (\<forall>u. v = Some u \<longleftrightarrow> last_location hs u))"
proof (induction ls arbitrary: b v rule: rev_induct)
  case (snoc l ls)
  obtain b' v' where f: "fold redirect_line ls (False, None) = (b', v')" by fastforce
  with snoc.prems have s: "(b, v) = redirect_line l (b', v')" by simp
  show ?case
  proof (cases "status_line l")
    case True
    with s show ?thesis by (auto simp: redirect_line_cases last_reply_snoc)
  next
    case False
    from snoc.IH [OF f] show ?thesis
    proof (elim disjE conjE exE)
      assume "\<forall>st hs. \<not> last_reply ls st hs" "\<not> b'"
      with s False show ?thesis
        by (auto simp: redirect_line_cases last_reply_snoc split: option.splits)
    next
      fix st hs
      assume "last_reply ls st hs" "b' = redirects st" "\<forall>u. v' = Some u \<longleftrightarrow> last_location hs u"
      with s False show ?thesis
        by (intro disjI2 exI [of _ st] exI [of _ "hs @ [l]"])
          (auto simp: redirect_line_cases last_reply_snoc last_location_snoc split: option.splits)
    qed
  qed
qed simp

section \<open>Properties\<close>

text \<open>
  \<open>is_trusted\<close> accepts exactly the URLs of the shape \<open>trusted_url\<close>: https, a host of the list
  whatever its case, at most a port behind it, no user information anywhere in front of the path.
\<close>

theorem is_trusted_iff: "is_trusted u \<longleftrightarrow> trusted_url u"
  by (rule is_trusted_url)

text \<open>
  C23. Every process a fetch starts fetches a trusted URL. The trace is empty for a URL that is not
  trusted; else it starts with curl on that URL, and everything after it is wget, at most six times,
  only when curl is not installed; each wget fetches one trusted URL, which stands alone after the
  two dashes. Recording the trace does not change what the fetch does.
\<close>

theorem fetch_commands:
  assumes "fetch (logged ops) url dest (w, []) = (r, w', cmds)"
  shows "fetch ops url dest w = (r, w') \<and>
    (if trusted_url url
     then \<exists>ws. cmds = (lit ''curl'', curl_args url dest) # ws \<and> list_all (wget_of dest) ws \<and>
       length ws \<le> MAX_REDIRECTS + 1 \<and>
       (ws = [] \<or> fst (run ops (lit ''curl'') (curl_args url dest) w) = Inl IoNotFound)
     else cmds = [] \<and> r = Inl (Untrusted url))"
proof (cases "trusted_url url")
  case False
  with assms show ?thesis by (simp add: fetch_def)
next
  case True
  let ?c = "(lit ''curl'', curl_args url dest)"
  obtain q w1 where q: "run ops (lit ''curl'') (curl_args url dest) w = (q, w1)" by fastforce
  show ?thesis
  proof (cases "q = Inl IoNotFound")
    case nf: True
    with assms True q have "wget_loop (logged ops) dest (MAX_REDIRECTS + 1) url (w1, [?c]) = (r, w', cmds)"
      by (simp add: fetch_def wget_fetch_def logged_simps del: lit_simps wget_loop.simps)
    from wget_loop_commands [OF this] obtain ws where
      "wget_loop ops dest (MAX_REDIRECTS + 1) url w1 = (r, w')" "cmds = ?c # ws"
      "list_all (wget_of dest) ws" "length ws \<le> MAX_REDIRECTS + 1" by auto
    then show ?thesis using True q nf
      by (simp add: fetch_def wget_fetch_def del: lit_simps wget_loop.simps)
  next
    case False
    with assms True q show ?thesis
      by (auto simp: fetch_def logged_simps simp del: lit_simps split: sum.splits prod.splits)
  qed
qed

lemma fetch_ok:
  assumes "fetch ops url dest w = (Inr body, w')"
  shows "trusted_url url \<and> accepted ops dest body w'"
proof -
  have t: "trusted_url url" using assms by (simp add: fetch_def split: if_splits)
  obtain q w1 where q: "run ops (lit ''curl'') (curl_args url dest) w = (q, w1)" by fastforce
  show ?thesis
  proof (cases q)
    case (Inl e)
    with assms t q have "wget_loop ops dest (MAX_REDIRECTS + 1) url w1 = (Inr body, w')"
      by (auto simp: fetch_def wget_fetch_def simp del: lit_simps wget_loop.simps split: if_splits)
    with t show ?thesis by (blast intro: wget_loop_accepted)
  next
    case (Inr x)
    with assms t q have "ran_ok x" "finish ops dest (ran_stdout x) w1 = (Inr body, w')"
      by (auto simp: fetch_def curl_reply_def simp del: lit_simps split: if_splits)
    from this(2) run_completed [OF q [unfolded Inr] this(1)] have "accepted ops dest body w'"
      by (rule finish_accepted)
    with t show ?thesis by blast
  qed
qed

text \<open>
  What a fetch accepts is complete and within the limit: in memory it is the whole output of
  a child that ended with exit code 0, at most 512 MiB; in a file it is at most that size.
\<close>

theorem fetch_accepted:
  assumes "fetch ops url dest w = (Inr body, w')"
  shows "trusted_url url \<and> accepted ops dest body w'"
  using assms by (rule fetch_ok)

text \<open>
  A download that fails because of the reply leaves no file: whenever the error is not one of
  this machine, the destination was removed last, or nothing was run at all.
\<close>

theorem failed_download_removed:
  assumes "download ops url p w = (Inl e, w')" and "reply_failure e"
  shows "removed ops p w' \<or> w' = w \<and> e = Untrusted url"
proof (cases "trusted_url url")
  case False
  with assms show ?thesis by (simp add: download_def fetch_def)
next
  case True
  obtain q w1 where q: "run ops (lit ''curl'') (curl_args url (Some p)) w = (q, w1)" by fastforce
  from assms(1) have f: "fetch ops url (Some p) w = (Inl e, w')"
    by (auto simp: download_def split: prod.splits sum.splits)
  show ?thesis
  proof (cases q)
    case (Inl x)
    with f assms(2) True q have "wget_loop ops (Some p) (MAX_REDIRECTS + 1) url w1 = (Inl e, w')"
      by (auto simp: fetch_def wget_fetch_def simp del: lit_simps wget_loop.simps split: if_splits)
    from wget_loop_removes [OF this assms(2)] True show ?thesis by simp
  next
    case (Inr x)
    with f True q have "curl_reply ops (Some p) x w1 = (Inl e, w')" by (simp add: fetch_def del: lit_simps)
    then show ?thesis using assms(2)
      by (auto simp: curl_reply_def discard_def removed_def dest: finish_removes [unfolded removed_def]
          simp del: lit_simps split: if_splits)
  qed
qed

text \<open>
  Which redirect is followed: exactly the last location of the last reply in the dump, when that
  reply has a status from 300 to 399. Locations of earlier replies, or of other statuses, are not.
\<close>

theorem redirect_target_iff:
  "redirect_target h = Some u \<longleftrightarrow>
    (\<exists>st hs. last_reply (List.map trim (lines h)) st hs \<and> redirects st \<and> last_location hs u)"
proof -
  let ?ls = "List.map trim (lines h)"
  obtain b v where f: "fold redirect_line ?ls (False, None) = (b, v)" by fastforce
  then have "redirect_target h = (if b then v else None)"
    by (simp add: redirect_target_def fold_map comp_def)
  with redirect_fold [OF f] last_reply_unique [of ?ls] show ?thesis by auto metis+
qed

section \<open>Witnesses\<close>

text \<open>A machine with curl, whose state counts the files removed, and one with wget alone.\<close>

definition curl_machine :: "bytes \<Rightarrow> int \<Rightarrow> nat net_ops" where
  "curl_machine body code = \<lparr>
     spawn = (\<lambda>prog args n. (Inr \<lparr>child_out = body, child_fault = None, child_err = [],
        child_status = Inr (Some code)\<rparr>, n)),
     remove_file = (\<lambda>p n. n + 1),
     file_len = (\<lambda>p n. Inl IoNotFound)\<rparr>"

definition wget_machine :: "nat net_ops" where
  "wget_machine = \<lparr>
     spawn = (\<lambda>prog args n. if prog = lit ''wget'' then
          (Inr \<lparr>child_out = [7], child_fault = None, child_err = [], child_status = Inr (Some 0)\<rparr>, n)
        else (Inl IoNotFound, n)),
     remove_file = (\<lambda>p n. n + 1),
     file_len = (\<lambda>p n. Inl IoNotFound)\<rparr>"

definition sample_url :: str where "sample_url = lit ''https://github.com/x''"

lemma sample_trusted: "trusted_url sample_url"
  unfolding trusted_url_def
  by (rule exI [of _ "lit ''github.com''"], rule exI [of _ "[]"], rule exI [of _ "lit ''/x''"])
    (simp add: sample_url_def ALLOWED_HOSTS_def eq_ignore_ascii_case_def ascii_lower_def)

lemma wget_machine_run:
  "run wget_machine (lit ''curl'') a n = (Inl IoNotFound, n)"
  "run wget_machine (lit ''wget'') a n =
     (Inr \<lparr>ran_stdout = [7], ran_stderr = [], ran_code = Some 0, ran_ok = True\<rparr>, n)"
  by (simp_all add: run_def wget_machine_def collect_def read_capped_def res_bind_def MAX_DOWNLOAD_def
      trim_def trim_start_def trim_end_matches_def)

lemma no_headers: "redirect_target [] = None" "content_length [] = None"
  by (simp_all add: redirect_target_def content_length_def lines_def)

theorem fetch_commands_witness:
  "fetch wget_machine sample_url None 0 = (Inr [7], 0) \<and>
    length [(lit ''wget'', wget_args sample_url None)] \<le> MAX_REDIRECTS + 1"
proof -
  have "fetch (logged wget_machine) sample_url None (0, []) =
      (Inr [7], 0, [(lit ''curl'', curl_args sample_url None), (lit ''wget'', wget_args sample_url None)])"
    by (simp add: fetch_def wget_fetch_def sample_trusted logged_simps wget_machine_run no_headers
        wget_reply_def finish_def MAX_DOWNLOAD_def del: lit_simps)
  from fetch_commands [OF this] show ?thesis by (auto simp: sample_trusted simp del: lit_simps)
qed

lemma curl_machine_run: "length body \<le> 5 \<Longrightarrow> run (curl_machine body code) prog a n =
     (Inr \<lparr>ran_stdout = body, ran_stderr = [], ran_code = Some code, ran_ok = (code = 0)\<rparr>, n)"
  by (simp add: run_def curl_machine_def collect_def read_capped_def res_bind_def MAX_DOWNLOAD_def
      trim_def trim_start_def trim_end_matches_def)

theorem fetch_accepted_witness: "accepted (curl_machine [1, 2] 0) None [1, 2] 0"
proof -
  have "fetch (curl_machine [1, 2] 0) sample_url None 0 = (Inr [1, 2], 0)"
    by (simp add: fetch_def sample_trusted curl_machine_run curl_reply_def finish_def MAX_DOWNLOAD_def
        del: lit_simps)
  from fetch_accepted [OF this] show ?thesis by blast
qed

theorem failed_download_removed_witness: "removed (curl_machine [] 22) [47] 1"
proof -
  have "download (curl_machine [] 22) sample_url [47] 0 =
      (Inl (Failed (lit ''curl exited with status '' @ int_decimal 22)), 1)"
    by (simp add: download_def fetch_def sample_trusted curl_machine_run curl_reply_def discard_def
        CURL_TOO_LARGE_def reason_def del: lit_simps) (simp add: curl_machine_def)
  from failed_download_removed [OF this] show ?thesis by (simp del: lit_simps)
qed

end
