(* ===== verification/Release.thy ===== *)
theory Release
  imports JsonGrammar Version Net
begin

text \<open>
  Releases (\<^verbatim>\<open>tobii-update/src/release.rs\<close>): what is read from the listing of the repository, which
  release is the newest, which files are offered to whom, and whether a release is an update; and the
  check for an update as a whole, from the request to the answer.
\<close>

section \<open>Releases and their files\<close>

record asset =
  asset_name :: str
  asset_url :: str

record release =
  tag :: str
  rel_version :: version
  rel_notes :: str
  assets :: "asset list"
  html_url :: str

definition archive_for :: "release \<Rightarrow> str \<Rightarrow> asset option" where
  "archive_for r target =
     find (\<lambda>a. contains target (asset_name a) \<and> ends_with (lit ''.tar.gz'') (asset_name a)) (assets r)"

definition checksums :: "release \<Rightarrow> asset option" where
  "checksums r = find (\<lambda>a. asset_name a = lit ''SHA256SUMS'') (assets r)"

definition PKGBUILD :: str where "PKGBUILD = lit ''PKGBUILD''"
definition PKGBUILD_INSTALL :: str where "PKGBUILD_INSTALL = lit ''tobii-linux.install''"
definition PACMAN_PREFIX :: str where "PACMAN_PREFIX = lit ''tobii-linux-bin-''"
definition PACMAN_DEBUG_PREFIX :: str where "PACMAN_DEBUG_PREFIX = lit ''tobii-linux-bin-debug-''"

datatype channel = Deb | Rpm | Pacman | Pkgbuild | Archive

record offer =
  off_channel :: channel
  off_files :: "asset list"

definition deb_arch :: "str \<Rightarrow> str" where
  "deb_arch arch =
     (if arch = lit ''x86_64'' then lit ''amd64''
      else if arch = lit ''aarch64'' then lit ''arm64''
      else arch)"

definition pacman_package :: "release \<Rightarrow> str \<Rightarrow> asset option" where
  "pacman_package r arch =
     (if arch = [] then None
      else let ending = lit ''-'' @ arch @ lit ''.pkg.tar.zst'' in
        find (\<lambda>a. starts_with PACMAN_PREFIX (asset_name a) \<and>
          \<not> starts_with PACMAN_DEBUG_PREFIX (asset_name a) \<and> ends_with ending (asset_name a)) (assets r))"

definition pkgbuild_pair :: "release \<Rightarrow> asset list" where
  "pkgbuild_pair r =
     (let named = (\<lambda>n. find (\<lambda>a. asset_name a = n) (assets r)) in
      case (named PKGBUILD, named PKGBUILD_INSTALL) of
        (Some p, Some i) \<Rightarrow> [p, i]
      | _ \<Rightarrow> [])"

definition offer_for :: "release \<Rightarrow> str \<Rightarrow> str \<Rightarrow> offer option" where
  "offer_for r manager triple =
     (let arch = hd (split_on (\<lambda>c. c = 45) triple);
          ending = (\<lambda>suffix. filter (\<lambda>a. ends_with suffix (asset_name a)) (assets r));
          (ch, files) =
            (if manager = lit ''dpkg'' then (Deb, ending (lit ''_'' @ deb_arch arch @ lit ''.deb''))
             else if manager = lit ''rpm'' then (Rpm, ending (lit ''.'' @ arch @ lit ''.rpm''))
             else if manager = lit ''pacman'' then
               (case pacman_package r arch of
                  Some p \<Rightarrow> (Pacman, [p])
                | None \<Rightarrow> (Pkgbuild, pkgbuild_pair r))
             else (Archive, []))
      in
      if files \<noteq> [] then Some \<lparr>off_channel = ch, off_files = files\<rparr>
      else map_option (\<lambda>a. \<lparr>off_channel = Archive, off_files = [a]\<rparr>) (archive_for r triple))"

section \<open>The listing\<close>

datatype check_error =
    CheckNoFetcher
  | CheckFetch net_error
  | MalformedJson json_error
  | MalformedReply str

fun check_error_of :: "net_error \<Rightarrow> check_error" where
  "check_error_of NoFetcher = CheckNoFetcher"
| "check_error_of e = CheckFetch e"

definition asset_of :: "json \<Rightarrow> asset option" where
  "asset_of a =
     Option.bind (json_str (lit ''name'') a) (\<lambda>n.
     Option.bind (json_str (lit ''browser_download_url'') a) (\<lambda>u.
       Some \<lparr>asset_name = n, asset_url = u\<rparr>))"

definition or_empty :: "str option \<Rightarrow> str" where
  "or_empty o' = (case o' of Some s \<Rightarrow> s | None \<Rightarrow> [])"

text \<open>The release an item of the listing stands for, unless the loop skips it.\<close>

definition candidate :: "json \<Rightarrow> release option" where
  "candidate item =
     (if json_flag (lit ''draft'') item \<or> json_flag (lit ''prerelease'') item then None
      else case json_str (lit ''tag_name'') item of
        None \<Rightarrow> None
      | Some tg \<Rightarrow>
          (case parse_version tg of
             None \<Rightarrow> None
           | Some v \<Rightarrow>
               Some \<lparr>tag = tg, rel_version = v, rel_notes = or_empty (json_str (lit ''body'') item),
                     assets = List.map_filter asset_of (json_array (lit ''assets'') item),
                     html_url = or_empty (json_str (lit ''html_url'') item)\<rparr>))"

fun newest :: "json list \<Rightarrow> release option \<Rightarrow> release option" where
  "newest [] best = best"
| "newest (item # items) best =
     (case candidate item of
        None \<Rightarrow> newest items best
      | Some c \<Rightarrow>
          newest items
            (if (case best of None \<Rightarrow> True | Some b \<Rightarrow> is_newer_than (rel_version c) (rel_version b))
             then Some c else best))"

text \<open>The part of \<open>parse_releases\<close> after the document is read.\<close>

definition releases_of :: "json \<Rightarrow> (check_error, release option) result" where
  "releases_of doc =
     (if as_array doc = [] \<and> (case doc of JArray _ \<Rightarrow> False | _ \<Rightarrow> True)
      then Inl (MalformedReply (case json_str (lit ''message'') doc of
             Some m \<Rightarrow> m | None \<Rightarrow> lit ''not a releases listing''))
      else Inr (newest (as_array doc) None))"

definition parse_releases :: "str \<Rightarrow> (check_error, release option) result" where
  "parse_releases text =
     (case json_parse text of
        Inl e \<Rightarrow> Inl (MalformedJson e)
      | Inr doc \<Rightarrow> releases_of doc)"

section \<open>The decision\<close>

datatype blocked = NoBuildForTarget | NoChecksums

datatype check = UpToDate | Newer release | CannotInstall version str blocked

definition REPO_OWNER :: str where "REPO_OWNER = lit ''Tropaion''"
definition REPO_NAME :: str where "REPO_NAME = lit ''Tobii_Linux''"

definition releases_url :: str where
  "releases_url = lit ''https://github.com/'' @ REPO_OWNER @ lit ''/'' @ REPO_NAME @ lit ''/releases''"

definition decide :: "release option \<Rightarrow> version \<Rightarrow> str \<Rightarrow> check" where
  "decide latest running triple =
     (case latest of
        None \<Rightarrow> UpToDate
      | Some r \<Rightarrow>
          if \<not> is_newer_than (rel_version r) running then UpToDate
          else let url = (if html_url r = [] then releases_url else html_url r) in
            if archive_for r triple = None then CannotInstall (rel_version r) url NoBuildForTarget
            else if checksums r = None then CannotInstall (rel_version r) url NoChecksums
            else Newer r)"

text \<open>The check as a whole: one request, the listing it answers with, the decision.\<close>

definition latest_url :: str where
  "latest_url = lit ''https://api.github.com/repos/'' @ REPO_OWNER @ lit ''/'' @ REPO_NAME @
     lit ''/releases?per_page=20''"

definition latest :: "'w net_ops \<Rightarrow> 'w \<Rightarrow> (check_error, release option) result \<times> 'w" where
  "latest ops w =
     (case get ops latest_url w of
        (Inl e, w1) \<Rightarrow> (Inl (check_error_of e), w1)
      | (Inr body, w1) \<Rightarrow> (parse_releases (utf8_lossy body), w1))"

definition check_release :: "'w net_ops \<Rightarrow> version \<Rightarrow> str \<Rightarrow> 'w \<Rightarrow> (check_error, check) result \<times> 'w" where
  "check_release ops running triple w =
     (case latest ops w of
        (Inl e, w1) \<Rightarrow> (Inl e, w1)
      | (Inr r, w1) \<Rightarrow> (Inr (decide r running triple), w1))"

section \<open>The newest release\<close>

definition candidates :: "json list \<Rightarrow> release list" where
  "candidates items = List.map_filter candidate items"

definition rel_key :: "release \<Rightarrow> (u32 \<times> u32 \<times> u32) \<times> bool \<times> (str \<times> nat option) list" where
  "rel_key r = version_key (rel_version r)"

lemma candidates_simps [simp]:
  "candidates [] = []"
  "candidates (i # is) = (case candidate i of None \<Rightarrow> candidates is | Some c \<Rightarrow> c # candidates is)"
  by (auto simp: candidates_def map_filter_def split: option.splits)

text \<open>The first of the greatest, in front of which everything is smaller.\<close>

definition first_greatest :: "release list \<Rightarrow> release \<Rightarrow> bool" where
  "first_greatest rs r \<longleftrightarrow> (\<exists>as bs. rs = as @ r # bs \<and> (\<forall>q \<in> set as. rel_key q < rel_key r) \<and>
     (\<forall>q \<in> set bs. rel_key q \<le> rel_key r))"

lemma newest_from:
  "\<exists>r. newest items (Some b) = Some r \<and> first_greatest (b # candidates items) r"
proof (induction items arbitrary: b)
  case Nil
  show ?case by (auto simp: first_greatest_def intro!: exI [of _ "[]"])
next
  case (Cons i items)
  show ?case
  proof (cases "candidate i")
    case None
    with Cons.IH [of b] show ?thesis by (auto split: list.splits)
  next
    case (Some c)
    show ?thesis
    proof (cases "is_newer_than (rel_version c) (rel_version b)")
      case True
      then have "rel_key b < rel_key c" by (simp add: newer_key rel_key_def)
      moreover obtain r as bs where r: "newest items (Some c) = Some r" "c # candidates items = as @ r # bs"
        "\<forall>q \<in> set as. rel_key q < rel_key r" "\<forall>q \<in> set bs. rel_key q \<le> rel_key r"
        using Cons.IH [of c] unfolding first_greatest_def by blast
      moreover have "rel_key c \<le> rel_key r"
      proof (cases as)
        case Nil
        with r(2) show ?thesis by simp
      next
        case (Cons a as')
        with r(2,3) show ?thesis by auto
      qed
      ultimately have "first_greatest (b # c # candidates items) r"
        unfolding first_greatest_def by (intro exI [of _ "b # as"] exI [of _ bs]) auto
      with r(1) Some True show ?thesis by simp
    next
      case False
      then have le: "rel_key c \<le> rel_key b" by (simp add: newer_key rel_key_def not_less)
      obtain r as bs where r: "newest items (Some b) = Some r" "b # candidates items = as @ r # bs"
        "\<forall>q \<in> set as. rel_key q < rel_key r" "\<forall>q \<in> set bs. rel_key q \<le> rel_key r"
        using Cons.IH [of b] unfolding first_greatest_def by blast
      have "first_greatest (b # c # candidates items) r"
      proof (cases as)
        case Nil
        with r le show ?thesis unfolding first_greatest_def
          by (intro exI [of _ "[]"] exI [of _ "c # bs"]) auto
      next
        case (Cons a as')
        with r le show ?thesis unfolding first_greatest_def
          by (intro exI [of _ "b # c # as'"] exI [of _ bs]) auto
      qed
      with r(1) Some False show ?thesis by simp
    qed
  qed
qed

lemma newest_none: "candidates items = [] \<Longrightarrow> newest items best = best"
  by (induction items arbitrary: best) (auto split: option.splits)

lemma newest_some:
  "candidates items \<noteq> [] \<Longrightarrow> \<exists>r. newest items None = Some r \<and> first_greatest (candidates items) r"
proof (induction items)
  case (Cons i items)
  with newest_from [of items] show ?case by (cases "candidate i") auto
qed simp

lemma first_greatest_in: "first_greatest rs r \<Longrightarrow> r \<in> set rs \<and> (\<forall>q \<in> set rs. rel_key q \<le> rel_key r)"
  by (fastforce simp: first_greatest_def dest: less_imp_le)

lemma candidate_published: "candidate i = Some r \<Longrightarrow>
    \<not> json_flag (lit ''draft'') i \<and> \<not> json_flag (lit ''prerelease'') i"
  by (simp add: candidate_def del: lit_simps split: if_splits)

lemma candidates_mem: "r \<in> set (candidates items) \<Longrightarrow> \<exists>i \<in> set items. candidate i = Some r"
  by (induction items) (auto split: option.splits)

section \<open>Properties\<close>

text \<open>
  The newest release wins. From a listing, \<open>parse_releases\<close> returns nothing exactly when no item
  is a published release with a version for a tag, and else the first of those whose version is
  greatest in the order of versions.
\<close>

theorem parse_releases_newest:
  assumes "json_parse text = Inr (JArray items)"
  shows "case candidates items of
      [] \<Rightarrow> parse_releases text = Inr None
    | _ \<Rightarrow> \<exists>r. parse_releases text = Inr (Some r) \<and> first_greatest (candidates items) r"
proof -
  have p: "parse_releases text = Inr (newest items None)"
    using assms by (simp add: parse_releases_def releases_of_def as_array_def)
  show ?thesis
    using newest_none [of items None] newest_some [of items] by (auto simp: p split: list.split)
qed

text \<open>An offered update, against the document it was read from.\<close>

definition sound_offer :: "json \<Rightarrow> version \<Rightarrow> str \<Rightarrow> release \<Rightarrow> bool" where
  "sound_offer doc running triple r \<longleftrightarrow>
     (\<exists>item \<in> set (as_array doc). candidate item = Some r \<and> \<not> json_flag (lit ''draft'') item \<and>
        \<not> json_flag (lit ''prerelease'') item) \<and>
     version_key running < rel_key r \<and> (\<forall>c \<in> set (candidates (as_array doc)). rel_key c \<le> rel_key r) \<and>
     (\<exists>a \<in> set (assets r). contains triple (asset_name a) \<and> ends_with (lit ''.tar.gz'') (asset_name a)) \<and>
     (\<exists>a \<in> set (assets r). asset_name a = lit ''SHA256SUMS'')"

lemma decide_sound:
  assumes "releases_of doc = Inr newest_one" and "decide newest_one running triple = Newer r"
  shows "sound_offer doc running triple r"
proof -
  let ?is = "as_array doc"
  from assms(2) have l: "newest_one = Some r" and n: "is_newer_than (rel_version r) running"
    and a: "archive_for r triple \<noteq> None" and s: "checksums r \<noteq> None"
    by (auto simp: decide_def Let_def split: option.splits if_splits)
  from assms(1) l have w: "newest ?is None = Some r" by (simp add: releases_of_def split: if_splits)
  have "candidates ?is \<noteq> []" using newest_none [of ?is None] w by auto
  with newest_some [of ?is] w have g: "first_greatest (candidates ?is) r" by auto
  have "\<exists>a \<in> set (assets r). contains triple (asset_name a) \<and> ends_with (lit ''.tar.gz'') (asset_name a)"
    using a unfolding archive_for_def find_None_iff by blast
  moreover have "\<exists>a \<in> set (assets r). asset_name a = lit ''SHA256SUMS''"
    using s unfolding checksums_def find_None_iff by blast
  moreover have "\<exists>item \<in> set ?is. candidate item = Some r \<and> \<not> json_flag (lit ''draft'') item \<and>
      \<not> json_flag (lit ''prerelease'') item"
    using candidates_mem candidate_published first_greatest_in [OF g] by blast
  ultimately show ?thesis unfolding sound_offer_def
    using first_greatest_in [OF g] n by (simp add: newer_key rel_key_def)
qed

lemma latest_url_trusted: "trusted_url latest_url"
  unfolding trusted_url_def
  by (rule exI [of _ "lit ''api.github.com''"], rule exI [of _ "[]"],
      rule exI [of _ "lit ''/repos/'' @ REPO_OWNER @ lit ''/'' @ REPO_NAME @ lit ''/releases?per_page=20''"])
    (simp add: latest_url_def ALLOWED_HOSTS_def eq_ignore_ascii_case_def ascii_lower_def)

text \<open>
  C21. An update is only offered when it is one. The offer was read from a document that is the whole
  output, within the limit, of one child that fetched the listing and ended well; the release comes
  from an item of it that is neither a draft nor a pre-release, its version is greater than the
  running one and not smaller than any other published, and it carries both an archive for this
  target and the checksums.
\<close>

theorem update_offer_sound:
  assumes "check_release ops running triple w = (Inr (Newer r), w')"
  shows "\<exists>body doc. fetch ops latest_url None w = (Inr body, w') \<and> length body \<le> MAX_DOWNLOAD \<and>
    completed ops body w' \<and> json_parse (utf8_lossy body) = Inr doc \<and> sound_offer doc running triple r"
proof -
  from assms obtain l where l: "latest ops w = (Inr l, w')" "decide l running triple = Newer r"
    by (auto simp: check_release_def split: prod.splits sum.splits)
  then obtain body where b: "fetch ops latest_url None w = (Inr body, w')"
    "parse_releases (utf8_lossy body) = Inr l"
    by (auto simp: latest_def get_def split: prod.splits sum.splits)
  from b(2) obtain doc where d: "json_parse (utf8_lossy body) = Inr doc" "releases_of doc = Inr l"
    by (auto simp: parse_releases_def split: sum.splits)
  from fetch_ok [OF b(1)] b(1) d(1) decide_sound [OF d(2) l(2)] show ?thesis
    by (auto simp: accepted_def)
qed

text \<open>
  What is offered to whom: the files are never none, all of them belong to the release, and
  each fits its channel, a package of the manager's own format and this machine's architecture, the
  complete pair for a build, or the archive for this target.
\<close>

theorem offer_fits:
  assumes "offer_for r manager triple = Some f"
  defines "arch \<equiv> hd (split_on (\<lambda>c. c = 45) triple)"
  shows "off_files f \<noteq> [] \<and> set (off_files f) \<subseteq> set (assets r) \<and>
    list_all (\<lambda>a. case off_channel f of
        Deb \<Rightarrow> ends_with (lit ''_'' @ deb_arch arch @ lit ''.deb'') (asset_name a)
      | Rpm \<Rightarrow> ends_with (lit ''.'' @ arch @ lit ''.rpm'') (asset_name a)
      | Pacman \<Rightarrow> ends_with (lit ''-'' @ arch @ lit ''.pkg.tar.zst'') (asset_name a) \<and>
          \<not> starts_with PACMAN_DEBUG_PREFIX (asset_name a)
      | Pkgbuild \<Rightarrow> asset_name a \<in> {PKGBUILD, PKGBUILD_INSTALL}
      | Archive \<Rightarrow> contains triple (asset_name a) \<and> ends_with (lit ''.tar.gz'') (asset_name a))
      (off_files f) \<and>
    (off_channel f = Pkgbuild \<longrightarrow> List.map asset_name (off_files f) = [PKGBUILD, PKGBUILD_INSTALL])"
proof -
  have find: "find P xs = Some x \<Longrightarrow> x \<in> set xs \<and> P x" for P and xs :: "asset list" and x
    by (auto simp: find_Some_iff)
  have pac: "pacman_package r arch = Some p \<Longrightarrow> p \<in> set (assets r) \<and>
      ends_with (lit ''-'' @ arch @ lit ''.pkg.tar.zst'') (asset_name p) \<and>
      \<not> starts_with PACMAN_DEBUG_PREFIX (asset_name p)" for p
    by (auto simp: pacman_package_def Let_def simp del: lit_simps dest!: find split: if_splits)
  have pair: "pkgbuild_pair r = [] \<or> (\<exists>p i. pkgbuild_pair r = [p, i] \<and> p \<in> set (assets r) \<and>
      i \<in> set (assets r) \<and> asset_name p = PKGBUILD \<and> asset_name i = PKGBUILD_INSTALL)"
    by (auto simp: pkgbuild_pair_def Let_def split: option.splits dest!: find)
  have arc: "archive_for r triple = Some a \<Longrightarrow> a \<in> set (assets r) \<and> contains triple (asset_name a) \<and>
      ends_with (lit ''.tar.gz'') (asset_name a)" for a
    by (auto simp: archive_for_def simp del: lit_simps dest!: find)
  show ?thesis
    using assms(1) pac pair arc unfolding offer_for_def Let_def arch_def [symmetric]
    by (auto simp: list_all_iff simp del: lit_simps split: if_splits option.splits)
qed

section \<open>Witnesses\<close>

theorem parse_releases_newest_witness: "parse_releases ([] @ (91 # [32] @ [93]) @ []) = Inr None"
  using parse_releases_newest [OF json_sample] by simp

text \<open>A listing of one release, with an archive for the target \<open>x\<close> and its checksums.\<close>

definition listing :: json where
  "listing = JArray [JObject
     [(lit ''assets'', JArray
        [JObject [(lit ''browser_download_url'', JString (lit ''u'')), (lit ''name'', JString (lit ''x.tar.gz''))],
         JObject [(lit ''browser_download_url'', JString (lit ''s'')), (lit ''name'', JString (lit ''SHA256SUMS''))]]),
      (lit ''tag_name'', JString (lit ''v2''))]]"

definition listed :: release where
  "listed = \<lparr>tag = lit ''v2'', rel_version = \<lparr>major = 2, minor = 0, patch = 0, pre = []\<rparr>, rel_notes = [],
     assets = [\<lparr>asset_name = lit ''x.tar.gz'', asset_url = lit ''u''\<rparr>,
               \<lparr>asset_name = lit ''SHA256SUMS'', asset_url = lit ''s''\<rparr>],
     html_url = []\<rparr>"

lemma parse_v2: "parse_version (lit ''v2'') = Some \<lparr>major = 2, minor = 0, patch = 0, pre = []\<rparr>"
  by (simp add: parse_version_def trim_def trim_start_def trim_end_matches_def is_space_def strip_v_def
      parse_numbers_def part_value_def parse_u32_def parse_uint_def is_digit_def)

lemma releases_of_listing: "releases_of listing = Inr (Some listed)"
proof -
  have "parse_version [118, 50] = Some \<lparr>major = 2, minor = 0, patch = 0, pre = []\<rparr>"
    using parse_v2 by simp
  then show ?thesis
    by (simp add: releases_of_def listing_def listed_def as_array_def candidate_def json_flag_def
        json_get_def json_str_def json_array_def or_empty_def asset_of_def map_filter_def)
qed

lemma listed_files: "archive_for listed (lit ''x'') \<noteq> None" "checksums listed \<noteq> None"
  by (simp_all add: archive_for_def checksums_def listed_def ends_with_def starts_with_def)

text \<open>The listing as a text, in the grammar, and a machine whose curl answers with it.\<close>

lemma plain_text: "list_all (\<lambda>c. 32 \<le> c \<and> c < 127 \<and> c \<noteq> 34 \<and> c \<noteq> 92) s \<Longrightarrow> string_text s s"
  by (induction s) (auto intro: string_text.intros simp: is_scalar_def)

lemma member_plain:
  "string_text k k \<Longrightarrow> json_text n v t \<Longrightarrow> members_text n [(k, v)] (34 # k @ 34 # 58 # t)"
  "string_text k k \<Longrightarrow> json_text n v t \<Longrightarrow> members_text n m u \<Longrightarrow>
     members_text n ((k, v) # m) (34 # k @ 34 # 58 # t @ 44 # u)"
  using members_one [of "[]" "[]" "[]" "[]" k k n v t] members_more [of "[]" "[]" "[]" "[]" k k n v t m u]
  by (simp_all add: blank_def)

lemma item_plain:
  "json_text n v t \<Longrightarrow> items_text n [v] t"
  "json_text n v t \<Longrightarrow> items_text n vs u \<Longrightarrow> items_text n (v # vs) (t @ 44 # u)"
  using items_one [of "[]" "[]" n v t] items_more [of "[]" "[]" n v t vs u] by (simp_all add: blank_def)

definition quoted :: "str \<Rightarrow> str" where "quoted s = 34 # s @ [34]"

definition asset_text :: "str \<Rightarrow> str \<Rightarrow> str" where
  "asset_text u n = 123 # (34 # lit ''browser_download_url'' @ 34 # 58 # quoted u @ 44 #
     (34 # lit ''name'' @ 34 # 58 # quoted n)) @ [125]"

definition listing_text :: str where
  "listing_text = 91 # (123 # (34 # lit ''assets'' @ 34 # 58 #
     (91 # (asset_text (lit ''u'') (lit ''x.tar.gz'') @ 44 # asset_text (lit ''s'') (lit ''SHA256SUMS'')) @ [93]) @ 44 #
     (34 # lit ''tag_name'' @ 34 # 58 # quoted (lit ''v2''))) @ [125]) @ [93]"

lemma asset_in_grammar:
  assumes "string_text u u" and "string_text n n"
  shows "json_text (Suc k) (JObject [(lit ''browser_download_url'', JString u), (lit ''name'', JString n)])
    (asset_text u n)"
proof -
  have "members_text k [(lit ''browser_download_url'', JString u), (lit ''name'', JString n)]
      (34 # lit ''browser_download_url'' @ 34 # 58 # quoted u @ 44 # (34 # lit ''name'' @ 34 # 58 # quoted n))"
    unfolding quoted_def by (intro member_plain text_string assms plain_text) simp_all
  from text_object [OF this] show ?thesis by (simp add: asset_text_def del: append_assoc)
qed

lemma listing_in_grammar: "json_text 64 listing listing_text"
proof -
  have "items_text 61 [JObject [(lit ''browser_download_url'', JString (lit ''u'')), (lit ''name'', JString (lit ''x.tar.gz''))],
      JObject [(lit ''browser_download_url'', JString (lit ''s'')), (lit ''name'', JString (lit ''SHA256SUMS''))]]
      (asset_text (lit ''u'') (lit ''x.tar.gz'') @ 44 # asset_text (lit ''s'') (lit ''SHA256SUMS''))"
    using asset_in_grammar [where k = 60] by (intro item_plain) (simp_all add: plain_text del: lit_simps, (simp_all add: plain_text)?)
  from text_array [OF this] have "members_text 62 [(lit ''assets'', JArray
        [JObject [(lit ''browser_download_url'', JString (lit ''u'')), (lit ''name'', JString (lit ''x.tar.gz''))],
         JObject [(lit ''browser_download_url'', JString (lit ''s'')), (lit ''name'', JString (lit ''SHA256SUMS''))]]),
      (lit ''tag_name'', JString (lit ''v2''))]
    (34 # lit ''assets'' @ 34 # 58 #
     (91 # (asset_text (lit ''u'') (lit ''x.tar.gz'') @ 44 # asset_text (lit ''s'') (lit ''SHA256SUMS'')) @ [93]) @ 44 #
     (34 # lit ''tag_name'' @ 34 # 58 # quoted (lit ''v2'')))"
    unfolding quoted_def by (intro member_plain text_string plain_text) simp_all
  from item_plain(1) [OF text_object [OF this]] have "json_text (Suc (Suc 62)) listing listing_text"
    unfolding listing_def listing_text_def by (intro text_array) simp
  then show ?thesis by simp
qed

lemma listing_parsed: "json_parse listing_text = Inr listing"
proof -
  have "length (utf8_enc listing_text) \<le> 8 * 1024 * 1024"
    by (simp add: listing_text_def asset_text_def quoted_def enc_ascii)
  then show ?thesis using json_parse_text [OF listing_in_grammar, of "[]" "[]"] by (simp add: blank_def)
qed

definition github :: "nat net_ops" where
  "github = \<lparr>
     spawn = (\<lambda>prog args n. (Inr \<lparr>child_out = utf8_enc listing_text, child_fault = None, child_err = [],
        child_status = Inr (Some 0)\<rparr>, n)),
     remove_file = (\<lambda>p n. n), file_len = (\<lambda>p n. Inl IoNotFound)\<rparr>"

theorem update_offer_sound_witness:
  "sound_offer listing \<lparr>major = 1, minor = 9, patch = 0, pre = []\<rparr> (lit ''x'') listed"
proof -
  let ?v = "\<lparr>major = 1, minor = 9, patch = 0, pre = []\<rparr>"
  have n: "length (utf8_enc listing_text) < 300"
    by (simp add: listing_text_def asset_text_def quoted_def enc_ascii)
  have l: "utf8_lossy (utf8_enc listing_text) = listing_text"
  proof (rule utf8_lossy_enc)
    show "wf_str listing_text"
      by (simp add: wf_str_def listing_text_def asset_text_def quoted_def is_scalar_def)
  qed
  have "run github p a 0 = (Inr \<lparr>ran_stdout = utf8_enc listing_text, ran_stderr = [], ran_code = Some 0,
      ran_ok = True\<rparr>, 0)" for p a
    using n by (simp add: run_def github_def collect_def read_capped_def res_bind_def MAX_DOWNLOAD_def
        trim_def trim_start_def trim_end_matches_def)
  then have f: "fetch github latest_url None 0 = (Inr (utf8_enc listing_text), 0)"
    using n by (simp add: fetch_def latest_url_trusted curl_reply_def finish_def MAX_DOWNLOAD_def del: lit_simps)
  have "decide (Some listed) ?v (lit ''x'') = Newer listed"
    using listed_files
    by (simp add: decide_def is_newer_than_def listed_def del: lit_simps)
  then have "check_release github ?v (lit ''x'') 0 = (Inr (Newer listed), 0)"
    by (simp add: check_release_def latest_def get_def f l parse_releases_def listing_parsed
        releases_of_listing del: lit_simps)
  from update_offer_sound [OF this] f l listing_parsed show ?thesis by auto
qed

theorem offer_fits_witness:
  "off_files (the (offer_for listed (lit ''pacman'') (lit ''x''))) \<noteq> []"
proof -
  have "offer_for listed (lit ''pacman'') (lit ''x'') =
      Some \<lparr>off_channel = Archive, off_files = [\<lparr>asset_name = lit ''x.tar.gz'', asset_url = lit ''u''\<rparr>]\<rparr>"
    by (simp add: offer_for_def pacman_package_def pkgbuild_pair_def archive_for_def listed_def
        ends_with_def starts_with_def PACMAN_PREFIX_def PKGBUILD_def PKGBUILD_INSTALL_def)
  from offer_fits [OF this] this show ?thesis by simp
qed

end
