(* ===== verification/Capture.thy ===== *)
theory Capture
  imports Transport Strings
begin

text \<open>
  Recordings as text (\<^verbatim>\<open>tobii-usb/src/capture.rs\<close>): writing a capture line by line, reading one back,
  and what a recording that was written and read replays. The recording and the replaying transport
  themselves are in the theory of the transports.
\<close>

section \<open>The text format\<close>

definition FORMAT_VERSION :: nat where "FORMAT_VERSION = 1"

datatype capture_error =
    NotACapture
  | BadVersion nat
  | BadHex nat
  | BadLine nat

definition one_line :: "str \<Rightarrow> str" where
  "one_line s = trim (List.map (\<lambda>c. if c = 10 \<or> c = 13 then 32 else c) s)"

definition one_token :: "str \<Rightarrow> str" where
  "one_token s = List.map (\<lambda>c. if c = 32 then 45 else c) (one_line s)"

definition to_hex :: "bytes \<Rightarrow> str" where
  "to_hex bs = concat (List.map hex_byte bs)"

fun from_hex_pairs :: "bytes \<Rightarrow> bytes option" where
  "from_hex_pairs (h # l # r) =
     (case (hex_digit (unat h), hex_digit (unat l)) of
        (Some a, Some b) \<Rightarrow> map_option (Cons (byte (a * 16 + b))) (from_hex_pairs r)
      | _ \<Rightarrow> None)"
| "from_hex_pairs _ = Some []"

definition from_hex :: "str \<Rightarrow> bytes option" where
  "from_hex s =
     (let b = utf8_enc s in if length b mod 2 \<noteq> 0 then None else from_hex_pairs b)"

definition header_line :: "str \<times> str \<Rightarrow> str" where
  "header_line h = (case h of (k, v) \<Rightarrow> lit ''# '' @ one_token k @ [32] @ one_line v @ [10])"

definition event_line :: "event \<Rightarrow> str" where
  "event_line e =
     (case (case e of Sent b \<Rightarrow> (62, b) | Received b \<Rightarrow> (60, b)) of
        (marker, b) \<Rightarrow> [marker, 32] @ to_hex b @ [10])"

definition to_text :: "capture \<Rightarrow> str" where
  "to_text c =
     lit ''# tobii-capture '' @ decimal FORMAT_VERSION @ [10] @
     concat (List.map header_line (cap_headers c)) @ concat (List.map event_line (cap_events c))"

text \<open>One line, already trimmed; the state is what was read so far and whether the magic was seen.\<close>

definition parse_line :: "nat \<Rightarrow> str \<Rightarrow> capture \<times> bool \<Rightarrow> (capture_error, capture \<times> bool) result" where
  "parse_line i line st =
     (case st of (out, saw_magic) \<Rightarrow>
      case line of
        [] \<Rightarrow> Inr st
      | c # chars \<Rightarrow>
          if c = 35 then
            (let r = trim chars;
                 (key, val) = (case split_once 32 r of Some kv \<Rightarrow> kv | None \<Rightarrow> (r, [])) in
             if key = lit ''tobii-capture'' then
               (let v = (case parse_uint (2 ^ 32) (trim val) of Some n \<Rightarrow> n | None \<Rightarrow> 0) in
                if v \<noteq> FORMAT_VERSION then Inl (BadVersion v) else Inr (out, True))
             else Inr (out\<lparr>cap_headers := cap_headers out @ [(key, trim val)]\<rparr>, saw_magic))
          else if c = 62 \<or> c = 60 then
            (case from_hex (trim chars) of
               None \<Rightarrow> Inl (BadHex (i + 1))
             | Some b \<Rightarrow> Inr (out\<lparr>cap_events := cap_events out @
                 [if c = 62 then Sent b else Received b]\<rparr>, saw_magic))
          else Inl (BadLine (i + 1)))"

fun parse_lines :: "nat \<Rightarrow> str list \<Rightarrow> capture \<times> bool \<Rightarrow> (capture_error, capture \<times> bool) result" where
  "parse_lines i [] st = Inr st"
| "parse_lines i (l # ls) st = res_bind (parse_line i (trim l) st) (parse_lines (i + 1) ls)"

definition capture_parse :: "str \<Rightarrow> (capture_error, capture) result" where
  "capture_parse text =
     (case find (\<lambda>l. l \<noteq> []) (List.map trim (lines text)) of
        None \<Rightarrow> Inl NotACapture
      | Some first \<Rightarrow>
          if \<not> starts_with (lit ''# tobii-capture'') first then Inl NotACapture
          else res_bind (parse_lines 0 (lines text) (\<lparr>cap_headers = [], cap_events = []\<rparr>, False))
            (\<lambda>(out, saw_magic). if saw_magic then Inr out else Inl NotACapture))"

definition cap_header :: "str \<Rightarrow> capture \<Rightarrow> str option" where
  "cap_header name c = map_option snd (find (\<lambda>(k, _). k = name) (cap_headers c))"

section \<open>Hex\<close>

lemma hex_digits_bound: "n < 16 \<Longrightarrow> hex_char n < 128"
  by (simp add: hex_char_ascii)

lemma nibbles: "unat (b :: u8) div 16 < 16" "unat b mod 16 < 16" "unat b div 16 * 16 + unat b mod 16 = unat b"
  using less_mult_imp_div_less [of "unat b" 16 16] unat_u8_less [of b] by simp_all

lemma to_hex_simps [simp]: "to_hex [] = []"
  "to_hex (b # bs) = hex_char (unat b div 16) # hex_char (unat b mod 16) # to_hex bs"
  by (simp_all add: to_hex_def hex_byte_def)

lemma to_hex_plain: "c \<in> set (to_hex bs) \<Longrightarrow> c < 128 \<and> \<not> is_space c \<and> c \<noteq> 10"
  by (induction bs) (auto simp: nibbles hex_char_ascii)

lemma enc_ascii1: "c < 128 \<Longrightarrow> utf8_enc1 c = [byte c]"
  by (simp add: utf8_enc1_def)

lemma hex_char_mod: "n < 16 \<Longrightarrow> hex_digit (hex_char n mod 256) = Some n"
  using hex_char_ascii [of n] by simp

lemma from_hex_to_hex: "from_hex (to_hex bs) = Some bs"
proof -
  have "from_hex_pairs (utf8_enc (to_hex bs)) = Some bs \<and> length (utf8_enc (to_hex bs)) mod 2 = 0"
  proof (induction bs)
    case (Cons b bs)
    then show ?case
      using nibbles [of b] hex_char_mod by (simp add: enc_ascii1 hex_char_ascii del: unat_u8_less)
  qed simp
  then show ?thesis by (simp add: from_hex_def)
qed

section \<open>Lines\<close>

lemma chomp_id: "l = [] \<or> last l \<noteq> 13 \<Longrightarrow> chomp l = l"
  by (auto simp: chomp_def)

lemma lines_concat: "list_all (\<lambda>l. 10 \<notin> set l) ls \<Longrightarrow>
    lines (concat (List.map (\<lambda>l. l @ [10]) ls)) = List.map chomp ls"
  by (induction ls) (simp_all add: lines_Cons)

lemma trim_no: "x \<notin> set s \<Longrightarrow> x \<notin> set (trim s)"
  using trim_split [of s] by (metis Un_iff set_append)

lemma dropWhile_snoc_space: "P c \<Longrightarrow> dropWhile P (m @ [c]) = (if dropWhile P m = [] then [] else dropWhile P m @ [c])"
  by (induction m) auto

lemma trim_snoc: "is_space c \<Longrightarrow> trim (m @ [c]) = trim m"
  by (simp add: trim_def trim_start_def trim_end_matches_def dropWhile_snoc_space del: dropWhile_eq_Nil_conv)

lemma trim_chomp: "trim (chomp l) = trim l"
proof (cases "l \<noteq> [] \<and> last l = 13")
  case True
  then obtain m where "l = m @ [13]" by (metis append_butlast_last_id)
  then show ?thesis by (simp add: chomp_def trim_snoc is_space_def)
qed (auto simp: chomp_def)

lemma trim_head: "\<not> is_space c \<Longrightarrow> trim (c # s) = c # trim_end_matches is_space s"
  by (auto simp: trim_def trim_start_def trim_end_matches_def dropWhile_append)

lemma trim_after_end: "trim (trim_end_matches is_space s) = trim s"
proof (cases "list_all is_space s")
  case True
  then have "dropWhile is_space s = []" "dropWhile is_space (rev s) = []" by (simp_all add: list_all_iff)
  then show ?thesis by (simp add: trim_def trim_start_def trim_end_matches_def del: dropWhile_eq_Nil_conv)
next
  case False
  then have "takeWhile is_space s @ dropWhile is_space s = s" "\<exists>x \<in> set (dropWhile is_space s). \<not> is_space x"
    by (auto simp: list_all_iff) (metis hd_dropWhile hd_in_set dropWhile_eq_Nil_conv)
  then have "dropWhile is_space (rev s) = dropWhile is_space (rev (dropWhile is_space s)) @ rev (takeWhile is_space s)"
    by (metis dropWhile_append1 rev_append set_rev)
  then have "trim_end_matches is_space s = takeWhile is_space s @ trim s"
    by (simp add: trim_def trim_start_def trim_end_matches_def)
  then have "trim (trim_end_matches is_space s) = trim (trim s)"
    by (auto simp: trim_def trim_start_def dropWhile_append dest: set_takeWhileD)
  then show ?thesis by simp
qed

lemma trim_space: "is_space c \<Longrightarrow> trim (c # s) = trim s"
  by (simp add: trim_def trim_start_def)

lemma parse_lines_append:
  "parse_lines i (a @ b) st = res_bind (parse_lines i a st) (parse_lines (i + length a) b)"
proof (induction a arbitrary: i st)
  case (Cons l a)
  then show ?case by (auto simp: res_bind_def split: sum.split)
qed simp

lemma parse_lines_chomp: "parse_lines i (List.map chomp ls) st = parse_lines i ls st"
proof (induction ls arbitrary: i st)
  case (Cons l ls)
  then show ?case by (cases "parse_line i (trim l) st") (simp_all add: trim_chomp)
qed simp

section \<open>The lines of a capture\<close>

definition magic_body :: str where "magic_body = lit ''# tobii-capture '' @ decimal FORMAT_VERSION"

definition header_body :: "str \<times> str \<Rightarrow> str" where
  "header_body h = (case h of (k, v) \<Rightarrow> 35 # 32 # one_token k @ 32 # one_line v)"

definition event_body :: "event \<Rightarrow> str" where
  "event_body e = (case e of Sent b \<Rightarrow> 62 # 32 # to_hex b | Received b \<Rightarrow> 60 # 32 # to_hex b)"

definition text_lines :: "capture \<Rightarrow> str list" where
  "text_lines c = magic_body # List.map header_body (cap_headers c) @ List.map event_body (cap_events c)"

lemma to_text_lines: "to_text c = concat (List.map (\<lambda>l. l @ [10]) (text_lines c))"
proof -
  have "header_line = (\<lambda>h. header_body h @ [10])" "event_line = (\<lambda>e. event_body e @ [10])"
    by (auto simp: header_line_def header_body_def event_line_def event_body_def fun_eq_iff split: event.splits)
  then show ?thesis by (simp add: to_text_def text_lines_def magic_body_def comp_def)
qed

lemma one_line_plain: "10 \<notin> set (one_line s)" "13 \<notin> set (one_line s)"
  unfolding one_line_def by (intro trim_no; auto)+

lemma one_token_plain: "10 \<notin> set (one_token s)" "32 \<notin> set (one_token s)"
  using one_line_plain [of s] by (auto simp: one_token_def)

lemma one_line_ends: "one_line s = [] \<or> (\<not> is_space (hd (one_line s)) \<and> \<not> is_space (last (one_line s)))"
  unfolding one_line_def by (rule trim_ends)

lemma one_token_ends: "one_token s = [] \<or> (\<not> is_space (hd (one_token s)) \<and> \<not> is_space (last (one_token s)))"
proof -
  have "(if c = 32 then 45 else c) = c" if "\<not> is_space c" for c
    using that by (auto simp: is_space_def)
  then show ?thesis using one_line_ends [of s] by (auto simp: one_token_def hd_map last_map)
qed

lemma text_lines_plain: "list_all (\<lambda>l. 10 \<notin> set l) (text_lines c)"
proof -
  have "10 \<notin> set magic_body" by (simp add: magic_body_def FORMAT_VERSION_def decimal.simps)
  moreover have "10 \<notin> set (event_body e)" for e
    using to_hex_plain by (cases e) (auto simp: event_body_def)
  moreover have "10 \<notin> set (header_body h)" for h
    by (cases h) (auto simp: header_body_def one_token_plain one_line_plain)
  ultimately show ?thesis by (auto simp: text_lines_def list_all_iff)
qed

lemma lines_to_text: "lines (to_text c) = List.map chomp (text_lines c)"
  unfolding to_text_lines by (rule lines_concat [OF text_lines_plain])

text \<open>A header as it comes back.\<close>

definition header_norm :: "str \<times> str \<Rightarrow> str \<times> str" where
  "header_norm h = (one_token (fst h), one_line (snd h))"

definition header_ok :: "str \<times> str \<Rightarrow> bool" where
  "header_ok h \<longleftrightarrow> one_token (fst h) \<noteq> [] \<and> one_token (fst h) \<noteq> lit ''tobii-capture''"

lemma is_space_table: "is_space 32" "\<not> is_space 35" "\<not> is_space 62" "\<not> is_space 60"
  by (simp_all add: is_space_def)

lemma trim_header_body:
  "trim (header_body (k, v)) = 35 # trim_end_matches is_space (32 # one_token k @ 32 # one_line v)"
  by (simp add: header_body_def trim_head is_space_table)

lemma trim_key_value:
  assumes "one_token k \<noteq> []"
  shows "trim (32 # one_token k @ 32 # one_line v) =
    (if one_line v = [] then one_token k else one_token k @ 32 # one_line v)"
proof (cases "one_line v = []")
  case True
  then show ?thesis using one_token_ends [of k] by (simp add: trim_space trim_snoc is_space_table trim_id)
next
  case False
  then show ?thesis using one_line_ends [of v] one_token_ends [of k] assms
    by (simp add: trim_space is_space_table) (rule trim_id, simp add: hd_append)
qed

lemma parse_header:
  assumes "header_ok h"
  shows "parse_line i (trim (header_body h)) (out, m) =
    Inr (out\<lparr>cap_headers := cap_headers out @ [header_norm h]\<rparr>, m)"
proof (cases h)
  case (Pair k v)
  with assms have k: "one_token k \<noteq> []" "one_token k \<noteq> lit ''tobii-capture''" by (simp_all add: header_ok_def)
  have t: "trim (one_line v) = one_line v" using one_line_ends by (rule trim_id)
  have s: "split_once 32 (one_token k) = None" using one_token_plain [of k] by (simp add: split_once_None)
  show ?thesis
    unfolding Pair trim_header_body parse_line_def prod.case list.case trim_after_end trim_key_value [OF k(1)]
    using k one_token_plain [of k] t s
    by (cases "one_line v = []") (simp_all add: header_norm_def del: lit_simps)
qed

lemma trim_hex: "trim (32 # to_hex b) = to_hex b"
proof -
  have "list_all (\<lambda>c. \<not> is_space c) (to_hex b)" using to_hex_plain by (auto simp: list_all_iff)
  then have "to_hex b = [] \<or> \<not> is_space (hd (to_hex b)) \<and> \<not> is_space (last (to_hex b))"
    by (cases "to_hex b") (auto simp: list_all_iff)
  then show ?thesis by (simp add: trim_space is_space_table trim_id)
qed

lemma parse_event:
  "parse_line i (trim (event_body e)) (out, m) = Inr (out\<lparr>cap_events := cap_events out @ [e]\<rparr>, m)"
  by (cases e) (simp_all add: event_body_def trim_head is_space_table parse_line_def trim_after_end
      trim_hex from_hex_to_hex)

lemma parse_magic: "parse_line i (trim magic_body) (out, m) = Inr (out, True)"
proof -
  have d: "magic_body = 35 # 32 # lit ''tobii-capture'' @ 32 # [49]"
    by (simp add: magic_body_def FORMAT_VERSION_def decimal.simps)
  have t: "trim (32 # lit ''tobii-capture'' @ 32 # [49]) = lit ''tobii-capture'' @ 32 # [49]"
    by (simp add: trim_space is_space_table) (rule trim_id, simp add: is_space_def)
  have "trim [49] = [49]" "parse_uint (2 ^ 32) [49] = Some 1"
    by (rule trim_id, simp add: is_space_def) (simp add: parse_uint_def is_digit_def)
  then show ?thesis
    unfolding d trim_head [OF is_space_table(2)] parse_line_def
    by (simp add: trim_after_end t FORMAT_VERSION_def del: lit_simps append_Cons) (simp add: FORMAT_VERSION_def)
qed

lemma parse_headers: "list_all header_ok hs \<Longrightarrow>
    parse_lines i (List.map header_body hs) (out, m) =
      Inr (out\<lparr>cap_headers := cap_headers out @ List.map header_norm hs\<rparr>, m)"
  by (induction hs arbitrary: i out) (simp_all add: parse_header)

lemma parse_events:
  "parse_lines i (List.map event_body es) (out, m) = Inr (out\<lparr>cap_events := cap_events out @ es\<rparr>, m)"
  by (induction es arbitrary: i out) (simp_all add: parse_event)

lemma parse_text_lines: "parse_lines 0 (lines (to_text c)) (out, m) =
    res_bind (parse_lines 1 (List.map header_body (cap_headers c)) (out, True))
      (\<lambda>(out1, m1). Inr (out1\<lparr>cap_events := cap_events out1 @ cap_events c\<rparr>, m1))"
  unfolding lines_to_text parse_lines_chomp text_lines_def
  by (simp add: parse_magic parse_lines_append) (auto simp: res_bind_def parse_events split: sum.split)

text \<open>A header line never becomes an event.\<close>

lemma header_keeps_events: "parse_line i (trim (header_body h)) (out, m) = Inr (out', m') \<Longrightarrow>
    cap_events out' = cap_events out"
  by (cases h) (auto simp: trim_header_body parse_line_def Let_def simp del: lit_simps
      split: option.splits prod.splits if_splits)

lemma headers_keep_events: "parse_lines i (List.map header_body hs) (out, m) = Inr (out', m') \<Longrightarrow>
    cap_events out' = cap_events out"
proof (induction hs arbitrary: i out m)
  case (Cons h hs)
  then show ?case
    by (cases "parse_line i (trim (header_body h)) (out, m)") (auto dest!: header_keeps_events)
qed simp

lemma magic_first: "trim magic_body = magic_body" "starts_with (lit ''# tobii-capture'') magic_body" "magic_body \<noteq> []"
proof -
  have "magic_body = lit ''# tobii-capture'' @ [32, 49]"
    by (simp add: magic_body_def FORMAT_VERSION_def decimal.simps)
  then show "starts_with (lit ''# tobii-capture'') magic_body" unfolding starts_with_iff by blast
  show "magic_body \<noteq> []" "trim magic_body = magic_body"
    by (simp_all add: magic_body_def FORMAT_VERSION_def decimal.simps trim_id is_space_def)
qed

lemma parse_to_text: "capture_parse (to_text c) =
    res_bind (parse_lines 0 (lines (to_text c)) (\<lparr>cap_headers = [], cap_events = []\<rparr>, False))
      (\<lambda>(out, saw_magic). if saw_magic then Inr out else Inl NotACapture)"
proof -
  have "find (\<lambda>l. l \<noteq> []) (List.map trim (lines (to_text c))) = Some magic_body"
    using magic_first by (simp add: lines_to_text text_lines_def trim_chomp)
  then show ?thesis using magic_first(2) by (simp add: capture_parse_def del: lit_simps)
qed

lemma parse_capture:
  assumes "list_all header_ok (cap_headers c)"
  shows "capture_parse (to_text c) = Inr \<lparr>cap_headers = List.map header_norm (cap_headers c), cap_events = cap_events c\<rparr>"
  using assms by (simp add: parse_to_text parse_text_lines parse_headers)

section \<open>Recording and replaying a session\<close>

datatype call = CallSend bytes | CallRecv nat nat

text \<open>The transfers a sequence of calls is answered with.\<close>

fun drive :: "'t transport_ops \<Rightarrow> call list \<Rightarrow> 't \<Rightarrow> bytes list \<times> 't" where
  "drive ops [] t = ([], t)"
| "drive ops (CallSend d # cs) t = drive ops cs (snd (op_send ops d t))"
| "drive ops (CallRecv n w # cs) t =
     (case op_recv ops n w t of
        (None, t1) \<Rightarrow> drive ops cs t1
      | (Some b, t1) \<Rightarrow> (case drive ops cs t1 of (bs, t2) \<Rightarrow> (b # bs, t2)))"

fun sends :: "call list \<Rightarrow> bytes list" where
  "sends [] = []"
| "sends (CallSend d # cs) = d # sends cs"
| "sends (CallRecv n w # cs) = sends cs"

fun reads :: "call list \<Rightarrow> nat" where
  "reads [] = 0"
| "reads (CallSend d # cs) = reads cs"
| "reads (CallRecv n w # cs) = Suc (reads cs)"

definition room_for :: "bytes list \<Rightarrow> call list \<Rightarrow> bool" where
  "room_for bs cs \<longleftrightarrow> list_all (\<lambda>c. case c of CallRecv n w \<Rightarrow> list_all (\<lambda>b. length b \<le> n) bs | _ \<Rightarrow> True) cs"

lemma room_for_simps [simp]:
  "room_for bs []" "room_for bs (CallSend d # cs) \<longleftrightarrow> room_for bs cs"
  "room_for bs (CallRecv n w # cs) \<longleftrightarrow> list_all (\<lambda>b. length b \<le> n) bs \<and> room_for bs cs"
  by (simp_all add: room_for_def)

lemma room_for_tl: "room_for (b # bs) cs \<Longrightarrow> room_for bs cs"
  by (auto simp: room_for_def list_all_iff split: call.splits)

lemma sent_received_append [simp]:
  "sent_of (a @ b) = sent_of a @ sent_of b" "received_of (a @ b) = received_of a @ received_of b"
  by (induction a rule: sent_of.induct) simp_all

lemma drive_record:
  "drive (record_ops ops) cs u = (bs, u') \<Longrightarrow>
    drive ops cs (inner u) = (bs, inner u') \<and>
    cap_headers (capture_of u') = cap_headers (capture_of u) \<and>
    sent_of (cap_events (capture_of u')) = sent_of (cap_events (capture_of u)) @ sends cs \<and>
    received_of (cap_events (capture_of u')) = received_of (cap_events (capture_of u)) @ bs"
proof (induction cs arbitrary: u bs)
  case (Cons c cs)
  show ?case
  proof (cases c)
    case (CallSend d)
    with Cons.prems Cons.IH [of "snd (op_send (record_ops ops) d u)" bs] show ?thesis
      by (auto simp: record_ops_def record_send_def log_event_def Let_def split: prod.splits)
  next
    case (CallRecv n w)
    show ?thesis
    proof (cases "op_recv ops n w (inner u)")
      case (Pair r i)
      show ?thesis
      proof (cases r)
        case None
        with Cons.prems Cons.IH [of "u\<lparr>inner := i\<rparr>" bs] CallRecv Pair show ?thesis
          by (auto simp: record_ops_def record_recv_def)
      next
        case (Some b)
        obtain bs1 where "drive (record_ops ops) cs (log_event (Received b) (u\<lparr>inner := i\<rparr>)) = (bs1, u')" "bs = b # bs1"
          using Cons.prems CallRecv Pair Some by (auto simp: record_ops_def record_recv_def split: prod.splits)
        with Cons.IH [of "log_event (Received b) (u\<lparr>inner := i\<rparr>)" bs1] CallRecv Pair Some show ?thesis
          by (auto simp: log_event_def)
      qed
    qed
  qed
qed simp

lemma drive_replay:
  "room_for (to_deliver r) cs \<Longrightarrow> drive replay_ops cs r =
    (take (reads cs) (to_deliver r),
     r\<lparr>to_deliver := drop (reads cs) (to_deliver r), replay_sent := replay_sent r @ sends cs,
       exhausted_reads := exhausted_reads r + (reads cs - length (to_deliver r))\<rparr>)"
proof (induction cs arbitrary: r)
  case (Cons c cs)
  show ?case
  proof (cases c)
    case (CallSend d)
    with Cons.prems Cons.IH [of "snd (replay_send d r)"] show ?thesis
      by (simp add: replay_ops_def replay_send_def)
  next
    case (CallRecv n w)
    show ?thesis
    proof (cases "to_deliver r")
      case Nil
      with Cons.prems CallRecv Cons.IH [of "r\<lparr>exhausted_reads := exhausted_reads r + 1\<rparr>"] show ?thesis
        by (simp add: replay_ops_def replay_recv_def)
    next
      case (Cons b bs)
      with Cons.prems CallRecv Cons.IH [of "r\<lparr>to_deliver := bs\<rparr>"] room_for_tl [of b bs cs] show ?thesis
        by (simp add: replay_ops_def replay_recv_def)
    qed
  qed
qed simp

section \<open>Properties\<close>

text \<open>
  Writing and reading back: a capture whose headers have keys other than the magic comes back
  with the same events, each byte of each frame, in order, and with its headers folded to one line;
  and whatever the headers hold, line breaks included, none of it ever turns into an event.
\<close>

theorem capture_roundtrip:
  "(list_all header_ok (cap_headers c) \<longrightarrow> capture_parse (to_text c) =
      Inr \<lparr>cap_headers = List.map header_norm (cap_headers c), cap_events = cap_events c\<rparr>) \<and>
   (\<forall>c'. capture_parse (to_text c) = Inr c' \<longrightarrow> cap_events c' = cap_events c)"
proof (intro conjI impI allI)
  fix c' assume "capture_parse (to_text c) = Inr c'"
  then obtain out m where
    "parse_lines 1 (List.map header_body (cap_headers c)) (\<lparr>cap_headers = [], cap_events = []\<rparr>, True) = Inr (out, m)"
    "c' = out\<lparr>cap_events := cap_events out @ cap_events c\<rparr>"
    by (auto simp: parse_to_text parse_text_lines res_bind_def split: sum.splits prod.splits if_splits)
  then show "cap_events c' = cap_events c" using headers_keep_events by fastforce
qed (rule parse_capture)

text \<open>
  C35. A recorded session replays. Whatever transport is recorded and whatever calls are made, the
  recording does not change the answers; and the recording, written to text and read back, replays:
  any calls with buffers large enough are answered with the transfers of the session, in order and
  each once, reads past the end are counted, nothing trips the assertion, and what was sent in the
  session and in the replay is on record for the comparison.
\<close>

theorem recording_replays:
  assumes "drive (record_ops ops) calls (record_new t) = (bs, u)" and "room_for bs calls'"
  shows "fst (drive ops calls t) = bs \<and> (\<exists>c r. capture_parse (to_text (capture_of u)) = Inr c \<and>
    sent_of (cap_events c) = sends calls \<and>
    drive replay_ops calls' (replay_new c) = (take (reads calls') bs, r) \<and>
    replay_sent r = sends calls' \<and> exhausted_reads r = reads calls' - length bs \<and> \<not> replay_panicked r)"
proof -
  from drive_record [OF assms(1)] have d: "drive ops calls t = (bs, inner u)" "cap_headers (capture_of u) = []"
    "sent_of (cap_events (capture_of u)) = sends calls" "received_of (cap_events (capture_of u)) = bs"
    by (simp_all add: record_new_def)
  let ?c = "\<lparr>cap_headers = [], cap_events = cap_events (capture_of u)\<rparr>"
  have p: "capture_parse (to_text (capture_of u)) = Inr ?c"
    using parse_capture [of "capture_of u"] d(2) by simp
  have r: "room_for (to_deliver (replay_new ?c)) calls'" using assms(2) d(4) by (simp add: replay_new_def)
  show ?thesis
    using d p drive_replay [OF r] by (simp add: replay_new_def)
qed

section \<open>Witnesses\<close>

theorem capture_roundtrip_witness:
  "capture_parse (to_text \<lparr>cap_headers = [(lit ''k'', lit ''v'')], cap_events = [Sent [1], Received []]\<rparr>) =
    Inr \<lparr>cap_headers = List.map header_norm [(lit ''k'', lit ''v'')], cap_events = [Sent [1], Received []]\<rparr>"
proof -
  have "list_all header_ok [(lit ''k'', lit ''v'')]"
    by (simp add: header_ok_def one_token_def one_line_def trim_id is_space_def)
  then show ?thesis
    using capture_roundtrip [of "\<lparr>cap_headers = [(lit ''k'', lit ''v'')], cap_events = [Sent [1], Received []]\<rparr>"]
    by simp
qed

theorem recording_replays_witness:
  "fst (drive replay_ops [CallSend [9], CallRecv 4 0] (replay_new \<lparr>cap_headers = [], cap_events = [Received [1, 2]]\<rparr>)) =
    [[1, 2]]"
proof -
  let ?t = "replay_new \<lparr>cap_headers = [], cap_events = [Received [1, 2]]\<rparr>"
  obtain bs u where d: "drive (record_ops replay_ops) [CallSend [9], CallRecv 4 0] (record_new ?t) = (bs, u)"
    by fastforce
  then have "bs = [[1, 2]]"
    by (auto simp: record_ops_def record_send_def record_recv_def record_new_def log_event_def replay_ops_def
        replay_send_def replay_recv_def replay_new_def)
  then show ?thesis using recording_replays [OF d, of "[]"] by (simp add: room_for_def)
qed

end
