(* ===== verification/Files.thy ===== *)
theory Files
  imports Net "HOL-Library.Sublist"
begin

text \<open>
  The file system as the updater uses it through \<^verbatim>\<open>std::fs\<close>: names for inodes, so that hard links
  and renames behave as POSIX says, and an oracle that may let any system call fail. A failed call
  changes nothing, so an oracle that fails every call from some point on is a process killed at
  that point: what holds under every oracle holds at every moment.
\<close>

section \<open>State\<close>

text \<open>A path is its components; the order of the entries is the order a directory lists them in.\<close>

type_synonym fpath = "bytes list"

datatype node = Regular bytes nat | Directory | Symlink bytes

record fs =
  entries :: "(fpath \<times> nat) list"
  nodes :: "nat \<Rightarrow> node"
  fresh :: nat
  calls :: nat

type_synonym faults = "nat \<Rightarrow> io_error option"

definition lookup :: "fs \<Rightarrow> fpath \<Rightarrow> nat option" where
  "lookup s p = map_of (entries s) p"

definition node_at :: "fs \<Rightarrow> fpath \<Rightarrow> node option" where
  "node_at s p = map_option (nodes s) (lookup s p)"

definition parent_ok :: "fs \<Rightarrow> fpath \<Rightarrow> bool" where
  "parent_ok s p \<longleftrightarrow> butlast p = [] \<or> node_at s (butlast p) = Some Directory"

text \<open>The names and the inodes, without the count of calls.\<close>

definition same_files :: "fs \<Rightarrow> fs \<Rightarrow> bool" where
  "same_files s s' \<longleftrightarrow> entries s' = entries s \<and> nodes s' = nodes s \<and> fresh s' = fresh s"

section \<open>Calls\<close>

definition sys :: "faults \<Rightarrow> (fs \<Rightarrow> (io_error, 'a) result \<times> fs) \<Rightarrow> fs \<Rightarrow> (io_error, 'a) result \<times> fs" where
  "sys fl f s =
     (let s1 = s\<lparr>calls := calls s + 1\<rparr> in
      case fl (calls s) of Some e \<Rightarrow> (Inl e, s1) | None \<Rightarrow> f s1)"

definition bind_name :: "fpath \<Rightarrow> nat \<Rightarrow> fs \<Rightarrow> fs" where
  "bind_name p i s = s\<lparr>entries := (p, i) # filter (\<lambda>e. fst e \<noteq> p) (entries s)\<rparr>"

definition unbind :: "fpath \<Rightarrow> fs \<Rightarrow> fs" where
  "unbind p s = s\<lparr>entries := filter (\<lambda>e. fst e \<noteq> p) (entries s)\<rparr>"

definition EEXIST :: io_error where "EEXIST = IoOther 17"
definition EISDIR :: io_error where "EISDIR = IoOther 21"
definition ENOTDIR :: io_error where "ENOTDIR = IoOther 20"

definition fs_remove_file :: "faults \<Rightarrow> fpath \<Rightarrow> fs \<Rightarrow> (io_error, unit) result \<times> fs" where
  "fs_remove_file fl p = sys fl (\<lambda>s.
     case node_at s p of
       None \<Rightarrow> (Inl IoNotFound, s)
     | Some Directory \<Rightarrow> (Inl EISDIR, s)
     | Some _ \<Rightarrow> (Inr (), unbind p s))"

definition fs_hard_link :: "faults \<Rightarrow> fpath \<Rightarrow> fpath \<Rightarrow> fs \<Rightarrow> (io_error, unit) result \<times> fs" where
  "fs_hard_link fl a b = sys fl (\<lambda>s.
     case lookup s a of
       None \<Rightarrow> (Inl IoNotFound, s)
     | Some i \<Rightarrow>
         if lookup s b \<noteq> None then (Inl EEXIST, s)
         else if nodes s i = Directory then (Inl EISDIR, s)
         else if \<not> parent_ok s b then (Inl IoNotFound, s)
         else (Inr (), bind_name b i s))"

text \<open>Renaming onto another name of the same inode succeeds and does nothing. Files only.\<close>

definition fs_rename :: "faults \<Rightarrow> fpath \<Rightarrow> fpath \<Rightarrow> fs \<Rightarrow> (io_error, unit) result \<times> fs" where
  "fs_rename fl a b = sys fl (\<lambda>s.
     case lookup s a of
       None \<Rightarrow> (Inl IoNotFound, s)
     | Some i \<Rightarrow>
         if lookup s b = Some i then (Inr (), s)
         else if nodes s i = Directory \<or> node_at s b = Some Directory then (Inl EISDIR, s)
         else if \<not> parent_ok s b then (Inl IoNotFound, s)
         else (Inr (), bind_name b i (unbind a s)))"

text \<open>Reading a whole file follows no link here: the paths read are never links themselves.\<close>

definition fs_read :: "faults \<Rightarrow> fpath \<Rightarrow> fs \<Rightarrow> (io_error, bytes) result \<times> fs" where
  "fs_read fl p = sys fl (\<lambda>s.
     case node_at s p of
       Some (Regular b _) \<Rightarrow> (Inr b, s)
     | Some _ \<Rightarrow> (Inl EISDIR, s)
     | None \<Rightarrow> (Inl IoNotFound, s))"

text \<open>
  Opening for writing creates the file or empties it; writing replaces what it holds. The real call
  follows a symbolic link at the path; here that is an error. The callers create scratch files and the
  probe file, under names with the number of the process in them, where there is no link of their own.
\<close>

definition fs_create :: "faults \<Rightarrow> nat \<Rightarrow> fpath \<Rightarrow> fs \<Rightarrow> (io_error, nat) result \<times> fs" where
  "fs_create fl mode p = sys fl (\<lambda>s.
     case lookup s p of
       Some i \<Rightarrow>
         (case nodes s i of
            Regular _ m \<Rightarrow> (Inr i, s\<lparr>nodes := (nodes s)(i := Regular [] m)\<rparr>)
          | _ \<Rightarrow> (Inl EISDIR, s))
     | None \<Rightarrow>
         if \<not> parent_ok s p then (Inl IoNotFound, s)
         else (Inr (fresh s), bind_name p (fresh s)
           (s\<lparr>nodes := (nodes s)(fresh s := Regular [] mode), fresh := fresh s + 1\<rparr>)))"

definition fs_write :: "faults \<Rightarrow> nat \<Rightarrow> bytes \<Rightarrow> nat \<Rightarrow> fs \<Rightarrow> (io_error, unit) result \<times> fs" where
  "fs_write fl i b mode = sys fl (\<lambda>s. (Inr (), s\<lparr>nodes := (nodes s)(i := Regular b mode)\<rparr>))"

definition mode_at :: "fs \<Rightarrow> fpath \<Rightarrow> nat" where
  "mode_at s p = (case node_at s p of Some (Regular _ m) \<Rightarrow> m | _ \<Rightarrow> 0)"

text \<open>\<^verbatim>\<open>std::fs::copy\<close>: open, create, write, with the mode of the source. A failure after the creation
  leaves a file behind.\<close>

definition fs_copy :: "faults \<Rightarrow> fpath \<Rightarrow> fpath \<Rightarrow> fs \<Rightarrow> (io_error, unit) result \<times> fs" where
  "fs_copy fl a b s =
     (case fs_read fl a s of
        (Inl e, s1) \<Rightarrow> (Inl e, s1)
      | (Inr d, s1) \<Rightarrow>
          (let mode = mode_at s1 a in
           case fs_create fl mode b s1 of
             (Inl e, s2) \<Rightarrow> (Inl e, s2)
           | (Inr i, s2) \<Rightarrow> fs_write fl i d mode s2))"

definition fs_set_mode :: "faults \<Rightarrow> nat \<Rightarrow> fpath \<Rightarrow> fs \<Rightarrow> (io_error, unit) result \<times> fs" where
  "fs_set_mode fl mode p = sys fl (\<lambda>s.
     case lookup s p of
       None \<Rightarrow> (Inl IoNotFound, s)
     | Some i \<Rightarrow>
         (case nodes s i of
            Regular b _ \<Rightarrow> (Inr (), s\<lparr>nodes := (nodes s)(i := Regular b mode)\<rparr>)
          | _ \<Rightarrow> (Inr (), s)))"

definition fs_stat :: "faults \<Rightarrow> fpath \<Rightarrow> fs \<Rightarrow> (io_error, node) result \<times> fs" where
  "fs_stat fl p = sys fl (\<lambda>s. case node_at s p of None \<Rightarrow> (Inl IoNotFound, s) | Some n \<Rightarrow> (Inr n, s))"

definition fs_mkdir :: "faults \<Rightarrow> fpath \<Rightarrow> fs \<Rightarrow> (io_error, unit) result \<times> fs" where
  "fs_mkdir fl p = sys fl (\<lambda>s.
     if lookup s p \<noteq> None then (Inl EEXIST, s)
     else if \<not> parent_ok s p then (Inl IoNotFound, s)
     else (Inr (), bind_name p (fresh s)
       (s\<lparr>nodes := (nodes s)(fresh s := Directory), fresh := fresh s + 1\<rparr>)))"

text \<open>\<^verbatim>\<open>std::fs::create_dir_all\<close>: an error of \<^verbatim>\<open>mkdir\<close> is none when the directory is there.\<close>

definition mkdir_or_there :: "faults \<Rightarrow> fpath \<Rightarrow> fs \<Rightarrow> (io_error, unit) result \<times> fs" where
  "mkdir_or_there fl p s =
     (case fs_mkdir fl p s of
        (Inl e, s1) \<Rightarrow> (if node_at s1 p = Some Directory then Inr () else Inl e, s1)
      | (Inr _, s1) \<Rightarrow> (Inr (), s1))"

function fs_create_dir_all :: "faults \<Rightarrow> fpath \<Rightarrow> fs \<Rightarrow> (io_error, unit) result \<times> fs" where
  "fs_create_dir_all fl p s =
     (if p = [] then (Inr (), s)
      else case mkdir_or_there fl p s of
        (Inl e, s1) \<Rightarrow>
          (if e \<noteq> IoNotFound then (Inl e, s1)
           else case fs_create_dir_all fl (butlast p) s1 of
             (Inl e, s2) \<Rightarrow> (Inl e, s2)
           | (Inr _, s2) \<Rightarrow> mkdir_or_there fl p s2)
      | (Inr _, s1) \<Rightarrow> (Inr (), s1))"
  by auto
termination by (relation "measure (\<lambda>(fl, p, s). length p)") auto

declare fs_create_dir_all.simps [simp del]

text \<open>The entries of a directory, in the order of the list.\<close>

definition children :: "fs \<Rightarrow> fpath \<Rightarrow> fpath list" where
  "children s p = List.map fst (filter (\<lambda>e. fst e \<noteq> [] \<and> butlast (fst e) = p) (entries s))"

section \<open>Laws\<close>

lemma map_of_filter_neq: "map_of (filter (\<lambda>e. fst e \<noteq> p) es) q = (if q = p then None else map_of es q)"
  by (induction es) auto

lemma lookup_bind [simp]: "lookup (bind_name p i s) q = (if q = p then Some i else lookup s q)"
  by (simp add: lookup_def bind_name_def map_of_filter_neq)

lemma lookup_unbind [simp]: "lookup (unbind p s) q = (if q = p then None else lookup s q)"
  by (simp add: lookup_def unbind_def map_of_filter_neq)

lemma nodes_bind [simp]: "nodes (bind_name p i s) = nodes s" "nodes (unbind p s) = nodes s"
  "fresh (bind_name p i s) = fresh s" "fresh (unbind p s) = fresh s"
  by (simp_all add: bind_name_def unbind_def)

lemma lookup_irrelevant [simp]: "lookup (s\<lparr>nodes := n\<rparr>) = lookup s" "lookup (s\<lparr>fresh := f\<rparr>) = lookup s"
  "lookup (s\<lparr>calls := c\<rparr>) = lookup s"
  by (simp_all add: lookup_def fun_eq_iff)

lemma sys_cases:
  assumes "sys fl f s = (r, s')"
  obtains e where "r = Inl e" "lookup s' = lookup s" "nodes s' = nodes s" "fresh s' = fresh s"
  | s1 where "lookup s1 = lookup s" "nodes s1 = nodes s" "fresh s1 = fresh s" "f s1 = (r, s')"
proof (cases "fl (calls s)")
  case None
  with assms show thesis by (intro that(2) [of "s\<lparr>calls := calls s + 1\<rparr>"]) (simp_all add: sys_def)
next
  case (Some e)
  with assms show thesis by (intro that(1) [of e]) (auto simp: sys_def)
qed

text \<open>What a call did to the names: nothing, or exactly what it is for.\<close>

lemma remove_file_effect:
  assumes "fs_remove_file fl p s = (r, s')"
  shows "nodes s' = nodes s \<and> fresh s' = fresh s \<and> (lookup s' = lookup s \<and> r \<noteq> Inr () \<or>
    lookup s' = (lookup s)(p := None) \<and> r = Inr ())"
  using assms unfolding fs_remove_file_def
  by (rule sys_cases) (auto simp: fun_eq_iff split: option.splits node.splits)

lemma hard_link_effect:
  assumes "fs_hard_link fl a b s = (r, s')"
  shows "nodes s' = nodes s \<and> fresh s' = fresh s \<and> (lookup s' = lookup s \<and> r \<noteq> Inr () \<or>
    lookup s' = (lookup s)(b := lookup s a) \<and> lookup s a \<noteq> None \<and> lookup s b = None \<and> r = Inr ())"
  using assms unfolding fs_hard_link_def
  by (rule sys_cases) (auto simp: fun_eq_iff split: option.splits if_splits)

lemma rename_effect:
  assumes "fs_rename fl a b s = (r, s')" and "lookup s a \<noteq> lookup s b"
  shows "nodes s' = nodes s \<and> fresh s' = fresh s \<and> (lookup s' = lookup s \<and> r \<noteq> Inr () \<or>
    lookup s' = (lookup s)(b := lookup s a, a := None) \<and> lookup s a \<noteq> None \<and> r = Inr ())"
  using assms(1) unfolding fs_rename_def
  by (rule sys_cases) (use assms(2) in \<open>auto simp: fun_eq_iff split: option.splits if_splits\<close>)


section \<open>What stays as it was\<close>

text \<open>The file of a name: which inode it is, and what that holds.\<close>

definition file_at :: "fs \<Rightarrow> fpath \<Rightarrow> (nat \<times> node) option" where
  "file_at s p = map_option (\<lambda>i. (i, nodes s i)) (lookup s p)"

definition kept :: "fpath set \<Rightarrow> fs \<Rightarrow> fs \<Rightarrow> bool" where
  "kept X s s' \<longleftrightarrow> (\<forall>q. q \<notin> X \<longrightarrow> file_at s' q = file_at s q)"

definition wf_fs :: "fs \<Rightarrow> bool" where
  "wf_fs s \<longleftrightarrow> (\<forall>q i. lookup s q = Some i \<longrightarrow> i < fresh s)"

text \<open>The only name of its file, or no name at all.\<close>

definition sole_name :: "fs \<Rightarrow> fpath \<Rightarrow> bool" where
  "sole_name s p \<longleftrightarrow> (\<forall>q i. lookup s p = Some i \<and> lookup s q = Some i \<longrightarrow> q = p)"

text \<open>A change of nothing but the file of one name, which is the only one it has.\<close>

definition touches :: "fpath \<Rightarrow> fs \<Rightarrow> fs \<Rightarrow> bool" where
  "touches p s s' \<longleftrightarrow> (wf_fs s \<and> sole_name s p \<longrightarrow>
     kept {p} s s' \<and> wf_fs s' \<and> (\<forall>q. sole_name s q \<longrightarrow> sole_name s' q))"

lemmas state_defs = touches_def kept_def wf_fs_def sole_name_def file_at_def

lemma node_at_file: "node_at s p = map_option snd (file_at s p)"
  by (cases "lookup s p") (simp_all add: node_at_def file_at_def)

lemma lookup_file: "lookup s p = map_option fst (file_at s p)"
  by (cases "lookup s p") (simp_all add: file_at_def)

lemma kept_refl [simp]: "kept X s s" by (simp add: kept_def)

lemma kept_trans: "kept X s s1 \<Longrightarrow> kept X s1 s2 \<Longrightarrow> kept X s s2" by (simp add: kept_def)

lemma kept_mono: "kept X s s' \<Longrightarrow> X \<subseteq> Y \<Longrightarrow> kept Y s s'" by (auto simp: kept_def)

lemma kept_node: "kept X s s' \<Longrightarrow> q \<notin> X \<Longrightarrow> node_at s' q = node_at s q"
  by (simp add: kept_def node_at_file)

lemma kept_lookup: "kept X s s' \<Longrightarrow> q \<notin> X \<Longrightarrow> lookup s' q = lookup s q"
  by (simp add: kept_def lookup_file)

lemma touches_trans: "touches p s s1 \<Longrightarrow> touches p s1 s2 \<Longrightarrow> touches p s s2"
  unfolding touches_def by (blast intro: kept_trans)

lemma touches_same: "lookup s' = lookup s \<Longrightarrow> nodes s' = nodes s \<Longrightarrow> fresh s' = fresh s \<Longrightarrow> touches p s s'"
  by (simp add: state_defs)

lemma touches_put:
  assumes "lookup s p = Some i"
  shows "touches p s (s\<lparr>nodes := (nodes s)(i := n)\<rparr>)"
proof -
  let ?t = "s\<lparr>nodes := (nodes s)(i := n)\<rparr>"
  have "file_at ?t q = file_at s q" if "sole_name s p" "q \<noteq> p" for q
  proof -
    have "lookup s q \<noteq> Some i" using that assms unfolding sole_name_def by blast
    then show ?thesis by (cases "lookup s q") (auto simp: file_at_def)
  qed
  then show ?thesis by (simp add: touches_def kept_def wf_fs_def sole_name_def)
qed

lemma touches_put_eq:
  "lookup s p = Some i \<Longrightarrow> n' = (nodes s)(i := n) \<Longrightarrow> touches p s (s\<lparr>nodes := n'\<rparr>)"
  using touches_put by simp

lemma touches_new:
  assumes "lookup s p = None"
  shows "touches p s (bind_name p (fresh s) (s\<lparr>nodes := (nodes s)(fresh s := n), fresh := fresh s + 1\<rparr>))"
    (is "touches p s ?t")
proof -
  have l: "lookup ?t = (lookup s)(p := Some (fresh s))" by (simp add: fun_eq_iff)
  have n: "nodes ?t = (nodes s)(fresh s := n)" "fresh ?t = fresh s + 1" by simp_all
  have b: "i < fresh s" if "wf_fs s" "lookup s q = Some i" for q i using that by (simp add: wf_fs_def)
  have "file_at ?t q = file_at s q" if w: "wf_fs s" and "q \<noteq> p" for q
    using b [OF w, of q] that(2) by (cases "lookup s q") (auto simp: file_at_def l n)
  moreover have "wf_fs ?t" if w: "wf_fs s"
    unfolding wf_fs_def l n by (auto dest: b [OF w])
  moreover have "sole_name ?t q" if w: "wf_fs s" and "sole_name s q" for q
    using that(2) b [OF w] unfolding sole_name_def l by (metis fun_upd_apply less_irrefl option.inject)
  ultimately show ?thesis by (simp add: touches_def kept_def)
qed

lemma touches_unbind: "touches p s (unbind p s)"
  by (auto simp: state_defs)

lemma touches_sys:
  assumes "sys fl f s = (r, s')"
    and "\<And>s1. lookup s1 = lookup s \<Longrightarrow> nodes s1 = nodes s \<Longrightarrow> fresh s1 = fresh s \<Longrightarrow> f s1 = (r, s') \<Longrightarrow> touches p s1 s'"
  shows "touches p s s'"
  using assms(1)
proof (rule sys_cases)
  fix s1 assume s1: "lookup s1 = lookup s" "nodes s1 = nodes s" "fresh s1 = fresh s" and f: "f s1 = (r, s')"
  from assms(2) [OF s1 f] show ?thesis
    using touches_trans touches_same [of s1 s p] s1 by blast
qed (rule touches_same)

lemma remove_file_touches: "fs_remove_file fl p s = (r, s') \<Longrightarrow> touches p s s'"
  unfolding fs_remove_file_def
  by (rule touches_sys) (auto intro: touches_unbind touches_same split: option.splits node.splits)

lemma create_touches:
  assumes "fs_create fl mode p s = (r, s')"
  shows "touches p s s' \<and> (\<forall>i. r = Inr i \<longrightarrow> lookup s' p = Some i)"
proof
  show "touches p s s'" using assms unfolding fs_create_def
  proof (rule touches_sys)
    fix s1 assume *: "(case lookup s1 p of
        Some i \<Rightarrow> (case nodes s1 i of
            Regular _ m \<Rightarrow> (Inr i, s1\<lparr>nodes := (nodes s1)(i := Regular [] m)\<rparr>)
          | _ \<Rightarrow> (Inl EISDIR, s1))
      | None \<Rightarrow> if \<not> parent_ok s1 p then (Inl IoNotFound, s1)
         else (Inr (fresh s1), bind_name p (fresh s1)
           (s1\<lparr>nodes := (nodes s1)(fresh s1 := Regular [] mode), fresh := fresh s1 + 1\<rparr>))) = (r, s')"
    show "touches p s1 s'"
    proof (cases "lookup s1 p")
      case None
      with * touches_new [OF None] show ?thesis by (auto simp: touches_same split: if_splits)
    next
      case (Some i)
      with * touches_put [OF Some] show ?thesis by (cases "nodes s1 i") (auto simp: touches_same)
    qed
  qed
  show "\<forall>i. r = Inr i \<longrightarrow> lookup s' p = Some i"
    using assms unfolding fs_create_def
    by (rule sys_cases) (auto split: option.splits node.splits if_splits)
qed

lemma write_touches:
  assumes "fs_write fl i b mode s = (r, s')" and "lookup s p = Some i"
  shows "touches p s s' \<and> (r = Inr () \<longrightarrow> node_at s' p = Some (Regular b mode))"
proof
  show "touches p s s'" using assms(1) unfolding fs_write_def
  proof (rule touches_sys)
    fix s1 assume "lookup s1 = lookup s" "(Inr (), s1\<lparr>nodes := (nodes s1)(i := Regular b mode)\<rparr>) = (r, s')"
    then show "touches p s1 s'" using touches_put [of s1 p i] assms(2) by auto
  qed
  show "r = Inr () \<longrightarrow> node_at s' p = Some (Regular b mode)"
    using assms unfolding fs_write_def by (auto elim!: sys_cases simp: node_at_def)
qed

lemma set_mode_touches:
  assumes "fs_set_mode fl mode p s = (r, s')"
  shows "touches p s s' \<and> (\<forall>b m. r = Inr () \<and> node_at s p = Some (Regular b m) \<longrightarrow> node_at s' p = Some (Regular b mode))"
proof
  show "touches p s s'" using assms unfolding fs_set_mode_def
    by (rule touches_sys) (auto intro: touches_put_eq touches_same split: option.splits node.splits)
  show "\<forall>b m. r = Inr () \<and> node_at s p = Some (Regular b m) \<longrightarrow> node_at s' p = Some (Regular b mode)"
    using assms unfolding fs_set_mode_def
    by (auto elim!: sys_cases simp: node_at_def split: option.splits)
qed

lemma read_same:
  assumes "fs_read fl p s = (r, s')"
  shows "lookup s' = lookup s \<and> nodes s' = nodes s \<and> fresh s' = fresh s \<and>
    (\<forall>b. r = Inr b \<longrightarrow> (\<exists>m. node_at s p = Some (Regular b m)))"
  using assms unfolding fs_read_def
  by (auto elim!: sys_cases simp: node_at_def split: option.splits node.splits)

lemma stat_same:
  assumes "fs_stat fl p s = (r, s')"
  shows "lookup s' = lookup s \<and> nodes s' = nodes s \<and> fresh s' = fresh s"
  using assms unfolding fs_stat_def by (auto elim!: sys_cases split: option.splits)

lemma node_at_cong: "lookup s' = lookup s \<Longrightarrow> nodes s' = nodes s \<Longrightarrow> node_at s' = node_at s"
  by (intro ext) (simp add: node_at_def)

lemma copy_touches:
  assumes "fs_copy fl a b s = (r, s')"
  shows "touches b s s' \<and> (r = Inr () \<longrightarrow> (\<exists>d m. node_at s a = Some (Regular d m) \<and> node_at s' b = Some (Regular d m)))"
proof -
  obtain r1 s1 where 1: "fs_read fl a s = (r1, s1)" by fastforce
  note e1 = read_same [OF 1]
  then have t1: "touches b s s1" by (simp add: touches_same)
  show ?thesis
  proof (cases r1)
    case (Inl e)
    then show ?thesis using assms 1 t1 by (auto simp: fs_copy_def)
  next
    case (Inr d)
    then obtain m where m: "node_at s a = Some (Regular d m)" using e1 by blast
    then have mode: "mode_at s1 a = m" using node_at_cong [of s1 s] e1 by (simp add: mode_at_def)
    obtain r2 s2 where 2: "fs_create fl m b s1 = (r2, s2)" by fastforce
    note e2 = create_touches [OF 2]
    show ?thesis
    proof (cases r2)
      case (Inl e)
      then show ?thesis using assms 1 Inr 2 mode touches_trans [OF t1] e2 by (auto simp: fs_copy_def)
    next
      case (Inr i)
      have w: "fs_write fl i d m s2 = (r, s')" using assms 1 \<open>r1 = Inr d\<close> 2 mode Inr by (simp add: fs_copy_def)
      have "lookup s2 b = Some i" using e2 Inr by simp
      from write_touches [OF w this] e2 m show ?thesis using touches_trans t1 by blast
    qed
  qed
qed

section \<open>Directories\<close>

definition grows :: "fpath \<Rightarrow> fs \<Rightarrow> fs \<Rightarrow> bool" where
  "grows p s s' \<longleftrightarrow> (wf_fs s \<longrightarrow> kept {q. prefix q p \<and> lookup s q = None} s s' \<and> wf_fs s' \<and>
     (\<forall>q. sole_name s q \<longrightarrow> sole_name s' q))"

lemma grows_same: "lookup s' = lookup s \<Longrightarrow> nodes s' = nodes s \<Longrightarrow> fresh s' = fresh s \<Longrightarrow> grows p s s'"
  by (simp add: grows_def state_defs)

lemma grows_trans: "grows p s s1 \<Longrightarrow> grows p s1 s2 \<Longrightarrow> grows p s s2"
  unfolding grows_def kept_def by (auto simp: lookup_file)

lemma grows_mono: "grows p s s' \<Longrightarrow> prefix p q \<Longrightarrow> grows q s s'"
  unfolding grows_def by (blast intro: kept_mono prefix_order.trans)

lemma mkdir_grows:
  assumes "fs_mkdir fl p s = (r, s')"
  shows "grows p s s'"
  using assms unfolding fs_mkdir_def
proof (rule sys_cases)
  fix s1 assume s1: "lookup s1 = lookup s" "nodes s1 = nodes s" "fresh s1 = fresh s" and
    f: "(if lookup s1 p \<noteq> None then (Inl EEXIST, s1)
     else if \<not> parent_ok s1 p then (Inl IoNotFound, s1)
     else (Inr (), bind_name p (fresh s1)
       (s1\<lparr>nodes := (nodes s1)(fresh s1 := Directory), fresh := fresh s1 + 1\<rparr>))) = (r, s')"
  have "grows p s1 s'"
  proof (cases "lookup s1 p = None \<and> parent_ok s1 p")
    case True
    then have "touches p s1 s'" "lookup s1 p = None" using f touches_new [of s1 p Directory] by auto
    then show ?thesis by (auto simp: touches_def grows_def sole_name_def intro: kept_mono)
  qed (use f grows_same in \<open>auto split: if_splits\<close>)
  then show ?thesis using grows_trans grows_same [of s1 s p] s1 by blast
qed (rule grows_same)

lemma mkdir_or_there_grows: "mkdir_or_there fl p s = (r, s') \<Longrightarrow> grows p s s'"
  using mkdir_grows by (fastforce simp: mkdir_or_there_def split: prod.splits sum.splits)

lemma create_dir_all_grows: "fs_create_dir_all fl p s = (r, s') \<Longrightarrow> grows p s s'"
proof (induction fl p s arbitrary: r s' rule: fs_create_dir_all.induct)
  case (1 fl p s)
  show ?case
  proof (cases "p = []")
    case True
    then show ?thesis using "1.prems" by (simp add: fs_create_dir_all.simps grows_same)
  next
    case False
    obtain r1 s1 where m: "mkdir_or_there fl p s = (r1, s1)" by fastforce
    note g1 = mkdir_or_there_grows [OF m]
    show ?thesis
    proof (cases "r1 = Inl IoNotFound")
      case True
      obtain r2 s2 where c: "fs_create_dir_all fl (butlast p) s1 = (r2, s2)" by fastforce
      have "grows (butlast p) s1 s2" using "1.IH" [OF False m [symmetric] True _ c] by simp
      then have g2: "grows p s s2" by (rule grows_trans [OF g1 grows_mono [OF _ prefixeq_butlast]])
      show ?thesis
      proof (cases r2)
        case (Inl e)
        then show ?thesis using "1.prems" False m True c g2 by (subst (asm) fs_create_dir_all.simps) simp
      next
        case (Inr u)
        then have "mkdir_or_there fl p s2 = (r, s')"
          using "1.prems" False m True c by (subst (asm) fs_create_dir_all.simps) simp
        then show ?thesis using grows_trans [OF g2 mkdir_or_there_grows] by blast
      qed
    next
      case ne: False
      then show ?thesis using "1.prems" False m g1
        by (subst (asm) fs_create_dir_all.simps) (auto split: sum.splits if_splits)
    qed
  qed
qed

end
