(* ===== verification/Swap.thy ===== *)
theory Swap
  imports Files
begin

text \<open>
  The swap of the binaries (\<open>swap_in\<close> of \<^verbatim>\<open>tobii-update/src/install.rs\<close>): each staged file is renamed
  over its target, with a hard link to the old file kept until all of them have landed, and every swap
  undone when one fails. The texts of errors are the errors themselves.
\<close>

section \<open>Names\<close>

definition file_name :: "fpath \<Rightarrow> bytes option" where
  "file_name p = (if p = [] then None else Some (last p))"

definition with_file_name :: "fpath \<Rightarrow> bytes \<Rightarrow> fpath" where
  "with_file_name p n = butlast p @ [n]"

text \<open>\<^verbatim>\<open>path.file_name().and_then(|s| s.to_str())\<close>\<close>

definition file_str :: "fpath \<Rightarrow> str option" where
  "file_str p = Option.bind (file_name p) utf8_dec"

definition backup_of :: "nat \<Rightarrow> fpath \<Rightarrow> fpath" where
  "backup_of pid target =
     with_file_name target (utf8_enc (lit ''.'' @ (case file_str target of Some n \<Rightarrow> n | None \<Rightarrow> lit ''bin'') @
       lit ''.old-'' @ decimal pid))"

section \<open>The swap\<close>

datatype swap_error = RolledBack io_error "(fpath \<times> fpath \<times> io_error) list"

fun remove_all :: "faults \<Rightarrow> fpath list \<Rightarrow> fs \<Rightarrow> fs" where
  "remove_all fl [] s = s"
| "remove_all fl (p # ps) s = remove_all fl ps (snd (fs_remove_file fl p s))"

definition remove_staged :: "faults \<Rightarrow> (fpath \<times> fpath) list \<Rightarrow> fs \<Rightarrow> fs" where
  "remove_staged fl staged s = remove_all fl (List.map fst staged) s"

definition swap_step :: "faults \<Rightarrow> nat \<Rightarrow> fpath \<Rightarrow> fpath \<Rightarrow> fs \<Rightarrow> (io_error, unit) result \<times> fs" where
  "swap_step fl pid staging target s =
     (let backup = backup_of pid target;
          s1 = snd (fs_remove_file fl backup s)
      in case fs_hard_link fl target backup s1 of
           (Inl e, s2) \<Rightarrow> (Inl e, s2)
         | (Inr _, s2) \<Rightarrow> fs_rename fl staging target s2)"

text \<open>The restores, with those that failed.\<close>

fun undo_swaps :: "faults \<Rightarrow> (fpath \<times> fpath) list \<Rightarrow> fs \<Rightarrow> (fpath \<times> fpath \<times> io_error) list \<times> fs" where
  "undo_swaps fl [] s = ([], s)"
| "undo_swaps fl ((t, b) # ps) s =
     (case fs_rename fl b t s of
        (Inr _, s1) \<Rightarrow> undo_swaps fl ps s1
      | (Inl e, s1) \<Rightarrow> (case undo_swaps fl ps s1 of (fails, s2) \<Rightarrow> ((t, b, e) # fails, s2)))"

fun swap_loop :: "faults \<Rightarrow> nat \<Rightarrow> (fpath \<times> fpath) list \<Rightarrow> (fpath \<times> fpath) list \<Rightarrow>
    (fpath \<times> fpath) list \<Rightarrow> fs \<Rightarrow> (swap_error, (fpath \<times> fpath) list) result \<times> fs" where
  "swap_loop fl pid staged swapped [] s = (Inr swapped, s)"
| "swap_loop fl pid staged swapped ((staging, target) # todo) s =
     (case swap_step fl pid staging target s of
        (Inr _, s1) \<Rightarrow> swap_loop fl pid staged (swapped @ [(target, backup_of pid target)]) todo s1
      | (Inl e, s1) \<Rightarrow>
          (let s2 = snd (fs_remove_file fl (backup_of pid target) s1);
               (fails, s3) = undo_swaps fl (rev swapped) s2
           in (Inl (RolledBack e fails), remove_staged fl staged s3)))"

definition swap_in :: "faults \<Rightarrow> nat \<Rightarrow> (fpath \<times> fpath) list \<Rightarrow> fs \<Rightarrow> (swap_error, str list) result \<times> fs" where
  "swap_in fl pid staged s =
     (case swap_loop fl pid staged [] staged s of
        (Inl e, s1) \<Rightarrow> (Inl e, s1)
      | (Inr swapped, s1) \<Rightarrow>
          (Inr (List.map_filter (\<lambda>(t, _). file_str t) swapped), remove_all fl (List.map snd swapped) s1))"

section \<open>Effects of the loops\<close>

lemma remove_file_keeps: "fs_remove_file fl p s = (r, s') \<Longrightarrow>
    nodes s' = nodes s \<and> fresh s' = fresh s \<and> (\<forall>q. q \<noteq> p \<longrightarrow> lookup s' q = lookup s q)"
  using remove_file_effect [of fl p s r s'] by (auto simp: fun_eq_iff)

lemma remove_all_effect:
  "nodes (remove_all fl ps s) = nodes s \<and> fresh (remove_all fl ps s) = fresh s \<and>
    (\<forall>q. q \<notin> set ps \<longrightarrow> lookup (remove_all fl ps s) q = lookup s q)"
proof (induction ps arbitrary: s)
  case (Cons p ps)
  obtain r s1 where "fs_remove_file fl p s = (r, s1)" by fastforce
  with remove_file_keeps [OF this] Cons.IH [of s1] show ?case by simp
qed simp

lemma undo_effect:
  assumes "undo_swaps fl ps s = (fails, s')" and "distinct (List.map fst ps @ List.map snd ps)"
    and "\<forall>(t, b) \<in> set ps. lookup s b \<noteq> lookup s t"
  shows "nodes s' = nodes s \<and> fresh s' = fresh s \<and>
    (\<forall>(t, b) \<in> set ps. lookup s' t = lookup s b \<and> t \<notin> fst ` set fails \<or>
       lookup s' t = lookup s t \<and> lookup s' b = lookup s b \<and> t \<in> fst ` set fails) \<and>
    (\<forall>q. q \<notin> fst ` set ps \<union> snd ` set ps \<longrightarrow> lookup s' q = lookup s q) \<and> fst ` set fails \<subseteq> fst ` set ps"
  using assms
proof (induction ps arbitrary: s s' fails)
  case (Cons tb ps)
  obtain t b where tb: "tb = (t, b)" by fastforce
  obtain r s1 where r: "fs_rename fl b t s = (r, s1)" by fastforce
  have neq: "lookup s b \<noteq> lookup s t" using Cons.prems(3) tb by simp
  have "t \<noteq> b" using Cons.prems(2) tb by auto
  note e = rename_effect [OF r neq]
  obtain fails1 s2 where u: "undo_swaps fl ps s1 = (fails1, s2)" by fastforce
  have s2: "s' = s2" "fails = (case r of Inl e \<Rightarrow> (t, b, e) # fails1 | Inr _ \<Rightarrow> fails1)"
    using Cons.prems(1) tb r u by (auto split: sum.splits)
  have t_out: "t \<notin> fst ` set ps \<union> snd ` set ps" "b \<notin> fst ` set ps \<union> snd ` set ps"
    using Cons.prems(2) tb by auto
  have same: "lookup s1 q = lookup s q" if "q \<in> fst ` set ps \<union> snd ` set ps" for q
  proof -
    have "q \<noteq> t" "q \<noteq> b" using that t_out by blast+
    then show ?thesis using e by auto
  qed
  have d: "distinct (List.map fst ps @ List.map snd ps)" using Cons.prems(2) tb by auto
  have n: "\<forall>(t, b) \<in> set ps. lookup s1 b \<noteq> lookup s1 t"
  proof (intro ballI, clarify)
    fix t' b' assume m: "(t', b') \<in> set ps" and eq: "lookup s1 b' = lookup s1 t'"
    then have "t' \<in> fst ` set ps \<union> snd ` set ps" "b' \<in> fst ` set ps \<union> snd ` set ps" by force+
    with eq same have "lookup s b' = lookup s t'" by simp
    with m Cons.prems(3) show False by auto
  qed
  note IH = Cons.IH [OF u d n]
  have out: "lookup s2 q = lookup s1 q" if "q \<notin> fst ` set ps \<union> snd ` set ps" for q using IH that by blast
  have tf: "t \<notin> fst ` set fails1" using IH t_out by blast
  have this_pair: "lookup s2 t = lookup s b \<and> t \<notin> fst ` set fails \<or>
       lookup s2 t = lookup s t \<and> lookup s2 b = lookup s b \<and> t \<in> fst ` set fails"
    using e out [OF t_out(1)] out [OF t_out(2)] tf s2(2) \<open>t \<noteq> b\<close> by (cases r) auto
  have others: "lookup s2 t' = lookup s b' \<and> t' \<notin> fst ` set fails \<or>
       lookup s2 t' = lookup s t' \<and> lookup s2 b' = lookup s b' \<and> t' \<in> fst ` set fails"
    if "(t', b') \<in> set ps" for t' b'
  proof -
    have m: "t' \<in> fst ` set ps \<union> snd ` set ps" "b' \<in> fst ` set ps \<union> snd ` set ps" using that by force+
    then have "t' \<noteq> t" using t_out by blast
    then have "t' \<in> fst ` set fails \<longleftrightarrow> t' \<in> fst ` set fails1" using s2(2) by (cases r) auto
    moreover have "lookup s2 t' = lookup s1 b' \<and> t' \<notin> fst ` set fails1 \<or>
        lookup s2 t' = lookup s1 t' \<and> lookup s2 b' = lookup s1 b' \<and> t' \<in> fst ` set fails1"
      using IH that by blast
    ultimately show ?thesis using same m by simp
  qed
  have sub: "fst ` set fails \<subseteq> fst ` set (tb # ps)" using IH s2(2) tb by (cases r) auto
  have frame: "lookup s2 q = lookup s q" if "q \<notin> fst ` set (tb # ps) \<union> snd ` set (tb # ps)" for q
    using out [of q] e that tb by auto
  show ?case
    using IH e this_pair others sub frame s2(1) tb by auto
qed simp

section \<open>The state of a swap\<close>

text \<open>
  The files of a swap: distinct names for what is staged, the targets and the backups; what is staged
  and what it replaces are there and are not the same file.
\<close>

definition swappable :: "nat \<Rightarrow> (fpath \<times> fpath) list \<Rightarrow> fs \<Rightarrow> bool" where
  "swappable pid staged s \<longleftrightarrow>
     distinct (List.map fst staged @ List.map snd staged @ List.map (\<lambda>p. backup_of pid (snd p)) staged) \<and>
     (\<forall>(st, tg) \<in> set staged. lookup s st \<noteq> None \<and> lookup s tg \<noteq> None \<and> lookup s st \<noteq> lookup s tg)"

definition swap_names :: "nat \<Rightarrow> (fpath \<times> fpath) list \<Rightarrow> fpath set" where
  "swap_names pid staged = fst ` set staged \<union> snd ` set staged \<union> (\<lambda>p. backup_of pid (snd p)) ` set staged"

text \<open>Between the steps: what was swapped, what was not, and everything else as it was in \<open>s0\<close>.\<close>

definition midway :: "nat \<Rightarrow> (fpath \<times> fpath) list \<Rightarrow> fs \<Rightarrow> (fpath \<times> fpath) list \<Rightarrow> (fpath \<times> fpath) list \<Rightarrow> fs \<Rightarrow> bool" where
  "midway pid staged s0 did todo s \<longleftrightarrow> staged = did @ todo \<and> nodes s = nodes s0 \<and> fresh s = fresh s0 \<and>
     (\<forall>(st, tg) \<in> set did. lookup s tg = lookup s0 st \<and> lookup s st = None \<and> lookup s (backup_of pid tg) = lookup s0 tg) \<and>
     (\<forall>(st, tg) \<in> set todo. lookup s tg = lookup s0 tg \<and> lookup s st = lookup s0 st) \<and>
     (\<forall>q. q \<notin> swap_names pid staged \<longrightarrow> lookup s q = lookup s0 q)"

lemma distinct_apart:
  assumes "distinct (List.map f xs @ List.map g xs @ List.map h xs)" and "p \<in> set xs" and "q \<in> set xs"
  shows "f p \<noteq> g q \<and> h p \<noteq> f q \<and> h p \<noteq> g q"
proof -
  have "f ` set xs \<inter> g ` set xs = {}" "f ` set xs \<inter> h ` set xs = {}" "g ` set xs \<inter> h ` set xs = {}"
    using assms(1) by auto
  moreover have "f p \<in> f ` set xs" "f q \<in> f ` set xs" "g q \<in> g ` set xs" "h p \<in> h ` set xs"
    using assms(2,3) by simp_all
  ultimately show ?thesis by (metis disjoint_iff)
qed

lemma distinct_outside:
  assumes "distinct (List.map f xs @ List.map g xs @ List.map h xs)" and "p \<in> set xs"
  shows "g p \<notin> f ` set xs \<and> h p \<notin> f ` set xs \<and> h p \<notin> g ` set xs \<and> f p \<notin> h ` set xs \<and> g p \<notin> h ` set xs"
proof -
  have "f ` set xs \<inter> g ` set xs = {}" "f ` set xs \<inter> h ` set xs = {}" "g ` set xs \<inter> h ` set xs = {}"
    using assms(1) by auto
  moreover have "f p \<in> f ` set xs" "g p \<in> g ` set xs" "h p \<in> h ` set xs" using assms(2) by simp_all
  ultimately show ?thesis by blast
qed

lemma distinct_other:
  assumes "distinct (List.map f xs @ List.map g xs @ List.map h xs)" and "xs = a @ p # b" and "q \<in> set a \<union> set b"
  shows "f q \<noteq> f p \<and> g q \<noteq> g p \<and> h q \<noteq> h p"
proof -
  have "distinct (List.map f xs)" "distinct (List.map g xs)" "distinct (List.map h xs)" using assms(1) by simp_all
  moreover have "f q \<in> f ` set a \<union> f ` set b" "g q \<in> g ` set a \<union> g ` set b" "h q \<in> h ` set a \<union> h ` set b"
    using assms(3) by auto
  ultimately show ?thesis unfolding assms(2) by auto
qed

lemma swap_step_effect:
  assumes "swap_step fl pid st tg s = (r, s')" and "st \<noteq> tg" "backup_of pid tg \<noteq> st" "backup_of pid tg \<noteq> tg"
    and "lookup s st \<noteq> lookup s tg"
  shows "nodes s' = nodes s \<and> fresh s' = fresh s \<and> (\<forall>q. q \<notin> {st, tg, backup_of pid tg} \<longrightarrow> lookup s' q = lookup s q) \<and>
    (case r of
       Inl _ \<Rightarrow> lookup s' tg = lookup s tg \<and> lookup s' st = lookup s st
     | Inr _ \<Rightarrow> lookup s' tg = lookup s st \<and> lookup s' st = None \<and> lookup s' (backup_of pid tg) = lookup s tg)"
proof -
  let ?b = "backup_of pid tg"
  obtain r1 s1 where 1: "fs_remove_file fl ?b s = (r1, s1)" by fastforce
  obtain r2 s2 where 2: "fs_hard_link fl tg ?b s1 = (r2, s2)" by fastforce
  note e1 = remove_file_keeps [OF 1] and e2 = hard_link_effect [OF 2]
  show ?thesis
  proof (cases r2)
    case (Inl e)
    with assms(1) 1 2 have "r = Inl e" "s' = s2" by (simp_all add: swap_step_def Let_def)
    with e1 e2 Inl assms(2-4) show ?thesis by auto
  next
    case (Inr u)
    with assms(1) 1 2 have r: "fs_rename fl st tg s2 = (r, s')" by (simp add: swap_step_def Let_def)
    have s2: "lookup s2 = (lookup s1)(?b := lookup s1 tg)" using e2 Inr by auto
    have "lookup s2 st \<noteq> lookup s2 tg" using s2 e1 assms(2-5) by simp
    note e3 = rename_effect [OF r this]
    show ?thesis using e1 e2 e3 s2 assms(2-5) by (cases r) (auto simp: fun_eq_iff)
  qed
qed

lemma swappable_neq: "swappable pid staged s \<Longrightarrow> (st, tg) \<in> set staged \<Longrightarrow> lookup s st \<noteq> lookup s tg"
  unfolding swappable_def by blast

text \<open>
  A step stays within three names, which no other pair of the swap has: after it, and after its backup is
  removed when it failed, everything about the other pairs is as it was.
\<close>

lemma step_away:
  assumes "swappable pid staged s0" and "staged = did @ (st, tg) # todo"
    and "(st', tg') \<in> set did \<union> set todo" and "q \<in> {st', tg', backup_of pid tg'}"
  shows "q \<notin> {st, tg, backup_of pid tg}"
proof -
  have d: "distinct (List.map fst staged @ List.map snd staged @ List.map (\<lambda>p. backup_of pid (snd p)) staged)"
    using assms(1) by (simp add: swappable_def)
  have i: "(st', tg') \<in> set staged" "(st, tg) \<in> set staged" using assms(2,3) by auto
  have "st' \<noteq> st \<and> tg' \<noteq> tg \<and> backup_of pid tg' \<noteq> backup_of pid tg"
    using distinct_other [OF d assms(2,3)] by simp
  then show ?thesis
    using distinct_apart [OF d i] distinct_apart [OF d i(2,1)] assms(4) by auto
qed

lemma midway_parts:
  assumes "midway pid staged s0 did todo s"
  shows "staged = did @ todo" "nodes s = nodes s0" "fresh s = fresh s0"
    "(st, tg) \<in> set did \<Longrightarrow> lookup s tg = lookup s0 st \<and> lookup s st = None \<and> lookup s (backup_of pid tg) = lookup s0 tg"
    "(st, tg) \<in> set todo \<Longrightarrow> lookup s tg = lookup s0 tg \<and> lookup s st = lookup s0 st"
    "q \<notin> swap_names pid staged \<Longrightarrow> lookup s q = lookup s0 q"
  using assms unfolding midway_def by blast+

lemma midway_step:
  assumes "midway pid staged s0 did ((st, tg) # todo) s" and "swappable pid staged s0"
    and "swap_step fl pid st tg s = (r, s1)"
  shows "nodes s1 = nodes s \<and> fresh s1 = fresh s \<and> (\<forall>q. q \<notin> {st, tg, backup_of pid tg} \<longrightarrow> lookup s1 q = lookup s q) \<and>
    (case r of
       Inl _ \<Rightarrow> lookup s1 tg = lookup s0 tg
     | Inr _ \<Rightarrow> lookup s1 tg = lookup s0 st \<and> lookup s1 st = None \<and> lookup s1 (backup_of pid tg) = lookup s0 tg)"
proof -
  note m = midway_parts [OF assms(1)]
  have "distinct (List.map fst staged @ List.map snd staged @ List.map (\<lambda>p. backup_of pid (snd p)) staged)"
    using assms(2) by (simp add: swappable_def)
  then have ne: "st \<noteq> tg" "backup_of pid tg \<noteq> st" "backup_of pid tg \<noteq> tg" using m(1) by auto
  have here: "lookup s tg = lookup s0 tg" "lookup s st = lookup s0 st" using m(5) [of st tg] by simp_all
  moreover have "lookup s0 st \<noteq> lookup s0 tg" by (rule swappable_neq [OF assms(2)]) (simp add: m(1))
  ultimately show ?thesis using swap_step_effect [OF assms(3) ne] by (cases r) simp_all
qed

lemma midway_done:
  assumes "midway pid staged s0 did ((st, tg) # todo) s" and "swappable pid staged s0"
    and "swap_step fl pid st tg s = (Inr u, s1)"
  shows "midway pid staged s0 (did @ [(st, tg)]) todo s1"
proof -
  note m = midway_parts [OF assms(1)] and e = midway_step [OF assms]
  have frame: "lookup s1 q = lookup s q" if "q \<notin> {st, tg, backup_of pid tg}" for q
    using e [THEN conjunct2, THEN conjunct2, THEN conjunct1] that by simp
  have keep: "lookup s1 q = lookup s q"
    if "(st', tg') \<in> set did \<union> set todo" "q \<in> {st', tg', backup_of pid tg'}" for q st' tg'
    by (rule frame [OF step_away [OF assms(2) m(1) that]])
  have "lookup s1 tg' = lookup s0 st' \<and> lookup s1 st' = None \<and> lookup s1 (backup_of pid tg') = lookup s0 tg'"
    if "(st', tg') \<in> set (did @ [(st, tg)])" for st' tg'
  proof (cases "(st', tg') \<in> set did")
    case True
    then show ?thesis using m(4) keep [of st' tg'] by simp
  next
    case False
    then show ?thesis using that e by simp
  qed
  moreover have "lookup s1 tg' = lookup s0 tg' \<and> lookup s1 st' = lookup s0 st'" if "(st', tg') \<in> set todo" for st' tg'
    using that m(5) [of st' tg'] keep [of st' tg'] by simp
  moreover have "lookup s1 q = lookup s0 q" if "q \<notin> swap_names pid staged" for q
  proof -
    have "q \<notin> {st, tg, backup_of pid tg}" using that by (auto simp: swap_names_def m(1))
    then show ?thesis using frame m(6) [OF that] by simp
  qed
  ultimately show ?thesis using m(1-3) e unfolding midway_def by auto
qed

text \<open>After a step that failed, its backup removed; and after the swaps done before it are undone.\<close>

definition broken_off :: "nat \<Rightarrow> (fpath \<times> fpath) list \<Rightarrow> fs \<Rightarrow> (fpath \<times> fpath) list \<Rightarrow> (fpath \<times> fpath) list \<Rightarrow> fs \<Rightarrow> bool" where
  "broken_off pid staged s0 did todo s \<longleftrightarrow> staged = did @ todo \<and> nodes s = nodes s0 \<and> fresh s = fresh s0 \<and>
     (\<forall>(st, tg) \<in> set did. lookup s tg = lookup s0 st \<and> lookup s (backup_of pid tg) = lookup s0 tg) \<and>
     (\<forall>(st, tg) \<in> set todo. lookup s tg = lookup s0 tg) \<and>
     (\<forall>q. q \<notin> swap_names pid staged \<longrightarrow> lookup s q = lookup s0 q)"

definition rolled_back :: "nat \<Rightarrow> (fpath \<times> fpath) list \<Rightarrow> fs \<Rightarrow> fpath set \<Rightarrow> fs \<Rightarrow> bool" where
  "rolled_back pid staged s0 stuck s \<longleftrightarrow> nodes s = nodes s0 \<and> fresh s = fresh s0 \<and> stuck \<subseteq> snd ` set staged \<and>
     (\<forall>(st, tg) \<in> set staged. lookup s tg = lookup s0 tg \<and> tg \<notin> stuck \<or>
        lookup s tg = lookup s0 st \<and> lookup s (backup_of pid tg) = lookup s0 tg \<and> tg \<in> stuck) \<and>
     (\<forall>q. q \<notin> swap_names pid staged \<longrightarrow> lookup s q = lookup s0 q)"

lemma midway_failed:
  assumes "midway pid staged s0 did ((st, tg) # todo) s" and "swappable pid staged s0"
    and "swap_step fl pid st tg s = (Inl e, s1)" and "fs_remove_file fl (backup_of pid tg) s1 = (r, s2)"
  shows "broken_off pid staged s0 did ((st, tg) # todo) s2"
proof -
  note m = midway_parts [OF assms(1)] and e = midway_step [OF assms(1-3)] and e2 = remove_file_keeps [OF assms(4)]
  have frame: "lookup s2 q = lookup s q" if "q \<notin> {st, tg, backup_of pid tg}" for q
    using e [THEN conjunct2, THEN conjunct2, THEN conjunct1] e2 that by simp
  have keep: "lookup s2 q = lookup s q"
    if "(st', tg') \<in> set did \<union> set todo" "q \<in> {st', tg', backup_of pid tg'}" for q st' tg'
    by (rule frame [OF step_away [OF assms(2) m(1) that]])
  have "lookup s2 tg' = lookup s0 st' \<and> lookup s2 (backup_of pid tg') = lookup s0 tg'" if "(st', tg') \<in> set did" for st' tg'
    using that m(4) keep [of st' tg'] by simp
  moreover have "lookup s2 tg' = lookup s0 tg'" if "(st', tg') \<in> set ((st, tg) # todo)" for st' tg'
  proof (cases "(st', tg') \<in> set todo")
    case True
    then show ?thesis using m(5) [of st' tg'] keep [of st' tg'] by simp
  next
    case False
    have "distinct (List.map snd staged @ List.map (\<lambda>p. backup_of pid (snd p)) staged)"
      using assms(2) by (simp add: swappable_def)
    then have "backup_of pid tg \<noteq> tg" using m(1) by auto
    then show ?thesis using False that e e2 by simp
  qed
  moreover have "lookup s2 q = lookup s0 q" if "q \<notin> swap_names pid staged" for q
  proof -
    have "q \<notin> {st, tg, backup_of pid tg}" using that by (auto simp: swap_names_def m(1))
    then show ?thesis using frame m(6) [OF that] by simp
  qed
  ultimately show ?thesis using m(1-3) e e2 unfolding broken_off_def by auto
qed

lemma broken_off_parts:
  assumes "broken_off pid staged s0 did todo s"
  shows "staged = did @ todo" "nodes s = nodes s0" "fresh s = fresh s0"
    "(st, tg) \<in> set did \<Longrightarrow> lookup s tg = lookup s0 st \<and> lookup s (backup_of pid tg) = lookup s0 tg"
    "(st, tg) \<in> set todo \<Longrightarrow> lookup s tg = lookup s0 tg"
    "q \<notin> swap_names pid staged \<Longrightarrow> lookup s q = lookup s0 q"
  using assms unfolding broken_off_def by blast+

lemma undone_rolled_back:
  assumes "broken_off pid staged s0 did todo s" and "swappable pid staged s0"
    and "ps = List.map (\<lambda>p. (snd p, backup_of pid (snd p))) did"
    and "undo_swaps fl (rev ps) s = (fails, s')"
  shows "rolled_back pid staged s0 (fst ` set fails) s'"
proof -
  note m = broken_off_parts [OF assms(1)]
  have d: "distinct (List.map fst staged @ List.map snd staged @ List.map (\<lambda>p. backup_of pid (snd p)) staged)"
    using assms(2) by (simp add: swappable_def)
  have set_ps: "fst ` set ps = snd ` set did" "snd ` set ps = (\<lambda>p. backup_of pid (snd p)) ` set did"
    by (simp_all add: assms(3) image_image)
  have "List.map fst ps = List.map snd did" "List.map snd ps = List.map (\<lambda>p. backup_of pid (snd p)) did"
    by (simp_all add: assms(3))
  then have "distinct (List.map fst ps @ List.map snd ps)" using d unfolding m(1) by auto
  then have dp: "distinct (List.map fst (rev ps) @ List.map snd (rev ps))" by (simp add: rev_map [symmetric])
  have np: "\<forall>(t, b) \<in> set (rev ps). lookup s b \<noteq> lookup s t"
  proof (intro ballI, clarify)
    fix t b assume "(t, b) \<in> set (rev ps)" and eq: "lookup s b = lookup s t"
    then obtain st' where q: "(st', t) \<in> set did" "b = backup_of pid t" by (auto simp: assms(3))
    then have "lookup s0 st' \<noteq> lookup s0 t" by (intro swappable_neq [OF assms(2)]) (simp add: m(1))
    with m(4) [OF q(1)] q(2) eq show False by simp
  qed
  note u = undo_effect [OF assms(4) dp np]
  have sub: "fst ` set fails \<subseteq> snd ` set did" using u by (simp add: set_ps)
  have "lookup s' tg = lookup s0 tg \<and> tg \<notin> fst ` set fails \<or>
      lookup s' tg = lookup s0 st \<and> lookup s' (backup_of pid tg) = lookup s0 tg \<and> tg \<in> fst ` set fails"
    if p: "(st, tg) \<in> set staged" for st tg
  proof (cases "(st, tg) \<in> set did")
    case True
    then have "(tg, backup_of pid tg) \<in> set (rev ps)" unfolding assms(3) set_rev set_map by force
    with u have "lookup s' tg = lookup s (backup_of pid tg) \<and> tg \<notin> fst ` set fails \<or>
      lookup s' tg = lookup s tg \<and> lookup s' (backup_of pid tg) = lookup s (backup_of pid tg) \<and> tg \<in> fst ` set fails"
      by blast
    then show ?thesis using m(4) [OF True] by simp
  next
    case False
    then have t: "(st, tg) \<in> set todo" using p m(1) by auto
    then have "tg \<in> snd ` set todo" by force
    moreover have "snd ` set did \<inter> snd ` set todo = {}" using d unfolding m(1) by auto
    moreover have "snd ` set staged \<inter> (\<lambda>p. backup_of pid (snd p)) ` set staged = {}" using d by auto
    ultimately have a: "tg \<notin> fst ` set (rev ps) \<union> snd ` set (rev ps)"
      unfolding set_rev set_ps m(1) set_append image_Un by blast
    then have "lookup s' tg = lookup s tg" using u by blast
    moreover have "tg \<notin> fst ` set fails" using sub a set_ps by auto
    ultimately show ?thesis using m(5) [OF t] by simp
  qed
  moreover have "lookup s' q = lookup s0 q" if "q \<notin> swap_names pid staged" for q
  proof -
    have "q \<notin> fst ` set (rev ps) \<union> snd ` set (rev ps)" using that by (auto simp: set_ps swap_names_def m(1))
    then show ?thesis using u m(6) [OF that] by simp
  qed
  ultimately show ?thesis using u m(1-3) sub unfolding rolled_back_def by auto
qed

lemma staged_removed:
  assumes "rolled_back pid staged s0 stuck s" and "swappable pid staged s0"
  shows "rolled_back pid staged s0 stuck (remove_staged fl staged s)"
proof -
  let ?t = "remove_staged fl staged s"
  have d: "distinct (List.map fst staged @ List.map snd staged @ List.map (\<lambda>p. backup_of pid (snd p)) staged)"
    using assms(2) by (simp add: swappable_def)
  have rs: "lookup ?t q = lookup s q" if "q \<notin> fst ` set staged" for q
    using remove_all_effect [of fl "List.map fst staged" s] that by (simp add: remove_staged_def)
  have "nodes ?t = nodes s" "fresh ?t = fresh s"
    using remove_all_effect [of fl "List.map fst staged" s] by (simp_all add: remove_staged_def)
  moreover have "lookup ?t tg = lookup s tg \<and> lookup ?t (backup_of pid tg) = lookup s (backup_of pid tg)"
    if "(st, tg) \<in> set staged" for st tg
    using distinct_outside [OF d that] rs by simp
  moreover have "lookup ?t q = lookup s q" if "q \<notin> swap_names pid staged" for q
    using that by (intro rs) (auto simp: swap_names_def)
  moreover note assms(1) [unfolded rolled_back_def]
  ultimately show ?thesis unfolding rolled_back_def by (auto simp: Ball_def)
qed

lemma swap_loop_effect:
  assumes "swap_loop fl pid staged (List.map (\<lambda>p. (snd p, backup_of pid (snd p))) did) todo s = (r, s')"
    and "midway pid staged s0 did todo s" and "swappable pid staged s0"
  shows "case r of
      Inr swapped \<Rightarrow> swapped = List.map (\<lambda>p. (snd p, backup_of pid (snd p))) staged \<and> midway pid staged s0 staged [] s'
    | Inl (RolledBack e fails) \<Rightarrow> rolled_back pid staged s0 (fst ` set fails) s'"
  using assms(1,2)
proof (induction todo arbitrary: did s)
  case Nil
  then have "staged = did" by (simp add: midway_def)
  with Nil show ?case by auto
next
  case (Cons p todo)
  obtain st tg where p: "p = (st, tg)" by fastforce
  note m = Cons.prems(2) [unfolded p]
  obtain r1 s1 where st: "swap_step fl pid st tg s = (r1, s1)" by fastforce
  show ?case
  proof (cases r1)
    case (Inr u)
    have "midway pid staged s0 (did @ [(st, tg)]) todo s1" using midway_done [OF m assms(3)] st Inr by simp
    moreover have "swap_loop fl pid staged (List.map (\<lambda>p. (snd p, backup_of pid (snd p))) (did @ [(st, tg)])) todo s1 = (r, s')"
      using Cons.prems(1) p st Inr by simp
    ultimately show ?thesis by (rule Cons.IH [rotated])
  next
    case (Inl err)
    define ps where "ps = List.map (\<lambda>p. (snd p, backup_of pid (snd p))) did"
    obtain r2 s2 where 2: "fs_remove_file fl (backup_of pid tg) s1 = (r2, s2)" by fastforce
    obtain fails s3 where 3: "undo_swaps fl (rev ps) s2 = (fails, s3)" by fastforce
    have r: "r = Inl (RolledBack err fails)" "s' = remove_staged fl staged s3"
      using Cons.prems(1) p st Inl 2 3 by (simp_all add: ps_def)
    have "broken_off pid staged s0 did ((st, tg) # todo) s2" using midway_failed [OF m assms(3) _ 2] st Inl by simp
    from undone_rolled_back [OF this assms(3) ps_def 3] have "rolled_back pid staged s0 (fst ` set fails) s3" .
    then show ?thesis using staged_removed assms(3) by (simp add: r)
  qed
qed

lemma backups_removed:
  assumes "midway pid staged s0 staged [] s" and "swappable pid staged s0"
    and "s' = remove_all fl (List.map (\<lambda>p. backup_of pid (snd p)) staged) s"
  shows "nodes s' = nodes s0 \<and> fresh s' = fresh s0 \<and>
    (\<forall>(st, tg) \<in> set staged. lookup s' tg = lookup s0 st \<and> lookup s' st = None) \<and>
    (\<forall>q. q \<notin> swap_names pid staged \<longrightarrow> lookup s' q = lookup s0 q)"
proof -
  let ?bs = "List.map (\<lambda>p. backup_of pid (snd p)) staged"
  have d: "distinct (List.map fst staged @ List.map snd staged @ ?bs)" using assms(2) by (simp add: swappable_def)
  have k: "lookup s' q = lookup s q" if "q \<notin> set ?bs" for q
    using remove_all_effect [of fl ?bs s] that assms(3) by blast
  have "st \<notin> set ?bs \<and> tg \<notin> set ?bs" if "(st, tg) \<in> set staged" for st tg
    using distinct_outside [OF d that] by simp
  then have "\<forall>(st, tg) \<in> set staged. lookup s' tg = lookup s0 st \<and> lookup s' st = None"
    using assms(1) k by (auto simp: midway_def)
  moreover have "lookup s' q = lookup s0 q" if "q \<notin> swap_names pid staged" for q
    using assms(1) k [of q] that by (auto simp: midway_def swap_names_def)
  ultimately show ?thesis using assms(1,3) remove_all_effect [of fl ?bs s] by (auto simp: midway_def)
qed

lemma swap_in_effect:
  assumes "swappable pid staged s" and "swap_in fl pid staged s = (r, s')"
  shows "nodes s' = nodes s \<and> fresh s' = fresh s \<and> (\<forall>q. q \<notin> swap_names pid staged \<longrightarrow> lookup s' q = lookup s q) \<and>
    (case r of
       Inr names \<Rightarrow> names = List.map_filter (file_str \<circ> snd) staged \<and>
         (\<forall>(st, tg) \<in> set staged. lookup s' tg = lookup s st \<and> lookup s' st = None)
     | Inl (RolledBack e fails) \<Rightarrow> fst ` set fails \<subseteq> snd ` set staged \<and>
         (\<forall>(st, tg) \<in> set staged.
            if tg \<in> fst ` set fails
            then lookup s' tg = lookup s st \<and> lookup s' (backup_of pid tg) = lookup s tg
            else lookup s' tg = lookup s tg))"
proof -
  obtain r1 s1 where l: "swap_loop fl pid staged [] staged s = (r1, s1)" by fastforce
  have "midway pid staged s [] staged s" by (auto simp: midway_def)
  with swap_loop_effect [of fl pid staged "[]" staged s r1 s1 s] l assms(1)
  have e: "case r1 of
      Inr swapped \<Rightarrow> swapped = List.map (\<lambda>p. (snd p, backup_of pid (snd p))) staged \<and> midway pid staged s staged [] s1
    | Inl (RolledBack e fails) \<Rightarrow> rolled_back pid staged s (fst ` set fails) s1" by simp
  show ?thesis
  proof (cases r1)
    case (Inr swapped)
    with e have sw: "swapped = List.map (\<lambda>p. (snd p, backup_of pid (snd p))) staged"
      and m: "midway pid staged s staged [] s1" by simp_all
    from assms(2) l Inr have r: "r = Inr (List.map_filter (\<lambda>(t, _). file_str t) swapped)"
      "s' = remove_all fl (List.map (\<lambda>p. backup_of pid (snd p)) staged) s1"
      by (simp_all add: swap_in_def sw comp_def)
    have "List.map_filter (\<lambda>(t, _). file_str t) swapped = List.map_filter (file_str \<circ> snd) staged"
      by (simp add: sw map_filter_def comp_def filter_map)
    with backups_removed [OF m assms(1) r(2)] r(1) show ?thesis by auto
  next
    case (Inl x)
    obtain err fails where x: "x = RolledBack err fails" by (cases x)
    from assms(2) l Inl have "r = Inl x" "s' = s1" by (simp_all add: swap_in_def)
    with e Inl x show ?thesis by (auto simp: rolled_back_def)
  qed
qed

section \<open>Properties\<close>

text \<open>
  C11. All or nothing, and nothing is ever lost. Whatever system calls fail, at whatever moment the
  process is killed: every target is its old file or its new one, and never missing; no file's content
  changes and no other name is touched. On success every target is the new file and all their names
  are returned; on an error exactly the targets reported are not the old file, the old one still
  being there under the backup name, so an error without reports leaves all of the old files.
\<close>

theorem swap_all_or_nothing:
  assumes "swappable pid staged s" and "swap_in fl pid staged s = (r, s')"
  shows "nodes s' = nodes s \<and> (\<forall>q. q \<notin> swap_names pid staged \<longrightarrow> lookup s' q = lookup s q) \<and>
    (case r of
       Inr names \<Rightarrow> names = List.map_filter (file_str \<circ> snd) staged \<and>
         (\<forall>(st, tg) \<in> set staged. lookup s' tg = lookup s st \<and> lookup s' st = None)
     | Inl (RolledBack e fails) \<Rightarrow> fst ` set fails \<subseteq> snd ` set staged \<and>
         (\<forall>(st, tg) \<in> set staged.
            if tg \<in> fst ` set fails
            then lookup s' tg = lookup s st \<and> lookup s' (backup_of pid tg) = lookup s tg
            else lookup s' tg = lookup s tg))"
  using swap_in_effect [OF assms] by blast

section \<open>Witness\<close>

text \<open>Two binaries in a directory; the first swap lands, the second rename fails, the restore works.\<close>

definition two_files :: fs where
  "two_files = \<lparr>entries = [([[100]], 0), ([[100], [97]], 1), ([[100], [98]], 2), ([[100], [120]], 3), ([[100], [121]], 4)],
     nodes = (\<lambda>i. if i = 0 then Directory else Regular [of_nat i] 493), fresh = 5, calls = 0\<rparr>"

definition two_staged :: "(fpath \<times> fpath) list" where
  "two_staged = [([[100], [120]], [[100], [97]]), ([[100], [121]], [[100], [98]])]"

lemma utf8_a: "utf8_dec [97] = Some [97]" "utf8_dec [98] = Some [98]"
  using utf8_dec_enc [of "[97]"] utf8_dec_enc [of "[98]"]
  by (simp_all add: wf_str_def is_scalar_def utf8_enc1_def byte_def)

lemma two_backups: "backup_of 7 [[100], [97]] = [[100], [46, 97, 46, 111, 108, 100, 45, 55]]"
  "backup_of 7 [[100], [98]] = [[100], [46, 98, 46, 111, 108, 100, 45, 55]]"
  by (simp_all add: backup_of_def file_str_def file_name_def with_file_name_def utf8_a decimal.simps
      utf8_enc1_def byte_def)

theorem swap_all_or_nothing_witness:
  "case swap_in (\<lambda>n. if n = 5 then Some (IoOther 5) else None) 7 two_staged two_files of (r, s') \<Rightarrow>
    r = Inl (RolledBack (IoOther 5) []) \<and> lookup s' [[100], [97]] = Some 1 \<and> lookup s' [[100], [98]] = Some 2"
proof -
  let ?fl = "\<lambda>n. if n = 5 then Some (IoOther 5) else None"
  have sw: "swappable 7 two_staged two_files"
    by (simp add: swappable_def two_staged_def two_files_def two_backups lookup_def)
  obtain r s' where r: "swap_in ?fl 7 two_staged two_files = (r, s')" by fastforce
  then have e: "r = Inl (RolledBack (IoOther 5) [])"
    by (auto simp: swap_in_def swap_step_def two_staged_def two_files_def two_backups fs_remove_file_def
        fs_hard_link_def fs_rename_def sys_def node_at_def lookup_def bind_name_def unbind_def parent_ok_def
        split: if_splits)
  have "lookup two_files [[100], [97]] = Some 1" "lookup two_files [[100], [98]] = Some 2"
    by (simp_all add: two_files_def lookup_def)
  moreover have "([[100], [120]], [[100], [97]]) \<in> set two_staged" "([[100], [121]], [[100], [98]]) \<in> set two_staged"
    by (simp_all add: two_staged_def)
  ultimately show ?thesis using swap_all_or_nothing [OF sw r] unfolding r e by fastforce
qed

end
