(* ===== verification/Sha256.thy ===== *)
theory Sha256
  imports Blocks Strings
begin

unbundle bit_operations_syntax

text \<open>
  SHA-256 (\<^verbatim>\<open>tobii-config/src/sha256.rs\<close>), the check behind every download, and its reference, the
  digest as FIPS 180-4 states it: the message schedule as a recurrence, the rounds, and the padded
  message cut into blocks. The streaming implementation computes the reference however the message
  is cut into updates.
\<close>

section \<open>The implementation\<close>

definition K_sha :: "u32 list" where
  "K_sha =
    [0x428a2f98, 0x71374491, 0xb5c0fbcf, 0xe9b5dba5, 0x3956c25b, 0x59f111f1, 0x923f82a4, 0xab1c5ed5] @
    [0xd807aa98, 0x12835b01, 0x243185be, 0x550c7dc3, 0x72be5d74, 0x80deb1fe, 0x9bdc06a7, 0xc19bf174] @
    [0xe49b69c1, 0xefbe4786, 0x0fc19dc6, 0x240ca1cc, 0x2de92c6f, 0x4a7484aa, 0x5cb0a9dc, 0x76f988da] @
    [0x983e5152, 0xa831c66d, 0xb00327c8, 0xbf597fc7, 0xc6e00bf3, 0xd5a79147, 0x06ca6351, 0x14292967] @
    [0x27b70a85, 0x2e1b2138, 0x4d2c6dfc, 0x53380d13, 0x650a7354, 0x766a0abb, 0x81c2c92e, 0x92722c85] @
    [0xa2bfe8a1, 0xa81a664b, 0xc24b8b70, 0xc76c51a3, 0xd192e819, 0xd6990624, 0xf40e3585, 0x106aa070] @
    [0x19a4c116, 0x1e376c08, 0x2748774c, 0x34b0bcb5, 0x391c0cb3, 0x4ed8aa4a, 0x5b9cca4f, 0x682e6ff3] @
    [0x748f82ee, 0x78a5636f, 0x84c87814, 0x8cc70208, 0x90befffa, 0xa4506ceb, 0xbef9a3f7, 0xc67178f2]"

type_synonym octet = "u32 \<times> u32 \<times> u32 \<times> u32 \<times> u32 \<times> u32 \<times> u32 \<times> u32"

record sha256 =
  sha_h :: octet
  sha_buf :: bytes
  buffered :: nat
  len_bits :: u64

definition sha_new :: sha256 where
  "sha_new = \<lparr>sha_h = (0x6a09e667, 0xbb67ae85, 0x3c6ef372, 0xa54ff53a, 0x510e527f, 0x9b05688c,
     0x1f83d9ab, 0x5be0cd19), sha_buf = replicate 64 0, buffered = 0, len_bits = 0\<rparr>"

definition rotate_right :: "nat \<Rightarrow> u32 \<Rightarrow> u32" where
  "rotate_right n x = drop_bit n x OR push_bit (32 - n) x"

text \<open>The loop over the array \<open>w\<close>, and one round.\<close>

definition schedule_step :: "u32 list \<Rightarrow> nat \<Rightarrow> u32 list" where
  "schedule_step w i =
     (let s0 = rotate_right 7 (w ! (i - 15)) XOR rotate_right 18 (w ! (i - 15)) XOR drop_bit 3 (w ! (i - 15));
          s1 = rotate_right 17 (w ! (i - 2)) XOR rotate_right 19 (w ! (i - 2)) XOR drop_bit 10 (w ! (i - 2))
      in w[i := w ! (i - 16) + s0 + w ! (i - 7) + s1])"

definition sha_schedule :: "bytes \<Rightarrow> u32 list" where
  "sha_schedule block =
     foldl schedule_step
       (List.map (\<lambda>i. of_be32 (take 4 (drop (i * 4) block))) [0..<16] @ replicate 48 0) [16..<64]"

definition sha_round :: "u32 list \<Rightarrow> octet \<Rightarrow> nat \<Rightarrow> octet" where
  "sha_round w q i =
     (case q of (a, b, c, d, e, f, g, h) \<Rightarrow>
        let s1 = rotate_right 6 e XOR rotate_right 11 e XOR rotate_right 25 e;
            ch = (e AND f) XOR (NOT e AND g);
            t1 = h + s1 + ch + K_sha ! i + w ! i;
            s0 = rotate_right 2 a XOR rotate_right 13 a XOR rotate_right 22 a;
            maj = (a AND b) XOR (a AND c) XOR (b AND c);
            t2 = s0 + maj
        in (t1 + t2, a, b, c, d + t1, e, f, g))"

fun octet_add :: "octet \<Rightarrow> octet \<Rightarrow> octet" where
  "octet_add (a, b, c, d, e, f, g, h) (a', b', c', d', e', f', g', h') =
     (a + a', b + b', c + c', d + d', e + e', f + f', g + g', h + h')"

definition sha_compress :: "octet \<Rightarrow> bytes \<Rightarrow> octet" where
  "sha_compress s block = octet_add s (foldl (sha_round (sha_schedule block)) s [0..<64])"

definition sha_update :: "bytes \<Rightarrow> sha256 \<Rightarrow> sha256" where
  "sha_update data h =
     (let h0 = h\<lparr>len_bits := len_bits h + of_nat (length data) * 8\<rparr>;
          tk = min (64 - buffered h0) (length data);
          h1 = (if 0 < buffered h0 then h0\<lparr>sha_buf := copy_at (buffered h0) (take tk data) (sha_buf h0),
                  buffered := buffered h0 + tk\<rparr> else h0);
          data1 = (if 0 < buffered h0 then drop tk data else data)
      in
      if 0 < buffered h0 \<and> buffered h1 < 64 then h1
      else let h2 = (if 0 < buffered h0
                     then h1\<lparr>sha_h := sha_compress (sha_h h1) (sha_buf h1), buffered := 0\<rparr> else h1);
               h3 = h2\<lparr>sha_h := fold_blocks sha_compress (sha_h h2) (full data1)\<rparr>
           in h3\<lparr>sha_buf := copy_at 0 (partial data1) (sha_buf h3), buffered := length (partial data1)\<rparr>)"

definition raw_byte :: "u8 \<Rightarrow> sha256 \<Rightarrow> sha256" where
  "raw_byte b h =
     (let h1 = h\<lparr>sha_buf := (sha_buf h)[buffered h := b], buffered := buffered h + 1\<rparr> in
      if buffered h1 = 64
      then h1\<lparr>sha_h := sha_compress (sha_h h1) (sha_buf h1), buffered := 0\<rparr> else h1)"

definition update_raw :: "bytes \<Rightarrow> sha256 \<Rightarrow> sha256" where
  "update_raw data h = fold raw_byte data h"

text \<open>
  The loop that pads with zeros. The buffer index is below 64 whenever the state came from
  \<open>sha_new\<close> and updates; at 64 or above the code would panic on the index, which the guard excludes.
\<close>

function pad_loop :: "sha256 \<Rightarrow> sha256" where
  "pad_loop h = (if buffered h = 56 \<or> 64 \<le> buffered h then h else pad_loop (update_raw [0] h))"
  by pat_completeness auto
termination
proof (relation "measure (\<lambda>h. (119 - buffered h + 1) mod 64)", simp)
  fix h :: sha256
  assume h: "\<not> (buffered h = 56 \<or> 64 \<le> buffered h)"
  then have "buffered (update_raw [0] h) = (if buffered h = 63 then 0 else buffered h + 1)"
    by (simp add: update_raw_def raw_byte_def)
  with h show "(update_raw [0] h, h) \<in> measure (\<lambda>h. (119 - buffered h + 1) mod 64)"
    by (cases "buffered h < 56") (auto simp: mod_if)
qed

declare pad_loop.simps [simp del]

fun octet_bytes :: "octet \<Rightarrow> bytes" where
  "octet_bytes (a, b, c, d, e, f, g, h) =
     be32 a @ be32 b @ be32 c @ be32 d @ be32 e @ be32 f @ be32 g @ be32 h"

definition sha_finish :: "sha256 \<Rightarrow> bytes" where
  "sha_finish h =
     (let h1 = pad_loop (update_raw [0x80] h);
          h2 = update_raw (be64 (len_bits h)) h1
      in octet_bytes (sha_h h2))"

definition hex_digest :: "bytes \<Rightarrow> str" where
  "hex_digest data = concat (List.map hex_byte (sha_finish (sha_update data sha_new)))"

section \<open>The reference\<close>

text \<open>FIPS 180-4: the functions of section 4.1.2, the schedule and the rounds of 6.2.2, the padding of 5.1.1.\<close>

definition sigma0 :: "u32 \<Rightarrow> u32" where "sigma0 x = rotate_right 7 x XOR rotate_right 18 x XOR drop_bit 3 x"
definition sigma1 :: "u32 \<Rightarrow> u32" where "sigma1 x = rotate_right 17 x XOR rotate_right 19 x XOR drop_bit 10 x"
definition Sigma0 :: "u32 \<Rightarrow> u32" where "Sigma0 x = rotate_right 2 x XOR rotate_right 13 x XOR rotate_right 22 x"
definition Sigma1 :: "u32 \<Rightarrow> u32" where "Sigma1 x = rotate_right 6 x XOR rotate_right 11 x XOR rotate_right 25 x"
definition Ch :: "u32 \<Rightarrow> u32 \<Rightarrow> u32 \<Rightarrow> u32" where "Ch x y z = (x AND y) XOR (NOT x AND z)"
definition Maj :: "u32 \<Rightarrow> u32 \<Rightarrow> u32 \<Rightarrow> u32" where "Maj x y z = (x AND y) XOR (x AND z) XOR (y AND z)"

fun W :: "bytes \<Rightarrow> nat \<Rightarrow> u32" where
  "W block t =
     (if t < 16 then of_be32 (take 4 (drop (4 * t) block))
      else sigma1 (W block (t - 2)) + W block (t - 7) + sigma0 (W block (t - 15)) + W block (t - 16))"

declare W.simps [simp del]

fun fips_rounds :: "bytes \<Rightarrow> nat \<Rightarrow> octet \<Rightarrow> octet" where
  "fips_rounds block 0 s = s"
| "fips_rounds block (Suc t) s =
     (case fips_rounds block t s of (a, b, c, d, e, f, g, h) \<Rightarrow>
        let T1 = h + Sigma1 e + Ch e f g + K_sha ! t + W block t;
            T2 = Sigma0 a + Maj a b c
        in (T1 + T2, a, b, c, d + T1, e, f, g))"

definition fips_block :: "octet \<Rightarrow> bytes \<Rightarrow> octet" where
  "fips_block s block = octet_add s (fips_rounds block 64 s)"

definition fips_pad :: "bytes \<Rightarrow> bytes" where
  "fips_pad m = m @ [0x80] @ replicate ((119 - length m mod 64) mod 64) 0 @ be64 (of_nat (length m * 8))"

definition fips_sha256 :: "bytes \<Rightarrow> bytes" where
  "fips_sha256 m = octet_bytes (fold_blocks fips_block (sha_h sha_new) (fips_pad m))"

section \<open>The schedule and the rounds\<close>

definition filled :: "bytes \<Rightarrow> nat \<Rightarrow> u32 list \<Rightarrow> bool" where
  "filled block n w \<longleftrightarrow> length w = 64 \<and> (\<forall>i < n. w ! i = W block i)"

lemma schedule_step_filled:
  assumes "filled block n w" and "16 \<le> n" and "n < 64"
  shows "filled block (Suc n) (schedule_step w n)"
proof -
  have "w ! (n - k) = W block (n - k)" if "0 < k" "k \<le> 16" for k
    using that assms by (simp add: filled_def)
  then have "schedule_step w n = w[n := W block n]"
    using assms(2) by (subst W.simps) (simp add: schedule_step_def sigma0_def sigma1_def Let_def algebra_simps)
  with assms show ?thesis by (simp add: filled_def nth_list_update less_Suc_eq)
qed

lemma schedule_filled: "filled block 64 (sha_schedule block)"
proof -
  let ?w = "List.map (\<lambda>i. of_be32 (take 4 (drop (i * 4) block))) [0..<16] @ replicate 48 0"
  have "filled block (16 + n) (foldl schedule_step ?w [16..<16 + n])" if "n \<le> 48" for n
    using that
  proof (induction n)
    case 0
    then show ?case by (simp add: filled_def nth_append W.simps mult.commute)
  next
    case (Suc n)
    then have "filled block (Suc (16 + n)) (schedule_step (foldl schedule_step ?w [16..<16 + n]) (16 + n))"
      by (intro schedule_step_filled) simp_all
    moreover have "[16..<16 + Suc n] = [16..<16 + n] @ [16 + n]"
      using upt_Suc_append [of 16 "16 + n"] by (simp only: add_Suc_right)
    ultimately show ?case by (simp only: foldl_append foldl.simps add_Suc_right)
  qed
  from this [of 48] show ?thesis by (simp add: sha_schedule_def)
qed

lemma rounds_eq: "n \<le> 64 \<Longrightarrow> foldl (sha_round (sha_schedule block)) s [0..<n] = fips_rounds block n s"
proof (induction n)
  case (Suc n)
  have "sha_schedule block ! n = W block n" using schedule_filled Suc.prems by (simp add: filled_def)
  with Suc show ?case
    by (cases "fips_rounds block n s")
      (simp add: sha_round_def Sigma0_def Sigma1_def Ch_def Maj_def Let_def)
qed simp

lemma compress_eq: "sha_compress = fips_block"
  by (simp add: fun_eq_iff sha_compress_def fips_block_def rounds_eq)

section \<open>The streaming state\<close>

text \<open>The state after absorbing a message, apart from the recorded length.\<close>

definition absorbed :: "sha256 \<Rightarrow> bytes \<Rightarrow> bool" where
  "absorbed h m \<longleftrightarrow>
     length (sha_buf h) = 64 \<and> buffered h = length m mod 64 \<and>
     sha_h h = fold_blocks sha_compress (sha_h sha_new) m \<and> take (length m mod 64) (sha_buf h) = partial m"

lemma absorbed_new: "absorbed sha_new []"
  by (simp add: absorbed_def sha_new_def partial_def)

lemma partial_short: "length (partial m) + length d < 64 \<Longrightarrow> partial (m @ d) = partial m @ d"
  by (subst partial_append) (simp add: partial_def)

lemma fold_blocks_whole: "fold_blocks f s (full m) = fold_blocks f s m"
  using fold_blocks_append [OF length_full, of f s m "partial m"] by (simp add: full_partial)

lemma update_absorbed:
  assumes "absorbed h m"
  shows "absorbed (sha_update d h) (m @ d)"
proof -
  let ?s = "sha_h sha_new"
  have h: "length (sha_buf h) = 64" "buffered h = length (partial m)" "sha_h h = fold_blocks sha_compress ?s m"
    "take (length (partial m)) (sha_buf h) = partial m" "length (partial m) = length m mod 64"
    using assms by (simp_all add: absorbed_def length_partial)
  have tail: "absorbed (g\<lparr>sha_h := fold_blocks sha_compress (sha_h g) (full e),
      sha_buf := copy_at 0 (partial e) (sha_buf g), buffered := length (partial e)\<rparr>) (m @ d)"
    if "length (sha_buf g) = 64" "fold_blocks sha_compress (sha_h g) e = fold_blocks sha_compress ?s (m @ d)"
      "partial e = partial (m @ d)" for g :: sha256 and e
  proof -
    have "length (partial (m @ d)) = length (m @ d) mod 64" by (rule length_partial)
    moreover have "length (partial (m @ d)) < 64" by simp
    ultimately show ?thesis using that by (simp add: absorbed_def fold_blocks_whole copy_at_def)
  qed
  show ?thesis
  proof (cases "buffered h = 0")
    case True
    then have p: "partial m = []" using h(2) by simp
    have "sha_update d h = (let g = h\<lparr>len_bits := len_bits h + of_nat (length d) * 8\<rparr> in
       g\<lparr>sha_h := fold_blocks sha_compress (sha_h g) (full d),
         sha_buf := copy_at 0 (partial d) (sha_buf g), buffered := length (partial d)\<rparr>)"
      using True by (simp add: sha_update_def)
    moreover have "fold_blocks sha_compress (sha_h h) d = fold_blocks sha_compress ?s (m @ d)"
      using fold_blocks_full [of sha_compress ?s m d] p h(3) by simp
    moreover have "partial d = partial (m @ d)" using partial_append [of m d] p by simp
    ultimately show ?thesis
      using tail [of "h\<lparr>len_bits := len_bits h + of_nat (length d) * 8\<rparr>" d] h(1) by (simp add: Let_def)
  next
    case False
    let ?n = "64 - length (partial m)"
    have b: "0 < length (partial m)" "length (partial m) < 64" using False h(2) by simp_all
    show ?thesis
    proof (cases "length d < ?n")
      case True
      have f: "fold_blocks sha_compress ?s (m @ d) = fold_blocks sha_compress ?s m"
        using fold_blocks_full [of sha_compress ?s m d] True by simp
      have "length (m @ d) mod 64 = length (partial m) + length d"
        using length_partial [of "m @ d"] partial_short [of m d] True by simp
      moreover have "sha_update d h = h\<lparr>len_bits := len_bits h + of_nat (length d) * 8,
          sha_buf := copy_at (length (partial m)) d (sha_buf h), buffered := length (partial m) + length d\<rparr>"
        using False True h(2) by (simp add: sha_update_def Let_def)
      ultimately show ?thesis
        using h True f partial_short [of m d] by (simp add: absorbed_def length_copy_at take_copy_at)
    next
      case full: False
      let ?b = "partial m @ take ?n d"
      let ?g = "h\<lparr>len_bits := len_bits h + of_nat (length d) * 8, sha_buf := ?b,
         buffered := 0, sha_h := sha_compress (sha_h h) ?b\<rparr>"
      have lb: "length ?b = 64" using b full unfolding length_append length_take by linarith
      have cp: "copy_at (length (partial m)) (take ?n d) (sha_buf h) = ?b"
        using h b full by (simp add: copy_at_def)
      have u: "sha_update d h = ?g\<lparr>sha_h := fold_blocks sha_compress (sha_h ?g) (full (drop ?n d)),
         sha_buf := copy_at 0 (partial (drop ?n d)) (sha_buf ?g), buffered := length (partial (drop ?n d))\<rparr>"
        using False full b h(2) cp by (simp add: sha_update_def Let_def)
      have "fold_blocks sha_compress ?s (m @ d) = fold_blocks sha_compress (sha_h h) (?b @ drop ?n d)"
        using h(3) fold_blocks_full [of sha_compress ?s m d] by simp
      then have f: "fold_blocks sha_compress (sha_h ?g) (drop ?n d) = fold_blocks sha_compress ?s (m @ d)"
        unfolding fold_blocks_block [OF lb] by simp
      have "partial (m @ d) = partial (?b @ drop ?n d)" using partial_append [of m d] by simp
      then have "partial (drop ?n d) = partial (m @ d)" using partial_blocks [of ?b "drop ?n d"] lb by (simp del: append_assoc)
      from tail [OF _ f this] lb show ?thesis unfolding u by simp
    qed
  qed
qed

lemma update_len_bits: "len_bits (sha_update d h) = len_bits h + of_nat (length d) * 8"
  by (simp add: sha_update_def Let_def)

lemma raw_absorbed:
  assumes "absorbed h m"
  shows "absorbed (raw_byte x h) (m @ [x])"
proof -
  let ?s = "sha_h sha_new" and ?p = "partial m"
  have h: "length (sha_buf h) = 64" "buffered h = length ?p" "sha_h h = fold_blocks sha_compress ?s m"
    "take (length ?p) (sha_buf h) = ?p" "length ?p = length m mod 64" "length ?p < 64"
    using assms length_partial_less [of m] by (simp_all add: absorbed_def length_partial)
  have u: "(sha_buf h)[length ?p := x] = ?p @ x # drop (Suc (length ?p)) (sha_buf h)"
    using h by (simp add: upd_conv_take_nth_drop)
  have f: "fold_blocks sha_compress ?s (m @ [x]) = fold_blocks sha_compress (sha_h h) (?p @ [x])"
    using h(3) fold_blocks_full [of sha_compress ?s m "[x]"] by simp
  show ?thesis
  proof (cases "length ?p = 63")
    case True
    then have l: "length (?p @ [x]) = 64" by simp
    have "length (m @ [x]) mod 64 = 0" using True h(5) by (simp add: mod_Suc)
    moreover have "fold_blocks sha_compress (sha_h h) ((?p @ [x]) @ []) = sha_compress (sha_h h) (?p @ [x])"
      by (subst fold_blocks_block [OF l]) simp
    ultimately show ?thesis
      using True h u f length_partial [of "m @ [x]"]
      by (simp add: absorbed_def raw_byte_def)
  next
    case False
    then have s: "length ?p + length [x] < 64" using h(6) unfolding list.size by linarith
    have "length (m @ [x]) mod 64 = Suc (length ?p)"
      using length_partial [of "m @ [x]"] partial_short [OF s] by simp
    moreover have "take (Suc (length ?p)) ((sha_buf h)[length ?p := x]) = ?p @ [x]" unfolding u by simp
    ultimately show ?thesis
      using False h f s partial_short [OF s] by (simp add: absorbed_def raw_byte_def)
  qed
qed

lemma update_raw_absorbed: "absorbed h m \<Longrightarrow> absorbed (update_raw d h) (m @ d)"
  unfolding update_raw_def
proof (induction d arbitrary: h m)
  case (Cons x d)
  from Cons.IH [OF raw_absorbed [OF Cons.prems, of x]] show ?case by simp
qed simp

lemma pad_loop_absorbed:
  "absorbed h m \<Longrightarrow> absorbed (pad_loop h) (m @ replicate ((120 - length m mod 64) mod 64) 0)"
proof (induction h arbitrary: m rule: pad_loop.induct)
  case (1 h)
  then have b: "buffered h = length m mod 64" by (simp add: absorbed_def)
  show ?case
  proof (cases "buffered h = 56")
    case True
    with 1 b show ?thesis by (simp add: pad_loop.simps [of h])
  next
    case False
    have g: "\<not> (buffered h = 56 \<or> 64 \<le> buffered h)" using False b by simp
    from "1.IH" [OF g update_raw_absorbed [OF "1.prems"]]
    have a: "absorbed (pad_loop h) (m @ 0 # replicate ((120 - length (m @ [0]) mod 64) mod 64) 0)"
      using g by (simp add: pad_loop.simps [of h])
    define r where "r = length m mod 64"
    have r: "r < 64" "r \<noteq> 56" "length (m @ [0 :: u8]) mod 64 = (if r = 63 then 0 else Suc r)"
      using False b by (simp_all add: r_def mod_Suc)
    then have "(120 - r) mod 64 = Suc ((120 - length (m @ [0 :: u8]) mod 64) mod 64)"
      by (cases "r < 56") (auto simp: mod_if)
    with a show ?thesis unfolding r_def by simp
  qed
qed

lemma finish_absorbed:
  assumes "absorbed h m" and "len_bits h = of_nat (length m * 8)"
  shows "sha_finish h = fips_sha256 m"
proof -
  define z where "z = (120 - length (m @ [0x80 :: u8]) mod 64) mod 64"
  have "absorbed (update_raw (be64 (len_bits h)) (pad_loop (update_raw [0x80] h)))
      (((m @ [0x80]) @ replicate z 0) @ be64 (len_bits h))"
    unfolding z_def by (intro update_raw_absorbed pad_loop_absorbed assms)
  moreover have "z = (119 - length m mod 64) mod 64"
  proof (cases "length m mod 64 = 63")
    case True then show ?thesis by (simp add: z_def mod_Suc)
  next
    case False then show ?thesis by (simp add: z_def mod_Suc)
  qed
  ultimately show ?thesis
    by (simp add: sha_finish_def absorbed_def fips_sha256_def fips_pad_def compress_eq assms(2) Let_def)
qed

lemma updates_absorbed:
  "absorbed (fold sha_update ds sha_new) (concat ds) \<and>
    len_bits (fold sha_update ds sha_new) = of_nat (length (concat ds) * 8)"
proof (induction ds rule: rev_induct)
  case (snoc d ds)
  then show ?case
    using update_absorbed [of "fold sha_update ds sha_new" "concat ds" d]
    by (simp add: update_len_bits algebra_simps)
qed (simp add: absorbed_new, simp add: sha_new_def)

lemma length_octet_bytes: "length (octet_bytes q) = 32"
  by (cases q rule: octet_bytes.cases) simp

lemma finish_updates: "sha_finish (fold sha_update ds sha_new) = fips_sha256 (concat ds)"
  using finish_absorbed updates_absorbed by blast

lemma hex_digest_fips: "hex_digest d = concat (List.map hex_byte (fips_sha256 d))"
  using finish_updates [of "[d]"] by (simp add: hex_digest_def)

lemma hex_digest_length: "length (hex_digest d) = 64"
proof -
  have "length (fips_sha256 d) = 32" by (simp add: fips_sha256_def length_octet_bytes)
  moreover have "length (concat (List.map hex_byte bs)) = 2 * length bs" for bs
    by (induction bs) (simp_all add: hex_byte_def)
  ultimately show ?thesis by (simp add: hex_digest_fips)
qed

section \<open>Properties\<close>

text \<open>
  C18. The digest is SHA-256: however a message is cut into updates, empty ones and ones that do not
  fill the buffer included, the implementation computes what FIPS 180-4 defines for the whole
  message; and the digest of a file is its 64 lower-case hexadecimal digits.
\<close>

theorem sha256_correct:
  "sha_finish (fold sha_update ds sha_new) = fips_sha256 (concat ds) \<and>
    hex_digest d = concat (List.map hex_byte (fips_sha256 d)) \<and> length (hex_digest d) = 64"
  using finish_updates hex_digest_fips hex_digest_length by blast

end
