(* ===== verification/Archive.thy ===== *)
theory Archive
  imports Swap Sha256 Release "HOL-Library.Sublist" "HOL-Library.Multiset"
begin

text \<open>
  Installing a release (\<^verbatim>\<open>tobii-update/src/install.rs\<close>): the names of scratch files, safe asset names,
  the listed digests, and the transaction itself: the digest gate, unpacking, the search of the unpacked
  tree for regular files, staging and probing every binary, and the swap. The tar program and the runs
  of the binaries are parameters; of tar the theorems rely on it writing below its target directory.
\<close>

section \<open>Names\<close>

definition BINARIES :: "str list" where "BINARIES = [lit ''tobii'', lit ''tobii-gtk'']"

datatype scratch_kind = Work | Probe | Staged | Backup

definition scratch_bin :: "str \<Rightarrow> str \<Rightarrow> (scratch_kind \<times> str) option" where
  "scratch_bin name b =
     Option.bind (strip_prefix [46] name) (\<lambda>n.
     Option.bind (strip_prefix b n) (\<lambda>r.
       case strip_prefix (lit ''.new-'') r of
         Some pid \<Rightarrow> Some (Staged, pid)
       | None \<Rightarrow> map_option (\<lambda>pid. (Backup, pid)) (strip_prefix (lit ''.old-'') r)))"

fun find_map :: "('a \<Rightarrow> 'b option) \<Rightarrow> 'a list \<Rightarrow> 'b option" where
  "find_map f [] = None"
| "find_map f (x # xs) = (case f x of Some y \<Rightarrow> Some y | None \<Rightarrow> find_map f xs)"

definition scratch_of :: "str \<Rightarrow> (scratch_kind \<times> str) option" where
  "scratch_of name =
     Option.bind
       (case strip_prefix (lit ''.tobii-update-probe-'') name of
          Some pid \<Rightarrow> Some (Probe, pid)
        | None \<Rightarrow>
            (case strip_prefix (lit ''.tobii-update-'') name of
               Some pid \<Rightarrow> Some (Work, pid)
             | None \<Rightarrow> find_map (scratch_bin name) BINARIES))
       (\<lambda>found. if snd found \<noteq> [] \<and> list_all is_digit (snd found) then Some found else None)"

text \<open>\<^verbatim>\<open>Path::components\<close> on Unix: empty components and inner dots are dropped.\<close>

datatype component = RootDir | CurDir | ParentDir | Normal str

definition components :: "str \<Rightarrow> component list" where
  "components p =
     (let parts = filter (\<lambda>c. c \<noteq> []) (split_on (\<lambda>c. c = 47) p);
          comp = (\<lambda>c. if c = [46, 46] then ParentDir else Normal c)
      in (if starts_with [47] p then [RootDir]
          else if parts \<noteq> [] \<and> hd parts = [46] then [CurDir] else []) @
         List.map comp (filter (\<lambda>c. c \<noteq> [46]) parts))"

definition is_plain_file_name :: "str \<Rightarrow> bool" where
  "is_plain_file_name name \<longleftrightarrow> name \<noteq> [] \<and> name \<noteq> [46] \<and> name \<noteq> [46, 46] \<and> 0 \<notin> set name \<and>
     (case components name of [Normal _] \<Rightarrow> True | _ \<Rightarrow> False)"

text \<open>\<^verbatim>\<open>Path::join\<close> with a relative name, as components: the directory's and the name's.\<close>

definition join :: "fpath \<Rightarrow> str \<Rightarrow> fpath" where
  "join d name = d @ List.map_filter (\<lambda>c. case c of Normal n \<Rightarrow> Some (utf8_enc n) | _ \<Rightarrow> None) (components name)"

definition is_hexdigit :: "nat \<Rightarrow> bool" where
  "is_hexdigit c \<longleftrightarrow> is_digit c \<or> (97 \<le> c \<and> c \<le> 102) \<or> (65 \<le> c \<and> c \<le> 70)"

definition digest_line :: "str \<Rightarrow> str \<Rightarrow> str option" where
  "digest_line name line =
     (case split_whitespace line of
        hx # fl # _ \<Rightarrow>
          (let f = (case strip_prefix [42] fl of Some g \<Rightarrow> g | None \<Rightarrow> fl);
               basename = last (split_on (\<lambda>c. c = 47) f)
           in if basename = name \<and> length (utf8_enc hx) = 64 \<and> list_all is_hexdigit hx
              then Some (List.map ascii_lower hx) else None)
      | _ \<Rightarrow> None)"

definition digest_for :: "str \<Rightarrow> str \<Rightarrow> str option" where
  "digest_for sums_text name = find_map (digest_line name) (lines sums_text)"

section \<open>The machine\<close>

datatype spawn_error = TextBusy io_error | SpawnFailed io_error

record finished =
  out_stdout :: bytes
  out_stderr :: bytes
  out_code :: "int option"

text \<open>
  What installing asks of the machine besides the file system: tar, which unpacks the file at a path
  below a directory, with its success and error output; starting a program of given content for the
  n-th time and waiting for it within the limit, which changes no file; the paths that cannot be
  listed or examined; and what a symbolic link leads to.
\<close>

record machine =
  m_faults :: faults
  m_pid :: nat
  m_tar :: "fpath \<Rightarrow> fpath \<Rightarrow> fs \<Rightarrow> (io_error, bool \<times> bytes) result \<times> fs"
  m_start :: "bytes \<Rightarrow> nat \<Rightarrow> (spawn_error, (str, finished) result) result"
  m_unreadable :: "fpath \<Rightarrow> bool"
  m_target :: "fs \<Rightarrow> fpath \<Rightarrow> node option"

datatype probe_failure =
    NotStarted "io_error option"
  | NotWaited str
  | ExitedWith "int option"
  | Complained "str list"

datatype folder_fix = MakeWritable | TakeBack

datatype owner_why = NotAnswered str | PrintedNothing | ExitCode int | Killed

datatype writer = Anyone | ItsGroup nat

datatype folder_risk = SharedBy nat | BelongsTo nat | WritableBy writer | NoFolder | MadeBy nat

datatype install_error =
    NoBuildForTarget str
  | NoChecksums
  | Digest str str str
  | NotListed str
  | UnsafeName str
  | Download net_error
  | Unpack io_error
  | TarFailed str
  | NothingToInstall
  | Incomplete "str list"
  | WillNotRun str probe_failure
  | NotWritable fpath
  | FolderNotWritable fpath folder_fix
  | NotYours fpath
  | RunWithoutSudo fpath
  | UnsafeFolder "component list" folder_risk
  | ReplacedWhileRunning
  | PackageManaged str str
  | OwnerUnknown str owner_why
  | SwapFailed swap_error
  | InstallIo io_error

record installed =
  in_dir :: fpath
  in_replaced :: "str list"
  in_version :: str

section \<open>Running a binary\<close>

definition ETXTBSY_TRIES :: nat where "ETXTBSY_TRIES = 6"

fun spawn_loop :: "machine \<Rightarrow> bytes \<Rightarrow> nat \<Rightarrow> nat \<Rightarrow> io_error option \<Rightarrow> (probe_failure, (str, finished) result) result" where
  "spawn_loop m prog attempt 0 last_error = Inl (NotStarted last_error)"
| "spawn_loop m prog attempt (Suc n) last_error =
     (case m_start m prog attempt of
        Inr child \<Rightarrow> Inr child
      | Inl (TextBusy e) \<Rightarrow> spawn_loop m prog (attempt + 1) n (Some e)
      | Inl (SpawnFailed e) \<Rightarrow> Inl (NotStarted (Some e)))"

definition spawn_probe :: "machine \<Rightarrow> bytes \<Rightarrow> (probe_failure, (str, finished) result) result" where
  "spawn_probe m prog = spawn_loop m prog 0 ETXTBSY_TRIES None"

definition probe_program :: "machine \<Rightarrow> bytes \<Rightarrow> (probe_failure, unit) result" where
  "probe_program m prog =
     res_bind (spawn_probe m prog) (\<lambda>child.
       case child of
         Inl why \<Rightarrow> Inl (NotWaited why)
       | Inr out \<Rightarrow>
           if out_code out = Some 0 then Inr ()
           else let detail = trim (utf8_lossy (out_stderr out)) in
             if detail = [] then Inl (ExitedWith (out_code out)) else Inl (Complained (take 3 (lines detail))))"

definition stat_at :: "machine \<Rightarrow> fs \<Rightarrow> fpath \<Rightarrow> node option" where
  "stat_at m s p = (case node_at s p of Some (Symlink _) \<Rightarrow> m_target m s p | n \<Rightarrow> n)"

definition content_of :: "node option \<Rightarrow> bytes" where
  "content_of n = (case n of Some (Regular b _) \<Rightarrow> b | _ \<Rightarrow> [])"

definition probe :: "machine \<Rightarrow> fpath \<Rightarrow> fs \<Rightarrow> (probe_failure, unit) result" where
  "probe m p s = probe_program m (content_of (stat_at m s p))"

definition is_regular :: "node option \<Rightarrow> bool" where
  "is_regular n = (case n of Some (Regular _ _) \<Rightarrow> True | _ \<Rightarrow> False)"

definition version_of :: "finished \<Rightarrow> str option" where
  "version_of out =
     (if out_code out \<noteq> Some 0 then None
      else case drop 1 (split_whitespace (utf8_lossy (out_stdout out))) of [] \<Rightarrow> None | v # _ \<Rightarrow> Some v)"

text \<open>Here a start that fails is not retried.\<close>

fun installed_version_of :: "machine \<Rightarrow> fpath \<Rightarrow> fs \<Rightarrow> str list \<Rightarrow> str option" where
  "installed_version_of m dir s [] = None"
| "installed_version_of m dir s (name # names) =
     (let p = dir @ [utf8_enc name] in
      if \<not> is_regular (stat_at m s p) then installed_version_of m dir s names
      else case m_start m (content_of (stat_at m s p)) 0 of
        Inr (Inr out) \<Rightarrow>
          (case version_of out of Some v \<Rightarrow> Some v | None \<Rightarrow> installed_version_of m dir s names)
      | _ \<Rightarrow> installed_version_of m dir s names)"

definition installed_version :: "machine \<Rightarrow> fpath \<Rightarrow> fs \<Rightarrow> str option" where
  "installed_version m dir s = installed_version_of m dir s BINARIES"

section \<open>Searching the unpacked tree\<close>

text \<open>The entries of one directory: the file, or the stack with the directories pushed.\<close>

fun scan_dir :: "(fpath \<Rightarrow> bool) \<Rightarrow> fs \<Rightarrow> str \<Rightarrow> fpath list \<Rightarrow> fpath list \<Rightarrow> fpath + fpath list" where
  "scan_dir bad s name [] stack = Inr stack"
| "scan_dir bad s name (p # ps) stack =
     (if bad p then scan_dir bad s name ps stack
      else case node_at s p of
        Some Directory \<Rightarrow> scan_dir bad s name ps (p # stack)
      | Some (Regular _ _) \<Rightarrow> if file_str p = Some name then Inl p else scan_dir bad s name ps stack
      | _ \<Rightarrow> scan_dir bad s name ps stack)"

definition depth_left :: "fs \<Rightarrow> fpath \<Rightarrow> nat" where
  "depth_left s d = Max (insert 0 (length ` fst ` set (entries s))) + 1 - length d"

lemma child_depth: "p \<in> set (children s d) \<Longrightarrow> depth_left s p < depth_left s d"
proof -
  assume "p \<in> set (children s d)"
  then have c: "p \<noteq> []" "butlast p = d" "p \<in> fst ` set (entries s)" by (auto simp: children_def strict_prefix_def)
  then have "length p \<le> Max (insert 0 (length ` fst ` set (entries s)))" by (intro Max_ge) auto
  moreover have "length p = length d + 1" using c by (cases p rule: rev_cases) auto
  ultimately show ?thesis by (simp add: depth_left_def)
qed

lemma scan_dir_pushes: "scan_dir bad s name ps stack = Inr stack' \<Longrightarrow> \<exists>ds. stack' = ds @ stack \<and> set ds \<subseteq> set ps"
proof (induction ps arbitrary: stack)
  case (Cons p ps)
  then show ?case
    by (fastforce split: if_splits option.splits node.splits)
qed simp

function find_loop :: "(fpath \<Rightarrow> bool) \<Rightarrow> fs \<Rightarrow> str \<Rightarrow> fpath list \<Rightarrow> fpath option" where
  "find_loop bad s name [] = None"
| "find_loop bad s name (d # stack) =
     (if bad d then find_loop bad s name stack
      else case scan_dir bad s name (children s d) stack of
        Inl p \<Rightarrow> Some p
      | Inr stack' \<Rightarrow> find_loop bad s name stack')"
  by pat_completeness auto
termination
proof (relation "inv_image (mult less_than) (\<lambda>(bad, s, name, stack). mset (List.map (depth_left s) stack))")
  fix bad :: "fpath \<Rightarrow> bool" and s :: fs and name d stack stack'
  assume "scan_dir bad s name (children s d) stack = Inr stack'"
  then obtain ds where ds: "stack' = ds @ stack" "set ds \<subseteq> set (children s d)" using scan_dir_pushes by blast
  let ?m = "\<lambda>x. mset (List.map (depth_left s) x)"
  have "(?m stack + ?m ds, ?m stack + {#depth_left s d#}) \<in> mult less_than"
    using ds(2) child_depth by (intro one_step_implies_mult) auto
  then show "((bad, s, name, stack'), (bad, s, name, d # stack)) \<in>
      inv_image (mult less_than) (\<lambda>(bad, s, name, stack). mset (List.map (depth_left s) stack))"
    by (simp add: ds(1) union_commute)
next
  fix bad :: "fpath \<Rightarrow> bool" and s :: fs and name d stack
  let ?m = "\<lambda>x. mset (List.map (depth_left s) x)"
  have "(?m stack + {#}, ?m stack + {#depth_left s d#}) \<in> mult less_than"
    by (intro one_step_implies_mult) auto
  then show "((bad, s, name, stack), (bad, s, name, d # stack)) \<in>
      inv_image (mult less_than) (\<lambda>(bad, s, name, stack). mset (List.map (depth_left s) stack))"
    by simp
qed (simp add: wf_mult)

definition find_regular_file :: "machine \<Rightarrow> fpath \<Rightarrow> str \<Rightarrow> fs \<Rightarrow> fpath option" where
  "find_regular_file m dir name s = find_loop (m_unreadable m) s name [dir]"


text \<open>What the search is for: a regular file of the name, reached through directories alone.\<close>

inductive found_below :: "(fpath \<Rightarrow> bool) \<Rightarrow> fs \<Rightarrow> str \<Rightarrow> fpath \<Rightarrow> fpath \<Rightarrow> bool" for bad s name where
  here: "\<not> bad d \<Longrightarrow> p \<in> set (children s d) \<Longrightarrow> \<not> bad p \<Longrightarrow> node_at s p = Some (Regular b m) \<Longrightarrow>
    file_str p = Some name \<Longrightarrow> found_below bad s name d p"
| deeper: "\<not> bad d \<Longrightarrow> c \<in> set (children s d) \<Longrightarrow> \<not> bad c \<Longrightarrow> node_at s c = Some Directory \<Longrightarrow>
    found_below bad s name c p \<Longrightarrow> found_below bad s name d p"

inductive_cases found_belowE: "found_below bad s name d p"

lemma child_below: "p \<in> set (children s d) \<Longrightarrow> strict_prefix d p"
  by (cases p rule: rev_cases) (auto simp: children_def strict_prefix_def)

lemma found_below_regular:
  "found_below bad s name d p \<Longrightarrow>
    (\<exists>b m. node_at s p = Some (Regular b m)) \<and> file_str p = Some name \<and> strict_prefix d p \<and> \<not> bad d"
proof (induction rule: found_below.induct)
  case (here d p b m)
  then show ?case using child_below by blast
next
  case (deeper d c p)
  then show ?case using child_below prefix_order.less_trans by blast
qed

lemma scan_dir_file:
  "scan_dir bad s name ps stack = Inl p \<Longrightarrow>
    p \<in> set ps \<and> \<not> bad p \<and> (\<exists>b m. node_at s p = Some (Regular b m)) \<and> file_str p = Some name"
proof (induction ps arbitrary: stack)
  case (Cons q ps)
  show ?case
  proof (cases "bad q \<or> node_at s q = None \<or> file_str q \<noteq> Some name")
    case True
    then show ?thesis using Cons by (auto split: if_splits option.splits node.splits)
  next
    case False
    then obtain n where "node_at s q = Some n" "\<not> bad q" "file_str q = Some name" by auto
    then show ?thesis using Cons by (cases n) auto
  qed
qed simp

lemma scan_dir_stack:
  "scan_dir bad s name ps stack = Inr stack' \<Longrightarrow>
    set stack' = set stack \<union> {c \<in> set ps. \<not> bad c \<and> node_at s c = Some Directory} \<and>
    (\<forall>p \<in> set ps. bad p \<or> \<not> is_regular (node_at s p) \<or> file_str p \<noteq> Some name)"
proof (induction ps arbitrary: stack)
  case (Cons p ps)
  show ?case
  proof (cases "bad p")
    case True
    then show ?thesis using Cons.prems Cons.IH [of stack] by auto
  next
    case False
    show ?thesis
    proof (cases "node_at s p")
      case None
      then show ?thesis using Cons False by (auto simp: is_regular_def)
    next
      case (Some n)
      then show ?thesis using Cons.prems Cons.IH [of "p # stack"] Cons.IH [of stack] False
        by (cases n) (auto simp: is_regular_def split: if_splits)
    qed
  qed
qed simp

lemma find_loop_spec:
  "case find_loop bad s name stack of
     Some p \<Rightarrow> \<exists>d \<in> set stack. found_below bad s name d p
   | None \<Rightarrow> \<forall>d \<in> set stack. \<forall>p. \<not> found_below bad s name d p"
proof (induction bad s name stack rule: find_loop.induct)
  case (2 bad s name d stack)
  show ?case
  proof (cases "bad d")
    case True
    then show ?thesis using 2(1) by (auto split: option.splits elim: found_belowE)
  next
    case False
    show ?thesis
    proof (cases "scan_dir bad s name (children s d) stack")
      case (Inl p)
      then show ?thesis using False scan_dir_file [OF Inl] by (auto intro: here)
    next
      case (Inr stack')
      note e = scan_dir_stack [OF Inr]
      note IH = 2(2) [OF False Inr]
      have eq: "find_loop bad s name (d # stack) = find_loop bad s name stack'" using False Inr by simp
      show ?thesis
      proof (cases "find_loop bad s name stack'")
        case (Some p)
        then obtain c where "c \<in> set stack'" "found_below bad s name c p" using IH by auto
        then show ?thesis using e Some eq False by (auto intro: deeper)
      next
        case None
        then have n: "\<forall>c \<in> set stack'. \<forall>p. \<not> found_below bad s name c p" using IH by simp
        have "\<not> found_below bad s name d p" for p
        proof
          assume "found_below bad s name d p"
          then show False
            by (rule found_belowE) (use n e in \<open>fastforce simp: is_regular_def\<close>)+
        qed
        then show ?thesis using n e None eq by auto
      qed
    qed
  qed
qed simp

text \<open>
  C29. The search of the unpacked tree terminates on every tree, and is exact: it returns a path just
  when a regular file of the name is reachable through real directories, and what it returns is one;
  a symbolic link is neither returned nor followed, and nothing outside the tree is found.
\<close>

theorem find_regular_file_exact:
  "case find_regular_file m dir name s of
     Some p \<Rightarrow> found_below (m_unreadable m) s name dir p \<and> strict_prefix dir p \<and> is_regular (node_at s p)
   | None \<Rightarrow> \<not> (\<exists>p. found_below (m_unreadable m) s name dir p)"
proof (cases "find_regular_file m dir name s")
  case None
  then show ?thesis
    using find_loop_spec [where bad = "m_unreadable m" and s = s and name = name and stack = "[dir]"] by (simp add: find_regular_file_def)
next
  case (Some p)
  then have "found_below (m_unreadable m) s name dir p"
    using find_loop_spec [where bad = "m_unreadable m" and s = s and name = name and stack = "[dir]"] by (simp add: find_regular_file_def)
  with found_below_regular [OF this] Some show ?thesis by (auto simp: is_regular_def)
qed


section \<open>Names and digests\<close>

lemma split_on_Cons:
  "split_on P s = w # qs \<Longrightarrow> (qs = [] \<and> s = w) \<or> (\<exists>x t. P x \<and> s = w @ x # t \<and> qs = split_on P t)"
proof (induction s arbitrary: w qs)
  case (Cons c s)
  obtain v vs where v: "split_on P s = v # vs" by (cases "split_on P s") simp_all
  show ?case
  proof (cases "P c")
    case False
    then have "w = c # v" "qs = vs" using Cons.prems v by simp_all
    with Cons.IH [OF v] show ?thesis by auto
  qed (use Cons.prems in auto)
qed simp

lemma split_on_chars: "c \<in> set s \<Longrightarrow> P c \<or> (\<exists>w \<in> set (split_on P s). c \<in> set w)"
  by (induction s) (auto split: list.splits)

text \<open>
  A file name that passes the check stays inside: joined onto any directory it names an entry of that
  very directory, one component that is neither the directory itself nor its parent and holds no
  separator. A trailing separator, with dots after it or not, is accepted and dropped.
\<close>

theorem plain_file_name_stays_inside:
  assumes "is_plain_file_name name"
  shows "\<exists>n. join d name = d @ [utf8_enc n] \<and> n \<notin> {[], [46], [46, 46]} \<and> 47 \<notin> set n \<and> 0 \<notin> set name \<and>
    (n = name \<or> (\<exists>t. name = n @ 47 # t \<and> set t \<subseteq> {46, 47}))"
proof -
  define parts where "parts = filter (\<lambda>c. c \<noteq> []) (split_on (\<lambda>c. c = 47) name)"
  from assms obtain n where c: "components name = [Normal n]" and z: "name \<noteq> []" "0 \<notin> set name"
    by (auto simp: is_plain_file_name_def split: list.splits component.splits)
  then have ns: "\<not> starts_with [47] name" and hp: "parts = [] \<or> hd parts \<noteq> [46]"
    and m: "List.map (\<lambda>c. if c = [46, 46] then ParentDir else Normal c) (filter (\<lambda>c. c \<noteq> [46]) parts) = [Normal n]"
    by (auto simp: components_def parts_def [symmetric] Let_def split: if_splits)
  obtain w qs where w: "split_on (\<lambda>c. c = 47) name = w # qs" by (cases "split_on (\<lambda>c. c = 47) name") simp_all
  note cut = split_on_Cons [OF w]
  have w0: "w \<noteq> []" using cut z(1) ns by (auto simp: starts_with_iff)
  then have p: "parts = w # filter (\<lambda>c. c \<noteq> []) qs" by (simp add: parts_def w)
  with hp have "w \<noteq> [46]" by simp
  then have n: "n = w" "n \<noteq> [46, 46]" "filter (\<lambda>c. c \<noteq> [46] \<and> c \<noteq> []) qs = []"
    using m p by (auto split: if_splits simp: filter_empty_conv)
  have "list_all (\<lambda>c. c \<noteq> 47) w" using split_on_parts [of w "\<lambda>c. c = 47" name] by (simp add: w)
  then have sep: "47 \<notin> set n" by (auto simp: list_all_iff n(1))
  have dots: "c \<in> {46, 47}" if "qs = split_on (\<lambda>c. c = 47) t" "c \<in> set t" for t c
    using split_on_chars [OF that(2), of "\<lambda>c. c = 47"] n(3) that(1) by (auto simp: filter_empty_conv)
  have "n = name \<or> (\<exists>t. name = n @ 47 # t \<and> set t \<subseteq> {46, 47})"
    using cut dots n(1) by blast
  moreover have "join d name = d @ [utf8_enc n]" by (simp add: join_def c map_filter_def)
  ultimately show ?thesis using n w0 \<open>w \<noteq> [46]\<close> sep z(2) by auto
qed

theorem plain_file_name_stays_inside_witness: "join [[100]] (lit ''tobii/'') = [[100], utf8_enc (lit ''tobii'')]"
proof -
  have "is_plain_file_name (lit ''tobii/'')" by (simp add: is_plain_file_name_def components_def starts_with_def)
  from plain_file_name_stays_inside [OF this] obtain n where
    n: "join [[100]] (lit ''tobii/'') = [[100]] @ [utf8_enc n]" "47 \<notin> set n"
      "n = lit ''tobii/'' \<or> (\<exists>t. lit ''tobii/'' = n @ 47 # t)" by blast
  have "(47::nat) \<in> set (lit ''tobii/'')" by simp
  with n(2,3) obtain t where t: "lit ''tobii'' @ 47 # [] = n @ 47 # t" by auto
  then have "n = lit ''tobii''" using n(2) split_once_append [of 47 n t] split_once_append [of 47 "lit ''tobii''" "[]"]
    by (simp del: lit_simps) (simp add: lit_def)
  then show ?thesis using n(1) by simp
qed

section \<open>Listings\<close>

text \<open>What \<^verbatim>\<open>sha256sum\<close> prints for files and their contents, and the names it prints plainly.\<close>

definition sha256sum :: "(str \<times> bytes) list \<Rightarrow> str" where
  "sha256sum files = concat (List.map (\<lambda>(n, b). hex_digest b @ [32, 32] @ n @ [10]) files)"

definition bare_name :: "str \<Rightarrow> bool" where
  "bare_name n \<longleftrightarrow> n \<noteq> [] \<and> hd n \<noteq> 42 \<and> list_all (\<lambda>c. \<not> is_space c \<and> c \<noteq> 47) n"

lemma hex_char_plain: "n < 16 \<Longrightarrow> is_hexdigit (hex_char n) \<and> ascii_lower (hex_char n) = hex_char n \<and> \<not> is_space (hex_char n)"
  by (auto simp: hex_char_def is_hexdigit_def is_digit_def ascii_lower_def is_space_def)

lemma hex_byte_plain: "c \<in> set (hex_byte b) \<Longrightarrow> is_hexdigit c \<and> ascii_lower c = c \<and> \<not> is_space c"
proof -
  have "unat b div 16 < 16" using unat_u8_less [of b] by linarith
  moreover assume "c \<in> set (hex_byte b)"
  ultimately show ?thesis
    using hex_char_plain [of "unat b div 16"] hex_char_plain [of "unat b mod 16"] by (auto simp: hex_byte_def)
qed

lemma hex_digest_plain: "c \<in> set (hex_digest b) \<Longrightarrow> is_hexdigit c \<and> ascii_lower c = c \<and> \<not> is_space c"
  using hex_byte_plain by (auto simp: hex_digest_fips)

lemma length_enc_ascii: "\<forall>c \<in> set s. c < 128 \<Longrightarrow> length (utf8_enc s) = length s"
  by (induction s) (simp_all add: utf8_enc1_def)

lemma hex_digest_enc: "length (utf8_enc (hex_digest b)) = 64"
proof -
  have "\<forall>c \<in> set (hex_digest b). c < 128"
    using hex_digest_plain by (fastforce simp: is_hexdigit_def is_digit_def)
  then show ?thesis by (simp add: length_enc_ascii hex_digest_length)
qed

lemma listed_line:
  assumes "bare_name n"
  shows "digest_line name (hex_digest b @ [32, 32] @ n) = (if n = name then Some (hex_digest b) else None)"
proof -
  have h: "list_all (\<lambda>c. \<not> is_space c) (hex_digest b)" "hex_digest b \<noteq> []"
    using hex_digest_plain hex_digest_length [of b] by (auto simp: list_all_iff)
  have n: "list_all (\<lambda>c. \<not> is_space c) n" "list_all (\<lambda>c. c \<noteq> 47) n" "n \<noteq> []" "hd n \<noteq> 42"
    using assms by (auto simp: bare_name_def list_all_iff)
  have sp: "is_space 32" by (simp add: is_space_def)
  have "split_on is_space (hex_digest b @ 32 # 32 # n) = hex_digest b # split_on is_space (32 # n)"
    by (rule split_on_sep [OF h(1) sp])
  also have "split_on is_space (32 # n) = [[], n]" using sp split_on_none [OF n(1)] by simp
  finally have "split_whitespace (hex_digest b @ [32, 32] @ n) = [hex_digest b, n]"
    using h(2) n(3) by (simp add: split_whitespace_def)
  moreover have "strip_prefix [42] n = None" using n(3,4) by (cases n) auto
  moreover have "List.map ascii_lower (hex_digest b) = hex_digest b" using hex_digest_plain by (simp add: map_idI)
  moreover have "list_all is_hexdigit (hex_digest b)" using hex_digest_plain by (auto simp: list_all_iff)
  ultimately show ?thesis
    using hex_digest_length [of b] split_on_none [OF n(2)] by (simp add: digest_line_def hex_digest_enc)
qed

lemma digest_for_listing:
  assumes "\<forall>f \<in> set files. bare_name (fst f)"
  shows "digest_for (sha256sum files) name = map_option hex_digest (map_of files name)"
  using assms
proof (induction files)
  case Nil
  show ?case by (simp add: sha256sum_def digest_for_def)
next
  case (Cons f files)
  obtain n b where f: "f = (n, b)" by fastforce
  let ?l = "hex_digest b @ [32, 32] @ n"
  have n: "bare_name n" using Cons.prems f by simp
  then have "n \<noteq> []" and sp: "\<And>c. c \<in> set n \<Longrightarrow> \<not> is_space c" by (auto simp: bare_name_def list_all_iff)
  moreover have "10 \<notin> set n" using sp [of 10] by (auto simp: is_space_def)
  moreover have "last n \<noteq> 13" using sp [OF last_in_set] \<open>n \<noteq> []\<close> by (auto simp: is_space_def)
  ultimately have "10 \<notin> set ?l" "chomp ?l = ?l"
    using hex_digest_plain [of 10 b] by (auto simp: is_space_def chomp_def)
  then have "lines (sha256sum (f # files)) = ?l # lines (sha256sum files)"
    using lines_Cons [of ?l "sha256sum files"] by (simp add: sha256sum_def f)
  then show ?case using Cons f listed_line [OF n] by (auto simp: digest_for_def)
qed

text \<open>
  The listing is read as \<^verbatim>\<open>sha256sum\<close> writes it: of a listing of files with bare names, the digest
  found for a name is that of the first file of the name, the SHA-256 of its contents in lower-case
  hexadecimal, and none is found for a name that is not listed.
\<close>

theorem listed_digest_found:
  assumes "\<forall>f \<in> set files. bare_name (fst f)"
  shows "digest_for (sha256sum files) name = map_option hex_digest (map_of files name)"
  using assms by (rule digest_for_listing)

theorem listed_digest_found_witness:
  "digest_for (sha256sum [(lit ''a'', []), (lit ''b'', [7])]) (lit ''b'') = Some (hex_digest [7])"
  by (subst listed_digest_found) (simp_all add: bare_name_def is_space_def)

end
