(* ===== verification/Install.thy ===== *)
theory Install
  imports Archive
begin

text \<open>
  The installation of a downloaded archive (\<open>install_verified_archive\<close> of
  \<^verbatim>\<open>tobii-update/src/install.rs\<close>): the digest gate, unpacking, staging and probing a copy of every
  binary, and the swap. The theorem is about every outcome, under every failure of a system call.
\<close>

section \<open>Staging\<close>

definition work_of :: "machine \<Rightarrow> fpath \<Rightarrow> fpath" where
  "work_of m d = d @ [utf8_enc (lit ''.tobii-update-'' @ decimal (m_pid m))]"

definition target_of :: "fpath \<Rightarrow> str \<Rightarrow> fpath" where
  "target_of d name = d @ [utf8_enc name]"

definition staging_of :: "machine \<Rightarrow> fpath \<Rightarrow> str \<Rightarrow> fpath" where
  "staging_of m d name = d @ [utf8_enc (lit ''.'' @ name @ lit ''.new-'' @ decimal (m_pid m))]"

definition set_executable :: "machine \<Rightarrow> fpath \<Rightarrow> fs \<Rightarrow> (install_error, unit) result \<times> fs" where
  "set_executable m p s =
     (case fs_stat (m_faults m) p s of
        (Inl e, s1) \<Rightarrow> (Inl (InstallIo e), s1)
      | (Inr _, s1) \<Rightarrow>
          (case fs_set_mode (m_faults m) 493 p s1 of
             (Inl e, s2) \<Rightarrow> (Inl (InstallIo e), s2)
           | (Inr _, s2) \<Rightarrow> (Inr (), s2)))"

text \<open>The copy, its mode, and the probe of it.\<close>

definition make_ready :: "machine \<Rightarrow> str \<Rightarrow> fpath \<Rightarrow> fpath \<Rightarrow> fs \<Rightarrow> (install_error, unit) result \<times> fs" where
  "make_ready m name src staging s =
     (case fs_copy (m_faults m) src staging s of
        (Inl e, s1) \<Rightarrow> (Inl (InstallIo e), s1)
      | (Inr _, s1) \<Rightarrow>
          (case set_executable m staging s1 of
             (Inl e, s2) \<Rightarrow> (Inl e, s2)
           | (Inr _, s2) \<Rightarrow>
               (case probe m staging s2 of
                  Inl detail \<Rightarrow> (Inl (WillNotRun name detail), s2)
                | Inr _ \<Rightarrow> (Inr (), s2))))"

definition installed_here :: "machine \<Rightarrow> fpath \<Rightarrow> fs \<Rightarrow> str \<Rightarrow> bool" where
  "installed_here m d s name \<longleftrightarrow> \<not> m_unreadable m (target_of d name) \<and> is_regular (node_at s (target_of d name))"

fun stage_loop :: "machine \<Rightarrow> fpath \<Rightarrow> fpath \<Rightarrow> str list \<Rightarrow> (fpath \<times> fpath) list \<Rightarrow> str list \<Rightarrow> fs \<Rightarrow>
    (install_error, (fpath \<times> fpath) list \<times> str list) result \<times> fs" where
  "stage_loop m d unpacked [] staged missing s = (Inr (staged, missing), s)"
| "stage_loop m d unpacked (name # names) staged missing s =
     (if \<not> installed_here m d s name then stage_loop m d unpacked names staged missing s
      else case find_regular_file m unpacked name s of
        None \<Rightarrow> stage_loop m d unpacked names staged (missing @ [name]) s
      | Some src \<Rightarrow>
          (let s1 = snd (fs_remove_file (m_faults m) (staging_of m d name) s);
               staged' = staged @ [(staging_of m d name, target_of d name)]
           in case make_ready m name src (staging_of m d name) s1 of
                (Inl e, s2) \<Rightarrow> (Inl e, remove_staged (m_faults m) staged' s2)
              | (Inr _, s2) \<Rightarrow> stage_loop m d unpacked names staged' missing s2))"

section \<open>The installation\<close>

definition shown_name :: "fpath \<Rightarrow> str" where
  "shown_name p = (case file_str p of Some n \<Rightarrow> n | None \<Rightarrow> lit ''the archive'')"

text \<open>What follows the staging: nothing to do, an incomplete archive, or the swap.\<close>

definition finish_install :: "machine \<Rightarrow> fpath \<Rightarrow> (fpath \<times> fpath) list \<Rightarrow> str list \<Rightarrow> fs \<Rightarrow>
    (install_error, installed) result \<times> fs" where
  "finish_install m d staged missing s =
     (if staged = [] then (Inl NothingToInstall, s)
      else if missing \<noteq> [] then (Inl (Incomplete missing), remove_staged (m_faults m) staged s)
      else case swap_in (m_faults m) (m_pid m) staged s of
        (Inl e, s1) \<Rightarrow> (Inl (SwapFailed e), s1)
      | (Inr replaced, s1) \<Rightarrow>
          (Inr \<lparr>in_dir = d, in_replaced = replaced,
             in_version = (case installed_version m d s1 of Some v \<Rightarrow> v | None \<Rightarrow> [])\<rparr>, s1))"

definition install_unpacked :: "machine \<Rightarrow> fpath \<Rightarrow> fpath \<Rightarrow> fs \<Rightarrow> (install_error, installed) result \<times> fs" where
  "install_unpacked m d unpacked s =
     (case stage_loop m d unpacked BINARIES [] [] s of
        (Inl e, s1) \<Rightarrow> (Inl e, s1)
      | (Inr (staged, missing), s1) \<Rightarrow> finish_install m d staged missing s1)"

definition unpacked_of :: "fpath \<Rightarrow> fpath" where "unpacked_of work = work @ [utf8_enc (lit ''unpacked'')]"

definition unpack :: "machine \<Rightarrow> fpath \<Rightarrow> fpath \<Rightarrow> fs \<Rightarrow> (install_error, unit) result \<times> fs" where
  "unpack m archive unpacked s =
     (case fs_create_dir_all (m_faults m) unpacked s of
        (Inl e, s1) \<Rightarrow> (Inl (InstallIo e), s1)
      | (Inr _, s1) \<Rightarrow>
          (case m_tar m archive unpacked s1 of
             (Inl e, s2) \<Rightarrow> (Inl (Unpack e), s2)
           | (Inr (success, err), s2) \<Rightarrow>
               if success then (Inr (), s2) else (Inl (TarFailed (trim (utf8_lossy err))), s2)))"

definition install_verified_archive :: "machine \<Rightarrow> fpath \<Rightarrow> str \<Rightarrow> fpath \<Rightarrow> fpath \<Rightarrow> fs \<Rightarrow>
    (install_error, installed) result \<times> fs" where
  "install_verified_archive m archive expected d work s =
     (case fs_read (m_faults m) archive s of
        (Inl e, s1) \<Rightarrow> (Inl (InstallIo e), s1)
      | (Inr b, s1) \<Rightarrow>
          if hex_digest b \<noteq> List.map ascii_lower expected
          then (Inl (Digest (shown_name archive) expected (hex_digest b)), s1)
          else (case unpack m archive (unpacked_of work) s1 of
             (Inl e, s2) \<Rightarrow> (Inl e, s2)
           | (Inr _, s2) \<Rightarrow> install_unpacked m d (unpacked_of work) s2))"

section \<open>What tar promises\<close>

text \<open>
  Unpacking below a directory changes no name that is not strictly below it, and the files it binds there
  are new or were below it before.
\<close>

definition tar_ok :: "machine \<Rightarrow> bool" where
  "tar_ok m \<longleftrightarrow> (\<forall>a d s r s'. m_tar m a d s = (r, s') \<longrightarrow>
     (wf_fs s \<longrightarrow> kept {q. strict_prefix d q} s s' \<and> wf_fs s') \<and>
     (\<forall>q i. strict_prefix d q \<and> lookup s' q = Some i \<longrightarrow>
        fresh s \<le> i \<or> (\<exists>q'. strict_prefix d q' \<and> lookup s q' = Some i)))"

lemma sole_nameD: "sole_name s p \<Longrightarrow> lookup s p = Some i \<Longrightarrow> lookup s q = Some i \<Longrightarrow> q = p"
  unfolding sole_name_def by blast

lemma tar_sole:
  assumes "tar_ok m" and "m_tar m a d s = (r, s')" and "wf_fs s" and "sole_name s p" and "\<not> strict_prefix d p"
  shows "sole_name s' p"
  unfolding sole_name_def
proof (intro allI impI, elim conjE)
  fix q i assume l: "lookup s' p = Some i" "lookup s' q = Some i"
  have k: "kept {q. strict_prefix d q} s s'" using assms(1-3) unfolding tar_ok_def by blast
  then have p: "lookup s p = Some i" using kept_lookup [OF k, of p] assms(5) l(1) by simp
  show "q = p"
  proof (cases "strict_prefix d q")
    case False
    then have "lookup s q = Some i" using kept_lookup [OF k, of q] l(2) by simp
    with p assms(4) show ?thesis by (blast dest: sole_nameD)
  next
    case True
    then have "fresh s \<le> i \<or> (\<exists>q'. strict_prefix d q' \<and> lookup s q' = Some i)"
      using assms(1,2) l(2) unfolding tar_ok_def by blast
    moreover have "i < fresh s" using assms(3) p unfolding wf_fs_def by blast
    ultimately obtain q' where "strict_prefix d q'" "lookup s q' = Some i" by auto
    with p assms(4) have "q' = p" by (blast dest: sole_nameD)
    with \<open>strict_prefix d q'\<close> assms(5) show ?thesis by simp
  qed
qed

section \<open>Effects\<close>

lemma set_executable_touches:
  assumes "set_executable m p s = (r, s')"
  shows "touches p s s' \<and> (\<forall>b md. r = Inr () \<and> node_at s p = Some (Regular b md) \<longrightarrow> node_at s' p = Some (Regular b 493))"
proof -
  obtain r1 s1 where 1: "fs_stat (m_faults m) p s = (r1, s1)" by fastforce
  note e1 = stat_same [OF 1]
  have t: "touches p s s1" using e1 by (blast intro: touches_same)
  have n: "node_at s1 = node_at s" using e1 by (blast intro: node_at_cong)
  obtain r2 s2 where 2: "fs_set_mode (m_faults m) 493 p s1 = (r2, s2)" by fastforce
  note e2 = set_mode_touches [OF 2]
  show ?thesis
    using assms 1 2 t n e2 touches_trans [OF t, of s2] by (cases r1; cases r2) (auto simp: set_executable_def)
qed

lemma make_ready_touches:
  assumes "make_ready m name src staging s = (r, s')"
  shows "touches staging s s' \<and> (r = Inr () \<longrightarrow> (\<exists>b md. node_at s src = Some (Regular b md) \<and>
    node_at s' staging = Some (Regular b 493) \<and> probe_program m b = Inr ()))"
proof -
  obtain r1 s1 where 1: "fs_copy (m_faults m) src staging s = (r1, s1)" by fastforce
  note e1 = copy_touches [OF 1]
  obtain r2 s2 where 2: "set_executable m staging s1 = (r2, s2)" by fastforce
  note e2 = set_executable_touches [OF 2]
  show ?thesis
  proof (cases r1)
    case (Inl e)
    then show ?thesis using assms 1 e1 by (auto simp: make_ready_def)
  next
    case r1: (Inr u)
    then obtain b md where b: "node_at s src = Some (Regular b md)" "node_at s1 staging = Some (Regular b md)"
      using e1 by auto
    have t: "touches staging s s2" using e1 e2 touches_trans by blast
    show ?thesis
    proof (cases r2)
      case (Inl e)
      then show ?thesis using assms 1 r1 2 t by (auto simp: make_ready_def)
    next
      case (Inr u')
      then have n: "node_at s2 staging = Some (Regular b 493)" using e2 b(2) by auto
      then have "probe m staging s2 = probe_program m b" by (simp add: probe_def stat_at_def content_of_def)
      then show ?thesis using assms 1 r1 2 Inr t n b(1)
        by (auto simp: make_ready_def split: sum.splits)
    qed
  qed
qed

section \<open>The staging loop\<close>

definition staging_names :: "machine \<Rightarrow> fpath \<Rightarrow> fpath set" where
  "staging_names m d = staging_of m d ` set BINARIES"

definition names_apart :: "machine \<Rightarrow> fpath \<Rightarrow> fpath \<Rightarrow> bool" where
  "names_apart m d unpacked \<longleftrightarrow> inj_on (staging_of m d) (set BINARIES) \<and>
     (\<forall>n \<in> set BINARIES. target_of d n \<notin> staging_names m d) \<and>
     (\<forall>q. strict_prefix unpacked q \<longrightarrow> q \<notin> staging_names m d)"

text \<open>The state while staging: only the staged names differ from the state \<open>s0\<close> tar left.\<close>

definition staging_ok :: "machine \<Rightarrow> fpath \<Rightarrow> fs \<Rightarrow> fs \<Rightarrow> bool" where
  "staging_ok m d s0 s \<longleftrightarrow> kept (staging_names m d) s0 s \<and> wf_fs s \<and>
     (\<forall>n \<in> set BINARIES. sole_name s (staging_of m d n))"

text \<open>A binary is ready: the staged copy is executable, runs, and is that of a regular file of the archive.\<close>

definition prepared :: "machine \<Rightarrow> fpath \<Rightarrow> fpath \<Rightarrow> fs \<Rightarrow> fs \<Rightarrow> str \<Rightarrow> bool" where
  "prepared m d unpacked s0 s name \<longleftrightarrow> (\<exists>b src md. node_at s (staging_of m d name) = Some (Regular b 493) \<and>
     probe_program m b = Inr () \<and> strict_prefix unpacked src \<and> file_str src = Some name \<and>
     node_at s0 src = Some (Regular b md))"

definition swap_pairs :: "machine \<Rightarrow> fpath \<Rightarrow> str list \<Rightarrow> (fpath \<times> fpath) list" where
  "swap_pairs m d names = List.map (\<lambda>n. (staging_of m d n, target_of d n)) names"

lemma staging_ok_touch:
  assumes "staging_ok m d s0 s" and "touches (staging_of m d n) s s'" and "n \<in> set BINARIES"
  shows "staging_ok m d s0 s'"
proof -
  have "wf_fs s" "sole_name s (staging_of m d n)" using assms(1,3) by (simp_all add: staging_ok_def)
  then have t: "kept {staging_of m d n} s s'" "wf_fs s'" "\<forall>q. sole_name s q \<longrightarrow> sole_name s' q"
    using assms(2) by (simp_all add: touches_def)
  have "{staging_of m d n} \<subseteq> staging_names m d" using assms(3) by (simp add: staging_names_def)
  then show ?thesis using assms(1) t kept_trans [OF _ kept_mono [OF t(1)]] by (simp add: staging_ok_def)
qed

lemma staging_ok_kept:
  "staging_ok m d s0 s \<Longrightarrow> touches (staging_of m d n) s s' \<Longrightarrow> n \<in> set BINARIES \<Longrightarrow> kept {staging_of m d n} s s'"
  by (simp add: staging_ok_def touches_def)

lemma remove_all_ok:
  assumes "staging_ok m d s0 s" and "set ps \<subseteq> staging_names m d"
  shows "staging_ok m d s0 (remove_all fl ps s)"
  using assms
proof (induction ps arbitrary: s)
  case (Cons p ps)
  obtain n where n: "p = staging_of m d n" "n \<in> set BINARIES" using Cons.prems(2) by (auto simp: staging_names_def)
  obtain r s1 where r: "fs_remove_file fl p s = (r, s1)" by fastforce
  have "staging_ok m d s0 s1" using staging_ok_touch Cons.prems(1) remove_file_touches [OF r] n by blast
  then show ?case using Cons r by simp
qed simp

lemma remove_staged_ok:
  assumes "staging_ok m d s0 s" and "set names \<subseteq> set BINARIES"
  shows "staging_ok m d s0 (remove_staged fl (swap_pairs m d names) s)"
  using assms unfolding remove_staged_def by (intro remove_all_ok) (auto simp: swap_pairs_def staging_names_def)

lemma staging_ok_here:
  assumes "names_apart m d unpacked" and "staging_ok m d s0 s" and "n \<in> set BINARIES"
  shows "installed_here m d s n = installed_here m d s0 n"
proof -
  have "node_at s (target_of d n) = node_at s0 (target_of d n)"
    using assms kept_node unfolding names_apart_def staging_ok_def by blast
  then show ?thesis by (simp add: installed_here_def)
qed

lemma staged_one:
  assumes "names_apart m d unpacked" and "staging_ok m d s0 s" and "name \<in> set BINARIES"
    and "find_regular_file m unpacked name s = Some src"
    and "s1 = snd (fs_remove_file (m_faults m) (staging_of m d name) s)"
    and "make_ready m name src (staging_of m d name) s1 = (r, s2)"
  shows "staging_ok m d s0 s2 \<and> (r = Inr () \<longrightarrow> prepared m d unpacked s0 s2 name) \<and>
    (\<forall>n \<in> set BINARIES. n \<noteq> name \<and> prepared m d unpacked s0 s n \<longrightarrow> prepared m d unpacked s0 s2 n)"
proof -
  obtain r1 where r1: "fs_remove_file (m_faults m) (staging_of m d name) s = (r1, s1)"
    using assms(5) by (metis prod.collapse)
  have t1: "touches (staging_of m d name) s s1" by (rule remove_file_touches [OF r1])
  have e: "touches (staging_of m d name) s s2" using touches_trans [OF t1] make_ready_touches [OF assms(6)] by blast
  have ok: "staging_ok m d s0 s2" by (rule staging_ok_touch [OF assms(2) e assms(3)])
  have ok1: "staging_ok m d s0 s1" by (rule staging_ok_touch [OF assms(2) t1 assms(3)])
  have f: "strict_prefix unpacked src" "file_str src = Some name"
    using find_loop_spec [where bad = "m_unreadable m" and s = s and name = name and stack = "[unpacked]"] assms(4)
    by (auto simp: find_regular_file_def dest: found_below_regular)
  then have "src \<notin> staging_names m d" using assms(1) by (simp add: names_apart_def)
  then have n: "node_at s1 src = node_at s0 src" using ok1 kept_node unfolding staging_ok_def by blast
  have "r = Inr () \<longrightarrow> prepared m d unpacked s0 s2 name"
    using make_ready_touches [OF assms(6)] f unfolding prepared_def n by blast
  moreover have "prepared m d unpacked s0 s2 n" if "n \<in> set BINARIES" "n \<noteq> name" "prepared m d unpacked s0 s n" for n
  proof -
    have "staging_of m d n \<noteq> staging_of m d name"
      using assms(1,3) that unfolding names_apart_def inj_on_def by blast
    then have "node_at s2 (staging_of m d n) = node_at s (staging_of m d n)"
      using kept_node [OF staging_ok_kept [OF assms(2) e assms(3)]] by simp
    then show ?thesis using that(3) by (simp add: prepared_def)
  qed
  ultimately show ?thesis using ok by blast
qed

text \<open>The result of the loop over some names, after some are ready and some found missing.\<close>

definition loop_result :: "machine \<Rightarrow> fpath \<Rightarrow> fpath \<Rightarrow> fs \<Rightarrow> fs \<Rightarrow> str list \<Rightarrow> str list \<Rightarrow> str list \<Rightarrow>
    (fpath \<times> fpath) list \<times> str list \<Rightarrow> bool" where
  "loop_result m d unpacked s0 s' ready missing names result \<longleftrightarrow>
     (\<exists>ms more. result = (swap_pairs m d (ready @ more), missing @ ms) \<and> set ms \<subseteq> set names \<and>
        more = filter (\<lambda>n. installed_here m d s0 n \<and> n \<notin> set ms) names \<and>
        (\<forall>n \<in> set (ready @ more). prepared m d unpacked s0 s' n))"

lemma loop_result_skip:
  assumes "loop_result m d unpacked s0 s' ready missing names res" and "\<not> installed_here m d s0 name"
  shows "loop_result m d unpacked s0 s' ready missing (name # names) res"
proof -
  obtain ms more where "res = (swap_pairs m d (ready @ more), missing @ ms)" "set ms \<subseteq> set names"
    "more = filter (\<lambda>n. installed_here m d s0 n \<and> n \<notin> set ms) names"
    "\<forall>n \<in> set (ready @ more). prepared m d unpacked s0 s' n" using assms(1) unfolding loop_result_def by blast
  then show ?thesis using assms(2) unfolding loop_result_def
    by (intro exI [of _ ms] exI [of _ more]) auto
qed

lemma loop_result_missing:
  assumes "loop_result m d unpacked s0 s' ready (missing @ [name]) names res" and "name \<notin> set names"
  shows "loop_result m d unpacked s0 s' ready missing (name # names) res"
proof -
  obtain ms more where *: "res = (swap_pairs m d (ready @ more), missing @ [name] @ ms)" "set ms \<subseteq> set names"
    "more = filter (\<lambda>n. installed_here m d s0 n \<and> n \<notin> set ms) names"
    "\<forall>n \<in> set (ready @ more). prepared m d unpacked s0 s' n"
    using assms(1) unfolding loop_result_def by auto
  have "more = filter (\<lambda>n. installed_here m d s0 n \<and> n \<notin> set (name # ms)) (name # names)"
    unfolding *(3) using assms(2) by (auto intro: filter_cong)
  then show ?thesis using * unfolding loop_result_def
    by (intro exI [of _ "name # ms"] exI [of _ more]) auto
qed

lemma loop_result_ready:
  assumes "loop_result m d unpacked s0 s' (ready @ [name]) missing names res"
    and "installed_here m d s0 name" and "name \<notin> set names"
  shows "loop_result m d unpacked s0 s' ready missing (name # names) res"
proof -
  obtain ms more where *: "res = (swap_pairs m d ((ready @ [name]) @ more), missing @ ms)" "set ms \<subseteq> set names"
    "more = filter (\<lambda>n. installed_here m d s0 n \<and> n \<notin> set ms) names"
    "\<forall>n \<in> set ((ready @ [name]) @ more). prepared m d unpacked s0 s' n"
    using assms(1) unfolding loop_result_def by blast
  then have "name # more = filter (\<lambda>n. installed_here m d s0 n \<and> n \<notin> set ms) (name # names)"
    using assms(2,3) by auto
  then show ?thesis using *(1,2,4) unfolding loop_result_def
    by (intro exI [of _ ms] exI [of _ "name # more"]) auto
qed

lemma stage_loop_effect:
  assumes "names_apart m d unpacked"
    and "stage_loop m d unpacked names (swap_pairs m d ready) missing s = (r, s')"
    and "staging_ok m d s0 s" and "set names \<subseteq> set BINARIES" and "set ready \<subseteq> set BINARIES"
    and "distinct (ready @ names)" and "\<forall>n \<in> set ready. prepared m d unpacked s0 s n"
  shows "staging_ok m d s0 s' \<and> (\<forall>res. r = Inr res \<longrightarrow> loop_result m d unpacked s0 s' ready missing names res)"
  using assms(2-)
proof (induction names arbitrary: ready missing s)
  case Nil
  then show ?case by (auto simp: loop_result_def)
next
  case (Cons name names)
  have B: "name \<in> set BINARIES" "set names \<subseteq> set BINARIES" and dn: "distinct (ready @ names)"
    "name \<notin> set names" "name \<notin> set ready" using Cons.prems(3,5) by auto
  have here: "installed_here m d s name = installed_here m d s0 name"
    by (rule staging_ok_here [OF assms(1) Cons.prems(2) B(1)])
  note IH = Cons.IH [OF _ Cons.prems(2) B(2) Cons.prems(4) dn(1) Cons.prems(6)]
  show ?case
  proof (cases "installed_here m d s name")
    case False
    then have "stage_loop m d unpacked names (swap_pairs m d ready) missing s = (r, s')"
      using Cons.prems(1) by simp
    from IH [OF this] False here show ?thesis by (blast intro: loop_result_skip)
  next
    case True
    show ?thesis
    proof (cases "find_regular_file m unpacked name s")
      case None
      then have "stage_loop m d unpacked names (swap_pairs m d ready) (missing @ [name]) s = (r, s')"
        using Cons.prems(1) True by simp
      from IH [OF this] dn(2) show ?thesis by (blast intro: loop_result_missing)
    next
      case (Some src)
      define s1 where "s1 = snd (fs_remove_file (m_faults m) (staging_of m d name) s)"
      obtain r2 s2 where 2: "make_ready m name src (staging_of m d name) s1 = (r2, s2)" by fastforce
      note e = staged_one [OF assms(1) Cons.prems(2) B(1) Some s1_def 2]
      have pairs: "swap_pairs m d ready @ [(staging_of m d name, target_of d name)] = swap_pairs m d (ready @ [name])"
        by (simp add: swap_pairs_def)
      have rB: "set (ready @ [name]) \<subseteq> set BINARIES" and rd: "distinct ((ready @ [name]) @ names)"
        using Cons.prems(4,5) B(1) by auto
      show ?thesis
      proof (cases r2)
        case (Inl x)
        then have "r = Inl x" "s' = remove_staged (m_faults m) (swap_pairs m d (ready @ [name])) s2"
          using Cons.prems(1) True Some 2 pairs by (simp_all add: s1_def)
        then show ?thesis using remove_staged_ok [of m d s0 s2] e rB by simp
      next
        case (Inr u)
        then have l: "stage_loop m d unpacked names (swap_pairs m d (ready @ [name])) missing s2 = (r, s')"
          using Cons.prems(1) True Some 2 pairs by (simp add: s1_def)
        have p: "\<forall>n \<in> set (ready @ [name]). prepared m d unpacked s0 s2 n"
          using e Inr Cons.prems(4,6) dn(3) by auto
        from Cons.IH [OF l _ B(2) rB rd p] e True here dn(2) show ?thesis by (blast intro: loop_result_ready)
      qed
    qed
  qed
qed

section \<open>The names\<close>

definition backup_name :: "machine \<Rightarrow> fpath \<Rightarrow> str \<Rightarrow> fpath" where
  "backup_name m d name = backup_of (m_pid m) (target_of d name)"

lemma binaries_plain: "n \<in> set BINARIES \<Longrightarrow> list_all (\<lambda>c. c < 128) n"
  by (auto simp: BINARIES_def)

lemma binaries_wf: "n \<in> set BINARIES \<Longrightarrow> wf_str n"
  using binaries_plain by (fastforce simp: wf_str_def is_scalar_def list_all_iff)

lemma decimal_wf: "wf_str (decimal n)"
  using decimal_digits [of n] by (auto simp: wf_str_def is_scalar_def is_digit_def list_all_iff)

lemma wf_str_append [simp]: "wf_str (s @ t) \<longleftrightarrow> wf_str s \<and> wf_str t"
  by (simp add: wf_str_def)

lemma lit_wf: "wf_str (lit s)"
proof -
  have "c < 256 \<Longrightarrow> is_scalar c" for c :: nat by (simp add: is_scalar_def)
  moreover have "of_char c < (256::nat)" for c by simp
  ultimately show ?thesis by (simp add: wf_str_def lit_def list_all_iff)
qed

lemma enc_inj: "wf_str a \<Longrightarrow> wf_str b \<Longrightarrow> utf8_enc a = utf8_enc b \<Longrightarrow> a = b"
  by (metis utf8_dec_enc option.inject)

lemma file_str_target: "n \<in> set BINARIES \<Longrightarrow> file_str (target_of d n) = Some n"
  by (simp add: file_str_def file_name_def target_of_def utf8_dec_enc binaries_wf)

lemma backup_name_eq:
  "n \<in> set BINARIES \<Longrightarrow> backup_name m d n = d @ [utf8_enc (lit ''.'' @ n @ lit ''.old-'' @ decimal (m_pid m))]"
  unfolding backup_name_def backup_of_def file_str_target by (simp add: with_file_name_def target_of_def)

lemma strings_apart:
  "distinct (List.map (\<lambda>n. lit ''.'' @ n @ lit ''.new-'' @ p) BINARIES @ BINARIES @
    List.map (\<lambda>n. lit ''.'' @ n @ lit ''.old-'' @ p) BINARIES)"
  by (simp add: BINARIES_def)

lemma names_distinct:
  "distinct (List.map (staging_of m d) BINARIES @ List.map (target_of d) BINARIES @ List.map (backup_name m d) BINARIES)"
proof -
  define F where "F = (\<lambda>n. d @ [utf8_enc n])"
  define A where "A = (\<lambda>n. lit ''.'' @ n @ lit ''.new-'' @ decimal (m_pid m))"
  define B where "B = (\<lambda>n. lit ''.'' @ n @ lit ''.old-'' @ decimal (m_pid m))"
  let ?S = "List.map A BINARIES @ BINARIES @ List.map B BINARIES"
  have wf: "wf_str n" if "n \<in> set ?S" for n
    using that binaries_wf by (auto simp: A_def B_def lit_wf decimal_wf simp del: lit_simps)
  have "inj_on F (set ?S)"
  proof (rule inj_onI)
    fix a b assume "a \<in> set ?S" "b \<in> set ?S" "F a = F b"
    then have "wf_str a" "wf_str b" "utf8_enc a = utf8_enc b" using wf by (simp_all add: F_def)
    then show "a = b" by (rule enc_inj)
  qed
  moreover have "distinct ?S" using strings_apart unfolding A_def B_def .
  ultimately have "distinct (List.map F ?S)" by (simp only: distinct_map)
  moreover have eq: "List.map (staging_of m d) BINARIES = List.map F (List.map A BINARIES)"
    "List.map (target_of d) BINARIES = List.map F BINARIES"
    "List.map (backup_name m d) BINARIES = List.map F (List.map B BINARIES)"
    by (simp_all add: F_def A_def B_def staging_of_def target_of_def backup_name_eq del: lit_simps)
  ultimately show ?thesis unfolding eq by simp
qed

lemma distinct_filtered:
  assumes "distinct (List.map f xs @ List.map g xs @ List.map h xs)"
  shows "distinct (List.map f (filter P xs) @ List.map g (filter P xs) @ List.map h (filter P xs))"
  using assms by (auto simp: distinct_map intro: inj_on_subset)

lemma names_apart_work: "names_apart m d (unpacked_of (work_of m d))"
proof -
  note D = names_distinct [of m d]
  have "inj_on (staging_of m d) (set BINARIES)" using D by (simp add: distinct_map)
  moreover have "target_of d n \<notin> staging_names m d" if "n \<in> set BINARIES" for n
    using D that unfolding staging_names_def by auto
  moreover have "length (unpacked_of (work_of m d)) < length q" if "strict_prefix (unpacked_of (work_of m d)) q" for q
    using that by (rule prefix_length_less)
  then have "q \<notin> staging_names m d" if "strict_prefix (unpacked_of (work_of m d)) q" for q
    using that by (fastforce simp: staging_names_def staging_of_def unpacked_of_def work_of_def)
  ultimately show ?thesis unfolding names_apart_def by blast
qed

section \<open>From the unpacked tree to the installed binaries\<close>

definition install_names :: "machine \<Rightarrow> fpath \<Rightarrow> fpath set" where
  "install_names m d = staging_names m d \<union> target_of d ` set BINARIES \<union> backup_name m d ` set BINARIES"

text \<open>A binary of the archive is in place: executable, and it ran.\<close>

definition fitted :: "machine \<Rightarrow> fpath \<Rightarrow> fpath \<Rightarrow> fs \<Rightarrow> fs \<Rightarrow> str \<Rightarrow> bool" where
  "fitted m d unpacked s0 s name \<longleftrightarrow> (\<exists>b src md. node_at s (target_of d name) = Some (Regular b 493) \<and>
     probe_program m b = Inr () \<and> strict_prefix unpacked src \<and> file_str src = Some name \<and>
     node_at s0 src = Some (Regular b md))"

text \<open>
  What each outcome means for the installed binaries: \<open>s\<close> is the state before, \<open>s0\<close> the one tar left.
\<close>

definition outcome :: "machine \<Rightarrow> fpath \<Rightarrow> fpath \<Rightarrow> fs \<Rightarrow> fs \<Rightarrow> (install_error, installed) result \<Rightarrow> fs \<Rightarrow> bool" where
  "outcome m d unpacked s s0 r s' \<longleftrightarrow>
     (case r of
        Inr rep \<Rightarrow> in_replaced rep = filter (installed_here m d s) BINARIES \<and> in_replaced rep \<noteq> [] \<and>
          (\<forall>n \<in> set (in_replaced rep). fitted m d unpacked s0 s' n)
      | Inl (SwapFailed (RolledBack e fails)) \<Rightarrow>
          (\<forall>n \<in> set BINARIES.
             if target_of d n \<in> fst ` set fails
             then file_at s' (backup_name m d n) = file_at s (target_of d n) \<and> fitted m d unpacked s0 s' n
             else file_at s' (target_of d n) = file_at s (target_of d n))
      | Inl _ \<Rightarrow> (\<forall>n \<in> set BINARIES. file_at s' (target_of d n) = file_at s (target_of d n)))"

lemma outcome_frame:
  assumes "outcome m d unpacked s1 s0 r s'" and "\<And>n. n \<in> set BINARIES \<Longrightarrow> file_at s1 (target_of d n) = file_at s (target_of d n)"
    and "\<And>n. n \<in> set BINARIES \<Longrightarrow> file_at s'' (target_of d n) = file_at s' (target_of d n)"
    and "\<And>n. n \<in> set BINARIES \<Longrightarrow> file_at s'' (backup_name m d n) = file_at s' (backup_name m d n)"
  shows "outcome m d unpacked s s0 r s''"
proof -
  have "installed_here m d s1 n = installed_here m d s n" if "n \<in> set BINARIES" for n
    using assms(2) [OF that] by (simp add: installed_here_def node_at_file)
  then have f: "filter (installed_here m d s1) BINARIES = filter (installed_here m d s) BINARIES"
    by (rule filter_cong [OF refl])
  have g: "fitted m d unpacked s0 s'' n = fitted m d unpacked s0 s' n" if "n \<in> set BINARIES" for n
    using assms(3) [OF that] by (simp add: fitted_def node_at_file)
  show ?thesis
  proof (cases r)
    case (Inr rep)
    then show ?thesis using assms(1) f g unfolding outcome_def by (auto simp: subset_iff)
  next
    case (Inl x)
    then show ?thesis using assms g unfolding outcome_def
      by (cases x) (auto split: swap_error.splits)
  qed
qed

lemma swap_pairs_set: "set (swap_pairs m d ns) = (\<lambda>n. (staging_of m d n, target_of d n)) ` set ns"
  by (simp add: swap_pairs_def)

lemma swap_names_ready:
  "swap_names (m_pid m) (swap_pairs m d ns) \<subseteq> install_names m d" if "set ns \<subseteq> set BINARIES"
  using that by (fastforce simp: swap_names_def swap_pairs_set install_names_def staging_names_def backup_name_def)

lemma swappable_ready:
  assumes "staging_ok m d s0 s" and "ns = filter P BINARIES"
    and "\<forall>n \<in> set ns. node_at s (staging_of m d n) \<noteq> None \<and> node_at s (target_of d n) \<noteq> None"
  shows "swappable (m_pid m) (swap_pairs m d ns) s"
proof -
  have "distinct (List.map (staging_of m d) ns @ List.map (target_of d) ns @ List.map (backup_name m d) ns)"
    unfolding assms(2) by (rule distinct_filtered [OF names_distinct])
  then have "distinct (List.map fst (swap_pairs m d ns) @ List.map snd (swap_pairs m d ns) @
      List.map (\<lambda>p. backup_of (m_pid m) (snd p)) (swap_pairs m d ns))"
    by (simp add: swap_pairs_def comp_def backup_name_def [abs_def])
  moreover have "lookup s (staging_of m d n) \<noteq> None \<and> lookup s (target_of d n) \<noteq> None \<and>
      lookup s (staging_of m d n) \<noteq> lookup s (target_of d n)" if n: "n \<in> set ns" for n
  proof -
    have B: "n \<in> set BINARIES" using n assms(2) by simp
    have l: "lookup s (staging_of m d n) \<noteq> None" "lookup s (target_of d n) \<noteq> None"
      using assms(3) n by (auto simp: node_at_def)
    have "target_of d n \<noteq> staging_of m d n"
      using names_apart_work [of m d] B by (auto simp: names_apart_def staging_names_def)
    moreover have "sole_name s (staging_of m d n)" using assms(1) B by (simp add: staging_ok_def)
    ultimately have "lookup s (staging_of m d n) \<noteq> lookup s (target_of d n)"
      using l sole_nameD by (metis option.exhaust)
    with l show ?thesis by blast
  qed
  ultimately show ?thesis unfolding swappable_def swap_pairs_set by blast
qed

lemma kept_nodes: "nodes s' = nodes s \<Longrightarrow> (\<And>q. q \<notin> X \<Longrightarrow> lookup s' q = lookup s q) \<Longrightarrow> kept X s s'"
  by (simp add: kept_def file_at_def)

lemma file_at_cong: "nodes s' = nodes s \<Longrightarrow> lookup s' p = lookup s q \<Longrightarrow> file_at s' p = file_at s q"
  by (simp add: file_at_def)

lemma fitted_prepared:
  assumes "prepared m d unpacked s0 s n" and "nodes s' = nodes s" and "lookup s' (target_of d n) = lookup s (staging_of m d n)"
  shows "fitted m d unpacked s0 s' n"
proof -
  have "node_at s' (target_of d n) = node_at s (staging_of m d n)" using assms(2,3) by (simp add: node_at_def)
  then show ?thesis using assms(1) by (simp add: fitted_def prepared_def)
qed

lemma staging_ok_targets:
  assumes "staging_ok m d s0 s" and "n \<in> set BINARIES"
  shows "file_at s (target_of d n) = file_at s0 (target_of d n)"
  using assms names_apart_work [of m d] unfolding staging_ok_def names_apart_def kept_def by blast

lemma staging_ok_frame: "staging_ok m d s0 s \<Longrightarrow> kept (install_names m d) s0 s"
  unfolding staging_ok_def install_names_def by (blast intro: kept_mono)

lemma make_ready_error: "make_ready m name src staging s = (Inl x, s') \<Longrightarrow> x \<noteq> SwapFailed e"
  by (auto simp: make_ready_def set_executable_def split: prod.splits sum.splits)

lemma stage_loop_error: "stage_loop m d unpacked names staged missing s = (Inl x, s') \<Longrightarrow> x \<noteq> SwapFailed e"
proof (induction names arbitrary: staged missing s)
  case (Cons name names)
  show ?case
  proof (cases "installed_here m d s name")
    case True
    show ?thesis
    proof (cases "find_regular_file m unpacked name s")
      case (Some src)
      obtain r2 s2 where 2: "make_ready m name src (staging_of m d name)
        (snd (fs_remove_file (m_faults m) (staging_of m d name) s)) = (r2, s2)" by fastforce
      show ?thesis
      proof (cases r2)
        case (Inl y)
        then show ?thesis using Cons.prems True Some 2 make_ready_error [of m name src _ _ y s2] by auto
      next
        case (Inr u)
        then show ?thesis using Cons.prems Cons.IH True Some 2 by simp
      qed
    qed (use Cons True in simp)
  qed (use Cons in simp)
qed simp

text \<open>The swap of the binaries that are ready, seen from the state tar left.\<close>

lemma swap_ready:
  assumes ok: "staging_ok m d s0 s" and ns: "ns = filter (installed_here m d s0) BINARIES" "ns \<noteq> []"
    and prep: "\<forall>n \<in> set ns. prepared m d unpacked s0 s n"
    and sw: "swap_in (m_faults m) (m_pid m) (swap_pairs m d ns) s = (r, s')"
  shows "kept (install_names m d) s0 s' \<and>
    (case r of
       Inl e \<Rightarrow> outcome m d unpacked s0 s0 (Inl (SwapFailed e)) s'
     | Inr names \<Rightarrow> \<forall>v. outcome m d unpacked s0 s0 (Inr \<lparr>in_dir = d, in_replaced = names, in_version = v\<rparr>) s')"
proof -
  have nB: "set ns \<subseteq> set BINARIES" using ns(1) by auto
  have t0: "file_at s (target_of d n) = file_at s0 (target_of d n)" if "n \<in> set BINARIES" for n
    by (rule staging_ok_targets [OF ok that])
  have "node_at s (staging_of m d n) \<noteq> None \<and> node_at s (target_of d n) \<noteq> None" if "n \<in> set ns" for n
  proof
    show "node_at s (staging_of m d n) \<noteq> None" using prep that unfolding prepared_def by force
    have "node_at s0 (target_of d n) \<noteq> None" using that ns(1) by (auto simp: installed_here_def is_regular_def split: option.splits)
    then show "node_at s (target_of d n) \<noteq> None" using t0 nB that by (simp add: node_at_file subset_iff)
  qed
  then have "swappable (m_pid m) (swap_pairs m d ns) s" by (intro swappable_ready [OF ok ns(1)]) blast
  note e = swap_in_effect [OF this sw]
  have nodes: "nodes s' = nodes s" using e by blast
  have out: "lookup s' q = lookup s q" if "q \<notin> install_names m d" for q
    using e swap_names_ready [OF nB] that by blast
  have frame: "kept (install_names m d) s0 s'"
    by (rule kept_trans [OF staging_ok_frame [OF ok] kept_nodes]) (use nodes out in auto)
  have fits: "fitted m d unpacked s0 s' n" if "n \<in> set ns" "lookup s' (target_of d n) = lookup s (staging_of m d n)" for n
    using fitted_prepared prep that nodes by blast
  show ?thesis
  proof (cases r)
    case (Inr names)
    then have "names = List.map_filter (file_str \<circ> snd) (swap_pairs m d ns)"
      and l: "\<And>n. n \<in> set ns \<Longrightarrow> lookup s' (target_of d n) = lookup s (staging_of m d n)"
      using e by (auto simp: swap_pairs_set)
    moreover have "List.map_filter (file_str \<circ> snd) (swap_pairs m d ns) = ns"
      using nB file_str_target by (induction ns) (simp_all add: swap_pairs_def map_filter_def)
    ultimately have "names = ns" by simp
    then show ?thesis using frame Inr ns fits l by (simp add: outcome_def)
  next
    case (Inl x)
    obtain err fails where x: "x = RolledBack err fails" by (cases x)
    have st: "fst ` set fails \<subseteq> target_of d ` set ns"
      and pairs: "\<And>n. n \<in> set ns \<Longrightarrow> if target_of d n \<in> fst ` set fails
        then lookup s' (target_of d n) = lookup s (staging_of m d n) \<and>
          lookup s' (backup_name m d n) = lookup s (target_of d n)
        else lookup s' (target_of d n) = lookup s (target_of d n)"
      using e Inl x by (auto simp: swap_pairs_set backup_name_def image_image)
    have "if target_of d n \<in> fst ` set fails
        then file_at s' (backup_name m d n) = file_at s0 (target_of d n) \<and> fitted m d unpacked s0 s' n
        else file_at s' (target_of d n) = file_at s0 (target_of d n)" if n: "n \<in> set BINARIES" for n
    proof (cases "n \<in> set ns")
      case True
      note f = file_at_cong [OF nodes, of _ "target_of d n"]
      show ?thesis using pairs [OF True] f t0 [OF n] fits [OF True] by presburger
    next
      case False
      have inj: "inj_on (target_of d) (set BINARIES)" using names_distinct [of m d] by (simp add: distinct_map)
      then have nf: "target_of d n \<notin> target_of d ` set ns" using False n nB unfolding inj_on_def by blast
      have "target_of d n \<notin> swap_names (m_pid m) (swap_pairs m d ns)"
      proof -
        have "target_of d n \<notin> staging_of m d ` set BINARIES" "target_of d n \<notin> backup_name m d ` set BINARIES"
          using names_distinct [of m d] n by (auto simp: image_iff)
        then show ?thesis using nf nB
          unfolding swap_names_def swap_pairs_set image_image by (auto simp: backup_name_def)
      qed
      then have "lookup s' (target_of d n) = lookup s (target_of d n)" using e by blast
      then show ?thesis using nf st t0 [OF n] nodes file_at_cong by (metis subsetD)
    qed
    then show ?thesis using frame Inl x by (simp add: outcome_def)
  qed
qed

lemma install_unpacked_effect:
  assumes start: "staging_ok m d s s" and u: "unpacked = unpacked_of (work_of m d)"
    and run: "install_unpacked m d unpacked s = (r, s')"
  shows "kept (install_names m d) s s' \<and> outcome m d unpacked s s r s'"
proof -
  obtain r1 s1 where l: "stage_loop m d unpacked BINARIES (swap_pairs m d []) [] s = (r1, s1)" by fastforce
  have ap: "names_apart m d unpacked" unfolding u by (rule names_apart_work)
  have "staging_ok m d s s1 \<and> (\<forall>res. r1 = Inr res \<longrightarrow> loop_result m d unpacked s s1 [] [] BINARIES res)"
    using stage_loop_effect [OF ap l start] names_distinct [of m d] by (simp add: BINARIES_def)
  then have ok: "staging_ok m d s s1" and res: "\<And>res. r1 = Inr res \<Longrightarrow> loop_result m d unpacked s s1 [] [] BINARIES res"
    by blast+
  have unchanged: "kept (install_names m d) s s' \<and> outcome m d unpacked s s (Inl x) s'"
    if "staging_ok m d s s'" "\<And>e. x \<noteq> SwapFailed e" for x
  proof (cases "\<exists>e. x = SwapFailed e")
    case False
    then show ?thesis using staging_ok_frame [OF that(1)] staging_ok_targets [OF that(1)]
      by (cases x) (auto simp: outcome_def)
  qed (use that(2) in blast)
  show ?thesis
  proof (cases r1)
    case (Inl x)
    then have "r = Inl x" "s' = s1" using run l by (simp_all add: install_unpacked_def swap_pairs_def)
    moreover have "x \<noteq> SwapFailed e" for e using stage_loop_error l Inl by blast
    ultimately show ?thesis using unchanged ok by blast
  next
    case (Inr res)
    obtain ms ns where ns: "res = (swap_pairs m d ns, ms)" "ns = filter (\<lambda>n. installed_here m d s n \<and> n \<notin> set ms) BINARIES"
      "\<forall>n \<in> set ns. prepared m d unpacked s s1 n" using res [OF Inr] by (auto simp: loop_result_def)
    have f: "finish_install m d (swap_pairs m d ns) ms s1 = (r, s')"
      using run l Inr ns(1) by (simp add: install_unpacked_def swap_pairs_def)
    have empty: "swap_pairs m d ns = [] \<longleftrightarrow> ns = []" by (simp add: swap_pairs_def)
    show ?thesis
    proof (cases "ns = [] \<or> ms \<noteq> []")
      case True
      have "set ns \<subseteq> set BINARIES" using ns(2) by auto
      then show ?thesis using f True empty unchanged ok remove_staged_ok [OF ok]
        by (auto simp: finish_install_def split: if_splits)
    next
      case False
      obtain r2 s2 where sw: "swap_in (m_faults m) (m_pid m) (swap_pairs m d ns) s1 = (r2, s2)" by fastforce
      have "ns = filter (installed_here m d s) BINARIES" "ns \<noteq> []" using ns(2) False by auto
      note e = swap_ready [OF ok this ns(3) sw]
      show ?thesis using f sw False empty e by (cases r2) (auto simp: finish_install_def)
    qed
  qed
qed

section \<open>Before the unpacked tree\<close>

definition published :: "fpath \<Rightarrow> str \<Rightarrow> fs \<Rightarrow> bool" where
  "published archive expected s \<longleftrightarrow> (\<exists>c md. node_at s archive = Some (Regular c md) \<and>
     concat (List.map hex_byte (fips_sha256 c)) = List.map ascii_lower expected)"

text \<open>The names unpacking may bind: those below its directory, and missing ones above it.\<close>

definition unpack_area :: "fpath \<Rightarrow> fs \<Rightarrow> fpath set" where
  "unpack_area unpacked s = {q. strict_prefix unpacked q} \<union> {q. prefix q unpacked \<and> lookup s q = None}"

text \<open>The digest gate: past it the archive is the published one, and nothing has changed.\<close>

lemma gate_effect:
  assumes "install_verified_archive m archive expected d work s = (r, s')"
  shows "(\<exists>s1. lookup s1 = lookup s \<and> nodes s1 = nodes s \<and> fresh s1 = fresh s \<and> published archive expected s \<and>
      (case unpack m archive (unpacked_of work) s1 of
         (Inl e, s2) \<Rightarrow> (Inl e, s2)
       | (Inr _, s2) \<Rightarrow> install_unpacked m d (unpacked_of work) s2) = (r, s')) \<or>
    lookup s' = lookup s \<and> nodes s' = nodes s \<and> fresh s' = fresh s \<and>
      (\<exists>e. r = Inl (InstallIo e) \<or> (\<exists>found. r = Inl (Digest (shown_name archive) expected found)))"
proof -
  obtain r1 s1 where 1: "fs_read (m_faults m) archive s = (r1, s1)" by fastforce
  note e = read_same [OF 1]
  show ?thesis
  proof (cases r1)
    case (Inl x)
    then show ?thesis using assms 1 e by (auto simp: install_verified_archive_def)
  next
    case (Inr b)
    show ?thesis
    proof (cases "hex_digest b = List.map ascii_lower expected")
      case True
      then have "published archive expected s" using e Inr by (auto simp: published_def hex_digest_fips)
      then show ?thesis using assms 1 e Inr True
        by (intro disjI1 exI [of _ s1]) (simp add: install_verified_archive_def)
    next
      case False
      then show ?thesis using assms 1 e Inr by (auto simp: install_verified_archive_def)
    qed
  qed
qed

lemma unpack_effect:
  assumes "unpack m archive u s = (r, s')" and "tar_ok m" and "wf_fs s"
  shows "kept (unpack_area u s) s s' \<and> wf_fs s' \<and>
    (\<forall>p. sole_name s p \<and> \<not> strict_prefix u p \<longrightarrow> sole_name s' p) \<and>
    (r = Inr () \<longrightarrow> (\<exists>s1 err. (\<forall>p. node_at s p \<noteq> None \<longrightarrow> node_at s1 p = node_at s p) \<and>
       m_tar m archive u s1 = (Inr (True, err), s'))) \<and> r \<noteq> Inl (SwapFailed x)"
proof -
  obtain r1 s1 where 1: "fs_create_dir_all (m_faults m) u s = (r1, s1)" by fastforce
  obtain r2 s2 where 2: "m_tar m archive u s1 = (r2, s2)" by fastforce
  let ?N = "{q. prefix q u \<and> lookup s q = None}"
  have g: "kept ?N s s1" "wf_fs s1" "\<And>q. sole_name s q \<Longrightarrow> sole_name s1 q"
    using create_dir_all_grows [OF 1] assms(3) by (simp_all add: grows_def)
  have k1: "kept (unpack_area u s) s s1" by (rule kept_mono [OF g(1)]) (auto simp: unpack_area_def)
  have "kept {q. strict_prefix u q} s1 s2" "wf_fs s2"
    using assms(2) 2 g(2) unfolding tar_ok_def by blast+
  then have k2: "kept (unpack_area u s) s s2" and w2: "wf_fs s2"
    using kept_trans [OF k1] kept_mono by (auto simp: unpack_area_def)
  have so: "sole_name s2 p" if "sole_name s p" "\<not> strict_prefix u p" for p
    by (rule tar_sole [OF assms(2) 2 g(2) g(3)]) (use that in auto)
  have n: "node_at s1 p = node_at s p" if "node_at s p \<noteq> None" for p
    using that by (intro kept_node [OF g(1)]) (auto simp: node_at_def)
  show ?thesis
  proof (cases r1)
    case (Inl e)
    then show ?thesis using assms(1) 1 k1 g by (auto simp: unpack_def)
  next
    case (Inr v)
    show ?thesis
    proof (cases r2)
      case (Inl e)
      then show ?thesis using assms(1) 1 2 Inr k2 w2 so by (auto simp: unpack_def)
    next
      case (Inr o2)
      then obtain success err where "o2 = (success, err)" by (cases o2)
      then show ?thesis using assms(1) 1 2 \<open>r1 = Inr v\<close> Inr k2 w2 so n
        by (cases success) (auto simp: unpack_def)
    qed
  qed
qed

section \<open>Properties\<close>

lemma target_outside:
  assumes "n \<in> set BINARIES"
  shows "target_of d n \<notin> unpack_area (unpacked_of (work_of m d)) s"
proof -
  have "utf8_enc n \<noteq> utf8_enc (lit ''.tobii-update-'' @ decimal (m_pid m))"
    using assms by (auto simp: BINARIES_def utf8_enc1_def byte_def)
  then show ?thesis
    by (auto simp: unpack_area_def target_of_def unpacked_of_def work_of_def dest: prefix_length_less)
qed

lemma install_effect:
  assumes "install_verified_archive m archive expected d (work_of m d) s = (r, s')" and "tar_ok m"
    and "wf_fs s" and "\<forall>n \<in> set BINARIES. sole_name s (staging_of m d n)"
  shows "kept (install_names m d \<union> unpack_area (unpacked_of (work_of m d)) s) s s' \<and>
    (\<exists>s0. outcome m d (unpacked_of (work_of m d)) s s0 r s' \<and>
      (\<forall>rep. r = Inr rep \<longrightarrow> published archive expected s \<and>
        (\<exists>s1 err. node_at s1 archive = node_at s archive \<and>
          m_tar m archive (unpacked_of (work_of m d)) s1 = (Inr (True, err), s0))))"
    (is "kept (?I \<union> ?U) s s' \<and> ?res")
proof -
  let ?u = "unpacked_of (work_of m d)"
  from gate_effect [OF assms(1)] consider
      (past) s1 where "lookup s1 = lookup s" "nodes s1 = nodes s" "fresh s1 = fresh s" "published archive expected s"
        "(case unpack m archive ?u s1 of (Inl e, s2) \<Rightarrow> (Inl e, s2) | (Inr _, s2) \<Rightarrow> install_unpacked m d ?u s2) = (r, s')"
    | (stopped) "lookup s' = lookup s" "nodes s' = nodes s"
        "\<exists>e. r = Inl (InstallIo e) \<or> (\<exists>found. r = Inl (Digest (shown_name archive) expected found))" by blast
  then show ?thesis
  proof cases
    case stopped
    then have "file_at s' = file_at s" by (intro ext) (simp add: file_at_def)
    then show ?thesis using stopped(3) by (auto simp: kept_def outcome_def)
  next
    case past
    have same: "node_at s1 = node_at s" "file_at s1 = file_at s" "unpack_area ?u s1 = ?U"
      by (simp_all add: node_at_def file_at_def unpack_area_def past(1,2) fun_eq_iff)
    have w1: "wf_fs s1" "\<And>p. sole_name s p \<Longrightarrow> sole_name s1 p"
      using assms(3) past(1,3) by (simp_all add: wf_fs_def sole_name_def)
    obtain r2 s2 where u: "unpack m archive ?u s1 = (r2, s2)" by fastforce
    note e = unpack_effect [OF u assms(2) w1(1)]
    have k: "kept ?U s s2" using e same by (simp add: kept_def)
    then have t: "file_at s2 (target_of d n) = file_at s (target_of d n)" if "n \<in> set BINARIES" for n
      using target_outside [OF that] by (simp add: kept_def)
    have outcome_before: "outcome m d ?u s s2 r s'" if "outcome m d ?u s2 s2 r s'"
      by (rule outcome_frame [OF that]) (use t in auto)
    show ?thesis
    proof (cases r2)
      case (Inl x)
      then have r: "r = Inl x" "s' = s2" using past(5) u by simp_all
      have "outcome m d ?u s2 s2 r s'" using e Inl unfolding r by (cases x) (auto simp: outcome_def)
      with outcome_before k r show ?thesis by (auto intro: kept_mono)
    next
      case (Inr v)
      then have run: "install_unpacked m d ?u s2 = (r, s')" using past(5) u by simp
      have "\<not> strict_prefix ?u (staging_of m d n)" if "n \<in> set BINARIES" for n
        using names_apart_work [of m d] that by (auto simp: names_apart_def staging_names_def)
      then have "staging_ok m d s2 s2" using e w1(2) assms(4) by (simp add: staging_ok_def)
      note f = install_unpacked_effect [OF this refl run]
      have "kept (?I \<union> ?U) s s'" using kept_trans [OF kept_mono [OF k] kept_mono [of ?I s2 s']] f by blast
      moreover have "\<exists>s1 err. node_at s1 archive = node_at s archive \<and> m_tar m archive ?u s1 = (Inr (True, err), s2)"
      proof -
        have "node_at s1 archive \<noteq> None" using past(4) same(1) by (auto simp: published_def)
        moreover obtain s3 err where "\<forall>p. node_at s1 p \<noteq> None \<longrightarrow> node_at s3 p = node_at s1 p"
          "m_tar m archive ?u s3 = (Inr (True, err), s2)"
        proof -
          have "r2 = Inr ()" using Inr by simp
          then show thesis using e that by blast
        qed
        ultimately have "node_at s3 archive = node_at s archive" using same(1) by simp
        then show ?thesis using \<open>m_tar m archive ?u s3 = (Inr (True, err), s2)\<close> by blast
      qed
      moreover have "outcome m d ?u s s2 r s'" by (rule outcome_before) (use f in simp)
      ultimately have "outcome m d ?u s s2 r s' \<and> (\<forall>rep. r = Inr rep \<longrightarrow> published archive expected s \<and>
          (\<exists>s1 err. node_at s1 archive = node_at s archive \<and> m_tar m archive ?u s1 = (Inr (True, err), s2)))"
        using past(4) by simp
      with \<open>kept (?I \<union> ?U) s s'\<close> show ?thesis by blast
    qed
  qed
qed

text \<open>
  C26. The digest gate. Unless the archive's SHA-256 is the published one, whatever the case of its digits,
  nothing happens: no name and no file of the whole file system changes, nothing is unpacked or run, and
  the error is that the archive could not be read or the digest mismatch with both digests.
\<close>

theorem digest_gate:
  assumes "install_verified_archive m archive expected d work s = (r, s')" and "\<not> published archive expected s"
  shows "(\<forall>p. file_at s' p = file_at s p) \<and>
    (\<exists>e. r = Inl (InstallIo e) \<or> (\<exists>found. r = Inl (Digest (shown_name archive) expected found)))"
  using gate_effect [OF assms(1)] assms(2) by (auto simp: file_at_def)

text \<open>
  C8. An installation is all or nothing for the binaries, whatever system calls fail and at whatever moment
  it is killed, for every archive, tar and set of installed files. Success means the archive was the
  published one, every binary installed before is replaced, and what replaces it is executable, ran,
  and is the copy of a regular file tar unpacked from that archive; an error means every installed binary
  is the very file it was, but for those the swap reports as not restored, which are new and have the
  old one under the backup name. Nothing outside the names of the installation and the work directory changes.
\<close>

theorem install_all_or_nothing:
  assumes "install_verified_archive m archive expected d (work_of m d) s = (r, s')" and "tar_ok m"
    and "wf_fs s" and "\<forall>n \<in> set BINARIES. sole_name s (staging_of m d n)"
  shows "kept (install_names m d \<union> unpack_area (unpacked_of (work_of m d)) s) s s' \<and>
    (\<exists>s0. outcome m d (unpacked_of (work_of m d)) s s0 r s' \<and>
      (\<forall>rep. r = Inr rep \<longrightarrow> published archive expected s \<and>
        (\<exists>s1 err. node_at s1 archive = node_at s archive \<and>
          m_tar m archive (unpacked_of (work_of m d)) s1 = (Inr (True, err), s0))))"
  using assms by (rule install_effect)

section \<open>Witnesses\<close>

text \<open>A tar that unpacks one file, and binaries that all run; one binary is installed.\<close>

definition one_file_tar :: "fpath \<Rightarrow> fpath \<Rightarrow> fs \<Rightarrow> (io_error, bool \<times> bytes) result \<times> fs" where
  "one_file_tar a d s = (Inr (True, []), bind_name (d @ [utf8_enc (lit ''tobii'')]) (fresh s)
     (s\<lparr>nodes := (nodes s)(fresh s := Regular [9] 420), fresh := fresh s + 1\<rparr>))"

definition demo_machine :: machine where
  "demo_machine = \<lparr>m_faults = (\<lambda>_. None), m_pid = 7, m_tar = one_file_tar,
     m_start = (\<lambda>b n. Inr (Inr \<lparr>out_stdout = [], out_stderr = [], out_code = Some 0\<rparr>)),
     m_unreadable = (\<lambda>_. False), m_target = (\<lambda>_ _. None)\<rparr>"

text \<open>The names of the example: \<^verbatim>\<open>tobii\<close>, \<^verbatim>\<open>.tobii-update-7\<close>, \<^verbatim>\<open>unpacked\<close> and \<^verbatim>\<open>.tobii.new-7\<close>.\<close>

definition demo_dir :: fpath where "demo_dir = [[100]]"
definition demo_target :: fpath where "demo_target = [[100], [116, 111, 98, 105, 105]]"
definition demo_work :: fpath where
  "demo_work = [[100], [46, 116, 111, 98, 105, 105, 45, 117, 112, 100, 97, 116, 101, 45, 55]]"
definition demo_unpacked :: fpath where "demo_unpacked = demo_work @ [[117, 110, 112, 97, 99, 107, 101, 100]]"
definition demo_staging :: fpath where "demo_staging = [[100], [46, 116, 111, 98, 105, 105, 46, 110, 101, 119, 45, 55]]"

definition demo_archive :: fpath where "demo_archive = demo_work @ [[120, 46, 116, 97, 114, 46, 103, 122]]"

text \<open>The files when the archive, \<^verbatim>\<open>x.tar.gz\<close>, is in the work directory; the file 2 was the write probe.\<close>

definition demo_fs :: fs where
  "demo_fs = \<lparr>entries = [(demo_archive, 4), (demo_work, 3), (demo_dir, 0), (demo_target, 1)],
     nodes = (\<lambda>i. if i = 1 then Regular [1] 493 else if i = 2 then Regular [] 438 else if i = 4 then Regular [] 420 else Directory),
     fresh = 5, calls = 7\<rparr>"

lemmas demo_names = demo_dir_def demo_target_def demo_work_def demo_unpacked_def demo_staging_def demo_archive_def

lemma demo_tar_ok: "tar_ok demo_machine"
proof -
  have "(wf_fs s \<longrightarrow> kept {q. strict_prefix d q} s s' \<and> wf_fs s') \<and>
      (\<forall>q i. strict_prefix d q \<and> lookup s' q = Some i \<longrightarrow>
        fresh s \<le> i \<or> (\<exists>q'. strict_prefix d q' \<and> lookup s q' = Some i))"
    if "one_file_tar a d s = (r, s')" for a d s r s'
  proof -
    define p where "p = d @ [utf8_enc (lit ''tobii'')]"
    have s': "s' = bind_name p (fresh s) (s\<lparr>nodes := (nodes s)(fresh s := Regular [9] 420), fresh := fresh s + 1\<rparr>)"
      using that by (simp add: one_file_tar_def p_def)
    have p: "strict_prefix d p" by (simp add: p_def strict_prefix_def)
    have l: "lookup s' = (lookup s)(p := Some (fresh s))" and n: "nodes s' = (nodes s)(fresh s := Regular [9] 420)"
      "fresh s' = fresh s + 1" by (simp_all add: s' fun_eq_iff)
    have "file_at s' q = file_at s q" if "wf_fs s" "\<not> strict_prefix d q" for q
      using that p by (cases "lookup s q") (auto simp: file_at_def l n wf_fs_def)
    moreover have "wf_fs s'" if "wf_fs s"
      using that by (auto simp: wf_fs_def l n less_Suc_eq)
    ultimately show ?thesis by (auto simp: kept_def l)
  qed
  then show ?thesis by (simp add: tar_ok_def demo_machine_def)
qed

theorem digest_gate_witness:
  "lookup (snd (install_verified_archive demo_machine [[100], [98]] [] [[100]] [[100], [99]] demo_fs)) demo_target = Some 1"
proof -
  obtain r s' where r: "install_verified_archive demo_machine [[100], [98]] [] [[100]] [[100], [99]] demo_fs = (r, s')"
    by fastforce
  have "\<not> published [[100], [98]] [] demo_fs" by (simp add: published_def demo_fs_def node_at_def lookup_def demo_names)
  from digest_gate [OF r this] have "file_at s' demo_target = file_at demo_fs demo_target" by blast
  then show ?thesis by (simp add: r lookup_file) (simp add: file_at_def demo_fs_def lookup_def demo_names)
qed

lemma demo_strings:
  "utf8_enc (lit ''tobii'') = [116, 111, 98, 105, 105]"
  "utf8_enc (lit ''tobii-gtk'') = [116, 111, 98, 105, 105, 45, 103, 116, 107]"
  "utf8_enc (lit ''.tobii-update-'') = [46, 116, 111, 98, 105, 105, 45, 117, 112, 100, 97, 116, 101, 45]"
  "utf8_enc (lit ''unpacked'') = [117, 110, 112, 97, 99, 107, 101, 100]"
  "utf8_enc (lit ''.'') = [46]" "utf8_enc (lit ''.new-'') = [46, 110, 101, 119, 45]"
  "utf8_enc (lit ''.old-'') = [46, 111, 108, 100, 45]" "utf8_enc (decimal 7) = [55]"
  by (simp_all add: utf8_enc1_def byte_def decimal.simps)

lemma demo_paths:
  "work_of demo_machine demo_dir = demo_work" "unpacked_of demo_work = demo_unpacked"
  "target_of demo_dir (lit ''tobii'') = demo_target"
  "staging_of demo_machine demo_dir (lit ''tobii'') = demo_staging"
  "staging_of demo_machine demo_dir (lit ''tobii-gtk'') =
    [[100], [46, 116, 111, 98, 105, 105, 45, 103, 116, 107, 46, 110, 101, 119, 45, 55]]"
  "target_of demo_dir (lit ''tobii-gtk'') = [[100], [116, 111, 98, 105, 105, 45, 103, 116, 107]]"
  by (simp_all add: work_of_def unpacked_of_def target_of_def staging_of_def demo_strings demo_names demo_machine_def del: lit_simps)

text \<open>The installation, step by step.\<close>

definition demo_fs1 :: fs where
  "demo_fs1 = \<lparr>entries = (demo_unpacked @ [[116, 111, 98, 105, 105]], 6) # (demo_unpacked, 5) # entries demo_fs,
     nodes = (nodes demo_fs)(5 := Directory, 6 := Regular [9] 420), fresh = 7, calls = 9\<rparr>"

lemma demo_unpack: "unpack demo_machine a demo_unpacked (demo_fs\<lparr>calls := 8\<rparr>) = (Inr (), demo_fs1)"
proof -
  have "fs_create_dir_all (m_faults demo_machine) demo_unpacked (demo_fs\<lparr>calls := 8\<rparr>) =
      (Inr (), demo_fs\<lparr>calls := 9, entries := (demo_unpacked, 5) # entries demo_fs, nodes := (nodes demo_fs)(5 := Directory), fresh := 6\<rparr>)"
    by (subst fs_create_dir_all.simps)
      (simp add: mkdir_or_there_def fs_mkdir_def sys_def demo_machine_def demo_fs_def lookup_def node_at_def parent_ok_def
        bind_name_def demo_names)
  then show ?thesis
    by (simp add: unpack_def demo_machine_def one_file_tar_def demo_fs1_def demo_fs_def bind_name_def demo_strings demo_names
        del: lit_simps)
qed

lemma demo_found:
  "find_regular_file demo_machine demo_unpacked (lit ''tobii'') demo_fs1 = Some (demo_unpacked @ [[116, 111, 98, 105, 105]])"
proof -
  have "children demo_fs1 demo_unpacked = [demo_unpacked @ [[116, 111, 98, 105, 105]]]"
    by (simp add: children_def demo_fs1_def demo_fs_def demo_names)
  moreover have "file_str (demo_unpacked @ [[116, 111, 98, 105, 105]]) = Some (lit ''tobii'')"
    using utf8_dec_enc [OF lit_wf, of "''tobii''"] demo_strings(1)
    by (simp add: file_str_def file_name_def del: lit_simps)
  moreover have "node_at demo_fs1 (demo_unpacked @ [[116, 111, 98, 105, 105]]) = Some (Regular [9] 420)"
    by (simp add: node_at_def lookup_def demo_fs1_def)
  ultimately show ?thesis by (simp add: find_regular_file_def demo_machine_def del: lit_simps)
qed

definition demo_fs2 :: fs where
  "demo_fs2 = \<lparr>entries = (demo_staging, 7) # entries demo_fs1,
     nodes = (nodes demo_fs1)(7 := Regular [9] 493), fresh = 8, calls = 15\<rparr>"

lemma demo_ready:
  "make_ready demo_machine name (demo_unpacked @ [[116, 111, 98, 105, 105]]) demo_staging
     (snd (fs_remove_file (m_faults demo_machine) demo_staging demo_fs1)) = (Inr (), demo_fs2)"
proof -
  have "fs_remove_file (m_faults demo_machine) demo_staging demo_fs1 = (Inl IoNotFound, demo_fs1\<lparr>calls := 10\<rparr>)"
    by (simp add: fs_remove_file_def sys_def demo_machine_def node_at_def lookup_def demo_fs1_def demo_fs_def demo_names)
  moreover have "fs_copy (m_faults demo_machine) (demo_unpacked @ [[116, 111, 98, 105, 105]]) demo_staging (demo_fs1\<lparr>calls := 10\<rparr>)
      = (Inr (), demo_fs2\<lparr>calls := 13, nodes := (nodes demo_fs1)(7 := Regular [9] 420)\<rparr>)"
  proof -
    have "fs_read (\<lambda>_. None) (demo_unpacked @ [[116, 111, 98, 105, 105]]) (demo_fs1\<lparr>calls := 10\<rparr>) = (Inr [9], demo_fs1\<lparr>calls := 11\<rparr>)"
      by (simp add: fs_read_def sys_def node_at_def lookup_def demo_fs1_def)
    moreover have "mode_at (demo_fs1\<lparr>calls := 11\<rparr>) (demo_unpacked @ [[116, 111, 98, 105, 105]]) = 420"
      by (simp add: mode_at_def node_at_def lookup_def demo_fs1_def)
    moreover have "parent_ok (demo_fs1\<lparr>calls := 12\<rparr>) demo_staging" and n: "lookup demo_fs1 demo_staging = None"
      by (simp_all add: parent_ok_def node_at_def lookup_def demo_fs1_def demo_fs_def demo_names)
    then have "fs_create (\<lambda>_. None) 420 demo_staging (demo_fs1\<lparr>calls := 11\<rparr>) =
        (Inr 7, demo_fs2\<lparr>calls := 12, nodes := (nodes demo_fs1)(7 := Regular [] 420)\<rparr>)"
      by (simp add: fs_create_def sys_def)
        (simp add: bind_name_def demo_fs2_def demo_fs1_def demo_fs_def demo_names)
    ultimately show ?thesis by (simp add: fs_copy_def demo_machine_def fs_write_def sys_def demo_fs2_def)
  qed
  moreover have "set_executable demo_machine demo_staging (demo_fs2\<lparr>calls := 13, nodes := (nodes demo_fs1)(7 := Regular [9] 420)\<rparr>)
      = (Inr (), demo_fs2)"
    by (simp add: set_executable_def fs_stat_def fs_set_mode_def sys_def demo_machine_def node_at_def lookup_def demo_fs2_def)
  moreover have "probe demo_machine demo_staging demo_fs2 = Inr ()"
    by (simp add: probe_def probe_program_def spawn_probe_def ETXTBSY_TRIES_def eval_nat_numeral demo_machine_def)
  ultimately show ?thesis by (simp add: make_ready_def)
qed

lemma demo_staged:
  "stage_loop demo_machine demo_dir demo_unpacked BINARIES [] [] demo_fs1 = (Inr ([(demo_staging, demo_target)], []), demo_fs2)"
proof -
  have "installed_here demo_machine demo_dir demo_fs1 (lit ''tobii'')"
    unfolding installed_here_def demo_paths
    by (simp add: demo_machine_def is_regular_def node_at_def lookup_def demo_fs1_def demo_fs_def
        demo_names del: lit_simps)
  moreover have "\<not> installed_here demo_machine demo_dir demo_fs2 (lit ''tobii-gtk'')"
    unfolding installed_here_def demo_paths
    by (simp add: demo_machine_def is_regular_def node_at_def lookup_def demo_fs2_def demo_fs1_def
        demo_fs_def demo_names del: lit_simps)
  ultimately show ?thesis
    by (simp add: BINARIES_def demo_found demo_paths demo_ready Let_def del: lit_simps)
qed

lemma demo_swapped: "\<exists>names s'. swap_in (m_faults demo_machine) (m_pid demo_machine) [(demo_staging, demo_target)] demo_fs2 = (Inr names, s')"
proof -
  have "file_str demo_target = Some (lit ''tobii'')"
    using file_str_target [of "lit ''tobii''" demo_dir] by (simp add: BINARIES_def demo_paths del: lit_simps)
  then have "backup_of 7 demo_target = [[100], [46, 116, 111, 98, 105, 105, 46, 111, 108, 100, 45, 55]]"
    by (simp add: backup_of_def demo_strings del: lit_simps) (simp add: with_file_name_def demo_target_def)
  then show ?thesis
    by (simp add: demo_machine_def swap_in_def swap_step_def Let_def fs_remove_file_def fs_hard_link_def fs_rename_def sys_def node_at_def
        lookup_def demo_fs2_def demo_fs1_def demo_fs_def demo_names bind_name_def unbind_def parent_ok_def)
qed

text \<open>The installation succeeds, and the one binary installed is replaced by one that is executable.\<close>

lemma demo_installs:
  "\<exists>rep s'. install_verified_archive demo_machine demo_archive (hex_digest []) demo_dir demo_work demo_fs = (Inr rep, s')"
proof -
  have "List.map ascii_lower (hex_digest []) = hex_digest []" using hex_digest_plain by (simp add: map_idI)
  moreover have "fs_read (m_faults demo_machine) demo_archive demo_fs = (Inr [], demo_fs\<lparr>calls := 8\<rparr>)"
    by (simp add: fs_read_def sys_def demo_machine_def demo_fs_def node_at_def lookup_def demo_names)
  ultimately have "install_verified_archive demo_machine demo_archive (hex_digest []) demo_dir demo_work demo_fs =
      install_unpacked demo_machine demo_dir demo_unpacked demo_fs1"
    using demo_unpack [of demo_archive] unfolding install_verified_archive_def demo_paths by simp
  then show ?thesis using demo_swapped by (auto simp: install_unpacked_def demo_staged finish_install_def)
qed

text \<open>A binary is installed in this directory and no other.\<close>

lemma demo_here:
  assumes "node_at s demo_target = Some (Regular b md)" "lookup s (target_of demo_dir (lit ''tobii-gtk'')) = None"
  shows "filter (installed_here demo_machine demo_dir s) BINARIES = [lit ''tobii'']"
  using assms unfolding BINARIES_def list.simps filter.simps installed_here_def demo_paths(3)
  by (auto simp: demo_machine_def is_regular_def node_at_def simp del: lit_simps split: option.splits)

theorem install_all_or_nothing_witness:
  "case install_verified_archive demo_machine demo_archive (concat (List.map hex_byte (fips_sha256 []))) demo_dir demo_work demo_fs
     of (r, s') \<Rightarrow> (\<exists>rep. r = Inr rep \<and> in_replaced rep = [lit ''tobii'']) \<and> (\<exists>b. node_at s' demo_target = Some (Regular b 493))"
proof -
  let ?e = "concat (List.map hex_byte (fips_sha256 []))"
  obtain rep s' where run: "install_verified_archive demo_machine demo_archive ?e demo_dir demo_work demo_fs = (Inr rep, s')"
    using demo_installs by (auto simp: hex_digest_fips)
  have w: "wf_fs demo_fs" by (auto simp: wf_fs_def demo_fs_def lookup_def split: if_splits)
  have so: "\<forall>n \<in> set BINARIES. sole_name demo_fs (staging_of demo_machine demo_dir n)"
  proof -
    have "lookup demo_fs (staging_of demo_machine demo_dir (lit ''tobii'')) = None"
      "lookup demo_fs (staging_of demo_machine demo_dir (lit ''tobii-gtk'')) = None"
      unfolding demo_paths by (simp_all add: demo_fs_def lookup_def demo_names)
    then show ?thesis by (simp add: BINARIES_def sole_name_def del: lit_simps)
  qed
  from install_all_or_nothing [OF run [folded demo_paths(1)] demo_tar_ok w so]
  obtain s0 where o: "outcome demo_machine demo_dir (unpacked_of (work_of demo_machine demo_dir)) demo_fs s0 (Inr rep) s'" by blast
  have "filter (installed_here demo_machine demo_dir demo_fs) BINARIES = [lit ''tobii'']"
    by (rule demo_here [where b = "[1]" and md = 493], unfold demo_paths)
      (simp_all add: node_at_def lookup_def demo_fs_def demo_names del: lit_simps)
  then show ?thesis using o run by (auto simp: outcome_def fitted_def demo_paths simp del: lit_simps)
qed

end
