(* ===== verification/Ownership.thy ===== *)
theory Ownership
  imports Install
begin

text \<open>
  Whose copy it is (\<^verbatim>\<open>tobii-update/src/install.rs\<close>): what the package managers say of the binaries,
  what the update banner offers for a placement, and the refusals of an installation before it downloads
  anything. The package managers and the facts about the directory are parameters; the one question that
  writes, whether a file can be created, threads the state.
\<close>

section \<open>Package managers\<close>

datatype ownership = Package str str | NoOwner | Unknown str owner_why

record query =
  q_prog :: str
  q_args :: "str list"
  q_name_from :: "str \<Rightarrow> str option"
  q_no_match :: int

text \<open>What asking gives: no such program, no answer in time with the reason, or how it ended.\<close>

type_synonym asker = "str \<Rightarrow> str list \<Rightarrow> (str, finished) result option"

definition first_line :: "str \<Rightarrow> str option" where
  "first_line out = (case lines out of [] \<Rightarrow> None | l # _ \<Rightarrow> Some (trim l))"

definition dpkg_name :: "str \<Rightarrow> str option" where
  "dpkg_name out = map_option (\<lambda>l. trim (hd (split_on (\<lambda>c. c = 58) l)))
     (find (\<lambda>l. \<not> starts_with (lit ''diversion '') l) (lines out))"

definition queries :: "str \<Rightarrow> query list" where
  "queries p =
     [\<lparr>q_prog = lit ''dpkg'', q_args = [lit ''-S'', p], q_name_from = dpkg_name, q_no_match = 1\<rparr>,
      \<lparr>q_prog = lit ''rpm'', q_args = [lit ''-qf'', lit ''--queryformat'', lit ''%{NAME}'' @ [92, 110], p],
       q_name_from = first_line, q_no_match = 1\<rparr>,
      \<lparr>q_prog = lit ''pacman'', q_args = [lit ''-Qoq'', p], q_name_from = first_line, q_no_match = 1\<rparr>]"

fun ask_queries :: "asker \<Rightarrow> query list \<Rightarrow> ownership" where
  "ask_queries ask [] = NoOwner"
| "ask_queries ask (q # qs) =
     (case ask (q_prog q) (q_args q) of
        None \<Rightarrow> ask_queries ask qs
      | Some (Inl why) \<Rightarrow> Unknown (q_prog q) (NotAnswered why)
      | Some (Inr out) \<Rightarrow>
          (case out_code out of
             None \<Rightarrow> Unknown (q_prog q) Killed
           | Some c \<Rightarrow>
               if c = 0 then
                 (case q_name_from q (utf8_lossy (out_stdout out)) of
                    Some pkg \<Rightarrow> if pkg \<noteq> [] then Package (q_prog q) pkg else Unknown (q_prog q) PrintedNothing
                  | None \<Rightarrow> Unknown (q_prog q) PrintedNothing)
               else if c = q_no_match q then ask_queries ask qs
               else Unknown (q_prog q) (ExitCode c)))"

text \<open>An absolute path as its bytes.\<close>

definition path_bytes :: "fpath \<Rightarrow> path" where
  "path_bytes p = concat (List.map (\<lambda>c. 47 # c) p)"

definition package_owner :: "asker \<Rightarrow> fpath \<Rightarrow> ownership" where
  "package_owner ask p =
     (case utf8_dec (path_bytes p) of None \<Rightarrow> NoOwner | Some q \<Rightarrow> ask_queries ask (queries q))"

fun first_owner :: "asker \<Rightarrow> fpath \<Rightarrow> str list \<Rightarrow> ownership" where
  "first_owner ask d [] = NoOwner"
| "first_owner ask d (name # names) =
     (case package_owner ask (target_of d name) of
        NoOwner \<Rightarrow> first_owner ask d names
      | owned \<Rightarrow> owned)"

definition ownership_of :: "asker \<Rightarrow> fpath \<Rightarrow> ownership" where
  "ownership_of ask d = first_owner ask d BINARIES"

definition updater_for :: "str \<Rightarrow> str" where
  "updater_for tool =
     (if tool = lit ''dpkg'' then lit ''apt''
      else if tool = lit ''rpm'' then lit ''dnf''
      else tool)"

section \<open>What the banner offers\<close>

record placement =
  pl_dir :: fpath
  pl_owner :: ownership
  dir_writable :: bool
  binaries_mine :: bool
  dir_mine :: bool
  dir_in_home :: bool
  exe_gone :: bool

datatype action =
    Update
  | DownloadPackage str str
  | DownloadForSystem fpath
  | DownloadForHome fpath
  | FixFolder fpath folder_fix
  | Restart

definition action_for :: "placement \<Rightarrow> action" where
  "action_for p =
     (if exe_gone p then Restart
      else case pl_owner p of
        Package manager package \<Rightarrow> DownloadPackage manager package
      | Unknown _ _ \<Rightarrow> Update
      | NoOwner \<Rightarrow>
          if \<not> dir_writable p \<and> dir_mine p then FixFolder (pl_dir p) MakeWritable
          else if \<not> dir_writable p \<and> dir_in_home p then FixFolder (pl_dir p) TakeBack
          else if \<not> dir_writable p then DownloadForSystem (pl_dir p)
          else if \<not> binaries_mine p \<and> dir_mine p then DownloadForHome (pl_dir p)
          else if \<not> binaries_mine p then DownloadForSystem (pl_dir p)
          else Update)"

section \<open>The refusals\<close>

text \<open>
  The questions: the write probe and the facts about the binaries and the directory, each asked of
  the state it finds.
\<close>

record probes =
  p_exe_gone :: bool
  p_owner :: ownership
  p_writable :: "fs \<Rightarrow> bool \<times> fs"
  p_binaries_mine :: bool
  p_dir_mine :: bool
  p_dir_in_home :: bool
  p_as_root :: bool

definition refuse_before_download :: "fpath \<Rightarrow> probes \<Rightarrow> fs \<Rightarrow> (install_error, unit) result \<times> fs" where
  "refuse_before_download d p s =
     (if p_exe_gone p then (Inl ReplacedWhileRunning, s)
      else case p_owner p of
        Package manager package \<Rightarrow> (Inl (PackageManaged manager package), s)
      | Unknown manager why \<Rightarrow> (Inl (OwnerUnknown manager why), s)
      | NoOwner \<Rightarrow>
          (case p_writable p s of (w, s1) \<Rightarrow>
             if \<not> w then
               (if p_dir_mine p then Inl (FolderNotWritable d MakeWritable)
                else if p_dir_in_home p then Inl (FolderNotWritable d TakeBack)
                else Inl (NotWritable d), s1)
             else if \<not> p_binaries_mine p then
               (if p_as_root p then Inl (RunWithoutSudo d)
                else if p_dir_mine p then Inl (NotYours d)
                else Inl (NotWritable d), s1)
             else (Inr (), s1)))"

text \<open>The write probe creates a file and removes it.\<close>

definition probe_name :: "machine \<Rightarrow> fpath \<Rightarrow> fpath" where
  "probe_name m d = d @ [utf8_enc (lit ''.tobii-update-probe-'' @ decimal (m_pid m))]"

definition is_writable :: "machine \<Rightarrow> fpath \<Rightarrow> fs \<Rightarrow> bool \<times> fs" where
  "is_writable m d s =
     (case fs_create (m_faults m) 438 (probe_name m d) s of
        (Inr _, s1) \<Rightarrow> (True, snd (fs_remove_file (m_faults m) (probe_name m d) s1))
      | (Inl _, s1) \<Rightarrow> (False, s1))"

definition exe_replaced_or_removed :: "path \<Rightarrow> bool" where
  "exe_replaced_or_removed exe = ends_with (utf8_enc (lit '' (deleted)'')) exe"

definition dir_is_mine :: "nat \<Rightarrow> (fpath \<Rightarrow> nat option) \<Rightarrow> fpath \<Rightarrow> bool" where
  "dir_is_mine euid stat_uid d = (stat_uid d = Some euid)"

definition all_binaries_mine :: "nat \<Rightarrow> (fpath \<Rightarrow> nat option) \<Rightarrow> fpath \<Rightarrow> bool" where
  "all_binaries_mine euid lstat_uid d =
     list_all (\<lambda>b. case lstat_uid (target_of d b) of Some u \<Rightarrow> u = euid | None \<Rightarrow> True) BINARIES"

text \<open>The home directory is taken when it is absolute and can be resolved, as the function given does.\<close>

definition inside_home :: "(path \<Rightarrow> fpath option) \<Rightarrow> fpath \<Rightarrow> path option \<Rightarrow> bool" where
  "inside_home canonicalize d home =
     (case home of
        None \<Rightarrow> False
      | Some h \<Rightarrow>
          if \<not> starts_with [47] h then False
          else case canonicalize h of
            None \<Rightarrow> False
          | Some c \<Rightarrow> d \<noteq> c \<and> prefix c d)"

text \<open>The last two components are \<^verbatim>\<open>target\<close> and a profile of cargo.\<close>

definition is_build_tree :: "fpath \<Rightarrow> bool" where
  "is_build_tree d =
     (case rev d of
        a # b # _ \<Rightarrow> utf8_dec a \<in> {Some (lit ''release''), Some (lit ''debug'')} \<and> utf8_dec b = Some (lit ''target'')
      | _ \<Rightarrow> False)"

section \<open>Asking\<close>

text \<open>A manager that is not there, or ran to the end and disclaims the file.\<close>

definition disclaims :: "asker \<Rightarrow> query \<Rightarrow> bool" where
  "disclaims ask q \<longleftrightarrow> (case ask (q_prog q) (q_args q) of
     None \<Rightarrow> True
   | Some (Inr out) \<Rightarrow> out_code out = Some (q_no_match q) \<and> q_no_match q \<noteq> 0
   | Some (Inl _) \<Rightarrow> False)"

lemma ask_queries_none: "ask_queries ask qs = NoOwner \<longleftrightarrow> (\<forall>q \<in> set qs. disclaims ask q)"
proof (induction qs)
  case (Cons q qs)
  then show ?case
    by (cases "ask (q_prog q) (q_args q)") (auto simp: disclaims_def split: sum.splits option.splits)
qed simp

lemma first_owner_none: "first_owner ask d names = NoOwner \<longleftrightarrow> (\<forall>n \<in> set names. package_owner ask (target_of d n) = NoOwner)"
  by (induction names) (auto split: ownership.splits)

lemma all_disclaim: "(\<forall>q \<in> set (queries p). disclaims ask q) \<longleftrightarrow>
    list_all (disclaims ask) (queries p)"
  by (simp add: list_all_iff)



text \<open>
  The refusal is the decision of the banner: for a user who is not root and the facts the banner reads,
  an installation is let through just when the banner offers Update and the owner is known, and each refusal
  is the one the offer stands for.
\<close>

theorem refusal_is_the_action:
  assumes "refuse_before_download d p s = (r, s')" and "\<not> p_as_root p" and "p_writable p s = (w, s1)"
  shows "r = (case action_for \<lparr>pl_dir = d, pl_owner = p_owner p, dir_writable = w,
      binaries_mine = p_binaries_mine p, dir_mine = p_dir_mine p, dir_in_home = p_dir_in_home p, exe_gone = p_exe_gone p\<rparr> of
    Restart \<Rightarrow> Inl ReplacedWhileRunning
  | DownloadPackage manager package \<Rightarrow> Inl (PackageManaged manager package)
  | FixFolder f fix \<Rightarrow> Inl (FolderNotWritable f fix)
  | DownloadForSystem f \<Rightarrow> Inl (NotWritable f)
  | DownloadForHome f \<Rightarrow> Inl (NotYours f)
  | Update \<Rightarrow> (case p_owner p of Unknown manager why \<Rightarrow> Inl (OwnerUnknown manager why) | _ \<Rightarrow> Inr ()))"
  using assms by (auto simp: refuse_before_download_def action_for_def split: ownership.splits if_splits)

theorem refusal_is_the_action_witness:
  "fst (refuse_before_download [[100]] \<lparr>p_exe_gone = False, p_owner = NoOwner, p_writable = (\<lambda>s. (True, s)),
      p_binaries_mine = False, p_dir_mine = True, p_dir_in_home = True, p_as_root = False\<rparr> demo_fs) = Inl (NotYours [[100]])"
  (is "fst (refuse_before_download _ ?p _) = _")
proof -
  obtain r s' where r: "refuse_before_download [[100]] ?p demo_fs = (r, s')" by fastforce
  have "p_writable ?p demo_fs = (True, demo_fs)" "\<not> p_as_root ?p" by simp_all
  from refusal_is_the_action [OF r this(2,1)] show ?thesis by (simp add: r action_for_def)
qed

lemma is_writable_touches:
  assumes "is_writable m d s = (w, s')"
  shows "touches (probe_name m d) s s'"
proof -
  obtain r1 s1 where 1: "fs_create (m_faults m) 438 (probe_name m d) s = (r1, s1)" by fastforce
  obtain r2 s2 where 2: "fs_remove_file (m_faults m) (probe_name m d) s1 = (r2, s2)" by fastforce
  have t: "touches (probe_name m d) s s1" using create_touches [OF 1] by blast
  have "s' = s1 \<or> s' = s2" using assms 1 2 by (cases r1) (auto simp: is_writable_def)
  then show ?thesis using t touches_trans [OF t remove_file_touches [OF 2]] by blast
qed

lemma refusal_touches:
  assumes "refuse_before_download d p s = (r, s')" and "p_writable p = is_writable m d"
  shows "touches (probe_name m d) s s'"
proof -
  obtain w s1 where w: "is_writable m d s = (w, s1)" by fastforce
  show ?thesis using assms w is_writable_touches [OF w] touches_same [of s s]
    by (auto simp: refuse_before_download_def split: ownership.splits if_splits)
qed

text \<open>
  A directory that is not this program's to write gets no file: when the running copy is gone, or a package
  manager owns a binary or could not be asked, the file system is untouched; otherwise the write probe
  is all that touches it, and only its own name, which no other file has.
\<close>

theorem refusal_writes_nothing:
  assumes "refuse_before_download d p s = (r, s')" and "p_writable p = is_writable m d"
    and "wf_fs s" and "sole_name s (probe_name m d)"
  shows "if p_exe_gone p \<or> p_owner p \<noteq> NoOwner then s' = s else kept {probe_name m d} s s'"
proof -
  obtain w s1 where w: "is_writable m d s = (w, s1)" by fastforce
  have "kept {probe_name m d} s s1" using is_writable_touches [OF w] assms(3,4) by (simp add: touches_def)
  then show ?thesis using assms(1,2) w
    by (auto simp: refuse_before_download_def split: ownership.splits if_splits)
qed

theorem refusal_writes_nothing_witness:
  "lookup (snd (refuse_before_download demo_dir \<lparr>p_exe_gone = False, p_owner = Package (lit ''dpkg'') (lit ''tobii-linux''),
      p_writable = is_writable demo_machine demo_dir, p_binaries_mine = True, p_dir_mine = True, p_dir_in_home = True,
      p_as_root = False\<rparr> demo_fs)) demo_target = Some 1"
  (is "lookup (snd (refuse_before_download _ ?p _)) _ = _")
proof -
  obtain r s' where r: "refuse_before_download demo_dir ?p demo_fs = (r, s')" by fastforce
  have w: "wf_fs demo_fs" by (auto simp: wf_fs_def demo_fs_def lookup_def split: if_splits)
  have so: "sole_name demo_fs (probe_name demo_machine demo_dir)"
  proof -
    have "probe_name demo_machine demo_dir =
      [[100], [46, 116, 111, 98, 105, 105, 45, 117, 112, 100, 97, 116, 101, 45, 112, 114, 111, 98, 101, 45, 55]]"
      by (simp add: probe_name_def demo_machine_def demo_dir_def demo_strings) (simp add: utf8_enc1_def byte_def)
    then have "lookup demo_fs (probe_name demo_machine demo_dir) = None" by (simp add: demo_fs_def lookup_def demo_names)
    then show ?thesis by (simp add: sole_name_def)
  qed
  have "p_writable ?p = is_writable demo_machine demo_dir" "p_owner ?p \<noteq> NoOwner" by simp_all
  from refusal_writes_nothing [OF r this(1) w so] this(2) have "s' = demo_fs" by simp
  moreover have "lookup demo_fs demo_target = Some 1" by (simp add: demo_fs_def lookup_def demo_names)
  ultimately show ?thesis unfolding r by (simp del: lit_simps)
qed

end
