(* ===== verification/Folders.thy ===== *)
theory Folders
  imports Ownership
begin

text \<open>
  The folders a download may go to (\<^verbatim>\<open>tobii-update/src/install.rs\<close>): who else can write a folder,
  whether a group is the user's own, the walk over the folders above, and the words of the commands
  handed to the user, which a POSIX shell reads back as they were meant.
\<close>

section \<open>Words for a shell\<close>

definition is_alnum :: "nat \<Rightarrow> bool" where
  "is_alnum c \<longleftrightarrow> is_digit c \<or> (65 \<le> c \<and> c \<le> 90) \<or> (97 \<le> c \<and> c \<le> 122)"

definition shell_safe :: "nat \<Rightarrow> bool" where
  "shell_safe c \<longleftrightarrow> is_alnum c \<or> c \<in> {95, 46, 47, 45}"

definition shell_word :: "str \<Rightarrow> str" where
  "shell_word s =
     (if s \<noteq> [] \<and> list_all shell_safe s then s
      else 39 # concat (List.map (\<lambda>c. if c = 39 then [39, 92, 39, 39] else [c]) s) @ [39])"

definition command_as :: "folder_fix \<Rightarrow> fpath \<Rightarrow> nat \<Rightarrow> nat \<Rightarrow> str" where
  "command_as fix d uid gid =
     (let w = shell_word (display (path_bytes d)) in
      case fix of
        MakeWritable \<Rightarrow> lit ''chmod u+w '' @ w
      | TakeBack \<Rightarrow> lit ''sudo chown '' @ decimal uid @ lit '':'' @ decimal gid @ lit '' '' @ w)"

text \<open>
  The words a POSIX shell makes of a command of plain characters, blanks, backslashes and single quotes;
  anything else has a meaning of its own and is not read.
\<close>

definition shell_plain :: "nat \<Rightarrow> bool" where
  "shell_plain c \<longleftrightarrow> shell_safe c \<or> c \<in> {43, 58, 44, 64, 37, 61}"

function sh_read :: "bool \<Rightarrow> str option \<Rightarrow> str \<Rightarrow> str list option" where
  "sh_read True cur [] = None"
| "sh_read False cur [] = Some (case cur of None \<Rightarrow> [] | Some w \<Rightarrow> [w])"
| "sh_read True cur (c # s) =
     (let w = (case cur of None \<Rightarrow> [] | Some w \<Rightarrow> w) in
      if c = 39 then sh_read False (Some w) s else sh_read True (Some (w @ [c])) s)"
| "sh_read False cur (c # s) =
     (let w = (case cur of None \<Rightarrow> [] | Some w \<Rightarrow> w) in
      if c = 32 then
        (case cur of None \<Rightarrow> sh_read False None s | Some w \<Rightarrow> map_option (\<lambda>ws. w # ws) (sh_read False None s))
      else if c = 39 then sh_read True (Some w) s
      else if c = 92 then (case s of [] \<Rightarrow> None | d # t \<Rightarrow> sh_read False (Some (w @ [d])) t)
      else if shell_plain c then sh_read False (Some (w @ [c])) s
      else None)"
  by pat_completeness auto
termination by (relation "measure (\<lambda>(q, cur, s). length s)") auto

definition sh_words :: "str \<Rightarrow> str list option" where "sh_words s = sh_read False None s"

definition so_far :: "str option \<Rightarrow> str" where "so_far cur = (case cur of None \<Rightarrow> [] | Some w \<Rightarrow> w)"

lemma safe_not_special: "shell_plain c \<Longrightarrow> c \<noteq> 32 \<and> c \<noteq> 39 \<and> c \<noteq> 92"
  by (auto simp: shell_plain_def shell_safe_def is_alnum_def is_digit_def)

lemma sh_read_plain:
  "list_all shell_plain s \<Longrightarrow> s \<noteq> [] \<or> cur \<noteq> None \<Longrightarrow>
    sh_read False cur (s @ t) = sh_read False (Some (so_far cur @ s)) t"
proof (induction s arbitrary: cur)
  case (Cons c s)
  then have "sh_read False cur ((c # s) @ t) = sh_read False (Some (so_far cur @ [c])) (s @ t)"
    using safe_not_special [of c] by (simp add: so_far_def Let_def)
  also have "\<dots> = sh_read False (Some (so_far (Some (so_far cur @ [c])) @ s)) t"
    using Cons by (intro Cons.IH) auto
  finally show ?case by (simp add: so_far_def)
qed (auto simp: so_far_def)

lemma sh_read_quoted:
  "sh_read True (Some w) (concat (List.map (\<lambda>c. if c = 39 then [39, 92, 39, 39] else [c]) s) @ 39 # t) =
    sh_read False (Some (w @ s)) t"
  by (induction s arbitrary: w) (auto simp: Let_def)

lemma sh_read_word: "sh_read False cur (shell_word s @ t) = sh_read False (Some (so_far cur @ s)) t"
proof (cases "s \<noteq> [] \<and> list_all shell_safe s")
  case True
  then have "list_all shell_plain s" by (auto simp: shell_plain_def list_all_iff)
  then show ?thesis using True by (simp add: shell_word_def sh_read_plain)
next
  case False
  then have "shell_word s = 39 # concat (List.map (\<lambda>c. if c = 39 then [39, 92, 39, 39] else [c]) s) @ [39]"
    unfolding shell_word_def by (rule if_not_P)
  then show ?thesis using sh_read_quoted [of "so_far cur" s t] by (simp add: so_far_def Let_def)
qed

section \<open>Who can write\<close>

record fmeta =
  fm_uid :: nat
  fm_gid :: nat
  fm_mode :: u32
  fm_dir :: bool

definition OVERFLOW_UID :: nat where "OVERFLOW_UID = 65534"

definition may_own :: "nat \<Rightarrow> nat \<Rightarrow> bool" where
  "may_own owner me \<longleftrightarrow> owner = me \<or> owner = 0 \<or> owner = OVERFLOW_UID"

definition foreign_writer :: "fmeta \<Rightarrow> (nat \<Rightarrow> bool) \<Rightarrow> writer option" where
  "foreign_writer m private_group =
     (if fm_mode m AND 0x02 \<noteq> 0 then Some Anyone
      else if fm_mode m AND 0x10 \<noteq> 0 \<and> \<not> private_group (fm_gid m) then Some (ItsGroup (fm_gid m))
      else None)"

definition is_sticky :: "fmeta \<Rightarrow> bool" where "is_sticky m \<longleftrightarrow> fm_mode m AND 0x200 \<noteq> 0"

text \<open>\<^verbatim>\<open>/etc/passwd\<close>: the name, the uid and the primary group of the lines that have them.\<close>

definition account_of :: "str \<Rightarrow> (str \<times> nat \<times> nat) option" where
  "account_of l =
     (let f = split_on (\<lambda>c. c = 58) l in
      if length f \<le> 3 then None
      else Option.bind (parse_uint (2 ^ 32) (f ! 2)) (\<lambda>uid.
        map_option (\<lambda>gid. (hd f, uid, gid)) (parse_uint (2 ^ 32) (f ! 3))))"

definition accounts_in :: "str \<Rightarrow> (str \<times> nat \<times> nat) list" where
  "accounts_in passwd = List.map_filter account_of (lines passwd)"

definition members_of :: "nat \<Rightarrow> str \<Rightarrow> str option" where
  "members_of gid l =
     (let f = split_on (\<lambda>c. c = 58) l in
      if 4 \<le> length f \<and> parse_uint (2 ^ 32) (f ! 2) = Some gid then Some (f ! 3) else None)"

definition member_names :: "str \<Rightarrow> str list" where
  "member_names members = filter (\<lambda>m. m \<noteq> []) (List.map trim (split_on (\<lambda>c. c = 44) members))"

definition private_group_in :: "str \<Rightarrow> str \<Rightarrow> nat \<Rightarrow> nat \<Rightarrow> bool" where
  "private_group_in passwd groups gid euid =
     (let accounts = accounts_in passwd;
          mine = List.map fst (filter (\<lambda>a. fst (snd a) = euid) accounts);
          member_lists = List.map_filter (members_of gid) (lines groups)
      in if \<not> list_ex (\<lambda>a. fst (snd a) = euid \<and> snd (snd a) = gid) accounts \<or>
            list_ex (\<lambda>a. snd (snd a) = gid \<and> fst (snd a) \<noteq> euid) accounts
         then False
         else member_lists \<noteq> [] \<and> list_all (\<lambda>members. list_all (\<lambda>m. List.member mine m) (member_names members)) member_lists)"

section \<open>The folders above\<close>

type_synonym wpath = "component list"

text \<open>The path itself and its parents; the root has none, and a relative path ends in the empty one.\<close>

fun ancestors :: "wpath \<Rightarrow> wpath list" where
  "ancestors p = p # (if p = [] \<or> p = [RootDir] then [] else ancestors (butlast p))"

declare ancestors.simps [simp del]

record disk =
  d_stat :: "wpath \<Rightarrow> (io_error, fmeta) result"
  d_lstat :: "wpath \<Rightarrow> (io_error, fmeta) result"
  d_canon :: "wpath \<Rightarrow> (io_error, wpath) result"

fun chosen_loop :: "disk \<Rightarrow> nat \<Rightarrow> (nat \<Rightarrow> bool) \<Rightarrow> wpath list \<Rightarrow> wpath list \<Rightarrow> (install_error, unit) result" where
  "chosen_loop k me private_group seen [] = Inr ()"
| "chosen_loop k me private_group seen (f # fs) =
     (if f = [] \<or> f \<in> set seen then chosen_loop k me private_group seen fs
      else case d_stat k f of
        Inl e \<Rightarrow> Inl (InstallIo e)
      | Inr m \<Rightarrow>
          if \<not> may_own (fm_uid m) me then Inl (UnsafeFolder f (BelongsTo (fm_uid m)))
          else if is_sticky m then chosen_loop k me private_group (f # seen) fs
          else case foreign_writer m private_group of
            Some who \<Rightarrow> Inl (UnsafeFolder f (WritableBy who))
          | None \<Rightarrow> chosen_loop k me private_group (f # seen) fs)"

definition chosen_folder :: "disk \<Rightarrow> wpath \<Rightarrow> nat \<Rightarrow> (nat \<Rightarrow> bool) \<Rightarrow> (install_error, unit) result" where
  "chosen_folder k into me private_group =
     (case d_stat k into of
        Inl e \<Rightarrow> Inl (InstallIo e)
      | Inr chosen \<Rightarrow>
          if is_sticky chosen \<and> \<not> may_own (fm_uid chosen) me then Inl (UnsafeFolder into (SharedBy (fm_uid chosen)))
          else case d_canon k into of
            Inl e \<Rightarrow> Inl (InstallIo e)
          | Inr resolved \<Rightarrow> chosen_loop k me private_group [] (ancestors into @ ancestors resolved))"

definition download_folder_ok :: "disk \<Rightarrow> wpath \<Rightarrow> nat \<Rightarrow> (nat \<Rightarrow> bool) \<Rightarrow> bool" where
  "download_folder_ok k into me private_group \<longleftrightarrow> chosen_folder k into me private_group = Inr ()"

definition private_folder :: "disk \<Rightarrow> wpath \<Rightarrow> wpath \<Rightarrow> nat \<Rightarrow> (nat \<Rightarrow> bool) \<Rightarrow> (install_error, unit) result" where
  "private_folder k into d me private_group =
     res_bind (chosen_folder k into me private_group) (\<lambda>_.
       case d_lstat k d of
         Inl e \<Rightarrow> if e = IoNotFound then Inr () else Inl (InstallIo e)
       | Inr m \<Rightarrow>
           if \<not> fm_dir m then Inl (UnsafeFolder d NoFolder)
           else if fm_uid m \<noteq> me then Inl (UnsafeFolder d (MadeBy (fm_uid m)))
           else case foreign_writer m private_group of
             Some who \<Rightarrow> Inl (UnsafeFolder d (WritableBy who))
           | None \<Rightarrow> Inr ())"

section \<open>Who can move an entry\<close>

text \<open>
  POSIX: an entry of a directory can be renamed or removed by the directory's owner, and by anyone
  with write permission to it, in a sticky one only the owner of the entry.
\<close>

definition can_write :: "(nat \<Rightarrow> nat \<Rightarrow> bool) \<Rightarrow> nat \<Rightarrow> fmeta \<Rightarrow> bool" where
  "can_write in_group u m \<longleftrightarrow> fm_mode m AND 0x02 \<noteq> 0 \<or> (fm_mode m AND 0x10 \<noteq> 0 \<and> in_group u (fm_gid m))"

definition can_move :: "(nat \<Rightarrow> nat \<Rightarrow> bool) \<Rightarrow> nat \<Rightarrow> fmeta \<Rightarrow> nat \<Rightarrow> bool" where
  "can_move in_group u m entry_owner \<longleftrightarrow> u = fm_uid m \<or>
     (can_write in_group u m \<and> (is_sticky m \<longrightarrow> u = entry_owner))"

definition folder_fine :: "disk \<Rightarrow> nat \<Rightarrow> (nat \<Rightarrow> bool) \<Rightarrow> wpath \<Rightarrow> bool" where
  "folder_fine k me private_group f \<longleftrightarrow> (\<exists>m. d_stat k f = Inr m \<and> may_own (fm_uid m) me \<and>
     (is_sticky m \<or> foreign_writer m private_group = None))"

lemma chosen_loop_fine:
  "chosen_loop k me private_group seen fs = Inr () \<longleftrightarrow>
    (\<forall>f \<in> set fs. f = [] \<or> f \<in> set seen \<or> folder_fine k me private_group f)"
proof (induction fs arbitrary: seen)
  case (Cons f fs)
  show ?case
  proof (cases "f = [] \<or> f \<in> set seen")
    case True
    then show ?thesis using Cons by auto
  next
    case False
    then show ?thesis
      using Cons [of "f # seen"] by (auto simp: folder_fine_def split: sum.splits option.splits)
  qed
qed simp

section \<open>Properties\<close>

lemma sh_read_blank: "sh_read False (Some w) (32 # s) = map_option (\<lambda>ws. w # ws) (sh_read False None s)"
  by (simp add: Let_def)

lemma sh_read_lit: "list_all shell_plain s \<Longrightarrow> s \<noteq> [] \<Longrightarrow> sh_read False None (s @ 32 # t) = map_option (\<lambda>ws. s # ws) (sh_read False None t)"
  using sh_read_plain [of s None "32 # t"] by (simp add: so_far_def Let_def)

lemma sh_words_word: "sh_words (shell_word s) = Some [s]"
  using sh_read_word [of None s "[]"] by (simp add: sh_words_def so_far_def)

lemma plain_decimal: "list_all shell_plain (decimal n)"
  using decimal_digits [of n] by (auto simp: list_all_iff shell_plain_def shell_safe_def is_alnum_def)

text \<open>
  Advice that is pasted does what it says: a POSIX shell reads a quoted word back as that one word, whatever
  characters it holds, and each command that fixes a folder as exactly its words, the folder the last one.
\<close>

theorem fix_command_reads_back:
  "sh_words (shell_word s) = Some [s] \<and> sh_words (command_as ff d uid gid) =
    Some ((case ff of
       MakeWritable \<Rightarrow> [lit ''chmod'', lit ''u+w'']
     | TakeBack \<Rightarrow> [lit ''sudo'', lit ''chown'', decimal uid @ lit '':'' @ decimal gid]) @ [display (path_bytes d)])"
proof
  show "sh_words (shell_word s) = Some [s]" by (rule sh_words_word)
  let ?p = "display (path_bytes d)"
  have w: "sh_read False None (shell_word ?p) = Some [?p]" using sh_words_word by (simp add: sh_words_def)
  show "sh_words (command_as ff d uid gid) = Some ((case ff of
       MakeWritable \<Rightarrow> [lit ''chmod'', lit ''u+w'']
     | TakeBack \<Rightarrow> [lit ''sudo'', lit ''chown'', decimal uid @ lit '':'' @ decimal gid]) @ [?p])"
  proof (cases ff)
    case MakeWritable
    have l: "command_as ff d uid gid = lit ''chmod'' @ 32 # lit ''u+w'' @ 32 # shell_word ?p"
      by (simp add: command_as_def MakeWritable)
    have "list_all shell_plain (lit ''chmod'')" "list_all shell_plain (lit ''u+w'')" "lit ''chmod'' \<noteq> []" "lit ''u+w'' \<noteq> []"
      by (simp_all add: shell_plain_def shell_safe_def is_alnum_def is_digit_def)
    then show ?thesis unfolding sh_words_def l by (simp add: sh_read_lit w MakeWritable del: lit_simps)
  next
    case TakeBack
    let ?ids = "decimal uid @ lit '':'' @ decimal gid"
    have l: "command_as ff d uid gid = lit ''sudo'' @ 32 # lit ''chown'' @ 32 # ?ids @ 32 # shell_word ?p"
      by (simp add: command_as_def TakeBack)
    have "list_all shell_plain (lit ''sudo'')" "list_all shell_plain (lit ''chown'')" "lit ''sudo'' \<noteq> []" "lit ''chown'' \<noteq> []"
      "list_all shell_plain ?ids" "?ids \<noteq> []"
      using plain_decimal by (simp_all add: shell_plain_def shell_safe_def is_alnum_def is_digit_def)
    then show ?thesis unfolding sh_words_def l
      using sh_read_lit [of "?ids" "shell_word ?p"] by (simp add: sh_read_lit w TakeBack del: lit_simps append_assoc)
  qed
qed

text \<open>
  The accounts of a group: those it is the primary group of, and those whose name it lists.
\<close>

definition in_group_of :: "str \<Rightarrow> str \<Rightarrow> nat \<Rightarrow> nat \<Rightarrow> bool" where
  "in_group_of passwd groups u gid \<longleftrightarrow> (\<exists>name g. (name, u, g) \<in> set (accounts_in passwd) \<and>
     (g = gid \<or> (\<exists>l \<in> set (lines groups). \<exists>ms. members_of gid l = Some ms \<and> name \<in> set (member_names ms))))"

lemma private_group_members:
  assumes "private_group_in passwd groups gid euid" and "distinct (List.map fst (accounts_in passwd))"
  shows "in_group_of passwd groups euid gid \<and> (\<forall>u. in_group_of passwd groups u gid \<longrightarrow> u = euid)"
proof
  let ?A = "accounts_in passwd"
  have p: "\<exists>a \<in> set ?A. fst (snd a) = euid \<and> snd (snd a) = gid" "\<forall>a \<in> set ?A. snd (snd a) = gid \<longrightarrow> fst (snd a) = euid"
    using assms(1) by (auto simp: private_group_in_def Let_def list_ex_iff split: if_splits)
  have p3: "\<forall>l \<in> set (lines groups). \<forall>ms. members_of gid l = Some ms \<longrightarrow>
      (\<forall>m \<in> set (member_names ms). \<exists>a \<in> set ?A. fst (snd a) = euid \<and> fst a = m)"
    using assms(1) by (fastforce simp: private_group_in_def Let_def list_all_iff map_filter_def split: if_splits)
  show "in_group_of passwd groups euid gid" using p(1) unfolding in_group_of_def by force
  show "\<forall>u. in_group_of passwd groups u gid \<longrightarrow> u = euid"
  proof (intro allI impI)
    fix u assume "in_group_of passwd groups u gid"
    then obtain name g where a: "(name, u, g) \<in> set ?A"
      "g = gid \<or> (\<exists>l \<in> set (lines groups). \<exists>ms. members_of gid l = Some ms \<and> name \<in> set (member_names ms))"
      unfolding in_group_of_def by blast
    show "u = euid"
    proof (cases "g = gid")
      case True
      then show ?thesis using p(2) a(1) by fastforce
    next
      case False
      with a(2) p3 obtain b where b: "b \<in> set ?A" "fst (snd b) = euid" "fst b = name" by blast
      have "b = (name, u, g)" using assms(2) a(1) b(1,3) unfolding distinct_map inj_on_def by fastforce
      then show ?thesis using b(2) by simp
    qed
  qed
qed

text \<open>
  A private group is private: when the files say that a group is the user's own, the user is in it and no
  other account is, neither by its primary group nor by a name the group lists, the names of the
  accounts being distinct.
\<close>

theorem private_group_sound:
  assumes "private_group_in passwd groups gid euid" and "distinct (List.map fst (accounts_in passwd))"
  shows "in_group_of passwd groups u gid \<longleftrightarrow> u = euid"
  using private_group_members [OF assms] by blast


section \<open>Witnesses\<close>

theorem private_group_sound_witness:
  "in_group_of (lit ''u:x:5:7'' @ 10 # lit ''v:x:6:8'') (lit ''u:x:7:u'') 5 7"
proof -
  let ?p = "lit ''u:x:5:7'' @ 10 # lit ''v:x:6:8''"
  have v: "parse_uint (2 ^ 32) [48 + n] = Some n" if "n < 10" for n
    using parse_uint_decimal [of n "2 ^ 32"] that by (simp add: decimal.simps)
  have a: "accounts_in ?p = [([117], 5, 7), ([118], 6, 8)]"
    using v [of 5] v [of 6] v [of 7] v [of 8]
    by (simp add: accounts_in_def lines_def account_of_def chomp_def map_filter_def Let_def)
  have g: "members_of 7 (lit ''u:x:7:u'') = Some [117]" using v [of 7] by (simp add: members_of_def Let_def)
  have n: "member_names [117] = [[117]]" by (simp add: member_names_def trim_id is_space_def)
  have l: "lines (lit ''u:x:7:u'') = [lit ''u:x:7:u'']" by (simp add: lines_def chomp_def)
  have "private_group_in ?p (lit ''u:x:7:u'') 7 5"
    unfolding private_group_in_def a l using g by (simp add: n map_filter_def)
  then show ?thesis by (subst private_group_sound) (simp_all only: a, simp_all)
qed

text \<open>A folder in a home directory, with the one in it that holds the downloads.\<close>

definition home_disk :: disk where
  "home_disk = \<lparr>d_stat = (\<lambda>p. Inr \<lparr>fm_uid = (if p = [RootDir] then 0 else 1000), fm_gid = 1000, fm_mode = 0x1FD, fm_dir = True\<rparr>),
     d_lstat = (\<lambda>p. Inl IoNotFound), d_canon = Inr\<rparr>"


section \<open>A link of somebody else's\<close>

text \<open>
  The walk looks at the folders, not at the links on the way: a link another account made in a sticky folder
  is followed to a folder of the user's, and let through, and the account that owns it can replace it.
\<close>

definition link_disk :: disk where
  "link_disk = \<lparr>d_stat = (\<lambda>p. Inr (if p = [RootDir, Normal [116]]
       then \<lparr>fm_uid = 0, fm_gid = 0, fm_mode = 0x3FF, fm_dir = True\<rparr>
       else \<lparr>fm_uid = (if p = [RootDir] then 0 else 1000), fm_gid = 1000, fm_mode = 0x1ED, fm_dir = True\<rparr>)),
     d_lstat = (\<lambda>p. if p = [RootDir, Normal [116], Normal [108]]
       then Inr \<lparr>fm_uid = 1001, fm_gid = 1001, fm_mode = 0x1FF, fm_dir = False\<rparr> else Inl IoNotFound),
     d_canon = (\<lambda>p. Inr [RootDir, Normal [104]])\<rparr>"

lemma foreign_link_accepted:
  "chosen_folder link_disk [RootDir, Normal [116], Normal [108]] 1000 (\<lambda>g. False) = Inr () \<and>
    (\<exists>m e. d_stat link_disk [RootDir, Normal [116]] = Inr m \<and> d_lstat link_disk [RootDir, Normal [116], Normal [108]] = Inr e \<and>
       can_move (\<lambda>u g. False) 1001 m (fm_uid e))"
  by (simp add: chosen_folder_def link_disk_def ancestors.simps is_sticky_def may_own_def foreign_writer_def
      can_move_def can_write_def)

end
