(* ===== verification/Downloads.thy ===== *)
theory Downloads
  imports Folders
begin

text \<open>
  Downloading the files of a release for the user to install (\<open>download_release_files\<close> of
  \<^verbatim>\<open>tobii-update/src/install.rs\<close>): the folder is checked before and after it is made, every digest
  is looked up first, every file is checked, and what was written is removed when one fails. The disk
  is a parameter; of it the theorem relies on a read giving what a file holds and on a fetch writing only
  its destination.
\<close>

section \<open>The disk\<close>

record 'w shelf =
  s_net :: "'w net_ops"
  s_disk :: "'w \<Rightarrow> disk"
  s_mkdir :: "wpath \<Rightarrow> 'w \<Rightarrow> (io_error, unit) result \<times> 'w"
  s_rmdir :: "wpath \<Rightarrow> 'w \<Rightarrow> 'w"
  s_read :: "wpath \<Rightarrow> 'w \<Rightarrow> (io_error, bytes) result"
  s_remove :: "wpath \<Rightarrow> 'w \<Rightarrow> 'w"

text \<open>\<^verbatim>\<open>Path::join\<close>, and a path as its bytes.\<close>

definition wjoin :: "wpath \<Rightarrow> str \<Rightarrow> wpath" where
  "wjoin d name = (let c = components name in if starts_with [RootDir] c then c else d @ filter (\<lambda>x. x \<noteq> CurDir) c)"

fun component_bytes :: "component \<Rightarrow> bytes" where
  "component_bytes RootDir = []"
| "component_bytes CurDir = [46]"
| "component_bytes ParentDir = [46, 46]"
| "component_bytes (Normal n) = utf8_enc n"

fun wpath_bytes :: "wpath \<Rightarrow> path" where
  "wpath_bytes [] = []"
| "wpath_bytes [RootDir] = [47]"
| "wpath_bytes [c] = component_bytes c"
| "wpath_bytes (c # cs) = component_bytes c @ 47 # wpath_bytes cs"

section \<open>Operations\<close>

definition make_version_folder :: "'w shelf \<Rightarrow> wpath \<Rightarrow> wpath \<Rightarrow> nat \<Rightarrow> (nat \<Rightarrow> bool) \<Rightarrow> 'w \<Rightarrow>
    (install_error, unit) result \<times> 'w" where
  "make_version_folder k into d me private_group w =
     (case s_mkdir k d w of (r, w1) \<Rightarrow>
        (case r of
           Inl e \<Rightarrow>
             if e = EEXIST then (private_folder (s_disk k w1) into d me private_group, w1) else (Inl (InstallIo e), w1)
         | Inr _ \<Rightarrow>
             (case private_folder (s_disk k w1) into d me private_group of
                Inl e \<Rightarrow> (Inl e, s_rmdir k d w1)
              | Inr _ \<Rightarrow> (Inr (), w1))))"

definition discard_files :: "'w shelf \<Rightarrow> wpath list \<Rightarrow> wpath \<Rightarrow> 'w \<Rightarrow> 'w" where
  "discard_files k written d w = s_rmdir k d (fold (s_remove k) written w)"

fun fetch_each :: "'w shelf \<Rightarrow> (str \<Rightarrow> wpath \<Rightarrow> 'w \<Rightarrow> (net_error, unit) result \<times> 'w) \<Rightarrow> wpath \<Rightarrow> str \<Rightarrow>
    asset list \<Rightarrow> wpath list \<Rightarrow> 'w \<Rightarrow> (install_error, unit) result \<times> wpath list \<times> 'w" where
  "fetch_each k fetch_file d sums_text [] written w = (Inr (), written, w)"
| "fetch_each k fetch_file d sums_text (a # files) written w =
     (let dest = wjoin d (asset_name a) in
      case fetch_file (asset_url a) dest w of
        (Inl e, w1) \<Rightarrow> (Inl (Download e), written, w1)
      | (Inr _, w1) \<Rightarrow>
          (case digest_for sums_text (asset_name a) of
             None \<Rightarrow> (Inl (NotListed (asset_name a)), written @ [dest], w1)
           | Some expected \<Rightarrow>
               (case s_read k dest w1 of
                  Inl e \<Rightarrow> (Inl (InstallIo e), written @ [dest], w1)
                | Inr b \<Rightarrow>
                    if hex_digest b \<noteq> expected
                    then (Inl (Digest (asset_name a) expected (hex_digest b)), written @ [dest], w1)
                    else fetch_each k fetch_file d sums_text files (written @ [dest]) w1)))"

definition fetch_to :: "'w shelf \<Rightarrow> str \<Rightarrow> wpath \<Rightarrow> 'w \<Rightarrow> (net_error, unit) result \<times> 'w" where
  "fetch_to k url dest w = download (s_net k) url (wpath_bytes dest) w"

definition fetch_all :: "'w shelf \<Rightarrow> wpath \<Rightarrow> str \<Rightarrow> asset list \<Rightarrow> 'w \<Rightarrow> (install_error, wpath list) result \<times> 'w" where
  "fetch_all k d sums_text files w =
     (case fetch_each k (fetch_to k) d sums_text files [] w of
        (Inr _, written, w1) \<Rightarrow> (Inr written, w1)
      | (Inl e, written, w1) \<Rightarrow> (Inl e, discard_files k written d w1))"

definition version_folder :: "wpath \<Rightarrow> release \<Rightarrow> wpath" where
  "version_folder into r = wjoin into (lit ''tobii-linux-'' @ show_version (rel_version r))"

definition download_release_files :: "'w shelf \<Rightarrow> str \<Rightarrow> release \<Rightarrow> asset list \<Rightarrow> wpath \<Rightarrow> nat \<Rightarrow> (nat \<Rightarrow> bool) \<Rightarrow> 'w \<Rightarrow>
    (install_error, wpath list) result \<times> 'w" where
  "download_release_files k triple r files into me private_group w =
     (if files = [] then (Inl (NoBuildForTarget triple), w)
      else case find (\<lambda>a. \<not> is_plain_file_name (asset_name a)) files of
        Some a \<Rightarrow> (Inl (UnsafeName (asset_name a)), w)
      | None \<Rightarrow>
          (let d = version_folder into r in
           case private_folder (s_disk k w) into d me private_group of
             Inl e \<Rightarrow> (Inl e, w)
           | Inr _ \<Rightarrow>
               (case checksums r of
                  None \<Rightarrow> (Inl NoChecksums, w)
                | Some sums_asset \<Rightarrow>
                    (case get (s_net k) (asset_url sums_asset) w of
                       (Inl e, w1) \<Rightarrow> (Inl (Download e), w1)
                     | (Inr body, w1) \<Rightarrow>
                         (let sums_text = utf8_lossy body in
                          case find (\<lambda>a. digest_for sums_text (asset_name a) = None) files of
                            Some a \<Rightarrow> (Inl (NotListed (asset_name a)), w1)
                          | None \<Rightarrow>
                              (case make_version_folder k into d me private_group w1 of
                                 (Inl e, w2) \<Rightarrow> (Inl e, w2)
                               | (Inr _, w2) \<Rightarrow> fetch_all k d sums_text files w2))))))"

section \<open>What the files hold\<close>

text \<open>
  The paths the laws are about: entries of the folder the files go into, under a name that is one ordinary
  component and is text. Two such paths differ in their bytes when they differ in the name.
\<close>

definition entry_of :: "wpath \<Rightarrow> wpath \<Rightarrow> bool" where
  "entry_of d p \<longleftrightarrow> (\<exists>n. p = d @ [Normal n] \<and> wf_str n \<and> n \<notin> {[], [46], [46, 46]} \<and> 47 \<notin> set n)"

text \<open>
  What the theorem relies on, for a function that gives what the file of a path holds in a state: reading
  an entry of the folder gives what it holds, and fetching into one changes no other.
\<close>

definition shelf_ok :: "'w shelf \<Rightarrow> wpath \<Rightarrow> ('w \<Rightarrow> wpath \<Rightarrow> bytes option) \<Rightarrow> bool" where
  "shelf_ok k d holds \<longleftrightarrow>
     (\<forall>p w b. entry_of d p \<and> s_read k p w = Inr b \<longrightarrow> holds w p = Some b) \<and>
     (\<forall>url p w r w1 q. entry_of d p \<and> entry_of d q \<and> fetch_to k url p w = (r, w1) \<and> q \<noteq> p \<longrightarrow> holds w1 q = holds w q)"

definition checked :: "('w \<Rightarrow> wpath \<Rightarrow> bytes option) \<Rightarrow> wpath \<Rightarrow> str \<Rightarrow> 'w \<Rightarrow> asset \<Rightarrow> bool" where
  "checked holds d sums_text w a \<longleftrightarrow> (\<exists>b. holds w (wjoin d (asset_name a)) = Some b \<and>
     digest_for sums_text (asset_name a) = Some (concat (List.map hex_byte (fips_sha256 b))))"

lemma find_map_some: "find_map f xs = Some y \<Longrightarrow> \<exists>x \<in> set xs. f x = Some y"
  by (induction xs) (auto split: option.splits)

lemma digest_for_name:
  assumes "digest_for sums_text name = Some h" and "wf_str sums_text"
  shows "47 \<notin> set name \<and> wf_str name"
proof -
  obtain l where l: "l \<in> set (lines sums_text)" "digest_line name l = Some h"
    using find_map_some assms(1) unfolding digest_for_def by metis
  then obtain hx fl ws where "split_whitespace l = hx # fl # ws" by (auto simp: digest_line_def split: list.splits)
  then have "fl \<in> set (split_on is_space l)" unfolding split_whitespace_def by (metis filter_is_subset list.set_intros subsetD)
  then have "set fl \<subseteq> set sums_text" using split_on_subset lines_subset [OF l(1)] by blast
  moreover obtain f where f: "name = last (split_on (\<lambda>c. c = 47) f)" "set f \<subseteq> set fl"
  proof -
    define f where "f = (case strip_prefix [42] fl of Some g \<Rightarrow> g | None \<Rightarrow> fl)"
    have "set f \<subseteq> set fl" by (auto simp: f_def strip_prefix_iff split: option.splits)
    moreover have "name = last (split_on (\<lambda>c. c = 47) f)"
      using l(2) \<open>split_whitespace l = hx # fl # ws\<close> by (auto simp: digest_line_def f_def Let_def split: if_splits)
    ultimately show ?thesis using that by blast
  qed
  moreover have n: "name \<in> set (split_on (\<lambda>c. c = 47) f)" unfolding f(1) by (rule last_in_set [OF split_on_nonempty])
  ultimately have "set name \<subseteq> set sums_text" "list_all (\<lambda>c. c \<noteq> 47) name"
    using split_on_subset [OF n] split_on_parts [OF n] by blast+
  then show ?thesis using wf_str_subset [OF assms(2)] by (auto simp: list_all_iff)
qed

text \<open>A plain name is one component, perhaps with a separator behind it that is dropped.\<close>

lemma plain_component:
  assumes "is_plain_file_name name"
  obtains n where "components name = [Normal n]" "n \<notin> {[], [46], [46, 46]}" "47 \<notin> set n" "set n \<subseteq> set name"
    "47 \<notin> set name \<longrightarrow> n = name"
proof -
  let ?parts = "filter (\<lambda>c. c \<noteq> []) (split_on (\<lambda>c. c = 47) name)"
  obtain n where n: "components name = [Normal n]"
    using assms by (auto simp: is_plain_file_name_def split: list.splits component.splits)
  then have "List.map (\<lambda>c. if c = [46, 46] then ParentDir else Normal c) (filter (\<lambda>c. c \<noteq> [46]) ?parts) = [Normal n]"
    by (auto simp: components_def Let_def split: if_splits)
  then have "filter (\<lambda>c. c \<noteq> [46]) ?parts = [n] \<and> n \<noteq> [46, 46]"
    by (auto simp: map_eq_Cons_conv split: if_splits)
  then have "n \<in> set (filter (\<lambda>c. c \<noteq> [46]) ?parts)" "n \<noteq> [46, 46]" by (metis list.set_intros(1), blast)
  then have m: "n \<in> set (split_on (\<lambda>c. c = 47) name)" "n \<notin> {[], [46], [46, 46]}"
    unfolding set_filter by blast+
  have "47 \<notin> set name \<longrightarrow> n = name"
  proof
    assume "47 \<notin> set name"
    then have "split_on (\<lambda>c. c = 47) name = [name]" by (intro split_on_none) (auto simp: list_all_iff)
    with m(1) show "n = name" by simp
  qed
  moreover have "47 \<notin> set n" using split_on_parts [OF m(1)] by (auto simp: list_all_iff)
  ultimately show ?thesis using that n m split_on_subset [OF m(1)] by blast
qed

lemma single_component:
  assumes "47 \<notin> set n" and "n \<notin> {[], [46], [46, 46]}"
  shows "components n = [Normal n]"
proof -
  have "split_on (\<lambda>c. c = 47) n = [n]" using assms(1) by (intro split_on_none) (auto simp: list_all_iff)
  moreover have "\<not> starts_with [47] n" using assms(1) by (auto simp: starts_with_iff)
  ultimately show ?thesis using assms(2) by (simp add: components_def)
qed

lemma plain_entry:
  assumes "is_plain_file_name name" and "wf_str name"
  shows "entry_of d (wjoin d name)"
proof -
  obtain n where n: "components name = [Normal n]" "n \<notin> {[], [46], [46, 46]}" "47 \<notin> set n" "set n \<subseteq> set name"
    using plain_component [OF assms(1)] by metis
  then show ?thesis using wf_str_subset [OF assms(2) n(4)]
    by (auto simp: entry_of_def wjoin_def starts_with_def)
qed

lemma plain_listed_join:
  "is_plain_file_name name \<Longrightarrow> digest_for sums_text name = Some h \<Longrightarrow> wf_str sums_text \<Longrightarrow> wjoin d name = d @ [Normal name]"
  using plain_component [of name] digest_for_name [of sums_text name h]
  by (fastforce simp: wjoin_def starts_with_def)

lemma fetch_each_checked:
  assumes "shelf_ok k d holds" and "fetch_each k (fetch_to k) d sums_text files written w = (Inr (), written', w')"
    and "\<forall>a \<in> set files. is_plain_file_name (asset_name a)" and "wf_str sums_text"
  shows "written' = written @ List.map (\<lambda>a. wjoin d (asset_name a)) files \<and>
    (\<forall>a \<in> set files. checked holds d sums_text w' a) \<and>
    (\<forall>q. entry_of d q \<and> q \<notin> (\<lambda>a. wjoin d (asset_name a)) ` set files \<longrightarrow> holds w' q = holds w q)"
  using assms(2,3)
proof (induction files arbitrary: written w)
  case (Cons a files)
  define dest where "dest = wjoin d (asset_name a)"
  obtain r w1 where f: "fetch_to k (asset_url a) dest w = (r, w1)" by fastforce
  obtain e where e: "r = Inr ()" "digest_for sums_text (asset_name a) = Some e"
    using Cons.prems(1) f by (auto simp: dest_def [symmetric] Let_def split: sum.splits option.splits)
  obtain b where b: "s_read k dest w1 = Inr b" "hex_digest b = e"
    and loop: "fetch_each k (fetch_to k) d sums_text files (written @ [dest]) w1 = (Inr (), written', w')"
    using Cons.prems(1) f e by (auto simp: dest_def [symmetric] Let_def split: sum.splits if_splits)
  have pl: "\<forall>a \<in> set files. is_plain_file_name (asset_name a)" using Cons.prems(2) by simp
  note IH = Cons.IH [OF loop pl]
  have en: "entry_of d dest"
    using plain_entry Cons.prems(2) digest_for_name [OF e(2) assms(4)] by (simp add: dest_def)
  then have h: "holds w1 dest = Some b" "\<And>q. entry_of d q \<Longrightarrow> q \<noteq> dest \<Longrightarrow> holds w1 q = holds w q"
    using assms(1) b(1) f unfolding shelf_ok_def by blast+
  have "checked holds d sums_text w' a"
  proof (cases "dest \<in> (\<lambda>a. wjoin d (asset_name a)) ` set files")
    case False
    then have "holds w' dest = Some b" using IH h(1) en by simp
    then show ?thesis using b(2) e(2) by (simp add: checked_def dest_def hex_digest_fips)
  next
    case True
    then obtain c where c: "c \<in> set files" "wjoin d (asset_name c) = dest" by auto
    then have k: "checked holds d sums_text w' c" using IH by blast
    then obtain e' where "digest_for sums_text (asset_name c) = Some e'" by (auto simp: checked_def)
    with plain_listed_join pl c assms(4) have "dest = d @ [Normal (asset_name c)]" by metis
    moreover have "dest = d @ [Normal (asset_name a)]"
      using plain_listed_join e(2) Cons.prems(2) assms(4) by (simp add: dest_def)
    ultimately show ?thesis using k by (simp add: checked_def)
  qed
  then show ?case using IH h(2) by (auto simp: dest_def)
qed simp

lemma download_release_files_steps:
  assumes "download_release_files k triple r files into me private_group w = (Inr written, w')"
  obtains a body w1 w2 where "checksums r = Some a" "get (s_net k) (asset_url a) w = (Inr body, w1)"
    "make_version_folder k into (version_folder into r) me private_group w1 = (Inr (), w2)"
    "fetch_each k (fetch_to k) (version_folder into r) (utf8_lossy body) files [] w2 = (Inr (), written, w')"
    "\<forall>a \<in> set files. is_plain_file_name (asset_name a)"
    "private_folder (s_disk k w) into (version_folder into r) me private_group = Inr ()"
  using assms
  by (auto simp: download_release_files_def fetch_all_def Let_def find_None_iff
      split: if_splits option.splits sum.splits prod.splits)

text \<open>
  C15. What is handed over was checked. When the files of a release are downloaded, the folder was found to be
  the user's alone, the checksums came whole from a trusted address, and at the end every file asked for
  is in the folder under its own name and holds bytes whose SHA-256 is the digest listed for it. Of the
  disk this relies on reads of the folder's entries giving what they hold and on a fetch into one entry
  leaving the others alone; the witness is a disk where the fetch writes a file that was not there.
\<close>

theorem downloads_checked:
  assumes "download_release_files k triple r files into me private_group w = (Inr written, w')"
    and "shelf_ok k (version_folder into r) holds"
  shows "written = List.map (\<lambda>a. version_folder into r @ [Normal (asset_name a)]) files \<and>
    private_folder (s_disk k w) into (version_folder into r) me private_group = Inr () \<and>
    (\<exists>a body w1. checksums r = Some a \<and> trusted_url (asset_url a) \<and> completed (s_net k) body w1 \<and>
      (\<forall>f \<in> set files. \<exists>b. holds w' (version_folder into r @ [Normal (asset_name f)]) = Some b \<and>
        digest_for (utf8_lossy body) (asset_name f) = Some (concat (List.map hex_byte (fips_sha256 b)))))"
proof -
  obtain a body w1 w2 where s: "checksums r = Some a" "get (s_net k) (asset_url a) w = (Inr body, w1)"
    "fetch_each k (fetch_to k) (version_folder into r) (utf8_lossy body) files [] w2 = (Inr (), written, w')"
    "\<forall>a \<in> set files. is_plain_file_name (asset_name a)"
    "private_folder (s_disk k w) into (version_folder into r) me private_group = Inr ()"
    using download_release_files_steps [OF assms(1)] by metis
  have t: "trusted_url (asset_url a)" "completed (s_net k) body w1"
    using fetch_ok [OF s(2) [unfolded get_def]] by (simp_all add: accepted_def)
  note e = fetch_each_checked [OF assms(2) s(3,4) utf8_lossy_wf]
  have j: "wjoin (version_folder into r) (asset_name f) = version_folder into r @ [Normal (asset_name f)]" if "f \<in> set files" for f
    using that e s(4) plain_listed_join utf8_lossy_wf by (fastforce simp: checked_def)
  have "\<forall>f \<in> set files. \<exists>b. holds w' (version_folder into r @ [Normal (asset_name f)]) = Some b \<and>
      digest_for (utf8_lossy body) (asset_name f) = Some (concat (List.map hex_byte (fips_sha256 b)))"
    using e j by (simp add: checked_def)
  moreover have "written = List.map (\<lambda>a. version_folder into r @ [Normal (asset_name a)]) files"
    using e j by simp
  ultimately show ?thesis using s(1,5) t by blast
qed

section \<open>After a failure\<close>

text \<open>What this relies on: removing removes, and a fetch that failed on the reply leaves no part of a file.\<close>

definition removals_ok :: "'w shelf \<Rightarrow> wpath \<Rightarrow> ('w \<Rightarrow> wpath \<Rightarrow> bytes option) \<Rightarrow> bool" where
  "removals_ok k d holds \<longleftrightarrow>
     (\<forall>p q w. entry_of d p \<and> entry_of d q \<longrightarrow> holds (s_remove k p w) q = (if q = p then None else holds w q)) \<and>
     (\<forall>q w. entry_of d q \<longrightarrow> holds (s_rmdir k d w) q = holds w q) \<and>
     (\<forall>url p w e w1. entry_of d p \<and> fetch_to k url p w = (Inl e, w1) \<and> reply_failure e \<longrightarrow>
        holds w1 p = None \<or> holds w1 p = holds w p)"

lemma removed_all:
  assumes "removals_ok k d holds" and "entry_of d q" and "list_all (entry_of d) ps"
  shows "holds (fold (s_remove k) ps w) q = (if q \<in> set ps then None else holds w q)"
  using assms(3)
proof (induction ps arbitrary: w)
  case (Cons p ps)
  then show ?case using assms(1,2) unfolding removals_ok_def by auto
qed simp

lemma fetch_each_entries:
  assumes "fetch_each k fetch_file d sums_text files written w = (r, written', w')"
    and "\<forall>a \<in> set files. is_plain_file_name (asset_name a) \<and> wf_str (asset_name a)" and "list_all (entry_of d) written"
  shows "list_all (entry_of d) written'"
  using assms
proof (induction files arbitrary: written w)
  case (Cons a files)
  have "entry_of d (wjoin d (asset_name a))" using plain_entry Cons.prems(2) by simp
  with Cons show ?case
    by (auto simp: Let_def split: prod.splits sum.splits option.splits if_splits)
qed simp

lemma fetch_each_written:
  assumes "shelf_ok k d holds" and "removals_ok k d holds"
    and "fetch_each k (fetch_to k) d sums_text files written w = (r, written', w')"
    and "\<forall>e. r = Inl (Download e) \<longrightarrow> reply_failure e" and "q \<notin> set written'" and "entry_of d q"
    and "\<forall>a \<in> set files. is_plain_file_name (asset_name a) \<and> wf_str (asset_name a)"
  shows "set written \<subseteq> set written' \<and> (holds w' q = holds w q \<or> holds w' q = None)"
  using assms(3,5,7)
proof (induction files arbitrary: written w)
  case (Cons a files)
  define dest where "dest = wjoin d (asset_name a)"
  obtain r1 w1 where f: "fetch_to k (asset_url a) dest w = (r1, w1)" by fastforce
  have en: "entry_of d dest" using plain_entry Cons.prems(3) by (simp add: dest_def)
  then have other: "holds w1 q = holds w q" if "q \<noteq> dest"
    using assms(1,6) f that unfolding shelf_ok_def by blast
  show ?case
  proof (cases r1)
    case (Inl e)
    then have r: "r = Inl (Download e)" "written' = written" "w' = w1"
      using Cons.prems(1) f by (simp_all add: dest_def [symmetric] Let_def)
    then have "reply_failure e" using assms(4) by blast
    moreover have "fetch_to k (asset_url a) dest w = (Inl e, w1)" using f Inl by simp
    ultimately have "holds w1 dest = None \<or> holds w1 dest = holds w dest"
      using assms(2) en unfolding removals_ok_def by blast
    then show ?thesis using r other by (cases "q = dest") auto
  next
    case (Inr u)
    consider (stop) "written' = written @ [dest]" "w' = w1"
      | (more) "fetch_each k (fetch_to k) d sums_text files (written @ [dest]) w1 = (r, written', w')"
      using Cons.prems(1) f Inr
      by (auto simp: dest_def [symmetric] Let_def split: option.splits sum.splits if_splits)
    then show ?thesis
    proof cases
      case stop
      then show ?thesis using Cons.prems(2) other by auto
    next
      case more
      have "set (written @ [dest]) \<subseteq> set written'" "holds w' q = holds w1 q \<or> holds w' q = None"
        using Cons.IH [OF more Cons.prems(2)] Cons.prems(3) by simp_all
      moreover from this have "q \<noteq> dest" using Cons.prems(2) by auto
      ultimately show ?thesis using other by simp
    qed
  qed
qed simp

text \<open>
  Nothing a failed download wrote survives it: every file of the folder is as it was before the fetching began or gone,
  the one whose digest did not match included, unless the last fetch failed on this machine itself.
\<close>

theorem failed_downloads_discarded:
  assumes "shelf_ok k d holds" and "removals_ok k d holds" and "fetch_all k d sums_text files w = (Inl e, w')"
    and "\<forall>n. e = Download n \<longrightarrow> reply_failure n" and "entry_of d q"
    and "\<forall>a \<in> set files. is_plain_file_name (asset_name a) \<and> wf_str (asset_name a)"
  shows "holds w' q = holds w q \<or> holds w' q = None"
proof -
  obtain r1 written w1 where f: "fetch_each k (fetch_to k) d sums_text files [] w = (r1, written, w1)"
    by (metis prod_cases3)
  with assms(3) have r: "r1 = Inl e" "w' = discard_files k written d w1"
    by (auto simp: fetch_all_def split: sum.splits)
  have en: "list_all (entry_of d) written" by (rule fetch_each_entries [OF f assms(6)]) simp
  have h: "holds w' q = (if q \<in> set written then None else holds w1 q)"
    using removed_all [OF assms(2,5) en] assms(2,5) by (simp add: r(2) discard_files_def removals_ok_def)
  show ?thesis
  proof (cases "q \<in> set written")
    case False
    with fetch_each_written [OF assms(1,2) f _ False assms(5,6)] assms(4) r(1) h show ?thesis by simp
  qed (simp add: h)
qed

section \<open>Witnesses\<close>

text \<open>Where a command line of curl writes to.\<close>

fun dest_of :: "str list \<Rightarrow> str option" where
  "dest_of [] = None"
| "dest_of (a # args) = (if a = lit ''-o'' then (case args of [] \<Rightarrow> None | p # _ \<Rightarrow> Some p) else dest_of args)"

lemma decimal_no_option: "decimal n \<noteq> 45 # t"
  using decimal_digits [of n] by (auto simp: is_digit_def)

lemma dest_of_curl: "dest_of (curl_args url dest) = map_option display dest"
  by (cases dest) (simp_all add: curl_args_def CONNECT_TIMEOUT_def MAX_TIME_def decimal_no_option)

text \<open>
  A disk that holds what was written under the bytes of a path, and a server whose listing names one
  empty file, \<^verbatim>\<open>a\<close>: fetching into a file writes it.
\<close>

definition demo_listing :: bytes where "demo_listing = utf8_enc (sha256sum [(lit ''a'', [])])"

definition curl_child :: "bytes \<Rightarrow> child" where
  "curl_child out = \<lparr>child_out = out, child_fault = None, child_err = [], child_status = Inr (Some 0)\<rparr>"

definition demo_net :: "(path \<Rightarrow> bytes option) net_ops" where
  "demo_net = \<lparr>spawn = (\<lambda>prog args w. case dest_of args of
        None \<Rightarrow> (Inr (curl_child demo_listing), w)
      | Some p \<Rightarrow> (Inr (curl_child []), w(utf8_enc p := Some []))),
     remove_file = (\<lambda>p w. w(p := None)), file_len = (\<lambda>p w. case w p of None \<Rightarrow> Inl IoNotFound | Some b \<Rightarrow> Inr (length b))\<rparr>"

definition demo_shelf :: "(path \<Rightarrow> bytes option) shelf" where
  "demo_shelf = \<lparr>s_net = demo_net, s_disk = (\<lambda>_. home_disk), s_mkdir = (\<lambda>_ w. (Inr (), w)), s_rmdir = (\<lambda>_ w. w),
     s_read = (\<lambda>p w. case w (wpath_bytes p) of None \<Rightarrow> Inl IoNotFound | Some b \<Rightarrow> Inr b),
     s_remove = (\<lambda>p w. w(wpath_bytes p := None))\<rparr>"

definition demo_release :: release where
  "demo_release = \<lparr>tag = [], rel_version = \<lparr>major = 2, minor = 0, patch = 0, pre = []\<rparr>, rel_notes = [],
     assets = [\<lparr>asset_name = lit ''a'', asset_url = sample_url\<rparr>, \<lparr>asset_name = lit ''SHA256SUMS'', asset_url = sample_url\<rparr>],
     html_url = []\<rparr>"

definition demo_into :: wpath where "demo_into = [RootDir, Normal [97]]"
definition demo_folder :: wpath where "demo_folder = demo_into @ [Normal [98]]"

lemma curl_child_run: "length out \<le> 1000 \<Longrightarrow> collect (curl_child out) =
    Inr \<lparr>ran_stdout = out, ran_stderr = [], ran_code = Some 0, ran_ok = True\<rparr>"
  by (simp add: curl_child_def collect_def read_capped_def res_bind_def MAX_DOWNLOAD_def
      trim_def trim_start_def trim_end_matches_def)

lemma listing_length: "length demo_listing = 68"
  using hex_digest_plain [of _ "[]"] hex_digest_enc [of "[]"]
  by (simp add: demo_listing_def sha256sum_def utf8_enc1_def)

lemma demo_get: "get demo_net url w = (if trusted_url url then (Inr demo_listing, w) else (Inl (Untrusted url), w))"
  by (simp add: get_def fetch_def run_def demo_net_def dest_of_curl curl_child_run listing_length curl_reply_def finish_def
      MAX_DOWNLOAD_def del: lit_simps)

lemma demo_download:
  assumes "wf_str s"
  shows "download demo_net url (utf8_enc s) w =
    (if trusted_url url then (Inr (), w(utf8_enc s := Some [])) else (Inl (Untrusted url), w))"
proof -
  have "display (utf8_enc s) = s" by (simp add: display_def utf8_lossy_enc [OF assms])
  then show ?thesis
    by (simp add: download_def fetch_def run_def demo_net_def dest_of_curl curl_child_run curl_reply_def finish_def del: lit_simps)
qed

lemma entry_text:
  assumes "entry_of [RootDir, Normal [97], Normal v] p" and "wf_str v"
  shows "\<exists>n. p = [RootDir, Normal [97], Normal v, Normal n] \<and> wf_str n \<and> wpath_bytes p = utf8_enc (47 # 97 # 47 # v @ 47 # n)"
  using assms(1) by (auto simp: entry_of_def utf8_enc1_def byte_def)

lemma demo_shelf_ok:
  assumes "wf_str v"
  shows "shelf_ok demo_shelf [RootDir, Normal [97], Normal v] (\<lambda>w p. w (wpath_bytes p))"
    "removals_ok demo_shelf [RootDir, Normal [97], Normal v] (\<lambda>w p. w (wpath_bytes p))"
proof -
  let ?e = "entry_of [RootDir, Normal [97], Normal v]"
  have wf: "wf_str (47 # 97 # 47 # v @ 47 # n)" if "wf_str n" for n using that assms by (simp add: is_scalar_def)
  have inj: "wpath_bytes p \<noteq> wpath_bytes q" if "?e p" "?e q" "p \<noteq> q" for p q
    using entry_text [OF that(1) assms] entry_text [OF that(2) assms] that(3) enc_inj [OF wf wf] by fastforce
  have fetch: "fetch_to demo_shelf url p w =
      (if trusted_url url then (Inr (), w(wpath_bytes p := Some [])) else (Inl (Untrusted url), w))" if "?e p" for url p w
  proof -
    obtain n where n: "wf_str n" "wpath_bytes p = utf8_enc (47 # 97 # 47 # v @ 47 # n)"
      using entry_text [OF \<open>entry_of [RootDir, Normal [97], Normal v] p\<close> assms] by blast
    show ?thesis unfolding fetch_to_def n(2) demo_shelf_def shelf.simps by (rule demo_download [OF wf [OF n(1)]])
  qed
  show "shelf_ok demo_shelf [RootDir, Normal [97], Normal v] (\<lambda>w p. w (wpath_bytes p))"
    unfolding shelf_ok_def using inj fetch by (auto simp: demo_shelf_def split: if_splits option.splits)
  show "removals_ok demo_shelf [RootDir, Normal [97], Normal v] (\<lambda>w p. w (wpath_bytes p))"
    unfolding removals_ok_def using inj fetch by (auto simp: demo_shelf_def split: if_splits)
qed

text \<open>On an empty disk the download succeeds and writes the file.\<close>

theorem downloads_checked_witness:
  "case download_release_files demo_shelf [] demo_release [\<lparr>asset_name = lit ''a'', asset_url = sample_url\<rparr>]
      demo_into 1000 (\<lambda>g. g = 1000) (\<lambda>_. None) of (r, w') \<Rightarrow>
    r = Inr [version_folder demo_into demo_release @ [Normal (lit ''a'')]] \<and>
    w' (wpath_bytes (version_folder demo_into demo_release @ [Normal (lit ''a'')])) = Some []"
proof -
  let ?pg = "\<lambda>g. g = (1000::nat)" and ?files = "[\<lparr>asset_name = lit ''a'', asset_url = sample_url\<rparr>]"
  let ?d = "version_folder demo_into demo_release" and ?v = "lit ''tobii-linux-'' @ show_version (rel_version demo_release)"
  have an: "ancestors demo_into = [demo_into, [RootDir]]" by (simp add: ancestors.simps demo_into_def)
  have p: "private_folder home_disk demo_into d 1000 ?pg = Inr ()" for d
    using an by (simp add: private_folder_def res_bind_def chosen_folder_def home_disk_def is_sticky_def may_own_def foreign_writer_def demo_into_def)
  have "wf_str (sha256sum [(lit ''a'', [])])"
    using hex_digest_plain [of _ "[]"]
    by (fastforce simp: sha256sum_def wf_str_def is_scalar_def list_all_iff is_hexdigit_def is_digit_def)
  then have body: "utf8_lossy demo_listing = sha256sum [(lit ''a'', [])]" by (simp add: demo_listing_def utf8_lossy_enc del: lit_simps)
  have d: "digest_for (sha256sum [(lit ''a'', [])]) (lit ''a'') = Some (hex_digest [])"
    by (subst digest_for_listing) (simp_all add: bare_name_def is_space_def)
  have plain: "is_plain_file_name (lit ''a'')" by (simp add: is_plain_file_name_def components_def starts_with_def)
  have ck: "checksums demo_release = Some \<lparr>asset_name = lit ''SHA256SUMS'', asset_url = sample_url\<rparr>"
    by (simp add: checksums_def demo_release_def)
  have v: "rel_version demo_release = \<lparr>major = 2, minor = 0, patch = 0, pre = []\<rparr>" by (simp add: demo_release_def)
  have sep: "47 \<notin> set ?v" unfolding v using decimal_no [of 47] by (simp add: show_version_def is_digit_def)
  have vf: "?d = [RootDir, Normal [97], Normal ?v]"
    using single_component [OF sep] by (simp add: version_folder_def wjoin_def starts_with_def demo_into_def)
  have wv: "wf_str ?v" unfolding v by (simp add: show_version_def decimal_wf is_scalar_def)
  have disk: "s_disk demo_shelf w = home_disk" for w by (simp add: demo_shelf_def)
  have mk: "make_version_folder demo_shelf demo_into d 1000 ?pg w = (Inr (), w)" for d w
    using p by (simp add: make_version_folder_def demo_shelf_def)
  have j: "wjoin q (lit ''a'') = q @ [Normal (lit ''a'')]" for q
    by (simp add: wjoin_def components_def starts_with_def)
  let ?p = "wpath_bytes (wjoin ?d (lit ''a''))"
  have en: "?p = utf8_enc (47 # 97 # 47 # ?v @ 47 # lit ''a'')"
    unfolding j vf by (simp add: utf8_enc1_def byte_def)
  have fe: "fetch_all demo_shelf ?d (sha256sum [(lit ''a'', [])]) ?files w = (Inr [wjoin ?d (lit ''a'')], w(?p := Some []))" for w
  proof -
    have "fetch_to demo_shelf sample_url (wjoin ?d (lit ''a'')) w = (Inr (), w(?p := Some []))"
      unfolding fetch_to_def en using demo_download [of "47 # 97 # 47 # ?v @ 47 # lit ''a''"] wv sample_trusted
      by (simp add: demo_shelf_def is_scalar_def)
    then show ?thesis using d by (simp add: fetch_all_def Let_def demo_shelf_def del: lit_simps)
  qed
  have g: "get (s_net demo_shelf) sample_url w = (Inr demo_listing, w)" for w
    using demo_get sample_trusted by (simp add: demo_shelf_def)
  have r: "download_release_files demo_shelf [] demo_release ?files demo_into 1000 ?pg (\<lambda>_. None) =
      (Inr [wjoin ?d (lit ''a'')], (\<lambda>_. None)(?p := Some []))"
    unfolding download_release_files_def Let_def ck disk p
    using d plain by (simp add: g body mk fe del: lit_simps)
  have "shelf_ok demo_shelf ?d (\<lambda>w p. w (wpath_bytes p))" unfolding vf by (rule demo_shelf_ok(1) [OF wv])
  from downloads_checked [OF r this] show ?thesis unfolding r by (simp add: j del: lit_simps)
qed

text \<open>A file of another name stays when the address of the next is not trusted.\<close>

theorem failed_downloads_discarded_witness:
  "case fetch_all demo_shelf demo_folder [] [\<lparr>asset_name = lit ''a'', asset_url = []\<rparr>] (\<lambda>p. Some [1]) of (r, w') \<Rightarrow>
    r = Inl (Download (Untrusted [])) \<and>
    (w' (wpath_bytes (demo_folder @ [Normal [99]])) = Some [1] \<or> w' (wpath_bytes (demo_folder @ [Normal [99]])) = None)"
proof -
  let ?files = "[\<lparr>asset_name = lit ''a'', asset_url = []\<rparr>]"
  obtain r w' where r: "fetch_all demo_shelf demo_folder [] ?files (\<lambda>p. Some [1]) = (r, w')" by fastforce
  have "\<not> trusted_url []" by (auto simp: trusted_url_def)
  then have e: "r = Inl (Download (Untrusted []))"
    using r by (simp add: fetch_all_def fetch_to_def download_def fetch_def Let_def)
  have wf: "wf_str [98]" by (simp add: is_scalar_def)
  have laws: "shelf_ok demo_shelf demo_folder (\<lambda>w p. w (wpath_bytes p))" "removals_ok demo_shelf demo_folder (\<lambda>w p. w (wpath_bytes p))"
    using demo_shelf_ok [OF wf] by (simp_all add: demo_folder_def demo_into_def)
  have "entry_of demo_folder (demo_folder @ [Normal [99]])" by (simp add: entry_of_def is_scalar_def)
  moreover have "is_plain_file_name (lit ''a'')" "wf_str (lit ''a'')"
    by (simp_all add: is_plain_file_name_def components_def starts_with_def is_scalar_def)
  ultimately show ?thesis
    using failed_downloads_discarded [OF laws r [unfolded e], of "demo_folder @ [Normal [99]]"] r e by simp
qed

end
