(* ===== verification/Update.thy ===== *)
theory Update
  imports Downloads
begin

text \<open>
  The update itself (\<open>install_release\<close> of \<^verbatim>\<open>tobii-update/src/install.rs\<close>): refusals, the sweep
  of what dead runs left, the work directory, the download of the archive and of the digests, the
  installation, and the end of the work directory; with what the names of scratch files mean.
\<close>

section \<open>Directories with all they hold\<close>

definition fs_unlink :: "faults \<Rightarrow> fpath \<Rightarrow> fs \<Rightarrow> (io_error, unit) result \<times> fs" where
  "fs_unlink fl p = sys fl (\<lambda>s. if lookup s p = None then (Inl IoNotFound, s) else (Inr (), unbind p s))"

fun unlink_all :: "faults \<Rightarrow> fpath list \<Rightarrow> fs \<Rightarrow> (io_error, unit) result \<times> fs" where
  "unlink_all fl [] s = (Inr (), s)"
| "unlink_all fl (p # ps) s =
     (case fs_unlink fl p s of (Inl e, s1) \<Rightarrow> (Inl e, s1) | (Inr _, s1) \<Rightarrow> unlink_all fl ps s1)"

text \<open>\<^verbatim>\<open>remove_dir_all\<close>: deepest first, up to the first error; a link is removed itself.\<close>

definition tree_of :: "fs \<Rightarrow> fpath \<Rightarrow> fpath list" where
  "tree_of s p = rev (sort_key length (filter (prefix p) (List.map fst (entries s))))"

definition fs_remove_dir_all :: "faults \<Rightarrow> fpath \<Rightarrow> fs \<Rightarrow> (io_error, unit) result \<times> fs" where
  "fs_remove_dir_all fl p s =
     (case node_at s p of
        Some Directory \<Rightarrow> unlink_all fl (tree_of s p) s
      | _ \<Rightarrow> fs_remove_file fl p s)"

definition fs_read_dir :: "faults \<Rightarrow> fpath \<Rightarrow> fs \<Rightarrow> (io_error, fpath list) result \<times> fs" where
  "fs_read_dir fl d = sys fl (\<lambda>s. case node_at s d of
     Some Directory \<Rightarrow> (Inr (children s d), s) | None \<Rightarrow> (Inl IoNotFound, s) | _ \<Rightarrow> (Inl ENOTDIR, s))"

section \<open>The sweep\<close>

definition stale :: "machine \<Rightarrow> bytes \<Rightarrow> bool" where
  "stale m n = (case scratch_of (utf8_lossy n) of
     None \<Rightarrow> False
   | Some (kind, pid) \<Rightarrow> \<not> (kind = Backup \<or> pid = decimal (m_pid m)))"

fun sweep_loop :: "machine \<Rightarrow> fpath list \<Rightarrow> fs \<Rightarrow> fs" where
  "sweep_loop m [] s = s"
| "sweep_loop m (p # ps) s =
     (if \<not> stale m (last p) then sweep_loop m ps s
      else if stat_at m s p = Some Directory
      then sweep_loop m ps (snd (fs_remove_dir_all (m_faults m) p s))
      else sweep_loop m ps (snd (fs_remove_file (m_faults m) p s)))"

definition sweep_stale_scratch :: "machine \<Rightarrow> fpath \<Rightarrow> fs \<Rightarrow> fs" where
  "sweep_stale_scratch m d s =
     (case fs_read_dir (m_faults m) d s of (Inl _, s1) \<Rightarrow> s1 | (Inr ps, s1) \<Rightarrow> sweep_loop m ps s1)"

section \<open>The update\<close>

definition install_inner :: "machine \<Rightarrow> fs net_ops \<Rightarrow> release \<Rightarrow> asset \<Rightarrow> asset \<Rightarrow> fpath \<Rightarrow> fpath \<Rightarrow> fs \<Rightarrow>
    (install_error, installed) result \<times> fs" where
  "install_inner m net r archive sums_asset d work s =
     (let archive_path = join work (asset_name archive) in
      case download net (asset_url archive) (path_bytes archive_path) s of
        (Inl e, s1) \<Rightarrow> (Inl (Download e), s1)
      | (Inr _, s1) \<Rightarrow>
          (case get net (asset_url sums_asset) s1 of
             (Inl e, s2) \<Rightarrow> (Inl (Download e), s2)
           | (Inr body, s2) \<Rightarrow>
               (case digest_for (utf8_lossy body) (asset_name archive) of
                  None \<Rightarrow> (Inl (NotListed (asset_name archive)), s2)
                | Some expected \<Rightarrow>
                    (case install_verified_archive m archive_path expected d work s2 of
                       (Inl e, s3) \<Rightarrow> (Inl e, s3)
                     | (Inr rep, s3) \<Rightarrow>
                         (Inr (if in_version rep = [] then rep\<lparr>in_version := show_version (rel_version r)\<rparr> else rep), s3)))))"

definition install_in :: "machine \<Rightarrow> fs net_ops \<Rightarrow> release \<Rightarrow> asset \<Rightarrow> asset \<Rightarrow> fpath \<Rightarrow> fs \<Rightarrow>
    (install_error, installed) result \<times> fs" where
  "install_in m net r archive sums_asset d s =
     (let work = work_of m d;
          s1 = sweep_stale_scratch m d s;
          s2 = snd (fs_remove_dir_all (m_faults m) work s1)
      in case fs_create_dir_all (m_faults m) work s2 of
           (Inl e, s3) \<Rightarrow> (Inl (InstallIo e), s3)
         | (Inr _, s3) \<Rightarrow>
             (case install_inner m net r archive sums_asset d work s3 of
                (result, s4) \<Rightarrow> (result, snd (fs_remove_dir_all (m_faults m) work s4))))"

definition install_release :: "machine \<Rightarrow> fs net_ops \<Rightarrow> str \<Rightarrow> (io_error, fpath) result \<Rightarrow> (fpath \<Rightarrow> probes) \<Rightarrow> release \<Rightarrow> fs \<Rightarrow>
    (install_error, installed) result \<times> fs" where
  "install_release m net triple install_dir facts r s =
     (case archive_for r triple of
        None \<Rightarrow> (Inl (NoBuildForTarget triple), s)
      | Some archive \<Rightarrow>
          (case checksums r of
             None \<Rightarrow> (Inl NoChecksums, s)
           | Some sums_asset \<Rightarrow>
               if \<not> is_plain_file_name (asset_name archive) then (Inl (UnsafeName (asset_name archive)), s)
               else (case install_dir of
                  Inl e \<Rightarrow> (Inl (InstallIo e), s)
                | Inr d \<Rightarrow>
                    (case refuse_before_download d (facts d) s of
                       (Inl e, s1) \<Rightarrow> (Inl e, s1)
                     | (Inr _, s1) \<Rightarrow> install_in m net r archive sums_asset d s1))))"

section \<open>The names of scratch files\<close>

definition digits :: "str \<Rightarrow> bool" where "digits s \<longleftrightarrow> s \<noteq> [] \<and> list_all is_digit s"

definition scratch_name :: "scratch_kind \<Rightarrow> str \<Rightarrow> str \<Rightarrow> str" where
  "scratch_name k b pid = (case k of
     Work \<Rightarrow> lit ''.tobii-update-'' @ pid
   | Probe \<Rightarrow> lit ''.tobii-update-probe-'' @ pid
   | Staged \<Rightarrow> lit ''.'' @ b @ lit ''.new-'' @ pid
   | Backup \<Rightarrow> lit ''.'' @ b @ lit ''.old-'' @ pid)"

lemma digits_head: "digits pid \<Longrightarrow> \<exists>c cs. pid = c # cs \<and> 48 \<le> c \<and> c \<le> 57"
  by (cases pid) (auto simp: digits_def is_digit_def)

lemma scratch_of_name: "digits pid \<Longrightarrow> b \<in> set BINARIES \<Longrightarrow> scratch_of (scratch_name k b pid) = Some (k, pid)"
  using digits_head [of pid]
  by (cases k) (auto simp: scratch_of_def scratch_name_def scratch_bin_def BINARIES_def digits_def)

lemma scratch_bin_shape:
  assumes "scratch_bin name b = Some (k, pid)"
  shows "name = scratch_name k b pid"
proof -
  obtain n r where n: "strip_prefix [46] name = Some n" "strip_prefix b n = Some r"
    and r: "(case strip_prefix (lit ''.new-'') r of Some pid \<Rightarrow> Some (Staged, pid)
       | None \<Rightarrow> map_option (\<lambda>pid. (Backup, pid)) (strip_prefix (lit ''.old-'') r)) = Some (k, pid)"
    using assms unfolding scratch_bin_def bind_eq_Some_conv by blast
  have "name = [46] @ b @ r" using n by (simp add: strip_prefix_iff)
  moreover have "k = Staged \<and> r = lit ''.new-'' @ pid \<or> k = Backup \<and> r = lit ''.old-'' @ pid"
    using r by (cases "strip_prefix (lit ''.new-'') r") (simp_all add: strip_prefix_iff del: lit_simps)
  ultimately show ?thesis by (auto simp: scratch_name_def)
qed

lemma scratch_of_shape:
  assumes "scratch_of name = Some (k, pid)"
  shows "digits pid \<and> (\<exists>b \<in> set BINARIES. name = scratch_name k b pid)"
proof -
  have B: "lit ''tobii'' \<in> set BINARIES" by (simp add: BINARIES_def)
  have d: "digits pid" using assms by (auto simp: scratch_of_def digits_def bind_eq_Some_conv split: if_splits)
  consider (probe) "k = Probe" "name = lit ''.tobii-update-probe-'' @ pid" | (work) "k = Work" "name = lit ''.tobii-update-'' @ pid"
    | (bin) "find_map (scratch_bin name) BINARIES = Some (k, pid)"
    using assms by (auto simp: scratch_of_def bind_eq_Some_conv strip_prefix_iff simp del: lit_simps split: option.splits if_splits)
  then show ?thesis
  proof cases
    case bin
    then show ?thesis using d find_map_some [OF bin] scratch_bin_shape by blast
  qed (use d B in \<open>auto simp: scratch_name_def simp del: lit_simps\<close>)
qed

text \<open>
  The names of scratch files are read back exactly: a name is recognised just when it is one this program
  makes, of the kind and with the digits of the process that made it, so the binaries and every other
  name are not, and no two kinds are mistaken for each other.
\<close>

theorem scratch_of_iff:
  "scratch_of name = Some (k, pid) \<longleftrightarrow> pid \<noteq> [] \<and> list_all is_digit pid \<and>
    (\<exists>b \<in> set BINARIES. name = (case k of
       Work \<Rightarrow> lit ''.tobii-update-'' @ pid
     | Probe \<Rightarrow> lit ''.tobii-update-probe-'' @ pid
     | Staged \<Rightarrow> lit ''.'' @ b @ lit ''.new-'' @ pid
     | Backup \<Rightarrow> lit ''.'' @ b @ lit ''.old-'' @ pid))"
  using scratch_of_shape scratch_of_name unfolding digits_def scratch_name_def by blast

section \<open>What the sweep and the work directory touch\<close>

text \<open>Only names of a set go; what they name and all other names stay.\<close>

definition drops :: "(fpath \<Rightarrow> bool) \<Rightarrow> fs \<Rightarrow> fs \<Rightarrow> bool" where
  "drops P s s' \<longleftrightarrow> nodes s' = nodes s \<and> fresh s' = fresh s \<and>
     (\<forall>q. lookup s' q = lookup s q \<or> (P q \<and> lookup s' q = None))"

lemma drops_refl [simp]: "drops P s s" by (simp add: drops_def)

lemma drops_trans: "drops P s s1 \<Longrightarrow> drops P s1 s2 \<Longrightarrow> drops P s s2"
  unfolding drops_def by metis

lemma drops_mono: "drops P s s' \<Longrightarrow> (\<And>q. P q \<Longrightarrow> Q q) \<Longrightarrow> drops Q s s'"
  unfolding drops_def by blast

lemma drops_same: "lookup s' = lookup s \<Longrightarrow> nodes s' = nodes s \<Longrightarrow> fresh s' = fresh s \<Longrightarrow> drops P s s'"
  by (simp add: drops_def)

lemma drops_wf: "drops P s s' \<Longrightarrow> wf_fs s \<Longrightarrow> wf_fs s'"
  unfolding drops_def wf_fs_def by (metis option.distinct(1))

lemma drops_sole: "drops P s s' \<Longrightarrow> sole_name s p \<Longrightarrow> sole_name s' p"
  unfolding drops_def sole_name_def by (metis option.distinct(1))

lemma drops_file: "drops P s s' \<Longrightarrow> \<not> P q \<Longrightarrow> file_at s' q = file_at s q"
  unfolding drops_def file_at_def by metis

lemma drops_kept: "drops P s s' \<Longrightarrow> kept {q. P q} s s'"
  using drops_file by (fastforce simp: kept_def)

lemma remove_file_drops: "fs_remove_file fl p s = (r, s') \<Longrightarrow> P p \<Longrightarrow> drops P s s'"
  using remove_file_effect [of fl p s r s'] by (auto simp: drops_def split: if_splits)

lemma unlink_drops: "fs_unlink fl p s = (r, s') \<Longrightarrow> P p \<Longrightarrow> drops P s s'"
  unfolding fs_unlink_def by (rule sys_cases) (auto simp: drops_def split: if_splits)

lemma unlink_all_drops: "unlink_all fl ps s = (r, s') \<Longrightarrow> list_all P ps \<Longrightarrow> drops P s s'"
proof (induction ps arbitrary: s)
  case (Cons p ps)
  obtain r1 s1 where u: "fs_unlink fl p s = (r1, s1)" by fastforce
  have d: "drops P s s1" using unlink_drops [OF u] Cons.prems(2) by simp
  show ?case
  proof (cases r1)
    case (Inl e)
    then show ?thesis using Cons.prems u d by simp
  next
    case (Inr v)
    then have "unlink_all fl ps s1 = (r, s')" using Cons.prems(1) u by simp
    then show ?thesis using Cons.IH Cons.prems(2) drops_trans [OF d] by simp
  qed
qed simp

lemma remove_dir_all_drops:
  assumes "fs_remove_dir_all fl p s = (r, s')" and "\<And>q. prefix p q \<Longrightarrow> P q"
  shows "drops P s s'"
proof (cases "node_at s p = Some Directory")
  case True
  then have "unlink_all fl (tree_of s p) s = (r, s')" using assms(1) by (simp add: fs_remove_dir_all_def)
  moreover have "list_all P (tree_of s p)" using assms(2) by (auto simp: list_all_iff tree_of_def)
  ultimately show ?thesis by (rule unlink_all_drops)
next
  case False
  then have "fs_remove_file fl p s = (r, s')"
    using assms(1) by (auto simp: fs_remove_dir_all_def split: option.splits node.splits)
  then show ?thesis using assms(2) by (rule remove_file_drops) simp
qed

text \<open>Below an entry of the directory that is stale scratch.\<close>

definition swept :: "machine \<Rightarrow> fpath \<Rightarrow> fpath \<Rightarrow> bool" where
  "swept m d q \<longleftrightarrow> (\<exists>n. prefix (d @ [n]) q \<and> stale m n)"

lemma sweep_loop_drops:
  "\<forall>p \<in> set ps. \<exists>n. p = d @ [n] \<Longrightarrow> drops (swept m d) s (sweep_loop m ps s)"
proof (induction ps arbitrary: s)
  case (Cons p ps)
  obtain n where n: "p = d @ [n]" using Cons.prems by auto
  have ps: "\<forall>p \<in> set ps. \<exists>n. p = d @ [n]" using Cons.prems by simp
  show ?case
  proof (cases "stale m n")
    case False
    then show ?thesis using Cons.IH [OF ps] n by simp
  next
    case True
    obtain r1 s1 where t: "fs_remove_dir_all (m_faults m) p s = (r1, s1)" by fastforce
    obtain r2 s2 where f: "fs_remove_file (m_faults m) p s = (r2, s2)" by fastforce
    have "drops (swept m d) s s1" by (rule remove_dir_all_drops [OF t]) (use True n in \<open>auto simp: swept_def\<close>)
    moreover have "drops (swept m d) s s2" by (rule remove_file_drops [OF f]) (use True n in \<open>auto simp: swept_def\<close>)
    ultimately show ?thesis using True n t f drops_trans Cons.IH [OF ps] by auto
  qed
qed simp

lemma children_entry: "p \<in> set (children s d) \<Longrightarrow> \<exists>n. p = d @ [n]"
  by (cases p rule: rev_cases) (auto simp: children_def)

lemma sweep_drops: "drops (swept m d) s (sweep_stale_scratch m d s)"
proof -
  obtain r s1 where r: "fs_read_dir (m_faults m) d s = (r, s1)" by fastforce
  have e: "lookup s1 = lookup s \<and> nodes s1 = nodes s \<and> fresh s1 = fresh s \<and> (\<forall>ps. r = Inr ps \<longrightarrow> (\<forall>p \<in> set ps. \<exists>n. p = d @ [n]))"
    using r unfolding fs_read_dir_def
    by (rule sys_cases) (auto split: option.splits node.splits dest: children_entry)
  then have d1: "drops (swept m d) s s1" by (blast intro: drops_same)
  show ?thesis
  proof (cases r)
    case (Inr ps)
    then show ?thesis using r e drops_trans [OF d1 sweep_loop_drops] by (simp add: sweep_stale_scratch_def)
  qed (use r d1 in \<open>simp add: sweep_stale_scratch_def\<close>)
qed

end
