(* ===== verification/EndToEnd.thy ===== *)
theory EndToEnd
  imports Update
begin

text \<open>
  The update end to end: what a run of \<open>install_release\<close> means for the installed binaries, with the network
  and tar as parameters, and what the sweep leaves alone.
\<close>

section \<open>The sweep\<close>

lemma stale_name:
  assumes "wf_str name"
  shows "stale m (utf8_enc name) \<longleftrightarrow>
    (\<exists>k pid. scratch_of name = Some (k, pid) \<and> k \<noteq> Backup \<and> pid \<noteq> decimal (m_pid m))"
  using assms by (auto simp: stale_def utf8_lossy_enc split: option.splits)

lemma swept_entry: "swept m d (d @ [n]) \<longleftrightarrow> stale m n"
  by (auto simp: swept_def)

lemma binaries_not_scratch: "b \<in> set BINARIES \<Longrightarrow> scratch_of b = None"
  by (auto simp: BINARIES_def scratch_of_def scratch_bin_def)

lemma decimal_pid: "digits (decimal n)"
  using decimal_digits by (simp add: digits_def)

lemma scratch_name_wf: "b \<in> set BINARIES \<Longrightarrow> digits pid \<Longrightarrow> wf_str (scratch_name k b pid)"
proof -
  assume "b \<in> set BINARIES" "digits pid"
  moreover from this have "wf_str pid" by (auto simp: digits_def wf_str_def list_all_iff is_digit_def is_scalar_def)
  ultimately show ?thesis by (cases k) (simp_all add: scratch_name_def lit_wf binaries_wf del: lit_simps)
qed

text \<open>
  C27. The sweep removes scratch of other processes and nothing else: whatever fails, every file not below an
  entry of the directory that is scratch of another process, and no backup, is as it was; so are the
  binaries, every backup of them, whoever made it, and what this process staged itself.
\<close>

theorem sweep_keeps:
  assumes "\<And>n k pid. prefix (d @ [n]) q \<Longrightarrow> scratch_of (utf8_lossy n) = Some (k, pid) \<Longrightarrow>
    k = Backup \<or> pid = decimal (m_pid m)"
  shows "file_at (sweep_stale_scratch m d s) q = file_at s q"
proof -
  have "\<not> swept m d q" using assms by (fastforce simp: swept_def stale_def split: option.splits)
  then show ?thesis by (rule drops_file [OF sweep_drops])
qed

lemma sweep_keeps_ours:
  assumes "b \<in> set BINARIES" and "digits pid"
  shows "\<not> swept m d (target_of d b)" "\<not> swept m d (d @ [utf8_enc (scratch_name Backup b pid)])"
    "\<not> swept m d (d @ [utf8_enc (scratch_name k b (decimal (m_pid m)))])"
  using assms scratch_of_name [of pid b Backup] scratch_of_name [of "decimal (m_pid m)" b k] decimal_pid
  by (simp_all add: target_of_def swept_entry stale_name binaries_not_scratch binaries_wf scratch_name_wf)

section \<open>Names of this process\<close>

lemma own_names:
  "work_of m d = d @ [utf8_enc (scratch_name Work b (decimal (m_pid m)))]"
  "probe_name m d = d @ [utf8_enc (scratch_name Probe b (decimal (m_pid m)))]"
  "staging_of m d b = d @ [utf8_enc (scratch_name Staged b (decimal (m_pid m)))]"
  "b \<in> set BINARIES \<Longrightarrow> backup_name m d b = d @ [utf8_enc (scratch_name Backup b (decimal (m_pid m)))]"
  by (simp_all add: work_of_def probe_name_def staging_of_def backup_name_eq scratch_name_def del: lit_simps)

lemma scratch_entries_apart:
  assumes "b \<in> set BINARIES" "c \<in> set BINARIES" and "k \<noteq> k'"
  shows "d @ [utf8_enc (scratch_name k b (decimal p))] \<noteq> d @ [utf8_enc (scratch_name k' c (decimal p))]"
    "d @ [utf8_enc (scratch_name k b (decimal p))] \<noteq> target_of d c"
proof -
  have n: "scratch_of (scratch_name k b (decimal p)) = Some (k, decimal p)" "scratch_of (scratch_name k' c (decimal p)) = Some (k', decimal p)"
    using assms scratch_of_name decimal_pid by blast+
  have w: "wf_str (scratch_name k b (decimal p))" "wf_str (scratch_name k' c (decimal p))" "wf_str c"
    using assms scratch_name_wf decimal_pid binaries_wf by blast+
  have "scratch_name k b (decimal p) \<noteq> scratch_name k' c (decimal p)" using n assms(3) by auto
  then show "d @ [utf8_enc (scratch_name k b (decimal p))] \<noteq> d @ [utf8_enc (scratch_name k' c (decimal p))]"
    using enc_inj [OF w(1,2)] by auto
  have "scratch_name k b (decimal p) \<noteq> c" using n(1) binaries_not_scratch [OF assms(2)] by auto
  then show "d @ [utf8_enc (scratch_name k b (decimal p))] \<noteq> target_of d c"
    using enc_inj [OF w(1,3)] by (auto simp: target_of_def)
qed

section \<open>From the start to the work directory\<close>

text \<open>Before a run: no file has a scratch name of this process.\<close>

definition unused :: "machine \<Rightarrow> fpath \<Rightarrow> fs \<Rightarrow> bool" where
  "unused m d s \<longleftrightarrow> wf_fs s \<and> (\<forall>q. prefix (work_of m d) q \<longrightarrow> lookup s q = None) \<and>
     (\<forall>b \<in> set BINARIES. lookup s (staging_of m d b) = None)"

lemma unbound_sole: "lookup s p = None \<Longrightarrow> sole_name s p"
  by (simp add: sole_name_def)

lemma unused_drops: "unused m d s \<Longrightarrow> drops P s s' \<Longrightarrow> unused m d s'"
  unfolding unused_def using drops_wf by (metis drops_def)

lemma unused_kept:
  assumes "unused m d s" and "kept X s s'" and "wf_fs s'" and "\<And>q. q \<in> X \<Longrightarrow> \<not> prefix (work_of m d) q"
    and "\<And>b. b \<in> set BINARIES \<Longrightarrow> staging_of m d b \<notin> X"
  shows "unused m d s'"
proof -
  have "lookup s' q = lookup s q" if "prefix (work_of m d) q" for q
    using that assms(4) by (intro kept_lookup [OF assms(2)]) blast
  moreover have "lookup s' (staging_of m d b) = lookup s (staging_of m d b)" if "b \<in> set BINARIES" for b
    by (rule kept_lookup [OF assms(2) assms(5) [OF that]])
  ultimately show ?thesis using assms(1,3) by (simp add: unused_def)
qed

text \<open>
  A path that its bytes determine: every component is a name, not empty and without a separator, and is
  UTF-8, since a path is handed to curl and wget as text.
\<close>

definition name_ok :: "bytes \<Rightarrow> bool" where
  "name_ok n \<longleftrightarrow> n \<noteq> [] \<and> 47 \<notin> set n \<and> utf8_dec n \<noteq> None"

definition path_ok :: "fpath \<Rightarrow> bool" where
  "path_ok p \<longleftrightarrow> list_all name_ok p"

lemma name_ok_enc:
  assumes "wf_str n" "n \<noteq> []" "47 \<notin> set n"
  shows "name_ok (utf8_enc n)"
proof -
  have "utf8_enc n \<noteq> []" using assms(2) by (cases n) simp_all
  then show ?thesis using enc_ne [OF assms(1,3)] assms(1) by (simp add: name_ok_def utf8_dec_enc byte_def)
qed

text \<open>
  What the network promises: a fetch into a file that is not there touches that file alone, one into
  memory none.
\<close>

definition net_ok :: "fs net_ops \<Rightarrow> bool" where
  "net_ok net \<longleftrightarrow>
     (\<forall>url p s r s'. path_ok p \<and> lookup s p = None \<and> download net url (path_bytes p) s = (r, s') \<longrightarrow> touches p s s') \<and>
     (\<forall>url s r s'. get net url s = (r, s') \<longrightarrow> lookup s' = lookup s \<and> nodes s' = nodes s \<and> fresh s' = fresh s)"

text \<open>The binaries and their backups, untouched.\<close>

definition ours_kept :: "machine \<Rightarrow> fpath \<Rightarrow> fs \<Rightarrow> fs \<Rightarrow> bool" where
  "ours_kept m d s s' \<longleftrightarrow> (\<forall>b \<in> set BINARIES. file_at s' (target_of d b) = file_at s (target_of d b) \<and>
     file_at s' (backup_name m d b) = file_at s (backup_name m d b))"

lemma ours_kept_trans: "ours_kept m d s s1 \<Longrightarrow> ours_kept m d s1 s2 \<Longrightarrow> ours_kept m d s s2"
  by (simp add: ours_kept_def)

lemma ours_kept_same: "lookup s' = lookup s \<Longrightarrow> nodes s' = nodes s \<Longrightarrow> ours_kept m d s s'"
  by (simp add: ours_kept_def file_at_def)

lemma ours_kept_outside:
  assumes "kept X s s'" and "\<And>b. b \<in> set BINARIES \<Longrightarrow> target_of d b \<notin> X \<and> backup_name m d b \<notin> X"
  shows "ours_kept m d s s'"
  using assms by (simp add: ours_kept_def kept_def)

lemma entry_not_below: "d @ [n] \<noteq> d @ [k] \<Longrightarrow> \<not> prefix (d @ [n]) (d @ [k])"
  by simp

lemma ours_not_below_work:
  assumes "b \<in> set BINARIES"
  shows "\<not> prefix (work_of m d) (target_of d b)" "\<not> prefix (work_of m d) (backup_name m d b)"
    "\<not> prefix (work_of m d) (staging_of m d b)" "\<not> prefix (work_of m d) (probe_name m d)"
  using scratch_entries_apart [OF assms assms, of Work Backup d "m_pid m"] scratch_entries_apart [OF assms assms, of Work Staged d "m_pid m"]
    scratch_entries_apart [OF assms assms, of Work Probe d "m_pid m"] assms
  by (auto simp: own_names(1,2) [of m d b] own_names(3,4) target_of_def)

lemma removed_work_drops: "fs_remove_dir_all fl (work_of m d) s = (r, s') \<Longrightarrow> drops (prefix (work_of m d)) s s'"
  by (rule remove_dir_all_drops)

lemma removed_work_keeps: "fs_remove_dir_all fl (work_of m d) s = (r, s') \<Longrightarrow> ours_kept m d s s'"
  by (rule ours_kept_outside [OF drops_kept [OF removed_work_drops]]) (use ours_not_below_work in blast)+

lemma swept_keeps: "ours_kept m d s (sweep_stale_scratch m d s)"
proof (rule ours_kept_outside [OF drops_kept [OF sweep_drops]])
  fix b assume "b \<in> set BINARIES"
  then show "target_of d b \<notin> {q. swept m d q} \<and> backup_name m d b \<notin> {q. swept m d q}"
    using sweep_keeps_ours(1,2) [OF _ decimal_pid [of "m_pid m"], of b m d] by (simp add: own_names(4))
qed

section \<open>From the download to the end\<close>

text \<open>
  The archive was checked against the listing: both came from trusted addresses, the listing whole, and tar
  unpacked into \<open>s0\<close> a file whose SHA-256 is the digest listed for it.
\<close>

definition verified :: "machine \<Rightarrow> fs net_ops \<Rightarrow> asset \<Rightarrow> asset \<Rightarrow> fpath \<Rightarrow> fs \<Rightarrow> bool" where
  "verified m net archive sums_asset work s0 \<longleftrightarrow>
     trusted_url (asset_url archive) \<and> trusted_url (asset_url sums_asset) \<and>
     (\<exists>body w h c md s1 err. completed net body w \<and> digest_for (utf8_lossy body) (asset_name archive) = Some h \<and>
        node_at s1 (join work (asset_name archive)) = Some (Regular c md) \<and>
        concat (List.map hex_byte (fips_sha256 c)) = List.map ascii_lower h \<and>
        m_tar m (join work (asset_name archive)) (unpacked_of work) s1 = (Inr (True, err), s0))"

definition result_ok :: "machine \<Rightarrow> fs net_ops \<Rightarrow> asset \<Rightarrow> asset \<Rightarrow> fpath \<Rightarrow> fs \<Rightarrow> (install_error, installed) result \<Rightarrow> fs \<Rightarrow> bool" where
  "result_ok m net archive sums_asset d s r s' \<longleftrightarrow>
     (\<exists>s0. outcome m d (unpacked_of (work_of m d)) s s0 r s' \<and>
        (\<forall>rep. r = Inr rep \<longrightarrow> verified m net archive sums_asset (work_of m d) s0))"

lemma result_ok_frame:
  assumes "result_ok m net archive sums_asset d s1 r s'" and "ours_kept m d s s1" and "ours_kept m d s' s''"
  shows "result_ok m net archive sums_asset d s r s''"
proof -
  obtain s0 where s0: "outcome m d (unpacked_of (work_of m d)) s1 s0 r s'"
    "\<forall>rep. r = Inr rep \<longrightarrow> verified m net archive sums_asset (work_of m d) s0" using assms(1) unfolding result_ok_def by blast
  have "outcome m d (unpacked_of (work_of m d)) s s0 r s''"
    by (rule outcome_frame [OF s0(1)]) (use assms(2,3) in \<open>simp_all add: ours_kept_def\<close>)
  with s0(2) show ?thesis unfolding result_ok_def by blast
qed

lemma error_ok:
  assumes "ours_kept m d s s'" and "\<And>e. x \<noteq> SwapFailed e"
  shows "result_ok m net archive sums_asset d s (Inl x) s'"
proof -
  have "outcome m d u s s (Inl x) s'" for u
    using assms by (cases x) (auto simp: outcome_def ours_kept_def)
  then show ?thesis unfolding result_ok_def by blast
qed

lemma outcome_version:
  assumes "outcome m d u s s0 (Inr rep) s'" and "in_replaced rep' = in_replaced rep"
  shows "outcome m d u s s0 (Inr rep') s'"
  using assms unfolding outcome_def by auto

lemma plain_join:
  assumes "is_plain_file_name name" and "wf_str name"
  shows "\<exists>n. join d name = d @ [n] \<and> name_ok n"
proof -
  obtain n where n: "components name = [Normal n]" "n \<notin> {[], [46], [46, 46]}" "47 \<notin> set n" "set n \<subseteq> set name"
    using plain_component [OF assms(1)] by metis
  have "name_ok (utf8_enc n)" using name_ok_enc [OF wf_str_subset [OF assms(2) n(4)]] n(2,3) by simp
  then show ?thesis using n(1) by (simp add: join_def map_filter_def)
qed

lemma work_path: "path_ok d \<Longrightarrow> path_ok (work_of m d)"
  using name_ok_enc [of "lit ''.tobii-update-'' @ decimal (m_pid m)"] decimal_no [of 47]
  by (simp add: path_ok_def work_of_def decimal_wf lit_wf is_digit_def) (simp add: is_scalar_def)

lemma inner_effect:
  assumes run: "install_inner m net rel archive sums_asset d (work_of m d) s = (r, s')" and "tar_ok m" and "net_ok net"
    and "wf_fs s" and "\<forall>b \<in> set BINARIES. lookup s (staging_of m d b) = None"
    and "is_plain_file_name (asset_name archive)" and "lookup s (join (work_of m d) (asset_name archive)) = None"
    and "wf_str (asset_name archive)" and "path_ok d"
  shows "result_ok m net archive sums_asset d s r s'"
proof -
  let ?w = "work_of m d"
  let ?a = "join ?w (asset_name archive)"
  obtain n where n: "?a = ?w @ [n]" "name_ok n" using plain_join [OF assms(6,8)] by blast
  have away: "target_of d b \<noteq> ?a \<and> backup_name m d b \<noteq> ?a \<and> staging_of m d b \<noteq> ?a" if "b \<in> set BINARIES" for b
    using ours_not_below_work [OF that, of m d] n(1) by auto
  obtain r1 s1 where 1: "download net (asset_url archive) (path_bytes ?a) s = (r1, s1)" by fastforce
  have "path_ok ?a" using n work_path [OF assms(9), of m] by (simp add: path_ok_def)
  then have "touches ?a s s1" using assms(3,7) 1 unfolding net_ok_def by blast
  then have k1: "kept {?a} s s1" "wf_fs s1" using assms(4) unbound_sole [OF assms(7)] by (simp_all add: touches_def)
  have o1: "ours_kept m d s s1" by (rule ours_kept_outside [OF k1(1)]) (use away in auto)
  have so1: "\<forall>b \<in> set BINARIES. lookup s1 (staging_of m d b) = None"
    using kept_lookup [OF k1(1)] away assms(5) by simp
  obtain r2 s2 where 2: "get net (asset_url sums_asset) s1 = (r2, s2)" by fastforce
  have e2: "lookup s2 = lookup s1" "nodes s2 = nodes s1" "fresh s2 = fresh s1"
    using assms(3) 2 unfolding net_ok_def by blast+
  have o2: "ours_kept m d s s2" by (rule ours_kept_trans [OF o1 ours_kept_same [OF e2(1,2)]])
  show ?thesis
  proof (cases r1)
    case (Inl e)
    then show ?thesis using run 1 o1 by (auto simp: install_inner_def intro: error_ok)
  next
    case r1: (Inr u)
    show ?thesis
    proof (cases r2)
      case (Inl e)
      then show ?thesis using run 1 2 r1 o2 by (auto simp: install_inner_def intro: error_ok)
    next
      case r2: (Inr body)
      show ?thesis
      proof (cases "digest_for (utf8_lossy body) (asset_name archive)")
        case None
        then show ?thesis using run 1 2 r1 r2 o2 by (auto simp: install_inner_def intro: error_ok)
      next
        case (Some h)
        obtain r3 s3 where 3: "install_verified_archive m ?a h d ?w s2 = (r3, s3)" by fastforce
        have "wf_fs s2" "\<forall>b \<in> set BINARIES. sole_name s2 (staging_of m d b)"
          using k1(2) so1 by (simp_all add: wf_fs_def sole_name_def e2)
        from install_effect [OF 3 assms(2) this] obtain s0 where o: "outcome m d (unpacked_of ?w) s2 s0 r3 s3"
          and v: "\<And>rep. r3 = Inr rep \<Longrightarrow> published ?a h s2 \<and>
            (\<exists>s1 err. node_at s1 ?a = node_at s2 ?a \<and> m_tar m ?a (unpacked_of ?w) s1 = (Inr (True, err), s0))" by blast
        have t: "trusted_url (asset_url archive)" "trusted_url (asset_url sums_asset)" "completed net body s2"
        proof -
          obtain b where "fetch net (asset_url archive) (Some (path_bytes ?a)) s = (Inr b, s1)"
            using 1 r1 by (auto simp: download_def split: prod.splits sum.splits)
          from fetch_ok [OF this] show "trusted_url (asset_url archive)" by simp
          have "trusted_url (asset_url sums_asset) \<and> accepted net None body s2"
            using 2 r2 by (intro fetch_ok) (simp add: get_def)
          then show "trusted_url (asset_url sums_asset)" "completed net body s2" by (simp_all add: accepted_def)
        qed
        have ver: "verified m net archive sums_asset ?w s0" if "r3 = Inr rep" for rep
        proof -
          from v [OF that] obtain c md s4 err where "node_at s4 ?a = Some (Regular c md)"
            "concat (List.map hex_byte (fips_sha256 c)) = List.map ascii_lower h"
            "m_tar m ?a (unpacked_of ?w) s4 = (Inr (True, err), s0)" unfolding published_def by metis
          then show ?thesis using t Some unfolding verified_def by blast
        qed
        have "result_ok m net archive sums_asset d s2 r s'"
        proof (cases r3)
          case (Inl x)
          then have "r = r3" "s' = s3" using run 1 2 3 r1 r2 Some by (simp_all add: install_inner_def)
          then show ?thesis using o Inl unfolding result_ok_def by blast
        next
          case (Inr rep)
          then obtain rep' where "r = Inr rep'" "s' = s3" "in_replaced rep' = in_replaced rep"
            using run 1 2 3 r1 r2 Some by (auto simp: install_inner_def)
          then show ?thesis using outcome_version o ver Inr unfolding result_ok_def by blast
        qed
        then show ?thesis by (rule result_ok_frame [OF _ o2]) (simp add: ours_kept_def)
      qed
    qed
  qed
qed

lemma install_in_effect:
  assumes run: "install_in m net rel archive sums_asset d s = (r, s')" and "tar_ok m" and "net_ok net"
    and un: "unused m d s" and "is_plain_file_name (asset_name archive)" and "wf_str (asset_name archive)" and "path_ok d"
  shows "result_ok m net archive sums_asset d s r s'"
proof -
  let ?w = "work_of m d"
  define s1 where "s1 = sweep_stale_scratch m d s"
  obtain r2 s2 where 2: "fs_remove_dir_all (m_faults m) ?w s1 = (r2, s2)" by fastforce
  obtain r3 s3 where 3: "fs_create_dir_all (m_faults m) ?w s2 = (r3, s3)" by fastforce
  have "unused m d s2"
    using unused_drops [OF unused_drops [OF un sweep_drops] removed_work_drops] 2 by (simp add: s1_def)
  then have w2: "wf_fs s2" and n2: "\<And>q. prefix ?w q \<Longrightarrow> lookup s2 q = None"
    and st2: "\<And>b. b \<in> set BINARIES \<Longrightarrow> lookup s2 (staging_of m d b) = None" by (auto simp: unused_def)
  have o2: "ours_kept m d s s2"
    using ours_kept_trans [OF swept_keeps removed_work_keeps [OF 2 [unfolded s1_def]]] .
  let ?X = "{q. prefix q ?w \<and> lookup s2 q = None}"
  have g: "kept ?X s2 s3" "wf_fs s3" using create_dir_all_grows [OF 3] w2 by (simp_all add: grows_def)
  have not_above: "\<not> prefix (d @ [k]) ?w" if "d @ [k] \<noteq> ?w" for k
    using that by (auto simp: work_of_def)
  have away: "target_of d b \<notin> ?X \<and> backup_name m d b \<notin> ?X \<and> staging_of m d b \<notin> ?X" if b: "b \<in> set BINARIES" for b
  proof -
    have "target_of d b \<noteq> ?w" "backup_name m d b \<noteq> ?w" "staging_of m d b \<noteq> ?w"
      using ours_not_below_work [OF b, of m d] by auto
    then show ?thesis
      using not_above own_names(3,4) b unfolding target_of_def by simp
  qed
  have o3: "ours_kept m d s s3"
    by (rule ours_kept_trans [OF o2 ours_kept_outside [OF g(1)]]) (use away in blast)
  show ?thesis
  proof (cases r3)
    case (Inl e)
    then show ?thesis using run 2 3 o3 by (auto simp: install_in_def s1_def Let_def intro: error_ok)
  next
    case (Inr u)
    obtain r4 s4 where 4: "install_inner m net rel archive sums_asset d ?w s3 = (r4, s4)" by fastforce
    obtain r5 s5 where 5: "fs_remove_dir_all (m_faults m) ?w s4 = (r5, s5)" by fastforce
    have rs: "r = r4" "s' = s5" using run 2 3 Inr 4 5 by (simp_all add: install_in_def s1_def Let_def)
    obtain n where n: "join ?w (asset_name archive) = ?w @ [n]" using plain_join [OF assms(5,6)] by blast
    have "?w @ [n] \<notin> ?X" by (auto dest: prefix_length_le)
    then have "lookup s3 (join ?w (asset_name archive)) = None"
      using kept_lookup [OF g(1)] n2 unfolding n by simp
    moreover have "\<forall>b \<in> set BINARIES. lookup s3 (staging_of m d b) = None"
      using kept_lookup [OF g(1)] away st2 by simp
    ultimately have "result_ok m net archive sums_asset d s3 r4 s4"
      using inner_effect [OF 4 assms(2,3) g(2) _ assms(5) _ assms(6,7)] by blast
    then show ?thesis unfolding rs by (rule result_ok_frame [OF _ o3 removed_work_keeps [OF 5]])
  qed
qed

lemma refusal_error: "refuse_before_download d p s = (Inl x, s1) \<Longrightarrow> x \<noteq> SwapFailed e"
  by (auto simp: refuse_before_download_def split: if_splits ownership.splits prod.splits)

section \<open>Properties\<close>

lemma archive_listed: "archive_for rel triple = Some a \<Longrightarrow> a \<in> set (assets rel)"
  by (auto simp: archive_for_def find_Some_iff)

text \<open>
  C2. An update, end to end: whatever system calls fail and whenever it is killed, whatever the network, tar and
  the new binaries do, a run leaves the installed binaries all old or all new but for the ones it reports.
  They are replaced only when the refusals let it through and the archive, from a trusted address, is
  the file whose SHA-256 the whole listing from a trusted address gives for its name; and then each new
  binary is a regular file of that archive that was made executable and ran. This is for an installation
  directory whose path is UTF-8, where no file has a work, staging or probe name of this process when the
  run begins; a fetch into a file that is not there touches that file alone, and tar writes below
  the directory it is given. In the witness the download creates the archive and a binary is replaced.
\<close>

theorem update_all_or_nothing:
  assumes "install_release m net triple (Inr d) facts rel s = (r, s')" and "tar_ok m" and "net_ok net"
    and "unused m d s" and "lookup s (probe_name m d) = None" and "p_writable (facts d) = is_writable m d"
    and "path_ok d" and "\<forall>a \<in> set (assets rel). wf_str (asset_name a)"
  shows "\<exists>s0. outcome m d (unpacked_of (work_of m d)) s s0 r s' \<and>
    (\<forall>rep. r = Inr rep \<longrightarrow> (\<exists>archive sums_asset s1. archive_for rel triple = Some archive \<and> checksums rel = Some sums_asset \<and>
       refuse_before_download d (facts d) s = (Inr (), s1) \<and> verified m net archive sums_asset (work_of m d) s0))"
proof -
  have start: "ours_kept m d s s" by (simp add: ours_kept_def)
  have err: "\<exists>s0. outcome m d (unpacked_of (work_of m d)) s s0 (Inl x) s1"
    if "ours_kept m d s s1" "\<And>e. x \<noteq> SwapFailed e" for x s1
    using error_ok [OF that, where net = net] unfolding result_ok_def by blast
  consider (early) x where "r = Inl x" "s' = s" "\<And>e. x \<noteq> SwapFailed e"
    | (late) archive sums_asset where "archive_for rel triple = Some archive" "checksums rel = Some sums_asset"
        "is_plain_file_name (asset_name archive)"
        "(case refuse_before_download d (facts d) s of (Inl e, s1) \<Rightarrow> (Inl e, s1)
          | (Inr _, s1) \<Rightarrow> install_in m net rel archive sums_asset d s1) = (r, s')"
    using assms(1) by (auto simp: install_release_def split: option.splits if_splits)
  then show ?thesis
  proof cases
    case early
    then show ?thesis using err [OF start] by simp
  next
    case late
    obtain r1 s1 where 1: "refuse_before_download d (facts d) s = (r1, s1)" by fastforce
    have wf: "wf_fs s" using assms(4) by (simp add: unused_def)
    have k: "kept {probe_name m d} s s1 \<and> wf_fs s1"
      using refusal_touches [OF 1 assms(6)] wf unbound_sole [OF assms(5)] by (simp add: touches_def)
    have pn: "target_of d b \<noteq> probe_name m d \<and> backup_name m d b \<noteq> probe_name m d \<and> staging_of m d b \<noteq> probe_name m d"
      if b: "b \<in> set BINARIES" for b
      using scratch_entries_apart [OF b b, of Probe Backup d "m_pid m"] scratch_entries_apart [OF b b, of Probe Staged d "m_pid m"] b
      by (auto simp: own_names(2) [of m d b] own_names(3,4))
    have o1: "ours_kept m d s s1" by (rule ours_kept_outside) (use k pn in auto)
    show ?thesis
    proof (cases r1)
      case (Inl x)
      then have r: "r = Inl x" "s' = s1" using late(4) 1 by simp_all
      have "x \<noteq> SwapFailed e" for e using 1 Inl refusal_error by blast
      then show ?thesis using err [OF o1] r by simp
    next
      case (Inr u)
      then have run: "install_in m net rel archive sums_asset d s1 = (r, s')" using late(4) 1 by simp
      have wf_name: "wf_str (asset_name archive)" using archive_listed [OF late(1)] assms(8) by blast
      have "unused m d s1"
      proof (rule unused_kept [OF assms(4)])
        show "kept {probe_name m d} s s1" "wf_fs s1" using k by blast+
      qed (use pn ours_not_below_work(4) [of _ m d] in \<open>auto simp: BINARIES_def\<close>)
      from result_ok_frame [OF install_in_effect [OF run assms(2,3) this late(3) wf_name assms(7)] o1] have
        "result_ok m net archive sums_asset d s r s'" by (simp add: ours_kept_def)
      then show ?thesis using late(1,2) 1 Inr unfolding result_ok_def by auto
    qed
  qed
qed

section \<open>Witnesses\<close>

theorem sweep_keeps_witness: "file_at (sweep_stale_scratch demo_machine demo_dir demo_fs) demo_target = Some (1, Regular [1] 493)"
proof -
  have "k = Backup \<or> pid = decimal (m_pid demo_machine)"
    if "prefix (demo_dir @ [n]) demo_target" "scratch_of (utf8_lossy n) = Some (k, pid)" for n k pid
  proof -
    have "n = utf8_enc (lit ''tobii'')" using that(1) demo_strings(1) by (simp add: demo_names del: lit_simps)
    then have "scratch_of (lit ''tobii'') = Some (k, pid)" using that(2) by (simp add: utf8_lossy_enc lit_wf del: lit_simps)
    then show ?thesis using binaries_not_scratch [of "lit ''tobii''"] by (simp add: BINARIES_def del: lit_simps)
  qed
  from sweep_keeps [OF this, where s = demo_fs]
  have "file_at (sweep_stale_scratch demo_machine demo_dir demo_fs) demo_target = file_at demo_fs demo_target" by simp
  also have "\<dots> = Some (1, Regular [1] 493)" by (simp add: file_at_def lookup_def demo_fs_def demo_names)
  finally show ?thesis .
qed

text \<open>
  A network that works: curl writes an empty archive where it is told to, and answers a fetch into memory
  with the listing of it.
\<close>

definition path_at :: "str \<Rightarrow> fpath" where
  "path_at p = tl (split_on (\<lambda>c. c = 47) (utf8_enc p))"

lemma path_at_bytes:
  assumes "path_ok p" shows "path_at (display (path_bytes p)) = p"
proof -
  have "\<exists>t. wf_str t \<and> path_bytes p = utf8_enc t"
    using assms
  proof (induction p)
    case (Cons n p)
    then obtain a b where "wf_str a" "n = utf8_enc a" "wf_str b" "path_bytes p = utf8_enc b"
      by (auto simp: path_ok_def name_ok_def utf8_dec_iff)
    then have "wf_str (47 # a @ b) \<and> path_bytes (n # p) = utf8_enc (47 # a @ b)"
      by (simp add: path_bytes_def is_scalar_def utf8_enc1_def byte_def)
    then show ?case by blast
  qed (auto simp: path_bytes_def intro: exI [of _ "[]"])
  then have e: "utf8_enc (display (path_bytes p)) = path_bytes p" by (auto simp: display_def utf8_lossy_enc)
  have "split_on (\<lambda>c. c = 47) (n @ path_bytes q) = n # q" if "47 \<notin> set n" "path_ok q" for n q
    using that
  proof (induction q arbitrary: n)
    case Nil
    then have "list_all (\<lambda>c. \<not> c = 47) n" by (auto simp: list_all_iff)
    then show ?case using split_on_none by (simp add: path_bytes_def)
  next
    case (Cons m q)
    have "list_all (\<lambda>c. \<not> c = 47) n" using Cons.prems(1) by (auto simp: list_all_iff)
    then have "split_on (\<lambda>c. c = 47) (n @ 47 # m @ path_bytes q) = n # split_on (\<lambda>c. c = 47) (m @ path_bytes q)"
      by (rule split_on_sep) simp
    moreover have "split_on (\<lambda>c. c = 47) (m @ path_bytes q) = m # q"
      using Cons.IH Cons.prems(2) by (simp add: path_ok_def name_ok_def)
    ultimately show ?case by (simp add: path_bytes_def)
  qed
  from this [of "[]" p] assms show ?thesis by (simp add: path_at_def e)
qed

definition live_listing :: bytes where "live_listing = utf8_enc (sha256sum [(lit ''x.tar.gz'', [])])"

definition live_net :: "fs net_ops" where
  "live_net = \<lparr>spawn = (\<lambda>prog args s. case dest_of args of
        None \<Rightarrow> (Inr (curl_child live_listing), s)
      | Some p \<Rightarrow>
          (case fs_create (\<lambda>_. None) 420 (path_at p) s of
             (Inl e, s1) \<Rightarrow> (Inr (curl_child []\<lparr>child_status := Inr (Some 23)\<rparr>), s1)
           | (Inr i, s1) \<Rightarrow> (Inr (curl_child []), snd (fs_write (\<lambda>_. None) i [] 420 s1)))),
     remove_file = (\<lambda>p s. snd (fs_remove_file (\<lambda>_. None) (path_at (display p)) s)),
     file_len = (\<lambda>p s. case node_at s (path_at (display p)) of Some (Regular b _) \<Rightarrow> Inr (length b) | _ \<Rightarrow> Inl IoNotFound)\<rparr>"

lemma live_length: "length live_listing = 75"
  using hex_digest_enc [of "[]"] by (simp add: live_listing_def sha256sum_def utf8_enc1_def)

lemma live_get: "get live_net url s = (if trusted_url url then (Inr live_listing, s) else (Inl (Untrusted url), s))"
  by (simp add: get_def fetch_def run_def live_net_def dest_of_curl curl_child_run live_length curl_reply_def finish_def
      MAX_DOWNLOAD_def del: lit_simps)

lemma failed_child_run: "collect (curl_child []\<lparr>child_status := Inr (Some 23)\<rparr>) =
    Inr \<lparr>ran_stdout = [], ran_stderr = [], ran_code = Some 23, ran_ok = False\<rparr>"
  by (simp add: curl_child_def collect_def read_capped_def res_bind_def MAX_DOWNLOAD_def
      trim_def trim_start_def trim_end_matches_def)

lemma live_reply_touches:
  assumes "curl_reply live_net (Some (path_bytes p)) x s = (r, s')" and "path_ok p"
  shows "touches p s s'"
proof -
  obtain q s1 where q: "fs_remove_file (\<lambda>_. None) p s = (q, s1)" by fastforce
  have "s' = s \<or> s' = s1" using assms q
    by (auto simp: curl_reply_def finish_def discard_def live_net_def path_at_bytes split: if_splits sum.splits)
  then show ?thesis using remove_file_touches [OF q] touches_same [of s s] by auto
qed

lemma live_download_touches:
  assumes "download live_net url (path_bytes p) s = (r, s')" and p: "path_ok p"
  shows "touches p s s'"
proof (cases "trusted_url url")
  case False
  then show ?thesis using assms touches_same [of s s] by (auto simp: download_def fetch_def)
next
  case True
  let ?a = "curl_args url (Some (path_bytes p))"
  obtain q s1 where 1: "fs_create (\<lambda>_. None) 420 p s = (q, s1)" by fastforce
  obtain x s2 where r2: "run live_net (lit ''curl'') ?a s = (Inr x, s2)" and t2: "touches p s s2"
  proof (cases q)
    case (Inl e)
    then have "run live_net (lit ''curl'') ?a s = (Inr \<lparr>ran_stdout = [], ran_stderr = [], ran_code = Some 23, ran_ok = False\<rparr>, s1)"
      using 1 by (simp add: run_def live_net_def dest_of_curl path_at_bytes [OF p] failed_child_run)
    then show ?thesis using that create_touches [OF 1] by blast
  next
    case (Inr i)
    obtain u s2 where 2: "fs_write (\<lambda>_. None) i [] 420 s1 = (u, s2)" by fastforce
    have "run live_net (lit ''curl'') ?a s = (Inr \<lparr>ran_stdout = [], ran_stderr = [], ran_code = Some 0, ran_ok = True\<rparr>, s2)"
      using 1 2 Inr by (simp add: run_def live_net_def dest_of_curl path_at_bytes [OF p] curl_child_run)
    moreover have c: "touches p s s1" "lookup s1 p = Some i" using create_touches [OF 1] Inr by simp_all
    have "touches p s s2" by (rule touches_trans [OF c(1)]) (use write_touches [OF 2 c(2)] in blast)
    ultimately show ?thesis using that by blast
  qed
  obtain y s3 where 3: "curl_reply live_net (Some (path_bytes p)) x s2 = (y, s3)" by fastforce
  have "s' = s3" using assms(1) True r2 3 by (auto simp: download_def fetch_def simp del: lit_simps split: sum.splits)
  then show ?thesis using touches_trans [OF t2 live_reply_touches [OF 3 p]] by simp
qed

lemma live_net_ok: "net_ok live_net"
  unfolding net_ok_def using live_download_touches live_get by (auto split: if_splits)

text \<open>The installation before the update, with the facts that let an update through, and the release.\<close>

definition bare_fs :: fs where
  "bare_fs = \<lparr>entries = [(demo_dir, 0), (demo_target, 1)],
     nodes = (\<lambda>i. if i = 1 then Regular [1] 493 else Directory), fresh = 2, calls = 0\<rparr>"

definition demo_facts :: probes where
  "demo_facts = \<lparr>p_exe_gone = False, p_owner = NoOwner, p_writable = is_writable demo_machine demo_dir,
     p_binaries_mine = True, p_dir_mine = True, p_dir_in_home = True, p_as_root = False\<rparr>"

definition archive_asset :: asset where "archive_asset = \<lparr>asset_name = lit ''x.tar.gz'', asset_url = sample_url\<rparr>"
definition sums_file :: asset where "sums_file = \<lparr>asset_name = lit ''SHA256SUMS'', asset_url = sample_url\<rparr>"

definition update_release :: release where
  "update_release = \<lparr>tag = [], rel_version = \<lparr>major = 2, minor = 0, patch = 0, pre = []\<rparr>, rel_notes = [],
     assets = [archive_asset, sums_file], html_url = []\<rparr>"

lemma update_assets: "archive_for update_release (lit ''x'') = Some archive_asset" "checksums update_release = Some sums_file"
  by (simp_all add: archive_for_def checksums_def update_release_def archive_asset_def sums_file_def ends_with_def starts_with_def)

lemma bare_unbound: "q \<noteq> demo_dir \<Longrightarrow> q \<noteq> demo_target \<Longrightarrow> lookup bare_fs q = None"
  by (simp add: bare_fs_def lookup_def)

lemma demo_probe: "probe_name demo_machine demo_dir =
    [[100], [46, 116, 111, 98, 105, 105, 45, 117, 112, 100, 97, 116, 101, 45, 112, 114, 111, 98, 101, 45, 55]]"
  by (simp add: probe_name_def demo_machine_def demo_dir_def demo_strings) (simp add: utf8_enc1_def byte_def)

text \<open>The run, call by call.\<close>

definition bare_fs2 :: fs where
  "bare_fs2 = bare_fs\<lparr>nodes := (nodes bare_fs)(2 := Regular [] 438), fresh := 3\<rparr>"

lemma demo_refused: "refuse_before_download demo_dir demo_facts bare_fs = (Inr (), bare_fs2\<lparr>calls := 2\<rparr>)"
proof -
  have "is_writable demo_machine demo_dir bare_fs = (True, bare_fs2\<lparr>calls := 2\<rparr>)"
    unfolding is_writable_def demo_probe
    by (simp add: fs_create_def fs_remove_file_def sys_def demo_machine_def bare_fs_def bare_fs2_def node_at_def lookup_def
        parent_ok_def bind_name_def unbind_def demo_names)
  then show ?thesis by (simp add: refuse_before_download_def demo_facts_def)
qed

lemma demo_swept: "sweep_stale_scratch demo_machine demo_dir (bare_fs2\<lparr>calls := 2\<rparr>) = bare_fs2\<lparr>calls := 3\<rparr>"
proof -
  have "children (bare_fs2\<lparr>calls := 3\<rparr>) demo_dir = [demo_target]"
    by (simp add: children_def bare_fs2_def bare_fs_def demo_names)
  moreover have "\<not> stale demo_machine (last demo_target)"
  proof -
    have "last demo_target = utf8_enc (lit ''tobii'')" by (simp add: demo_target_def demo_strings del: lit_simps)
    moreover have "scratch_of (lit ''tobii'') = None" using binaries_not_scratch [of "lit ''tobii''"] by (simp add: BINARIES_def del: lit_simps)
    ultimately show ?thesis using stale_name [OF lit_wf] by (simp del: lit_simps)
  qed
  moreover have "node_at (bare_fs2\<lparr>calls := 3\<rparr>) demo_dir = Some Directory"
    by (simp add: node_at_def lookup_def bare_fs2_def bare_fs_def)
  ultimately show ?thesis
    by (simp add: sweep_stale_scratch_def fs_read_dir_def sys_def demo_machine_def)
qed

lemma demo_cleared: "fs_remove_dir_all (m_faults demo_machine) demo_work (bare_fs2\<lparr>calls := 3\<rparr>) = (Inl IoNotFound, bare_fs2\<lparr>calls := 4\<rparr>)"
  by (simp add: fs_remove_dir_all_def fs_remove_file_def sys_def demo_machine_def node_at_def lookup_def bare_fs2_def bare_fs_def demo_names)

definition bare_fs3 :: fs where
  "bare_fs3 = \<lparr>entries = [(demo_work, 3), (demo_dir, 0), (demo_target, 1)],
     nodes = (nodes bare_fs2)(3 := Directory), fresh = 4, calls = 5\<rparr>"

lemma demo_made: "fs_create_dir_all (m_faults demo_machine) demo_work (bare_fs2\<lparr>calls := 4\<rparr>) = (Inr (), bare_fs3)"
  by (subst fs_create_dir_all.simps)
    (simp add: mkdir_or_there_def fs_mkdir_def sys_def demo_machine_def lookup_def node_at_def parent_ok_def
      bind_name_def bare_fs2_def bare_fs3_def bare_fs_def demo_names)

lemma demo_joined: "join demo_work (lit ''x.tar.gz'') = demo_archive"
  using single_component [of "lit ''x.tar.gz''"]
  by (simp add: join_def map_filter_def demo_archive_def) (simp add: utf8_enc1_def byte_def)

lemma demo_path_ok: "path_ok demo_archive" "path_ok demo_dir"
  by (simp_all add: path_ok_def name_ok_def demo_names) (simp_all add: utf8_dec.simps utf8_step_def peek_def)

lemma demo_fetched: "download live_net sample_url (path_bytes demo_archive) bare_fs3 = (Inr (), demo_fs)"
proof -
  let ?s = "bare_fs3\<lparr>entries := entries demo_fs, nodes := (nodes bare_fs3)(4 := Regular [] 420), fresh := 5, calls := 6\<rparr>"
  have c: "fs_create (\<lambda>_. None) 420 demo_archive bare_fs3 = (Inr 4, ?s)"
    by (simp add: fs_create_def sys_def bare_fs3_def bare_fs2_def bare_fs_def demo_fs_def lookup_def node_at_def parent_ok_def
        bind_name_def demo_names)
  have n: "(nodes bare_fs3)(4 := Regular [] 420) = nodes demo_fs"
    by (rule ext) (simp add: bare_fs3_def bare_fs2_def bare_fs_def demo_fs_def)
  have w: "fs_write (\<lambda>_. None) 4 [] 420 ?s = (Inr (), demo_fs)"
    by (simp add: fs_write_def sys_def n) (simp add: bare_fs3_def demo_fs_def fun_eq_iff)
  have f: "node_at demo_fs demo_archive = Some (Regular [] 420)" by (simp add: node_at_def lookup_def demo_fs_def)
  have "run live_net (lit ''curl'') (curl_args sample_url (Some (path_bytes demo_archive))) bare_fs3 =
      (Inr \<lparr>ran_stdout = [], ran_stderr = [], ran_code = Some 0, ran_ok = True\<rparr>, demo_fs)"
    by (simp add: run_def live_net_def dest_of_curl path_at_bytes demo_path_ok c w curl_child_run)
  moreover have "file_len live_net (path_bytes demo_archive) demo_fs = Inr 0"
    by (simp add: live_net_def path_at_bytes demo_path_ok f)
  ultimately show ?thesis
    using sample_trusted by (simp add: download_def fetch_def curl_reply_def finish_def)
qed

lemma demo_digest: "digest_for (utf8_lossy live_listing) (lit ''x.tar.gz'') = Some (hex_digest [])"
proof -
  have "wf_str (sha256sum [(lit ''x.tar.gz'', [])])"
    using hex_digest_plain [of _ "[]"]
    by (fastforce simp: sha256sum_def wf_str_def is_scalar_def list_all_iff is_hexdigit_def is_digit_def)
  then have "utf8_lossy live_listing = sha256sum [(lit ''x.tar.gz'', [])]" by (simp add: live_listing_def utf8_lossy_enc del: lit_simps)
  then show ?thesis by (simp only:) (subst digest_for_listing, simp_all add: bare_name_def is_space_def)
qed

lemma demo_updated: "\<exists>rep s'. install_release demo_machine live_net (lit ''x'') (Inr demo_dir) (\<lambda>_. demo_facts) update_release bare_fs = (Inr rep, s')"
proof -
  obtain rep s' where i: "install_verified_archive demo_machine demo_archive (hex_digest []) demo_dir demo_work demo_fs = (Inr rep, s')"
    using demo_installs by blast
  have name: "asset_name archive_asset = lit ''x.tar.gz''" by (simp add: archive_asset_def del: lit_simps)
  have plain: "is_plain_file_name (lit ''x.tar.gz'')"
    using single_component [of "lit ''x.tar.gz''"] by (simp add: is_plain_file_name_def)
  have "install_inner demo_machine live_net update_release archive_asset sums_file demo_dir demo_work bare_fs3 =
      (Inr (if in_version rep = [] then rep\<lparr>in_version := show_version (rel_version update_release)\<rparr> else rep), s')"
    using i by (simp add: install_inner_def Let_def archive_asset_def sums_file_def demo_joined demo_fetched live_get sample_trusted
        demo_digest del: lit_simps)
  then have "\<exists>rep' s''. install_in demo_machine live_net update_release archive_asset sums_file demo_dir (bare_fs2\<lparr>calls := 2\<rparr>) = (Inr rep', s'')"
    by (simp add: install_in_def Let_def demo_paths demo_swept demo_cleared demo_made)
  then show ?thesis
    using plain by (simp add: install_release_def update_assets demo_refused name del: lit_simps)
qed

text \<open>The update succeeds, and the one binary installed is replaced by one that is executable.\<close>

theorem update_all_or_nothing_witness:
  "case install_release demo_machine live_net (lit ''x'') (Inr demo_dir) (\<lambda>_. demo_facts) update_release bare_fs of (r, s') \<Rightarrow>
    (\<exists>rep. r = Inr rep \<and> in_replaced rep = [lit ''tobii'']) \<and> (\<exists>b. node_at s' demo_target = Some (Regular b 493))"
proof -
  obtain rep s' where run: "install_release demo_machine live_net (lit ''x'') (Inr demo_dir) (\<lambda>_. demo_facts) update_release bare_fs = (Inr rep, s')"
    using demo_updated by blast
  have wf: "wf_fs bare_fs" by (auto simp: wf_fs_def bare_fs_def lookup_def split: if_splits)
  have "\<not> prefix demo_work demo_dir" "\<not> prefix demo_work demo_target" by (simp_all add: demo_names)
  then have work: "lookup bare_fs q = None" if "prefix demo_work q" for q using that by (intro bare_unbound) auto
  have staged: "lookup bare_fs (staging_of demo_machine demo_dir b) = None" if "b \<in> set BINARIES" for b
  proof (rule bare_unbound)
    have "b = lit ''tobii'' \<or> b = lit ''tobii-gtk''" using that by (simp add: BINARIES_def del: lit_simps)
    then have "staging_of demo_machine demo_dir b \<noteq> demo_dir \<and> staging_of demo_machine demo_dir b \<noteq> demo_target"
      by (elim disjE) (simp_all only: demo_paths, simp_all add: demo_names)
    then show "staging_of demo_machine demo_dir b \<noteq> demo_dir" "staging_of demo_machine demo_dir b \<noteq> demo_target" by simp_all
  qed
  have un: "unused demo_machine demo_dir bare_fs" using wf work staged by (simp add: unused_def demo_paths)
  have probe: "lookup bare_fs (probe_name demo_machine demo_dir) = None"
    unfolding demo_probe by (rule bare_unbound) (simp_all add: demo_names)
  have names: "\<forall>a \<in> set (assets update_release). wf_str (asset_name a)"
    by (simp add: update_release_def archive_asset_def sums_file_def lit_wf del: lit_simps)
  have writable: "p_writable demo_facts = is_writable demo_machine demo_dir" by (simp add: demo_facts_def)
  from update_all_or_nothing [OF run demo_tar_ok live_net_ok un probe writable demo_path_ok(2) names] obtain s0 where
    o: "outcome demo_machine demo_dir (unpacked_of (work_of demo_machine demo_dir)) bare_fs s0 (Inr rep) s'" by blast
  have "filter (installed_here demo_machine demo_dir bare_fs) BINARIES = [lit ''tobii'']"
    by (rule demo_here [where b = "[1]" and md = 493], unfold demo_paths)
      (simp_all add: node_at_def lookup_def bare_fs_def demo_names del: lit_simps)
  then show ?thesis unfolding run using o by (auto simp: outcome_def fitted_def demo_paths simp del: lit_simps)
qed

end
