(* ===== verification/OutParser.thy ===== *)
theory OutParser
  imports Parser Drain
begin

text \<open>
  The reassembler of the outbound stream in the capture decoder (\<^verbatim>\<open>tobii-recap/src/out_parser.rs\<close>),
  the mirror of the inbound parser: direction byte 0, requests only, and the frame's extent from the
  payload length of its TTP header. What the driver sends with \<open>build_out_frame\<close> is read back.
\<close>

section \<open>The reassembler\<close>

datatype out_error = OutBadDirection u8 | OutBadMagic u32 | OutOverflow

definition OUT_ACC_CAP :: nat where "OUT_ACC_CAP = 2 ^ 21"

definition out_drain_one :: "bytes \<Rightarrow> (out_error, frame option) result \<times> bytes" where
  "out_drain_one acc =
     (if length acc < ENVELOPE_SIZE then (Inr None, acc)
      else if acc ! 0 \<noteq> 0 then (Inl (OutBadDirection (acc ! 0)), acc)
      else if length acc < ENVELOPE_SIZE + TTP_HDR_SIZE then (Inr None, acc)
      else let hdr = sub_slice ENVELOPE_SIZE (ENVELOPE_SIZE + TTP_HDR_SIZE) acc;
               mg = be32_at hdr 0 in
      if mg \<noteq> TTP_MAGIC_REQ then (Inl (OutBadMagic mg), acc)
      else let plen = unat (be32_at hdr 20);
               frame_size = ENVELOPE_SIZE + TTP_HDR_SIZE + plen in
      if frame_size > OUT_ACC_CAP then (Inl OutOverflow, acc)
      else if length acc < frame_size then (Inr None, acc)
      else (Inr (Some \<lparr>magic = mg, sqn = be32_at hdr 4, opc = be32_at hdr 12,
                       payload = sub_slice (ENVELOPE_SIZE + TTP_HDR_SIZE) frame_size acc\<rparr>),
            drop frame_size acc))"

lemma out_drain_one_shrinks:
  "out_drain_one acc = (Inr (Some f), acc') \<Longrightarrow> length acc' < length acc"
  by (auto simp: out_drain_one_def Let_def size_defs split: if_splits)

function out_drain_loop :: "bytes \<Rightarrow> (out_error, frame list) result \<times> bytes" where
  "out_drain_loop acc =
     (case out_drain_one acc of
        (Inr (Some f), acc') \<Rightarrow>
          (case out_drain_loop acc' of
             (Inr fs, a) \<Rightarrow> (Inr (f # fs), a)
           | (Inl e, a) \<Rightarrow> (Inl e, a))
      | (Inr None, acc') \<Rightarrow> (Inr [], acc')
      | (Inl e, _) \<Rightarrow> (Inl e, []))"
  by pat_completeness auto
termination
  by (relation "measure length") (auto dest!: out_drain_one_shrinks [OF sym])

declare out_drain_loop.simps [simp del]

text \<open>A continuation: the head of the buffer is incomplete, and the chunk opens with four zero bytes.\<close>

definition out_continuation :: "bytes \<Rightarrow> bytes \<Rightarrow> bool" where
  "out_continuation acc src \<longleftrightarrow>
     ENVELOPE_SIZE + TTP_HDR_SIZE \<le> length acc \<and>
     length acc < ENVELOPE_SIZE + TTP_HDR_SIZE + unat (be32_at acc (ENVELOPE_SIZE + 20)) \<and>
     ENVELOPE_SIZE \<le> length src \<and> src ! 0 = 0 \<and> src ! 1 = 0 \<and> src ! 2 = 0 \<and> src ! 3 = 0"

definition out_feed :: "bytes \<Rightarrow> bytes \<Rightarrow> (out_error, frame list) result \<times> bytes" where
  "out_feed acc src =
     (let data = (if out_continuation acc src then drop ENVELOPE_SIZE src else src) in
      if length acc + length data > OUT_ACC_CAP then (Inl OutOverflow, [])
      else out_drain_loop (acc @ data))"

section \<open>Draining\<close>

lemma out_drain_one_short: "length acc < ENVELOPE_SIZE \<Longrightarrow> out_drain_one acc = (Inr None, acc)"
  by (simp add: out_drain_one_def)

lemma out_drain_one_None: "out_drain_one acc = (Inr None, acc') \<Longrightarrow> acc' = acc"
  by (auto simp: out_drain_one_def Let_def split: if_splits)

lemma out_drain_one_long:
  assumes "ENVELOPE_SIZE \<le> length acc"
  shows "out_drain_one acc =
    (if acc ! 0 \<noteq> 0 then (Inl (OutBadDirection (acc ! 0)), acc)
     else if length acc < 32 then (Inr None, acc)
     else if be32_at (sub_slice 8 32 acc) 0 \<noteq> TTP_MAGIC_REQ
       then (Inl (OutBadMagic (be32_at (sub_slice 8 32 acc) 0)), acc)
     else if 32 + unat (be32_at (sub_slice 8 32 acc) 20) > OUT_ACC_CAP then (Inl OutOverflow, acc)
     else if length acc < 32 + unat (be32_at (sub_slice 8 32 acc) 20) then (Inr None, acc)
     else (Inr (Some \<lparr>magic = be32_at (sub_slice 8 32 acc) 0, sqn = be32_at (sub_slice 8 32 acc) 4,
             opc = be32_at (sub_slice 8 32 acc) 12,
             payload = sub_slice 32 (32 + unat (be32_at (sub_slice 8 32 acc) 20)) acc\<rparr>),
           drop (32 + unat (be32_at (sub_slice 8 32 acc) 20)) acc))"
  using assms by (simp add: out_drain_one_def Let_def size_defs)

lemma out_drain_one_append_Some:
  assumes "out_drain_one acc = (Inr (Some f), acc')"
  shows "out_drain_one (acc @ b) = (Inr (Some f), acc' @ b)"
proof -
  have l: "ENVELOPE_SIZE \<le> length acc" using assms out_drain_one_short [of acc]
    by (cases "length acc < ENVELOPE_SIZE") auto
  note d = assms [unfolded out_drain_one_long [OF l]]
  have l32: "32 \<le> length acc" using d by (simp split: if_splits)
  have h: "sub_slice 8 32 (acc @ b) = sub_slice 8 32 acc" "(acc @ b) ! 0 = acc ! 0"
    using l32 by (simp_all add: sub_slice_append nth0_append)
  define n where "n = unat (be32_at (sub_slice 8 32 acc) 20)"
  have n: "32 + n \<le> length acc" using d by (simp add: n_def split: if_splits)
  have l': "ENVELOPE_SIZE \<le> length (acc @ b)" using l by simp
  show ?thesis
    using d n unfolding out_drain_one_long [OF l'] h n_def [symmetric]
    by (simp add: sub_slice_append drop_append_le split: if_splits)
qed

lemma out_drain_one_append_Inl:
  assumes "out_drain_one acc = (Inl e, acc')"
  shows "\<exists>a. out_drain_one (acc @ b) = (Inl e, a)"
proof -
  have l: "ENVELOPE_SIZE \<le> length acc" using assms out_drain_one_short [of acc]
    by (cases "length acc < ENVELOPE_SIZE") auto
  then have l': "ENVELOPE_SIZE \<le> length (acc @ b)" by simp
  note d = assms [unfolded out_drain_one_long [OF l]]
  have h: "(acc @ b) ! 0 = acc ! 0" using l by (simp add: nth0_append size_defs)
  show ?thesis
  proof (cases "length acc < 32")
    case True
    with d show ?thesis unfolding out_drain_one_long [OF l'] h by (auto split: if_splits)
  next
    case False
    then have "sub_slice 8 32 (acc @ b) = sub_slice 8 32 acc" by (simp add: sub_slice_append)
    with d False show ?thesis unfolding out_drain_one_long [OF l'] h by (auto split: if_splits)
  qed
qed

interpretation outbound: drainer out_drain_one out_drain_loop
  by unfold_locales
    (fact out_drain_one_shrinks out_drain_one_None out_drain_one_append_Some out_drain_one_append_Inl
      out_drain_loop.simps)+

section \<open>What the driver sends\<close>

text \<open>A request as the driver writes it, with its sequence number, operation and payload.\<close>

definition request_frame :: "u32 \<times> u32 \<times> bytes \<Rightarrow> frame" where
  "request_frame r = (case r of (s, c, p) \<Rightarrow> \<lparr>magic = TTP_MAGIC_REQ, sqn = s, opc = c, payload = p\<rparr>)"

definition request_bytes :: "u32 \<times> u32 \<times> bytes \<Rightarrow> bytes" where
  "request_bytes r = (case r of (s, c, p) \<Rightarrow> build_out_frame s c p)"

definition request_fits :: "u32 \<times> u32 \<times> bytes \<Rightarrow> bool" where
  "request_fits r \<longleftrightarrow> 32 + length (snd (snd r)) \<le> OUT_ACC_CAP"

lemma out_drain_one_request:
  assumes "request_fits r"
  shows "out_drain_one (request_bytes r @ t) = (Inr (Some (request_frame r)), t)"
proof -
  obtain s c p where r: "r = (s, c, p)" by (cases r)
  let ?b = "request_bytes r @ t"
  let ?h = "be32 TTP_MAGIC_REQ @ be32 s @ be32 0 @ be32 c @ be32 0 @ be32 (of_nat (length p))"
  let ?e = "be32 0 @ le32 (of_nat (24 + length p))"
  have cap: "unat (of_nat (length p) :: u32) = length p" "32 + length p \<le> OUT_ACC_CAP"
    using assms unfolding unat_of_nat_u32 by (simp_all add: request_fits_def OUT_ACC_CAP_def r)
  have b: "?b = ?e @ ?h @ p @ t" by (simp add: request_bytes_def r build_out_frame_bytes)
  have hdr: "sub_slice 8 32 ?b = ?h" unfolding b sub_slice_def by simp
  have e: "?b ! 0 = 0" "ENVELOPE_SIZE \<le> length ?b" "length ?b = 32 + length p + length t"
    unfolding b by (simp_all add: be32_def be_enc_4 size_defs)
  have rd: "be32_at ?h 0 = TTP_MAGIC_REQ" "be32_at ?h 4 = s" "be32_at ?h 12 = c"
    "be32_at ?h 20 = of_nat (length p)"
    by (simp_all add: be32_at_def)
  have pay: "sub_slice 32 (32 + length p) ?b = p" "drop (32 + length p) ?b = t"
  proof -
    obtain P where P: "?b = P @ p @ t" "length P = 32" using that [of "?e @ ?h"] b by simp
    show "sub_slice 32 (32 + length p) ?b = p" "drop (32 + length p) ?b = t"
      unfolding P(1) sub_slice_def using P(2) by simp_all
  qed
  show ?thesis
    unfolding out_drain_one_long [OF e(2)] hdr rd cap(1) pay
    using cap(2) e by (simp add: request_frame_def r)
qed

lemma out_drain_one_empty: "out_drain_one [] = (Inr None, [])"
  by (simp add: out_drain_one_def size_defs)

lemma out_feed_raw:
  "\<not> out_continuation acc src \<Longrightarrow> length acc + length src \<le> OUT_ACC_CAP \<Longrightarrow>
     out_feed acc src = out_drain_loop (acc @ src)"
  by (simp add: out_feed_def)

lemma out_session:
  assumes "list_all request_fits rs" and "concat cs = concat (map request_bytes rs)"
    and "length (concat cs) \<le> OUT_ACC_CAP" and "raw_chunks out_continuation out_feed [] cs"
  shows "feed_chunks out_feed [] cs = (Inr (map request_frame rs), [])"
proof -
  have "feed_chunks out_feed [] cs = out_drain_loop (concat cs)"
    using outbound.feed_chunks_raw [where taken = out_continuation and feed = out_feed, OF out_feed_raw assms(4)]
      assms(3) out_drain_one_empty by simp
  moreover have "\<And>x t. x \<in> set rs \<Longrightarrow> out_drain_one (request_bytes x @ t) = (Inr (Some (request_frame x)), t)"
    using assms(1) out_drain_one_request by (simp add: list_all_iff)
  ultimately show ?thesis
    using outbound.loop_frames [of rs request_bytes request_frame "[]"] out_drain_one_empty assms(2) by simp
qed

text \<open>One transfer per request, as the driver writes them: each comes out of the feed of its own transfer.\<close>

lemma out_feed_request:
  assumes "request_fits r"
  shows "out_feed [] (request_bytes r) = (Inr [request_frame r], [])"
  using outbound.loop_frames [of "[r]" request_bytes request_frame "[]"] out_drain_one_request [OF assms]
    out_drain_one_empty assms
  by (cases r) (simp add: out_feed_def out_continuation_def size_defs request_fits_def request_bytes_def)

text \<open>
  A continuation is recognised by its first four bytes alone, unlike the inbound side, which
  also checks the announced length: a transfer that carries on a payload with four zero bytes loses
  eight bytes of it, and the frame it belonged to is not complete when its last byte has come.
\<close>

lemma zero_run_swallowed:
  "feed_chunks out_feed [] [request_bytes (1, 2, replicate 16 0)] = (Inr [request_frame (1, 2, replicate 16 0)], []) \<and>
   feed_chunks out_feed [] [take 40 (request_bytes (1, 2, replicate 16 0)), replicate 8 0] =
     (Inr [], take 40 (request_bytes (1, 2, replicate 16 0))) \<and>
   take 40 (request_bytes (1, 2, replicate 16 0)) @ replicate 8 0 = request_bytes (1, 2, replicate 16 0)"
proof -
  let ?r = "(1, 2, replicate 16 0) :: u32 \<times> u32 \<times> bytes" and ?p = "take 40 (request_bytes (1, 2, replicate 16 0))"
  have b: "request_bytes ?r = [0, 0, 0, 0, 40, 0, 0, 0, 0, 0, 0, 0x51, 0, 0, 0, 1, 0, 0, 0, 0, 0, 0, 0, 2,
      0, 0, 0, 0, 0, 0, 0, 16] @ replicate 16 0"
    by (simp add: request_bytes_def build_out_frame_bytes be32_def le32_def be_enc_4 le_enc_4 TTP_MAGIC_REQ_def)
  have n: "out_drain_one ?p = (Inr None, ?p)" "out_continuation ?p (replicate 8 0)"
    by (simp_all add: b out_drain_one_def out_continuation_def size_defs sub_slice_def be32_at_def of_be32_def be_dec_def
      TTP_MAGIC_REQ_def OUT_ACC_CAP_def)
  have "out_feed [] ?p = (Inr [], ?p)" "out_feed ?p (replicate 8 0) = (Inr [], ?p)"
    using n by (simp_all add: out_feed_def out_continuation_def [of "[]"] size_defs OUT_ACC_CAP_def
      outbound.loop_stuck b)
  moreover have "?p @ replicate 8 0 = request_bytes ?r" by (simp add: b) (simp add: replicate_add [symmetric])
  moreover have "out_feed [] (request_bytes ?r) = (Inr [request_frame ?r], [])"
    by (rule out_feed_request) (simp add: request_fits_def OUT_ACC_CAP_def)
  ultimately show ?thesis by simp
qed

end
