(* ===== verification/Usbmon.thy ===== *)
theory Usbmon
  imports Parser
begin

text \<open>
  The containers of a USB capture (\<^verbatim>\<open>tobii-recap/src/pcap.rs\<close> and \<^verbatim>\<open>usbmon.rs\<close>): the global header
  of a pcap file in its four variants, the iterator over its records, and the usbmon header in front
  of each packet. A capture written in any variant is read back record for record.
\<close>

section \<open>The pcap container\<close>

definition GLOBAL_HEADER_LEN :: nat where "GLOBAL_HEADER_LEN = 24"
definition RECORD_HEADER_LEN :: nat where "RECORD_HEADER_LEN = 16"

record pcap_global =
  big_endian :: bool
  nanosecond :: bool
  snaplen :: u32
  linktype :: u32

record pcap_record =
  ts_sec :: u32
  ts_frac :: u32
  rec_data :: bytes

datatype recap_error = ShortGlobalHeader | BadMagic bytes | UnsupportedLinktype u32
datatype record_error = TruncatedHeader nat | TruncatedBody nat nat

definition u32_in :: "bytes \<Rightarrow> nat \<Rightarrow> bool \<Rightarrow> u32" where
  "u32_in b i big = (if big then be32_at b i else le32_at b i)"

definition pcap_variant :: "bytes \<Rightarrow> (bool \<times> bool) option" where
  "pcap_variant m =
     (if m = [0xa1, 0xb2, 0xc3, 0xd4] then Some (True, False)
      else if m = [0xd4, 0xc3, 0xb2, 0xa1] then Some (False, False)
      else if m = [0xa1, 0xb2, 0x3c, 0x4d] then Some (True, True)
      else if m = [0x4d, 0x3c, 0xb2, 0xa1] then Some (False, True)
      else None)"

definition pcap_global_parse :: "bytes \<Rightarrow> (recap_error, pcap_global) result" where
  "pcap_global_parse bs =
     (if length bs < GLOBAL_HEADER_LEN then Inl ShortGlobalHeader
      else case pcap_variant (take 4 bs) of
        None \<Rightarrow> Inl (BadMagic (take 4 bs))
      | Some (big, nano) \<Rightarrow>
          Inr \<lparr>big_endian = big, nanosecond = nano, snaplen = u32_in bs 16 big, linktype = u32_in bs 20 big\<rparr>)"

record record_reader =
  rr_global :: pcap_global
  rr_rest :: bytes
  rr_done :: bool

definition record_reader_new :: "bytes \<Rightarrow> (recap_error, pcap_global \<times> record_reader) result" where
  "record_reader_new bs = res_bind (pcap_global_parse bs) (\<lambda>g.
     Inr (g, \<lparr>rr_global = g, rr_rest = drop GLOBAL_HEADER_LEN bs, rr_done = False\<rparr>))"

text \<open>The iterator's \<^verbatim>\<open>next\<close>. The end of the body cannot overflow: both terms fit 33 bits.\<close>

definition next_record :: "record_reader \<Rightarrow> (record_error, pcap_record) result option \<times> record_reader" where
  "next_record r =
     (let rs = rr_rest r; big = big_endian (rr_global r) in
      if rr_done r \<or> rs = [] then (None, r)
      else if length rs < RECORD_HEADER_LEN then (Some (Inl (TruncatedHeader (length rs))), r\<lparr>rr_done := True\<rparr>)
      else let incl_len = unat (u32_in rs 8 big); body_end = RECORD_HEADER_LEN + incl_len in
      if body_end \<le> length rs
      then (Some (Inr \<lparr>ts_sec = u32_in rs 0 big, ts_frac = u32_in rs 4 big,
                       rec_data = sub_slice RECORD_HEADER_LEN body_end rs\<rparr>), r\<lparr>rr_rest := drop body_end rs\<rparr>)
      else (Some (Inl (TruncatedBody incl_len (length rs - RECORD_HEADER_LEN))), r\<lparr>rr_done := True\<rparr>))"

lemma next_record_shrinks:
  "next_record r = (Some (Inr x), r') \<Longrightarrow> length (rr_rest r') < length (rr_rest r)"
  by (auto simp: next_record_def Let_def RECORD_HEADER_LEN_def split: if_splits)

text \<open>Everything the iterator yields: the records, and the error it stops at, if it does.\<close>

function all_records :: "record_reader \<Rightarrow> pcap_record list \<times> record_error option" where
  "all_records r =
     (case next_record r of
        (Some (Inr x), r') \<Rightarrow> (case all_records r' of (xs, e) \<Rightarrow> (x # xs, e))
      | (Some (Inl e), _) \<Rightarrow> ([], Some e)
      | (None, _) \<Rightarrow> ([], None))"
  by pat_completeness auto
termination
  by (relation "measure (length \<circ> rr_rest)") (auto dest!: next_record_shrinks [OF sym])

declare all_records.simps [simp del]

section \<open>The usbmon header\<close>

definition XFER_BULK :: u8 where "XFER_BULK = 3"
definition EVENT_SUBMIT :: u8 where "EVENT_SUBMIT = 0x53"
definition EVENT_COMPLETE :: u8 where "EVENT_COMPLETE = 0x43"

record usb_event =
  event_type :: u8
  xfer_type :: u8
  dir_in :: bool
  ev_data :: bytes

datatype event_error = LinktypeUnsupported u32 | EventTruncated nat nat | LenCapExceeds nat nat nat

definition usbmon_header_len :: "u32 \<Rightarrow> nat option" where
  "usbmon_header_len lt = (if lt = 220 then Some 64 else if lt = 189 then Some 48 else None)"

definition usb_event_parse :: "bytes \<Rightarrow> bool \<Rightarrow> u32 \<Rightarrow> (event_error, usb_event) result" where
  "usb_event_parse rec big lt =
     (case usbmon_header_len lt of
        None \<Rightarrow> Inl (LinktypeUnsupported lt)
      | Some hlen \<Rightarrow>
          if length rec < hlen then Inl (EventTruncated (length rec) hlen)
          else let len_cap = unat (u32_in rec 36 big); avail = length rec - hlen in
          if len_cap > avail then Inl (LenCapExceeds len_cap avail hlen)
          else Inr \<lparr>event_type = rec ! 8, xfer_type = rec ! 9, dir_in = ((rec ! 10) AND 0x80 \<noteq> 0),
                    ev_data = sub_slice hlen (hlen + len_cap) rec\<rparr>)"

definition carries_payload :: "usb_event \<Rightarrow> bool" where
  "carries_payload ev =
     (if xfer_type ev \<noteq> XFER_BULK \<or> ev_data ev = [] then False
      else dir_in ev \<and> event_type ev = EVENT_COMPLETE \<or> \<not> dir_in ev \<and> event_type ev = EVENT_SUBMIT)"

section \<open>Captures as they are written\<close>

text \<open>The encoder of either byte order, the header of each variant, and the records behind it.\<close>

definition u32_out :: "bool \<Rightarrow> u32 \<Rightarrow> bytes" where
  "u32_out big x = (if big then be32 x else le32 x)"

definition pcap_magic :: "bool \<Rightarrow> bool \<Rightarrow> bytes" where
  "pcap_magic big nano = u32_out big (if nano then 0xa1b23c4d else 0xa1b2c3d4)"

definition pcap_header_bytes :: "pcap_global \<Rightarrow> bytes \<Rightarrow> bytes" where
  "pcap_header_bytes g mid = pcap_magic (big_endian g) (nanosecond g) @ mid @
     u32_out (big_endian g) (snaplen g) @ u32_out (big_endian g) (linktype g)"

definition record_bytes :: "bool \<Rightarrow> u32 \<times> pcap_record \<Rightarrow> bytes" where
  "record_bytes big r = (case r of (orig, x) \<Rightarrow>
     u32_out big (ts_sec x) @ u32_out big (ts_frac x) @ u32_out big (of_nat (length (rec_data x))) @
     u32_out big orig @ rec_data x)"

definition record_fits :: "u32 \<times> pcap_record \<Rightarrow> bool" where
  "record_fits r \<longleftrightarrow> length (rec_data (snd r)) < 2 ^ 32"

lemma length_u32_out [simp]: "length (u32_out big x) = 4"
  by (simp add: u32_out_def)

lemma u32_in_out: "length p = i \<Longrightarrow> u32_in (p @ u32_out big x @ t) i big = x"
  by (simp add: u32_in_def u32_out_def be32_at_def le32_at_def)

lemma u32_in_out0: "u32_in (u32_out big x @ t) 0 big = x"
  using u32_in_out [of "[]" 0 big x t] by simp

lemma u32_in_skip: "length p = n \<Longrightarrow> n \<le> i \<Longrightarrow> u32_in (p @ s) i big = u32_in s (i - n) big"
  by (simp add: u32_in_def be32_at_def le32_at_def)

lemma pcap_variant_magic: "pcap_variant (pcap_magic big nano) = Some (big, nano)"
proof -
  have "pcap_variant (pcap_magic True True) = Some (True, True)" "pcap_variant (pcap_magic True False) = Some (True, False)"
    "pcap_variant (pcap_magic False True) = Some (False, True)" "pcap_variant (pcap_magic False False) = Some (False, False)"
    by (simp_all add: pcap_variant_def pcap_magic_def u32_out_def be32_def le32_def be_enc_4 le_enc_4)
  then show ?thesis by (cases big; cases nano) simp_all
qed

lemma pcap_global_roundtrip:
  assumes "length mid = 12"
  shows "pcap_global_parse (pcap_header_bytes g mid @ t) = Inr g"
proof -
  let ?big = "big_endian g" and ?b = "pcap_header_bytes g mid @ t"
  have m: "length (pcap_magic ?big (nanosecond g)) = 4" by (simp add: pcap_magic_def)
  have "take 4 ?b = pcap_magic ?big (nanosecond g)" using m by (simp add: pcap_header_bytes_def)
  moreover have "u32_in ?b 16 ?big = snaplen g"
    using u32_in_out [of "pcap_magic ?big (nanosecond g) @ mid" 16] assms m by (simp add: pcap_header_bytes_def)
  moreover have "u32_in ?b 20 ?big = linktype g"
    using u32_in_out [of "pcap_magic ?big (nanosecond g) @ mid @ u32_out ?big (snaplen g)" 20] assms m
    by (simp add: pcap_header_bytes_def)
  moreover have "GLOBAL_HEADER_LEN \<le> length ?b"
    using assms m by (simp add: pcap_header_bytes_def GLOBAL_HEADER_LEN_def)
  ultimately show ?thesis by (simp add: pcap_global_parse_def pcap_variant_magic)
qed

lemma length_pcap_header: "length mid = 12 \<Longrightarrow> length (pcap_header_bytes g mid) = GLOBAL_HEADER_LEN"
  by (simp add: pcap_header_bytes_def pcap_magic_def GLOBAL_HEADER_LEN_def)

lemma length_record_bytes [simp]: "length (record_bytes big r) = 16 + length (rec_data (snd r))"
  by (cases r) (simp add: record_bytes_def)

lemma next_record_bytes:
  assumes "record_fits x"
  shows "next_record \<lparr>rr_global = g, rr_rest = record_bytes (big_endian g) x @ t, rr_done = False\<rparr> =
    (Some (Inr (snd x)), \<lparr>rr_global = g, rr_rest = t, rr_done = False\<rparr>)"
proof -
  obtain orig r where x: "x = (orig, r)" by (cases x)
  let ?big = "big_endian g" and ?n = "length (rec_data r)"
  let ?b = "record_bytes ?big x @ t"
  have n: "unat (of_nat ?n :: u32) = ?n"
    using assms unfolding unat_of_nat_u32 by (simp add: record_fits_def x)
  have f: "u32_in ?b 0 ?big = ts_sec r" "u32_in ?b 4 ?big = ts_frac r" "u32_in ?b 8 ?big = of_nat ?n"
    by (simp_all add: record_bytes_def x u32_in_out0 u32_in_skip)
  have d: "sub_slice 16 (16 + ?n) ?b = rec_data r" "drop (16 + ?n) ?b = t"
    by (simp_all add: record_bytes_def x sub_slice_def)
  have "?b \<noteq> []" "16 + ?n \<le> length ?b" by (simp_all add: x record_bytes_def u32_out_def be32_def le32_def be_enc_4 le_enc_4)
  then show ?thesis
    using f n d unfolding next_record_def x by (simp add: Let_def RECORD_HEADER_LEN_def)
qed

lemma all_records_bytes:
  assumes "list_all record_fits xs"
  shows "all_records \<lparr>rr_global = g, rr_rest = concat (map (record_bytes (big_endian g)) xs) @ t, rr_done = False\<rparr> =
    (case all_records \<lparr>rr_global = g, rr_rest = t, rr_done = False\<rparr> of (ys, e) \<Rightarrow> (map snd xs @ ys, e))"
  using assms
proof (induction xs)
  case (Cons x xs)
  then have f: "record_fits x" by simp
  show ?case
    using Cons next_record_bytes [OF f, of g "concat (map (record_bytes (big_endian g)) xs) @ t"]
    by (subst all_records.simps) (simp split: prod.splits)
qed simp

text \<open>A file cut off inside a record yields every record before it, and then one error.\<close>

lemma all_records_cut:
  assumes "record_fits x" and "n < length (record_bytes (big_endian g) x)" and "0 < n"
  shows "\<exists>e. all_records \<lparr>rr_global = g, rr_rest = take n (record_bytes (big_endian g) x), rr_done = False\<rparr> = ([], Some e)"
proof -
  obtain orig r where x: "x = (orig, r)" by (cases x)
  let ?big = "big_endian g" and ?t = "take n (record_bytes (big_endian g) x)"
  have l: "length ?t = n" using assms(2) by simp
  have ne: "?t \<noteq> []" using assms(3) l by (metis length_0_conv less_irrefl)
  show ?thesis
  proof (cases "n < 16")
    case True
    with l ne show ?thesis by (subst all_records.simps) (simp add: next_record_def RECORD_HEADER_LEN_def)
  next
    case False
    have n: "unat (of_nat (length (rec_data r)) :: u32) = length (rec_data r)"
      using assms(1) unfolding unat_of_nat_u32 by (simp add: record_fits_def x)
    have "?t = u32_out ?big (ts_sec r) @ u32_out ?big (ts_frac r) @ u32_out ?big (of_nat (length (rec_data r))) @
        take (n - 12) (u32_out ?big orig @ rec_data r)"
      using False by (simp add: x record_bytes_def)
    then have f: "u32_in ?t 8 ?big = of_nat (length (rec_data r))"
      by (simp add: u32_in_out0 u32_in_skip)
    have "n < 16 + length (rec_data r)" using assms(2) by (simp add: x)
    then show ?thesis
      using l ne False by (subst all_records.simps) (simp add: next_record_def RECORD_HEADER_LEN_def f n)
  qed
qed

lemma all_records_end: "all_records \<lparr>rr_global = g, rr_rest = [], rr_done = False\<rparr> = ([], None)"
  by (subst all_records.simps) (simp add: next_record_def)

text \<open>The header in front of a packet: what the decoder reads of it, and everything else.\<close>

record usbmon_rest =
  um_id :: bytes
  um_mid :: bytes
  um_tail :: bytes

definition usbmon_rest_ok :: "u32 \<Rightarrow> usbmon_rest \<Rightarrow> bool" where
  "usbmon_rest_ok lt m \<longleftrightarrow> length (um_id m) = 8 \<and> length (um_mid m) = 25 \<and>
     usbmon_header_len lt = Some (40 + length (um_tail m))"

definition usbmon_bytes :: "bool \<Rightarrow> usbmon_rest \<Rightarrow> u8 \<Rightarrow> u8 \<Rightarrow> u8 \<Rightarrow> bytes \<Rightarrow> bytes" where
  "usbmon_bytes big m ev xfer ep d = um_id m @ [ev, xfer, ep] @ um_mid m @ u32_out big (of_nat (length d)) @ um_tail m @ d"

lemma usb_event_roundtrip:
  assumes "usbmon_rest_ok lt m" and "length d < 2 ^ 32"
  shows "usb_event_parse (usbmon_bytes big m ev xfer ep d) big lt =
    Inr \<lparr>event_type = ev, xfer_type = xfer, dir_in = (ep AND 0x80 \<noteq> 0), ev_data = d\<rparr>"
proof -
  let ?b = "usbmon_bytes big m ev xfer ep d"
  have l: "length (um_id m) = 8" "length (um_mid m) = 25" "usbmon_header_len lt = Some (40 + length (um_tail m))"
    using assms(1) by (simp_all add: usbmon_rest_ok_def)
  have n: "unat (of_nat (length d) :: u32) = length d" using assms(2) unfolding unat_of_nat_u32 by simp
  have "u32_in ?b 36 big = of_nat (length d)"
    using u32_in_out [of "um_id m @ [ev, xfer, ep] @ um_mid m" 36] l by (simp add: usbmon_bytes_def)
  moreover have "?b ! 8 = ev" "?b ! 9 = xfer" "?b ! 10 = ep"
    using l by (simp_all add: usbmon_bytes_def nth_append)
  moreover have "sub_slice (40 + length (um_tail m)) (40 + length (um_tail m) + length d) ?b = d"
    using drop_len_append [of "40 + length (um_tail m)" "um_id m @ [ev, xfer, ep] @ um_mid m @ u32_out big (of_nat (length d)) @ um_tail m" 0 d] l
    by (simp add: usbmon_bytes_def sub_slice_def del: drop_append)
  moreover have "length ?b = 40 + length (um_tail m) + length d" using l by (simp add: usbmon_bytes_def)
  ultimately show ?thesis by (simp add: usb_event_parse_def l n)
qed

end
