(* ===== verification/Recap.thy ===== *)
theory Recap
  imports OutParser Usbmon Json
begin

text \<open>
  The capture decoder (\<^verbatim>\<open>tobii-recap/src/decode.rs\<close>, \<^verbatim>\<open>catalog.rs\<close>, \<^verbatim>\<open>opnames.rs\<close>): every record of a
  pcap file through the usbmon header into the reassembler of its direction, the frames on one
  timeline, and the catalog of the operations seen. Time stamps are \<^verbatim>\<open>f64\<close> seconds, the quotient and
  the sum each rounded as the machine does.
\<close>

section \<open>Time stamps\<close>

text \<open>
  The quotient of two integers rounded to 53 significant bits: the integer quotient with at least
  64 bits, with a last bit that says whether anything was cut off.
\<close>

definition f64_quot :: "nat \<Rightarrow> nat \<Rightarrow> f64" where
  "f64_quot n d =
     (let s = 64 + bitlen d; a = n * 2 ^ s; q = 2 * (a div d) + (if a mod d = 0 then 0 else 1)
      in Fin (int (round53 q)) (- int (s + 1)))"

fun f64_neg :: "f64 \<Rightarrow> f64" where
  "f64_neg NaN = NaN"
| "f64_neg (Inf s) = Inf (\<not> s)"
| "f64_neg (Fin m e) = Fin (- m) e"

definition ts_seconds :: "pcap_record \<Rightarrow> bool \<Rightarrow> f64" where
  "ts_seconds r nano = f64_add (f64_of_int (uint (ts_sec r)))
     (f64_quot (unat (ts_frac r)) (if nano then 1000000000 else 1000000))"

section \<open>Decoding\<close>

record timeline_frame =
  ts_rel :: f64
  from_device :: bool
  ttp :: frame

datatype decode_error =
    BadRecord record_error
  | BadEvent event_error
  | InboundError f64 protocol_error
  | OutboundError f64 out_error

record decoded =
  dc_linktype :: u32
  packet_count :: nat
  bulk_in_bytes :: nat
  bulk_out_bytes :: nat
  dc_frames :: "timeline_frame list"
  dc_errors :: "decode_error list"

record decoding =
  in_acc :: bytes
  out_acc :: bytes
  first_ts :: "f64 option"
  so_far :: decoded

definition push_frames :: "timeline_frame list \<Rightarrow> frame list \<Rightarrow> f64 \<Rightarrow> bool \<Rightarrow> timeline_frame list" where
  "push_frames out fs t din = out @ map (\<lambda>f. \<lparr>ts_rel = t, from_device = din, ttp = f\<rparr>) fs"

text \<open>The body of the loop, behind the record that was read.\<close>

definition decode_record :: "pcap_global \<Rightarrow> decoding \<Rightarrow> pcap_record \<Rightarrow> decoding" where
  "decode_record g st r =
     (let ts = ts_seconds r (nanosecond g);
          t0 = (case first_ts st of None \<Rightarrow> ts | Some t \<Rightarrow> t);
          rel = f64_add ts (f64_neg t0);
          res = (so_far st)\<lparr>packet_count := packet_count (so_far st) + 1\<rparr>;
          st1 = st\<lparr>first_ts := Some t0, so_far := res\<rparr> in
      case usb_event_parse (rec_data r) (big_endian g) (linktype g) of
        Inl e \<Rightarrow> st1\<lparr>so_far := res\<lparr>dc_errors := dc_errors res @ [BadEvent e]\<rparr>\<rparr>
      | Inr ev \<Rightarrow>
          if \<not> carries_payload ev then st1
          else if dir_in ev then
            (let res1 = res\<lparr>bulk_in_bytes := bulk_in_bytes res + length (ev_data ev)\<rparr> in
             case feed (in_acc st) (ev_data ev) of
               (Inr fs, a) \<Rightarrow> st1\<lparr>in_acc := a, so_far := res1\<lparr>dc_frames := push_frames (dc_frames res1) fs rel True\<rparr>\<rparr>
             | (Inl e, a) \<Rightarrow> st1\<lparr>in_acc := a, so_far := res1\<lparr>dc_errors := dc_errors res1 @ [InboundError rel e]\<rparr>\<rparr>)
          else
            (let res1 = res\<lparr>bulk_out_bytes := bulk_out_bytes res + length (ev_data ev)\<rparr> in
             case out_feed (out_acc st) (ev_data ev) of
               (Inr fs, a) \<Rightarrow> st1\<lparr>out_acc := a, so_far := res1\<lparr>dc_frames := push_frames (dc_frames res1) fs rel False\<rparr>\<rparr>
             | (Inl e, a) \<Rightarrow> st1\<lparr>out_acc := a, so_far := res1\<lparr>dc_errors := dc_errors res1 @ [OutboundError rel e]\<rparr>\<rparr>))"

function decode_loop :: "pcap_global \<Rightarrow> record_reader \<Rightarrow> decoding \<Rightarrow> decoding" where
  "decode_loop g rd st =
     (case next_record rd of
        (Some (Inr r), rd') \<Rightarrow> decode_loop g rd' (decode_record g st r)
      | (Some (Inl e), _) \<Rightarrow> st\<lparr>so_far := (so_far st)\<lparr>dc_errors := dc_errors (so_far st) @ [BadRecord e]\<rparr>\<rparr>
      | (None, _) \<Rightarrow> st)"
  by pat_completeness auto
termination
  by (relation "measure (\<lambda>(g, rd, st). length (rr_rest rd))") (auto dest!: next_record_shrinks [OF sym])

declare decode_loop.simps [simp del]

definition decoded_new :: "u32 \<Rightarrow> decoded" where
  "decoded_new lt = \<lparr>dc_linktype = lt, packet_count = 0, bulk_in_bytes = 0, bulk_out_bytes = 0,
     dc_frames = [], dc_errors = []\<rparr>"

definition decode_capture :: "bytes \<Rightarrow> (recap_error, decoded) result" where
  "decode_capture bs = res_bind (record_reader_new bs) (\<lambda>(g, rd).
     if linktype g \<noteq> 220 \<and> linktype g \<noteq> 189 then Inl (UnsupportedLinktype (linktype g))
     else Inr (so_far (decode_loop g rd
       \<lparr>in_acc = [], out_acc = [], first_ts = None, so_far = decoded_new (linktype g)\<rparr>)))"

section \<open>Names of operations\<close>

definition op_name :: "u32 \<Rightarrow> str option" where
  "op_name c =
     (if c = OP_HELLO then Some (lit ''hello'')
      else if c = OP_SUBSCRIBE then Some (lit ''subscribe'')
      else if c = OP_QUERY_REALM then Some (lit ''query_realm'')
      else if c = OP_OPEN_REALM then Some (lit ''open_realm'')
      else if c = OP_REALM_RESPONSE then Some (lit ''realm_response'')
      else if c = OP_CLOSE_REALM then Some (lit ''close_realm'')
      else if c = OP_GET_DISPLAY_AREA then Some (lit ''get_display_area'')
      else if c = OP_SET_DISPLAY_AREA then Some (lit ''set_display_area'')
      else if c = OP_CAL_START then Some (lit ''cal_start'')
      else if c = OP_CAL_STOP then Some (lit ''cal_stop'')
      else if c = OP_CAL_CLEAR then Some (lit ''cal_clear'')
      else if c = OP_CAL_ADD_POINT then Some (lit ''cal_add_point'')
      else if c = OP_CAL_COMPUTE then Some (lit ''cal_compute'')
      else if c = OP_CAL_RETRIEVE then Some (lit ''cal_retrieve'')
      else if c = OP_CAL_APPLY then Some (lit ''cal_apply'')
      else if c = OP_GET_ENABLED_EYE then Some (lit ''get_enabled_eye'')
      else if c = OP_SET_ENABLED_EYE then Some (lit ''set_enabled_eye'')
      else if c = OP_GAZE_NOTIFY then Some (lit ''gaze_notify'')
      else None)"

definition third_party_label :: "u32 \<Rightarrow> str option" where
  "third_party_label c =
     (if c = 0x532 then Some (lit ''?3p:unnamed'')
      else if c = 0x546 then Some (lit ''?3p:capabilities'')
      else if c = 0x58c then Some (lit ''?3p:device_info'')
      else if c = 0x5b4 then Some (lit ''?3p:unnamed'')
      else if c = 0x5d2 then Some (lit ''?3p:unnamed'')
      else if c = 0x672 then Some (lit ''?3p:unnamed'')
      else if c = 0x6a4 then Some (lit ''?3p:model_name'')
      else if c = 0x83e then Some (lit ''?3p:session_metadata'')
      else if c = 0xbf4 then Some (lit ''?3p:unnamed'')
      else None)"

definition op_label :: "u32 \<Rightarrow> str" where
  "op_label c = (case op_name c of Some s \<Rightarrow> s | None \<Rightarrow>
     (case third_party_label c of Some s \<Rightarrow> s | None \<Rightarrow> lit ''?unknown''))"

section \<open>The catalog\<close>

record op_stat =
  os_op :: u32
  host_to_device :: bool
  device_to_host :: bool
  os_count :: nat
  min_len :: nat
  max_len :: nat
  os_name :: "str option"

definition dir_marker :: "op_stat \<Rightarrow> str" where
  "dir_marker s =
     (if host_to_device s \<and> device_to_host s then lit ''<>''
      else if host_to_device s then lit ''>''
      else if device_to_host s then lit ''<''
      else lit ''?'')"

definition op_stat_new :: "u32 \<Rightarrow> op_stat" where
  "op_stat_new c = \<lparr>os_op = c, host_to_device = False, device_to_host = False, os_count = 0,
     min_len = 2 ^ 64 - 1, max_len = 0, os_name = op_name c\<rparr>"

definition op_stat_add :: "timeline_frame \<Rightarrow> op_stat \<Rightarrow> op_stat" where
  "op_stat_add tf s =
     (let n = length (payload (ttp tf));
          s1 = s\<lparr>os_count := os_count s + 1, min_len := min (min_len s) n, max_len := max (max_len s) n\<rparr> in
      if from_device tf then s1\<lparr>device_to_host := True\<rparr> else s1\<lparr>host_to_device := True\<rparr>)"

definition catalog_add :: "(u32 \<times> op_stat) list \<Rightarrow> timeline_frame \<Rightarrow> (u32 \<times> op_stat) list" where
  "catalog_add m tf =
     (let c = opc (ttp tf);
          entry = (case map_of m c of None \<Rightarrow> op_stat_new c | Some s \<Rightarrow> s) in
      btree_insert c (op_stat_add tf entry) m)"

definition catalog_build :: "timeline_frame list \<Rightarrow> op_stat list" where
  "catalog_build tfs = sort_key (\<lambda>s. (os_name s \<noteq> None, os_op s)) (map snd (foldl catalog_add [] tfs))"

section \<open>Decoding as a fold\<close>

definition end_decoding :: "record_error option \<Rightarrow> decoding \<Rightarrow> decoding" where
  "end_decoding e st = (case e of None \<Rightarrow> st
     | Some x \<Rightarrow> st\<lparr>so_far := (so_far st)\<lparr>dc_errors := dc_errors (so_far st) @ [BadRecord x]\<rparr>\<rparr>)"

lemma decode_loop_all:
  "decode_loop g rd st = (case all_records rd of (xs, e) \<Rightarrow> end_decoding e (foldl (decode_record g) st xs))"
proof (induction g rd st rule: decode_loop.induct)
  case (1 g rd st)
  obtain x rd' where n: "next_record rd = (x, rd')" by fastforce
  consider "x = None" | e where "x = Some (Inl e)" | r where "x = Some (Inr r)"
    by (cases x; cases "the x") auto
  then show ?case
  proof cases
    case (3 r)
    with 1 n have "decode_loop g rd' (decode_record g st r) =
        (case all_records rd' of (xs, e) \<Rightarrow> end_decoding e (foldl (decode_record g) (decode_record g st r) xs))" by simp
    then show ?thesis using n 3
      by (simp add: decode_loop.simps [of g rd st] all_records.simps [of rd] split: prod.splits)
  qed (simp_all add: n decode_loop.simps [of g rd st] all_records.simps [of rd] end_decoding_def)
qed

definition decoding_new :: "u32 \<Rightarrow> decoding" where
  "decoding_new lt = \<lparr>in_acc = [], out_acc = [], first_ts = None, so_far = decoded_new lt\<rparr>"

lemma decode_capture_fold:
  "decode_capture bs =
     res_bind (record_reader_new bs) (\<lambda>(g, rd).
       if linktype g \<noteq> 220 \<and> linktype g \<noteq> 189 then Inl (UnsupportedLinktype (linktype g))
       else Inr (case all_records rd of (xs, e) \<Rightarrow>
         so_far (end_decoding e (foldl (decode_record g) (decoding_new (linktype g)) xs))))"
  unfolding decode_capture_def decode_loop_all decoding_new_def by (simp add: prod.case_distrib [of so_far] cong: if_cong)

section \<open>Two independent streams\<close>

text \<open>
  One direction on its own: the frames of its chunks, where an error loses what is buffered and nothing else.
\<close>

fun resync :: "(bytes \<Rightarrow> bytes \<Rightarrow> ('e, frame list) result \<times> bytes) \<Rightarrow> bytes \<Rightarrow> bytes list \<Rightarrow> frame list" where
  "resync fd acc [] = []"
| "resync fd acc (d # ds) = (case fd acc d of (Inr fs, a) \<Rightarrow> fs @ resync fd a ds | (Inl _, a) \<Rightarrow> resync fd a ds)"

text \<open>The payloads of one direction among the records.\<close>

definition payload_of :: "pcap_global \<Rightarrow> bool \<Rightarrow> pcap_record \<Rightarrow> bytes option" where
  "payload_of g din r =
     (case usb_event_parse (rec_data r) (big_endian g) (linktype g) of
        Inl _ \<Rightarrow> None
      | Inr ev \<Rightarrow> if carries_payload ev \<and> dir_in ev = din then Some (ev_data ev) else None)"

definition payloads :: "pcap_global \<Rightarrow> bool \<Rightarrow> pcap_record list \<Rightarrow> bytes list" where
  "payloads g din rs = List.map_filter (payload_of g din) rs"

definition stream_frames :: "bool \<Rightarrow> decoded \<Rightarrow> frame list" where
  "stream_frames din d = map ttp (filter (\<lambda>tf. from_device tf = din) (dc_frames d))"

lemma payloads_simps [simp]:
  "payloads g din [] = []"
  "payloads g din (r # rs) = (case payload_of g din r of None \<Rightarrow> payloads g din rs | Some d \<Rightarrow> d # payloads g din rs)"
  by (simp_all add: payloads_def List.map_filter_simps split: option.splits)

lemma stream_push:
  "map ttp (filter from_device (push_frames out fs t d)) = map ttp (filter from_device out) @ (if d then fs else [])"
  "map ttp (filter (\<lambda>tf. \<not> from_device tf) (push_frames out fs t d)) =
     map ttp (filter (\<lambda>tf. \<not> from_device tf) out) @ (if d then [] else fs)"
  by (simp_all add: push_frames_def o_def)

definition step_frames :: "(bytes \<Rightarrow> bytes \<Rightarrow> ('e, frame list) result \<times> bytes) \<Rightarrow> bytes \<Rightarrow> bytes option \<Rightarrow> frame list" where
  "step_frames fd acc p = (case p of None \<Rightarrow> [] | Some d \<Rightarrow> (case fst (fd acc d) of Inr fs \<Rightarrow> fs | Inl _ \<Rightarrow> []))"

definition step_acc :: "(bytes \<Rightarrow> bytes \<Rightarrow> ('e, frame list) result \<times> bytes) \<Rightarrow> bytes \<Rightarrow> bytes option \<Rightarrow> bytes" where
  "step_acc fd acc p = (case p of None \<Rightarrow> acc | Some d \<Rightarrow> snd (fd acc d))"

lemma decode_record_streams:
  "in_acc (decode_record g st r) = step_acc feed (in_acc st) (payload_of g True r)"
  "out_acc (decode_record g st r) = step_acc out_feed (out_acc st) (payload_of g False r)"
  "stream_frames True (so_far (decode_record g st r)) =
     stream_frames True (so_far st) @ step_frames feed (in_acc st) (payload_of g True r)"
  "stream_frames False (so_far (decode_record g st r)) =
     stream_frames False (so_far st) @ step_frames out_feed (out_acc st) (payload_of g False r)"
proof -
  note defs = decode_record_def Let_def payload_of_def step_acc_def step_frames_def stream_frames_def
  have "in_acc (decode_record g st r) = step_acc feed (in_acc st) (payload_of g True r) \<and>
    out_acc (decode_record g st r) = step_acc out_feed (out_acc st) (payload_of g False r) \<and>
    stream_frames True (so_far (decode_record g st r)) =
      stream_frames True (so_far st) @ step_frames feed (in_acc st) (payload_of g True r) \<and>
    stream_frames False (so_far (decode_record g st r)) =
      stream_frames False (so_far st) @ step_frames out_feed (out_acc st) (payload_of g False r)"
  proof (cases "usb_event_parse (rec_data r) (big_endian g) (linktype g)")
    case (Inl e)
    then show ?thesis by (simp add: defs)
  next
    case (Inr ev)
    obtain x a where f: "feed (in_acc st) (ev_data ev) = (x, a)" by fastforce
    obtain y b where o: "out_feed (out_acc st) (ev_data ev) = (y, b)" by fastforce
    show ?thesis
    proof (cases "carries_payload ev")
      case False
      with Inr show ?thesis by (simp add: defs)
    next
      case True
      with Inr f o show ?thesis
        by (cases "dir_in ev"; cases x; cases y) (simp_all add: defs stream_push)
    qed
  qed
  then show "in_acc (decode_record g st r) = step_acc feed (in_acc st) (payload_of g True r)"
    "out_acc (decode_record g st r) = step_acc out_feed (out_acc st) (payload_of g False r)"
    "stream_frames True (so_far (decode_record g st r)) =
      stream_frames True (so_far st) @ step_frames feed (in_acc st) (payload_of g True r)"
    "stream_frames False (so_far (decode_record g st r)) =
      stream_frames False (so_far st) @ step_frames out_feed (out_acc st) (payload_of g False r)"
    by blast+
qed

lemma resync_step:
  "resync fd acc (payloads g din (r # rs)) =
     step_frames fd acc (payload_of g din r) @ resync fd (step_acc fd acc (payload_of g din r)) (payloads g din rs)"
  by (simp add: step_frames_def step_acc_def split: option.splits prod.splits sum.splits)

lemma decode_fold_streams:
  "stream_frames True (so_far (foldl (decode_record g) st rs)) =
     stream_frames True (so_far st) @ resync feed (in_acc st) (payloads g True rs) \<and>
   stream_frames False (so_far (foldl (decode_record g) st rs)) =
     stream_frames False (so_far st) @ resync out_feed (out_acc st) (payloads g False rs)"
  by (induction rs arbitrary: st) (simp_all add: resync_step decode_record_streams del: payloads_simps(2))

lemma end_decoding_frames: "dc_frames (so_far (end_decoding e st)) = dc_frames (so_far st)"
  by (simp add: end_decoding_def split: option.splits)

text \<open>
  C14. The directions do not disturb each other: whatever a capture file holds, the frames it shows from the
  device are those one inbound parser gives for the inbound payloads alone, and the frames to the
  device those one outbound parser gives for the outbound payloads; records of other transfers, of other
  events and unreadable ones change neither.
\<close>

theorem streams_independent:
  assumes "record_reader_new bs = Inr (g, rd)" and "decode_capture bs = Inr d"
  shows "stream_frames True d = resync feed [] (payloads g True (fst (all_records rd))) \<and>
    stream_frames False d = resync out_feed [] (payloads g False (fst (all_records rd)))"
proof -
  obtain xs e where r: "all_records rd = (xs, e)" by fastforce
  have "d = so_far (end_decoding e (foldl (decode_record g) (decoding_new (linktype g)) xs))"
    using assms r by (simp add: decode_capture_fold split: if_splits)
  then show ?thesis
    using decode_fold_streams [of g "decoding_new (linktype g)" xs] r
    by (simp_all add: stream_frames_def end_decoding_frames decoding_new_def decoded_new_def)
qed

theorem streams_independent_witness:
  "let g = \<lparr>big_endian = False, nanosecond = False, snaplen = 0, linktype = 220\<rparr> in
   decode_capture (pcap_header_bytes g (replicate 12 0)) = Inr (decoded_new 220) \<and> stream_frames True (decoded_new 220) = []"
proof -
  let ?g = "\<lparr>big_endian = False, nanosecond = False, snaplen = 0, linktype = 220\<rparr>"
  have r: "record_reader_new (pcap_header_bytes ?g (replicate 12 0)) =
      Inr (?g, \<lparr>rr_global = ?g, rr_rest = [], rr_done = False\<rparr>)"
    using pcap_global_roundtrip [of "replicate 12 0" ?g "[]"] length_pcap_header [of "replicate 12 0" ?g]
    by (simp add: record_reader_new_def)
  then have d: "decode_capture (pcap_header_bytes ?g (replicate 12 0)) = Inr (decoded_new 220)"
    by (simp add: decode_capture_fold all_records_end end_decoding_def decoding_new_def)
  then show ?thesis using streams_independent [OF r d] by (simp add: all_records_end)
qed

section \<open>The capture of a session\<close>

text \<open>
  What a capture of the driver's traffic holds: requests as they are submitted, frames of the device as their
  transfers complete, and any other record, each with its time stamp and the fields the decoder skips.
\<close>

datatype transfer = Sent "u32 \<times> u32 \<times> bytes" | Received "u32 \<times> u32 \<times> u32 \<times> frame" | Unrelated bytes

record captured =
  cp_orig :: u32
  cp_sec :: u32
  cp_frac :: u32
  cp_head :: usbmon_rest
  cp_ep :: u8
  cp_transfer :: transfer

definition captured_data :: "pcap_global \<Rightarrow> captured \<Rightarrow> bytes" where
  "captured_data g c =
     (case cp_transfer c of
        Sent r \<Rightarrow> usbmon_bytes (big_endian g) (cp_head c) EVENT_SUBMIT XFER_BULK (cp_ep c) (request_bytes r)
      | Received (e, a, w, f) \<Rightarrow>
          usbmon_bytes (big_endian g) (cp_head c) EVENT_COMPLETE XFER_BULK (cp_ep c) (frame_bytes e a w f)
      | Unrelated d \<Rightarrow> d)"

definition captured_record :: "pcap_global \<Rightarrow> captured \<Rightarrow> u32 \<times> pcap_record" where
  "captured_record g c = (cp_orig c, \<lparr>ts_sec = cp_sec c, ts_frac = cp_frac c, rec_data = captured_data g c\<rparr>)"

definition captured_ok :: "pcap_global \<Rightarrow> captured \<Rightarrow> bool" where
  "captured_ok g c =
     (case cp_transfer c of
        Sent r \<Rightarrow> request_fits r \<and> usbmon_rest_ok (linktype g) (cp_head c) \<and> cp_ep c AND 0x80 = 0
      | Received (e, a, w, f) \<Rightarrow> fits e f \<and> usbmon_rest_ok (linktype g) (cp_head c) \<and> cp_ep c AND 0x80 \<noteq> 0
      | Unrelated d \<Rightarrow> length d < 2 ^ 32 \<and>
          (case usb_event_parse d (big_endian g) (linktype g) of Inl _ \<Rightarrow> True | Inr ev \<Rightarrow> \<not> carries_payload ev))"

definition capture_file :: "pcap_global \<Rightarrow> bytes \<Rightarrow> captured list \<Rightarrow> bytes" where
  "capture_file g mid cs =
     pcap_header_bytes g mid @ concat (map (record_bytes (big_endian g)) (map (captured_record g) cs))"

text \<open>What the decoder is to make of it, item by item.\<close>

definition captured_ts :: "pcap_global \<Rightarrow> captured \<Rightarrow> f64" where
  "captured_ts g c = ts_seconds (snd (captured_record g c)) (nanosecond g)"

definition item_frames :: "pcap_global \<Rightarrow> f64 \<Rightarrow> captured \<Rightarrow> timeline_frame list" where
  "item_frames g t0 c = (let t = f64_add (captured_ts g c) (f64_neg t0) in
     case cp_transfer c of
       Sent r \<Rightarrow> [\<lparr>ts_rel = t, from_device = False, ttp = request_frame r\<rparr>]
     | Received (e, a, w, f) \<Rightarrow> [\<lparr>ts_rel = t, from_device = True, ttp = f\<rparr>]
     | Unrelated d \<Rightarrow> [])"

definition item_errors :: "pcap_global \<Rightarrow> captured \<Rightarrow> decode_error list" where
  "item_errors g c =
     (case cp_transfer c of
        Unrelated d \<Rightarrow> (case usb_event_parse d (big_endian g) (linktype g) of Inl e \<Rightarrow> [BadEvent e] | Inr _ \<Rightarrow> [])
      | _ \<Rightarrow> [])"

definition item_in :: "captured \<Rightarrow> nat" where
  "item_in c = (case cp_transfer c of Received (e, a, w, f) \<Rightarrow> 32 + length (payload f) | _ \<Rightarrow> 0)"

definition item_out :: "captured \<Rightarrow> nat" where
  "item_out c = (case cp_transfer c of Sent (s, p, d) \<Rightarrow> 32 + length d | _ \<Rightarrow> 0)"

definition seen :: "pcap_global \<Rightarrow> f64 \<Rightarrow> captured list \<Rightarrow> decoded \<Rightarrow> decoded" where
  "seen g t0 cs d = d\<lparr>packet_count := packet_count d + length cs,
     bulk_in_bytes := bulk_in_bytes d + sum_list (map item_in cs),
     bulk_out_bytes := bulk_out_bytes d + sum_list (map item_out cs),
     dc_frames := dc_frames d @ concat (map (item_frames g t0) cs),
     dc_errors := dc_errors d @ concat (map (item_errors g) cs)\<rparr>"

lemma feed_frame:
  assumes "fits e f"
  shows "feed [] (frame_bytes e a w f) = (Inr [f], [])"
  using drain_loop_frames [of "[(e, a, w, f)]" "[]"] drain_none_empty assms
  by (simp add: feed_def strip_envelope_def fits_def)

lemma captured_small: "captured_ok g c \<Longrightarrow> record_fits (captured_record g c)"
  by (auto simp: captured_ok_def captured_record_def captured_data_def record_fits_def usbmon_bytes_def usbmon_rest_ok_def
      usbmon_header_len_def request_fits_def request_bytes_def fits_def ACC_CAP_def OUT_ACC_CAP_def
      split: transfer.splits if_splits prod.splits)

lemma sent_payload:
  assumes "captured_ok g c" and "cp_transfer c = Sent r"
  shows "usb_event_parse (captured_data g c) (big_endian g) (linktype g) =
    Inr \<lparr>event_type = EVENT_SUBMIT, xfer_type = XFER_BULK, dir_in = False, ev_data = request_bytes r\<rparr>"
proof -
  have "length (request_bytes r) < 2 ^ 32"
    using assms by (cases r) (simp add: captured_ok_def request_fits_def request_bytes_def OUT_ACC_CAP_def)
  then show ?thesis
    using assms usb_event_roundtrip [of "linktype g" "cp_head c" "request_bytes r"]
    by (simp add: captured_ok_def captured_data_def)
qed

lemma received_payload:
  assumes "captured_ok g c" and "cp_transfer c = Received (e, a, w, f)"
  shows "usb_event_parse (captured_data g c) (big_endian g) (linktype g) =
    Inr \<lparr>event_type = EVENT_COMPLETE, xfer_type = XFER_BULK, dir_in = True, ev_data = frame_bytes e a w f\<rparr>"
proof -
  have "length (frame_bytes e a w f) < 2 ^ 32"
    using assms by (simp add: captured_ok_def fits_def ACC_CAP_def)
  then show ?thesis
    using assms usb_event_roundtrip [of "linktype g" "cp_head c" "frame_bytes e a w f"]
    by (simp add: captured_ok_def captured_data_def)
qed

lemma request_nonempty: "build_out_frame s p d \<noteq> []" "frame_bytes e a w f \<noteq> []"
  by (simp_all add: build_out_frame_bytes be32_def be_enc_4 frame_bytes_def)

lemma captured_ts_fold:
  "ts_seconds \<lparr>ts_sec = cp_sec c, ts_frac = cp_frac c, rec_data = captured_data g c\<rparr> (nanosecond g) = captured_ts g c"
  by (simp add: captured_ts_def captured_record_def)

lemma decode_item:
  assumes "captured_ok g c" and "in_acc st = []" and "out_acc st = []"
    and "t0 = (case first_ts st of None \<Rightarrow> captured_ts g c | Some t \<Rightarrow> t)"
  shows "decode_record g st (snd (captured_record g c)) =
    st\<lparr>first_ts := Some t0, so_far := seen g t0 [c] (so_far st)\<rparr>"
proof (cases "cp_transfer c")
  case (Sent r)
  obtain s p d where r: "r = (s, p, d)" by (cases r)
  have "out_feed [] (request_bytes r) = (Inr [request_frame r], [])"
    using assms(1) Sent by (intro out_feed_request) (simp add: captured_ok_def)
  then show ?thesis
    using sent_payload [OF assms(1) Sent] assms(2-) Sent
    by (simp add: decode_record_def captured_record_def Let_def carries_payload_def request_nonempty push_frames_def
      seen_def item_in_def item_out_def item_frames_def item_errors_def captured_ts_fold r request_bytes_def)
next
  case (Received x)
  obtain e a w f where x: "x = (e, a, w, f)" by (cases x)
  have "feed [] (frame_bytes e a w f) = (Inr [f], [])"
    using assms(1) Received x by (intro feed_frame) (simp add: captured_ok_def)
  then show ?thesis
    using received_payload [of g c e a w f] assms Received x
    by (simp add: decode_record_def captured_record_def Let_def carries_payload_def request_nonempty push_frames_def
      seen_def item_in_def item_out_def item_frames_def item_errors_def captured_ts_fold)
next
  case (Unrelated d)
  then have "usb_event_parse (captured_data g c) = usb_event_parse d" by (simp add: captured_data_def)
  then show ?thesis using assms Unrelated
    by (cases "usb_event_parse d (big_endian g) (linktype g)")
      (simp_all add: decode_record_def captured_record_def captured_ok_def Let_def
        seen_def item_in_def item_out_def item_frames_def item_errors_def captured_ts_fold)
qed

lemma decode_items:
  assumes "list_all (captured_ok g) cs" and "in_acc st = []" and "out_acc st = []" and "first_ts st = Some t0"
  shows "foldl (decode_record g) st (map snd (map (captured_record g) cs)) = st\<lparr>so_far := seen g t0 cs (so_far st)\<rparr>"
  using assms
proof (induction cs arbitrary: st)
  case Nil
  then show ?case by (simp add: seen_def)
next
  case (Cons c cs)
  let ?st = "st\<lparr>first_ts := Some t0, so_far := seen g t0 [c] (so_far st)\<rparr>"
  have "decode_record g st (snd (captured_record g c)) = ?st"
    using Cons.prems by (intro decode_item) simp_all
  moreover have "foldl (decode_record g) ?st (map snd (map (captured_record g) cs)) = ?st\<lparr>so_far := seen g t0 cs (so_far ?st)\<rparr>"
    using Cons.prems by (intro Cons.IH) simp_all
  ultimately show ?case using Cons.prems by (simp add: seen_def)
qed

text \<open>
  C5. A capture of a session is decoded to that session: for either byte order, either resolution of the
  stamps and either usbmon header, the timeline shows exactly the requests the driver submitted and the
  frames the device completed, each once, in their order and with its time since the first record; the
  counts are those of the transfers; records of anything else add nothing but their own complaint.
\<close>

theorem session_decoded:
  assumes "length mid = 12" and "linktype g = 220 \<or> linktype g = 189" and "list_all (captured_ok g) (c # cs)"
  shows "decode_capture (capture_file g mid (c # cs)) =
    Inr \<lparr>dc_linktype = linktype g, packet_count = Suc (length cs),
      bulk_in_bytes = sum_list (map item_in (c # cs)), bulk_out_bytes = sum_list (map item_out (c # cs)),
      dc_frames = concat (map (item_frames g (captured_ts g c)) (c # cs)),
      dc_errors = concat (map (item_errors g) (c # cs))\<rparr>"
proof -
  let ?st = "decoding_new (linktype g)" and ?t0 = "captured_ts g c"
  have fits: "list_all record_fits (map (captured_record g) (c # cs))"
    using assms(3) captured_small by (auto simp: list_all_iff)
  have "record_reader_new (capture_file g mid (c # cs)) = Inr (g, \<lparr>rr_global = g,
      rr_rest = concat (map (record_bytes (big_endian g)) (map (captured_record g) (c # cs))), rr_done = False\<rparr>)"
    using pcap_global_roundtrip [OF assms(1)] length_pcap_header [OF assms(1)]
    by (simp add: record_reader_new_def capture_file_def)
  moreover have "all_records \<lparr>rr_global = g,
      rr_rest = concat (map (record_bytes (big_endian g)) (map (captured_record g) (c # cs))), rr_done = False\<rparr> =
      (map snd (map (captured_record g) (c # cs)), None)"
    using all_records_bytes [OF fits, of g "[]"] by (simp add: all_records_end)
  moreover have "decode_record g ?st (snd (captured_record g c)) =
      ?st\<lparr>first_ts := Some ?t0, so_far := seen g ?t0 [c] (so_far ?st)\<rparr>"
    using assms(3) by (intro decode_item) (simp_all add: decoding_new_def)
  moreover have "foldl (decode_record g) (?st\<lparr>first_ts := Some ?t0, so_far := seen g ?t0 [c] (so_far ?st)\<rparr>)
      (map snd (map (captured_record g) cs)) =
      ?st\<lparr>first_ts := Some ?t0, so_far := seen g ?t0 cs (seen g ?t0 [c] (so_far ?st))\<rparr>"
    using assms(3) by (subst decode_items) (simp_all add: decoding_new_def)
  ultimately show ?thesis
    using assms(2) by (auto simp: decode_capture_fold end_decoding_def seen_def decoding_new_def decoded_new_def)
qed

theorem session_decoded_witness:
  "let g = \<lparr>big_endian = True, nanosecond = False, snaplen = 0, linktype = 189\<rparr>;
       h = \<lparr>um_id = replicate 8 0, um_mid = replicate 25 0, um_tail = replicate 8 0\<rparr>;
       sent = \<lparr>cp_orig = 0, cp_sec = 5, cp_frac = 0, cp_head = h, cp_ep = 3, cp_transfer = Sent (1, OP_HELLO, [])\<rparr>;
       f = \<lparr>magic = TTP_MAGIC_RSP, sqn = 1, opc = OP_HELLO, payload = [9]\<rparr>;
       got = \<lparr>cp_orig = 0, cp_sec = 5, cp_frac = 0, cp_head = h, cp_ep = 0x83, cp_transfer = Received (33, 0, 0, f)\<rparr>
   in \<exists>d. decode_capture (capture_file g (replicate 12 0) [sent, got]) = Inr d \<and>
     map ttp (dc_frames d) = [request_frame (1, OP_HELLO, []), f] \<and> dc_errors d = []"
proof -
  let ?g = "\<lparr>big_endian = True, nanosecond = False, snaplen = 0, linktype = 189\<rparr>"
  let ?h = "\<lparr>um_id = replicate 8 0, um_mid = replicate 25 0, um_tail = replicate 8 0\<rparr>"
  let ?s = "\<lparr>cp_orig = 0, cp_sec = 5, cp_frac = 0, cp_head = ?h, cp_ep = 3, cp_transfer = Sent (1, OP_HELLO, [])\<rparr>"
  let ?f = "\<lparr>magic = TTP_MAGIC_RSP, sqn = 1, opc = OP_HELLO, payload = [9]\<rparr>"
  let ?r = "\<lparr>cp_orig = 0, cp_sec = 5, cp_frac = 0, cp_head = ?h, cp_ep = 0x83, cp_transfer = Received (33, 0, 0, ?f)\<rparr>"
  have "list_all (captured_ok ?g) [?s, ?r]"
    by (simp add: captured_ok_def request_fits_def OUT_ACC_CAP_def ACC_CAP_def fits_def usbmon_rest_ok_def usbmon_header_len_def)
  from session_decoded [OF _ _ this, of "replicate 12 0"] show ?thesis
    by (simp add: item_frames_def item_errors_def Let_def)
qed

section \<open>What the catalog says\<close>

text \<open>The frames of an operation.\<close>

definition of_op :: "u32 \<Rightarrow> timeline_frame list \<Rightarrow> timeline_frame list" where
  "of_op c tfs = filter (\<lambda>tf. opc (ttp tf) = c) tfs"

definition op_summary :: "u32 \<Rightarrow> timeline_frame list \<Rightarrow> op_stat" where
  "op_summary c tfs = \<lparr>os_op = c,
     host_to_device = list_ex (\<lambda>tf. \<not> from_device tf) (of_op c tfs),
     device_to_host = list_ex from_device (of_op c tfs),
     os_count = length (of_op c tfs),
     min_len = Min (insert (2 ^ 64 - 1) ((\<lambda>tf. length (payload (ttp tf))) ` set (of_op c tfs))),
     max_len = Max (insert 0 ((\<lambda>tf. length (payload (ttp tf))) ` set (of_op c tfs))),
     os_name = op_name c\<rparr>"

lemma Min_insert_snoc: "finite A \<Longrightarrow> Min (insert (m :: nat) (insert x A)) = min (Min (insert m A)) x"
  by (cases "A = {}") (simp_all add: ac_simps)

lemma Max_insert_snoc: "finite A \<Longrightarrow> Max (insert (m :: nat) (insert x A)) = max (Max (insert m A)) x"
  by (cases "A = {}") (simp_all add: ac_simps)

lemma op_summary_Nil: "of_op c tfs = [] \<Longrightarrow> op_summary c tfs = op_stat_new c"
  by (simp add: op_summary_def op_stat_new_def)

lemma op_summary_snoc: "opc (ttp tf) = c \<Longrightarrow> op_summary c (tfs @ [tf]) = op_stat_add tf (op_summary c tfs)"
proof -
  assume "opc (ttp tf) = c"
  then have o: "of_op c (tfs @ [tf]) = of_op c tfs @ [tf]" by (simp add: of_op_def)
  let ?n = "length (payload (ttp tf))" and ?A = "(\<lambda>tf. length (payload (ttp tf))) ` set (of_op c tfs)"
  have "(\<lambda>tf. length (payload (ttp tf))) ` set (of_op c tfs @ [tf]) = insert ?n ?A" by simp
  moreover have "Min (insert (2 ^ 64 - 1) (insert ?n ?A)) = min (Min (insert (2 ^ 64 - 1) ?A)) ?n"
    by (rule Min_insert_snoc) simp
  moreover have "Max (insert 0 (insert ?n ?A)) = max (Max (insert 0 ?A)) ?n" by (rule Max_insert_snoc) simp
  ultimately show ?thesis unfolding op_summary_def op_stat_add_def Let_def o
    by (cases "from_device tf") (simp_all del: Max_insert Min_insert)
qed

lemma op_summary_other: "opc (ttp tf) \<noteq> c \<Longrightarrow> op_summary c (tfs @ [tf]) = op_summary c tfs"
  by (simp add: op_summary_def of_op_def)

lemma catalog_map:
  "map_of (foldl catalog_add [] tfs) c = (if of_op c tfs = [] then None else Some (op_summary c tfs))"
proof (induction tfs rule: rev_induct)
  case Nil
  then show ?case by (simp add: of_op_def)
next
  case (snoc tf tfs)
  let ?e = "case map_of (foldl catalog_add [] tfs) (opc (ttp tf)) of None \<Rightarrow> op_stat_new (opc (ttp tf)) | Some s \<Rightarrow> s"
  have "?e = op_summary (opc (ttp tf)) tfs" if "opc (ttp tf) = c"
    using snoc that by (simp add: op_summary_Nil)
  then show ?case
    using snoc
    by (auto simp: catalog_add_def Let_def btree_insert_lookup op_summary_snoc op_summary_other of_op_def)
qed

lemma catalog_sorted: "sorted_wrt (<) (map fst (foldl catalog_add [] tfs))"
  by (induction tfs rule: rev_induct) (simp_all add: catalog_add_def Let_def btree_insert_sorted)

lemma catalog_distinct: "distinct (map fst (foldl catalog_add [] tfs))"
  using catalog_sorted strict_sorted_iff by blast

lemma catalog_entries: "set (foldl catalog_add [] tfs) = (\<lambda>tf. (opc (ttp tf), op_summary (opc (ttp tf)) tfs)) ` set tfs"
proof -
  have "(c, s) \<in> set (foldl catalog_add [] tfs) \<longleftrightarrow> of_op c tfs \<noteq> [] \<and> s = op_summary c tfs" for c s
    using catalog_map [of tfs c] map_of_eq_Some_iff [OF catalog_distinct, of tfs c s] by (auto split: if_splits)
  moreover have "of_op c tfs \<noteq> [] \<longleftrightarrow> c \<in> (opc \<circ> ttp) ` set tfs" for c
    by (auto simp: of_op_def filter_empty_conv)
  ultimately show ?thesis by (auto simp: image_iff)
qed

text \<open>
  C28. The catalog lists every operation seen exactly once: those without a name, the targets of the
  mapping, first, then by code; and of each it gives how many frames had it, the shortest and the longest
  payload, and in which directions it was seen.
\<close>

theorem catalog_exact:
  "sorted_wrt (\<lambda>a b. (os_name a \<noteq> None, os_op a) < (os_name b \<noteq> None, os_op b)) (catalog_build tfs) \<and>
   set (catalog_build tfs) = (\<lambda>tf. op_summary (opc (ttp tf)) tfs) ` set tfs"
proof
  let ?k = "\<lambda>s. (os_name s \<noteq> None, os_op s)" and ?m = "foldl catalog_add [] tfs"
  have s: "set (map snd ?m) = (\<lambda>tf. op_summary (opc (ttp tf)) tfs) ` set tfs"
    unfolding set_map catalog_entries by (simp add: image_image)
  then show "set (catalog_build tfs) = (\<lambda>tf. op_summary (opc (ttp tf)) tfs) ` set tfs"
    by (simp add: catalog_build_def)
  have "map os_op (map snd ?m) = map fst ?m"
    using catalog_entries [of tfs] by (auto simp: op_summary_def)
  then have "distinct (map os_op (map snd ?m))" using catalog_distinct by metis
  then have "distinct (map ?k (map snd ?m))" by (auto simp: distinct_map inj_on_def)
  then have "distinct (map ?k (catalog_build tfs))" 
    unfolding catalog_build_def distinct_map [of ?k] distinct_sort set_sort .
  moreover have "sorted (map ?k (catalog_build tfs))" by (simp add: catalog_build_def)
  ultimately have "sorted_wrt (<) (map ?k (catalog_build tfs))" using strict_sorted_iff by blast
  then show "sorted_wrt (\<lambda>a b. ?k a < ?k b) (catalog_build tfs)" by (simp add: sorted_wrt_map)
qed

end
