(* ===== verification/UserReg.thy ===== *)
theory UserReg
  imports Strings
begin

text \<open>
  Reading a value out of a wine prefix's \<^verbatim>\<open>user.reg\<close> (\<^verbatim>\<open>tobii-config/src/userreg.rs\<close>): the scan of the
  lines for the key's section and the value's name, the escapes of names and strings, and the verdict on
  the form a value is stored in. The reasons of a refusal are constructors. A file written from a list of
  sections and values is read as the last assignment to the value in any spelling of the key.
\<close>

section \<open>Characters and escapes\<close>

text \<open>\<^verbatim>\<open>is_ascii_whitespace\<close>, which leaves out the vertical tab, and \<^verbatim>\<open>char::is_control\<close>.\<close>

definition ascii_space :: "nat \<Rightarrow> bool" where
  "ascii_space c \<longleftrightarrow> c = 9 \<or> c = 10 \<or> c = 12 \<or> c = 13 \<or> c = 32"

definition is_control :: "nat \<Rightarrow> bool" where
  "is_control c \<longleftrightarrow> c < 32 \<or> (127 \<le> c \<and> c < 160)"

datatype unreadable =
    EndsInEscape
  | UnknownEscape
  | NoCharacter

datatype reject =
    BadHeaderLine
  | NameNotText
  | NameUnreadable unreadable
  | LineNotText
  | LineUnreadable
  | StoredAs str
  | UnknownForm
  | NeverEnds
  | Followed
  | TextNotText
  | TextUnreadable unreadable
  | EmptyPath
  | LineBreak
  | ControlCharacter

datatype reg_answer = Absent | Found str | Rejected reject

definition radix_digit :: "nat \<Rightarrow> nat \<Rightarrow> nat option" where
  "radix_digit radix c = (case hex_digit c of Some v \<Rightarrow> if v < radix then Some v else None | None \<Rightarrow> None)"

fun radix_value :: "nat \<Rightarrow> nat \<Rightarrow> str \<Rightarrow> nat option" where
  "radix_value radix v [] = Some v"
| "radix_value radix v (c # s) =
     (case radix_digit radix c of None \<Rightarrow> None | Some d \<Rightarrow> radix_value radix (v * radix + d) s)"

text \<open>\<^verbatim>\<open>u32::from_str_radix\<close>: a leading plus sign is taken, an empty number and an overflow are errors.\<close>

definition u32_from_radix :: "nat \<Rightarrow> str \<Rightarrow> nat option" where
  "u32_from_radix radix s =
     (let ds = (case s of c # t \<Rightarrow> if c = 43 then t else s | [] \<Rightarrow> []) in
      if ds = [] then None
      else case radix_value radix 0 ds of None \<Rightarrow> None | Some v \<Rightarrow> if v < 2 ^ 32 then Some v else None)"

text \<open>The digits of an escape, greedily up to \<open>mx\<close>, behind those already named.\<close>

fun take_digits :: "nat \<Rightarrow> nat \<Rightarrow> str \<Rightarrow> str \<Rightarrow> str \<times> str" where
  "take_digits radix mx ds [] = (ds, [])"
| "take_digits radix mx ds (c # s) =
     (if length ds < mx \<and> radix_digit radix c \<noteq> None then take_digits radix mx (ds @ [c]) s else (ds, c # s))"

definition escape_digits :: "str \<Rightarrow> nat \<Rightarrow> nat \<Rightarrow> nat option \<Rightarrow> (unreadable, nat) result \<times> str" where
  "escape_digits it radix mx seed =
     (let (ds, it') = take_digits radix mx (case seed of None \<Rightarrow> [] | Some c \<Rightarrow> [c]) it in
      if ds = [] then (Inl UnknownEscape, it')
      else case u32_from_radix radix ds of
        None \<Rightarrow> (Inl UnknownEscape, it')
      | Some u \<Rightarrow> (if is_scalar u then Inr u else Inl NoCharacter, it'))"

definition plain_escape :: "nat \<Rightarrow> nat option" where
  "plain_escape e =
     (if e = 92 \<or> e = 34 \<or> e = 91 \<or> e = 93 then Some e
      else if e = 97 then Some 7
      else if e = 98 then Some 8
      else if e = 116 then Some 9
      else if e = 110 then Some 10
      else if e = 118 then Some 11
      else if e = 102 then Some 12
      else if e = 114 then Some 13
      else if e = 101 then Some 27
      else None)"

definition numeric_escape :: "nat \<Rightarrow> (nat \<times> nat \<times> nat option) option" where
  "numeric_escape e =
     (if e = 120 then Some (16, 4, None) else if 48 \<le> e \<and> e \<le> 55 then Some (8, 3, Some e) else None)"

lemma take_digits_length: "length (snd (take_digits radix mx ds s)) \<le> length s"
  by (induction radix mx ds s rule: take_digits.induct) auto

lemma escape_digits_length: "escape_digits it radix mx seed = (r, it') \<Longrightarrow> length it' \<le> length it"
  using take_digits_length [of radix mx "case seed of None \<Rightarrow> [] | Some c \<Rightarrow> [c]" it]
  by (auto simp: escape_digits_def Let_def split: prod.splits option.splits if_splits)

function unescape :: "str \<Rightarrow> (unreadable, str) result" where
  "unescape [] = Inr []"
| "unescape (c # it) =
     (if c \<noteq> 92 then res_bind (unescape it) (\<lambda>out. Inr (c # out))
      else case it of
        [] \<Rightarrow> Inl EndsInEscape
      | e # it1 \<Rightarrow>
          (case plain_escape e of
             Some p \<Rightarrow> res_bind (unescape it1) (\<lambda>out. Inr (p # out))
           | None \<Rightarrow>
               (case numeric_escape e of
                  Some (radix, mx, seed) \<Rightarrow>
                    (case escape_digits it1 radix mx seed of
                       (Inr ch, it2) \<Rightarrow> res_bind (unescape it2) (\<lambda>out. Inr (ch # out))
                     | (Inl why, _) \<Rightarrow> Inl why)
                | None \<Rightarrow> Inl UnknownEscape)))"
  by pat_completeness auto
termination
  by (relation "measure length") (auto dest!: escape_digits_length [OF sym])

declare unescape.simps(2) [simp del]

section \<open>Where quoted text ends\<close>

function end_of_unescaped :: "bytes \<Rightarrow> u8 \<Rightarrow> nat option" where
  "end_of_unescaped [] e = None"
| "end_of_unescaped (b # bs) e =
     (if b = 92 then map_option (\<lambda>i. i + 2) (end_of_unescaped (drop 1 bs) e)
      else if b = e then Some 0
      else map_option Suc (end_of_unescaped bs e))"
  by pat_completeness auto
termination by (relation "measure (length \<circ> fst)") auto

definition split_quoted :: "bytes \<Rightarrow> (bytes \<times> bytes) option" where
  "split_quoted b = map_option (\<lambda>i. (take i b, drop (i + 1) b)) (end_of_unescaped b 34)"

text \<open>
  The split of a header at its bracket works on the bytes of the text and cuts the text there; both halves
  are text again, as the bracket is no part of a longer character.
\<close>

definition split_bracket :: "str \<Rightarrow> (str \<times> str) option" where
  "split_bracket body =
     (case end_of_unescaped (utf8_enc body) 93 of
        None \<Rightarrow> None
      | Some i \<Rightarrow>
          (case (utf8_dec (take i (utf8_enc body)), utf8_dec (drop (i + 1) (utf8_enc body))) of
             (Some a, Some t) \<Rightarrow> Some (a, t)
           | _ \<Rightarrow> None))"

section \<open>Keys, values, lines\<close>

definition strip_backslash :: "str \<Rightarrow> str" where
  "strip_backslash k = (if k \<noteq> [] \<and> last k = 92 then butlast k else k)"

definition key_names_match :: "str \<Rightarrow> str \<Rightarrow> bool" where
  "key_names_match header_key key_path =
     eq_ignore_ascii_case (strip_backslash header_key) (strip_backslash key_path)"

definition header_names :: "str \<Rightarrow> str \<Rightarrow> bool" where
  "header_names line key_path =
     (case line of
        c # body \<Rightarrow>
          if c \<noteq> 91 then False
          else (case split_bracket body of
              None \<Rightarrow> False
            | Some (name, _) \<Rightarrow>
                (case unescape name of Inl _ \<Rightarrow> False | Inr k \<Rightarrow> key_names_match k key_path))
      | [] \<Rightarrow> False)"

definition reg_type_name :: "nat \<Rightarrow> str" where
  "reg_type_name ty =
     (if ty = 1 then lit ''REG_SZ''
      else if ty = 2 then lit ''REG_EXPAND_SZ''
      else if ty = 3 then lit ''REG_BINARY''
      else if ty = 4 then lit ''REG_DWORD''
      else if ty = 5 then lit ''REG_DWORD_BIG_ENDIAN''
      else if ty = 6 then lit ''REG_LINK''
      else if ty = 7 then lit ''REG_MULTI_SZ''
      else if ty = 8 then lit ''REG_RESOURCE_LIST''
      else if ty = 11 then lit ''REG_QWORD''
      else lit ''registry type '' @ decimal ty)"

definition read_string :: "str \<Rightarrow> reg_answer" where
  "read_string body =
     (case split_quoted (utf8_enc body) of
        None \<Rightarrow> Rejected NeverEnds
      | Some (raw, after) \<Rightarrow>
          if \<not> list_all (\<lambda>b. ascii_space (unat b)) after then Rejected Followed
          else (case utf8_dec raw of
              None \<Rightarrow> Rejected TextNotText
            | Some t \<Rightarrow>
                (case unescape t of
                   Inl why \<Rightarrow> Rejected (TextUnreadable why)
                 | Inr v \<Rightarrow>
                     if v = [] then Rejected EmptyPath
                     else if 10 \<in> set v \<or> 13 \<in> set v then Rejected LineBreak
                     else if list_ex is_control v then Rejected ControlCharacter
                     else Found v)))"

text \<open>\<^verbatim>\<open>split_once\<close> at the first occurrence of a text.\<close>

fun split_at_text :: "str \<Rightarrow> str \<Rightarrow> (str \<times> str) option" where
  "split_at_text pat [] = (if pat = [] then Some ([], []) else None)"
| "split_at_text pat (c # s) =
     (case strip_prefix pat (c # s) of
        Some t \<Rightarrow> Some ([], t)
      | None \<Rightarrow> map_option (\<lambda>(a, t). (c # a, t)) (split_at_text pat s))"

definition read_typed :: "str \<Rightarrow> reg_answer" where
  "read_typed body =
     (case split_at_text (lit ''):'') body of
        None \<Rightarrow> Rejected LineUnreadable
      | Some (num, after) \<Rightarrow>
          (case u32_from_radix 16 num of
             None \<Rightarrow> Rejected LineUnreadable
           | Some ty \<Rightarrow>
               (case (ty = 1, strip_prefix [34] after) of
                  (True, Some t) \<Rightarrow> read_string t
                | _ \<Rightarrow> Rejected (StoredAs (reg_type_name ty)))))"

definition read_hex :: "str \<Rightarrow> reg_answer" where
  "read_hex body =
     (case map_option (\<lambda>(n, _). u32_from_radix 16 n) (split_at_text (lit ''):'') body) of
        Some (Some ty) \<Rightarrow> Rejected (StoredAs (reg_type_name ty))
      | _ \<Rightarrow> Rejected LineUnreadable)"

definition read_assignment :: "str \<Rightarrow> reg_answer" where
  "read_assignment s =
     (case strip_prefix [61] (dropWhile ascii_space s) of
        None \<Rightarrow> Rejected LineUnreadable
      | Some t \<Rightarrow>
          (let t = dropWhile ascii_space t in
           case strip_prefix [34] t of
             Some body \<Rightarrow> read_string body
           | None \<Rightarrow>
               (case strip_prefix (lit ''str('') t of
                  Some body \<Rightarrow> read_typed body
                | None \<Rightarrow>
                    if starts_with (lit ''dword:'') t then Rejected (StoredAs (reg_type_name 4))
                    else if starts_with (lit ''hex:'') t then Rejected (StoredAs (reg_type_name 3))
                    else (case strip_prefix (lit ''hex('') t of
                        Some body \<Rightarrow> read_hex body
                      | None \<Rightarrow> Rejected UnknownForm))))"

text \<open>A line without its carriage return, and without the space in front.\<close>

definition strip_cr :: "bytes \<Rightarrow> bytes" where
  "strip_cr l = (if l \<noteq> [] \<and> last l = 13 then butlast l else l)"

definition left_margin :: "bytes \<Rightarrow> bytes" where
  "left_margin raw = dropWhile (\<lambda>b. ascii_space (unat b)) (strip_cr raw)"

definition FILE_HEADER :: str where "FILE_HEADER = lit ''WINE REGISTRY Version 2''"

text \<open>The loop of \<^verbatim>\<open>lookup\<close>: whether the section is ours, and what the last assignment held.\<close>

fun reg_scan :: "str \<Rightarrow> str \<Rightarrow> bool \<Rightarrow> reg_answer option \<Rightarrow> bytes list \<Rightarrow> reg_answer" where
  "reg_scan key_path value_name ours found [] = (case found of None \<Rightarrow> Absent | Some r \<Rightarrow> r)"
| "reg_scan key_path value_name ours found (raw # raws) =
     (let line = left_margin raw in
      case line of
        [] \<Rightarrow> reg_scan key_path value_name ours found raws
      | b # after_quote \<Rightarrow>
          if b = 91 then
            reg_scan key_path value_name (case utf8_dec line of None \<Rightarrow> False | Some l \<Rightarrow> header_names l key_path) found raws
          else if \<not> ours \<or> b \<noteq> 34 then reg_scan key_path value_name ours found raws
          else (case split_quoted after_quote of
              None \<Rightarrow> reg_scan key_path value_name ours found raws
            | Some (name, t) \<Rightarrow>
                (case utf8_dec name of
                   None \<Rightarrow> Rejected NameNotText
                 | Some name_text \<Rightarrow>
                     (case unescape name_text of
                        Inl why \<Rightarrow> Rejected (NameUnreadable why)
                      | Inr n \<Rightarrow>
                          if \<not> eq_ignore_ascii_case n value_name then reg_scan key_path value_name ours found raws
                          else (case utf8_dec t of
                              None \<Rightarrow> Rejected LineNotText
                            | Some u \<Rightarrow> reg_scan key_path value_name ours (Some (read_assignment u)) raws)))))"

definition reg_lookup :: "bytes \<Rightarrow> str \<Rightarrow> str \<Rightarrow> reg_answer" where
  "reg_lookup text key_path value_name =
     (if strip_cr (hd (split_on (\<lambda>b. b = 10) text)) \<noteq> utf8_enc FILE_HEADER then Rejected BadHeaderLine
      else reg_scan key_path value_name False None (split_on (\<lambda>b. b = 10) text))"

section \<open>Escapes as they are written\<close>

text \<open>
  The items of escaped text: a character as it is, a letter escape, a character by its code in one to
  four hexadecimal or one to three octal digits. A code with fewer digits than the escape can hold must
  not be followed by a further digit; that is what padding is for.
\<close>

datatype esc = Chr nat | Letter nat | Hex str | Octal str

fun esc_text :: "esc \<Rightarrow> str" where
  "esc_text (Chr c) = [c]"
| "esc_text (Letter e) = [92, e]"
| "esc_text (Hex ds) = 92 # 120 # ds"
| "esc_text (Octal ds) = 92 # ds"

text \<open>What the letters stand for, and the numbers the digits of a radix write.\<close>

definition escape_letters :: "(nat \<times> nat) list" where
  "escape_letters =
     [(92, 92), (34, 34), (91, 91), (93, 93), (97, 7), (98, 8), (116, 9), (110, 10), (118, 11), (102, 12), (114, 13),
      (101, 27)]"

definition digit_number :: "nat \<Rightarrow> nat" where
  "digit_number c = (if c \<le> 57 then c - 48 else if c \<le> 70 then c - 55 else c - 87)"

definition digit_in :: "nat \<Rightarrow> nat \<Rightarrow> bool" where
  "digit_in radix c \<longleftrightarrow>
     ((48 \<le> c \<and> c \<le> 57) \<or> (65 \<le> c \<and> c \<le> 70) \<or> (97 \<le> c \<and> c \<le> 102)) \<and> digit_number c < radix"

definition number_in :: "nat \<Rightarrow> str \<Rightarrow> nat" where
  "number_in radix ds = foldl (\<lambda>n c. n * radix + digit_number c) 0 ds"

fun esc_value :: "esc \<Rightarrow> nat" where
  "esc_value (Chr c) = c"
| "esc_value (Letter e) = the (map_of escape_letters e)"
| "esc_value (Hex ds) = number_in 16 ds"
| "esc_value (Octal ds) = number_in 8 ds"

definition escaped :: "esc list \<Rightarrow> str" where "escaped xs = concat (map esc_text xs)"
definition meaning :: "esc list \<Rightarrow> str" where "meaning xs = map esc_value xs"

definition code_ok :: "nat \<Rightarrow> nat \<Rightarrow> str \<Rightarrow> str \<Rightarrow> bool" where
  "code_ok radix mx ds follow \<longleftrightarrow>
     ds \<noteq> [] \<and> length ds \<le> mx \<and> list_all (digit_in radix) ds \<and> is_scalar (number_in radix ds) \<and>
     (length ds = mx \<or> follow = [] \<or> \<not> digit_in radix (hd follow))"

fun esc_ok :: "esc \<Rightarrow> str \<Rightarrow> bool" where
  "esc_ok (Chr c) follow \<longleftrightarrow> c \<noteq> 92 \<and> c \<noteq> 10 \<and> is_scalar c"
| "esc_ok (Letter e) follow \<longleftrightarrow> map_of escape_letters e \<noteq> None"
| "esc_ok (Hex ds) follow \<longleftrightarrow> code_ok 16 4 ds follow"
| "esc_ok (Octal ds) follow \<longleftrightarrow> code_ok 8 3 ds follow"

fun escs_ok :: "esc list \<Rightarrow> bool" where
  "escs_ok [] = True"
| "escs_ok (x # xs) \<longleftrightarrow> esc_ok x (escaped xs) \<and> escs_ok xs"

lemma escaped_simps [simp]: "escaped [] = []" "escaped (x # xs) = esc_text x @ escaped xs"
  by (simp_all add: escaped_def)

lemma meaning_simps [simp]: "meaning [] = []" "meaning (x # xs) = esc_value x # meaning xs"
  by (simp_all add: meaning_def)

lemma escape_letters_eq: "map_of escape_letters = plain_escape"
  by (rule ext) (simp add: escape_letters_def plain_escape_def)

lemma radix_digit_eq: "radix_digit radix c = (if digit_in radix c then Some (digit_number c) else None)"
  by (auto simp: radix_digit_def hex_digit_def is_digit_def digit_in_def digit_number_def)

lemma digit_in_iff: "digit_in radix = (\<lambda>c. radix_digit radix c \<noteq> None)"
  by (rule ext) (simp add: radix_digit_eq)

lemma radix_value_foldl:
  "list_all (digit_in radix) ds \<Longrightarrow> radix_value radix n ds = Some (foldl (\<lambda>n c. n * radix + digit_number c) n ds)"
  by (induction ds arbitrary: n) (simp_all add: radix_digit_eq)

lemma radix_value_number: "list_all (digit_in radix) ds \<Longrightarrow> radix_value radix 0 ds = Some (number_in radix ds)"
  by (simp add: radix_value_foldl number_in_def)

lemma code_ok_iff:
  "code_ok radix mx ds follow \<longleftrightarrow>
     ds \<noteq> [] \<and> length ds \<le> mx \<and> list_all (\<lambda>c. radix_digit radix c \<noteq> None) ds \<and>
     number_in radix ds = the (radix_value radix 0 ds) \<and> is_scalar (the (radix_value radix 0 ds)) \<and>
     (length ds = mx \<or> follow = [] \<or> radix_digit radix (hd follow) = None)"
  using radix_value_number [of radix ds] by (auto simp: code_ok_def digit_in_iff)

lemma take_digits_stop: "length ds = mx \<or> s = [] \<or> radix_digit radix (hd s) = None \<Longrightarrow> take_digits radix mx ds s = (ds, s)"
  by (cases s) auto

lemma take_digits_run:
  "list_all (\<lambda>c. radix_digit radix c \<noteq> None) ds \<Longrightarrow> length acc + length ds \<le> mx \<Longrightarrow>
     take_digits radix mx acc (ds @ s) = take_digits radix mx (acc @ ds) s"
  by (induction ds arbitrary: acc) auto

lemma radix_value_bound:
  "radix_value radix v ds = Some w \<Longrightarrow> v < radix ^ k \<Longrightarrow> 1 < radix \<Longrightarrow> w < radix ^ (k + length ds)"
proof (induction ds arbitrary: v k)
  case (Cons c ds)
  then obtain d where d: "radix_digit radix c = Some d" "radix_value radix (v * radix + d) ds = Some w"
    by (auto split: option.splits)
  have "d < radix" using d(1) by (auto simp: radix_digit_def split: option.splits if_splits)
  then have "v * radix + d < Suc v * radix" by simp
  also have "\<dots> \<le> radix ^ Suc k"
    using mult_le_mono1 [OF Suc_leI [OF Cons.prems(2)], of radix] by (simp add: mult.commute)
  finally show ?case using Cons.IH [OF d(2), of "Suc k"] Cons.prems(3) by simp
qed simp

lemma radix_value_all: "list_all (\<lambda>c. radix_digit radix c \<noteq> None) ds \<Longrightarrow> \<exists>w. radix_value radix v ds = Some w"
  by (induction ds arbitrary: v) auto

lemma radix_digit_not_plus: "radix_digit radix c \<noteq> None \<Longrightarrow> c \<noteq> 43 \<and> c \<noteq> 92 \<and> c \<noteq> 34 \<and> c \<noteq> 93 \<and> c < 128 \<and> c \<noteq> 10"
  by (auto simp: radix_digit_def hex_digit_def is_digit_def split: option.splits if_splits)

lemma u32_from_digits:
  assumes "list_all (\<lambda>c. radix_digit radix c \<noteq> None) ds" and "ds \<noteq> []" and "1 < radix" and "radix ^ length ds \<le> 2 ^ 32"
  shows "u32_from_radix radix ds = Some (the (radix_value radix 0 ds))"
proof -
  obtain w where w: "radix_value radix 0 ds = Some w" using radix_value_all assms(1) by blast
  have "w < radix ^ (0 + length ds)" using radix_value_bound [OF w, of 0] assms(3) by simp
  then have b: "w < 4294967296" using assms(4) by simp
  obtain c t where ds: "ds = c # t" using assms(2) by (cases ds) auto
  have "c \<noteq> 43" using assms(1) radix_digit_not_plus [of radix c] ds by simp
  then show ?thesis using w b ds by (simp add: u32_from_radix_def Let_def)
qed

lemma escape_code:
  assumes "code_ok radix mx ds follow" and "1 < radix" and "radix ^ mx \<le> 2 ^ 32"
  shows "escape_digits (ds @ follow) radix mx None = (Inr (the (radix_value radix 0 ds)), follow)"
    and "ds = c # t \<Longrightarrow> escape_digits (t @ follow) radix mx (Some c) = (Inr (the (radix_value radix 0 ds)), follow)"
proof -
  have a: "ds \<noteq> []" "length ds \<le> mx" "list_all (\<lambda>c. radix_digit radix c \<noteq> None) ds"
    "is_scalar (the (radix_value radix 0 ds))" "length ds = mx \<or> follow = [] \<or> radix_digit radix (hd follow) = None"
    using assms(1) by (simp_all add: code_ok_iff)
  have "radix ^ length ds \<le> radix ^ mx" using a(2) assms(2) by (intro power_increasing) simp_all
  then have u: "u32_from_radix radix ds = Some (the (radix_value radix 0 ds))"
    using a(1,3) assms(2,3) by (intro u32_from_digits) linarith+
  have "take_digits radix mx [] (ds @ follow) = (ds, follow)"
    using take_digits_run [of radix ds "[]" mx follow] take_digits_stop [of ds mx follow radix] a by simp
  then show "escape_digits (ds @ follow) radix mx None = (Inr (the (radix_value radix 0 ds)), follow)"
    using a(1,4) u by (simp add: escape_digits_def)
  assume t: "ds = c # t"
  then have "take_digits radix mx [c] (t @ follow) = (ds, follow)"
    using take_digits_run [of radix t "[c]" mx follow] take_digits_stop [of ds mx follow radix] a by simp
  then show "escape_digits (t @ follow) radix mx (Some c) = (Inr (the (radix_value radix 0 ds)), follow)"
    using a(1,4) u by (simp add: escape_digits_def)
qed

lemma octal_first: "radix_digit 8 c \<noteq> None \<Longrightarrow> plain_escape c = None \<and> numeric_escape c = Some (8, 3, Some c)"
  by (auto simp: radix_digit_def hex_digit_def is_digit_def plain_escape_def numeric_escape_def split: option.splits if_splits)

lemma unescape_item:
  assumes "esc_ok x (s)"
  shows "unescape (esc_text x @ s) = res_bind (unescape s) (\<lambda>out. Inr (esc_value x # out))"
proof (cases x)
  case (Hex ds)
  with assms have "escape_digits (ds @ s) 16 4 None = (Inr (esc_value x), s)"
    using escape_code(1) [of 16 4 ds s] by (simp add: code_ok_iff)
  then show ?thesis using Hex by (simp add: unescape.simps(2) plain_escape_def numeric_escape_def)
next
  case (Octal ds)
  with assms obtain c t where ds: "ds = c # t" "radix_digit 8 c \<noteq> None"
    by (cases ds) (auto simp: code_ok_iff)
  then have "escape_digits (t @ s) 8 3 (Some c) = (Inr (esc_value x), s)"
    using escape_code(2) [of 8 3 ds s c t] assms Octal by (simp add: code_ok_iff)
  then show ?thesis using Octal ds octal_first [of c] by (simp add: unescape.simps(2))
qed (use assms in \<open>auto simp: unescape.simps(2) escape_letters_eq\<close>)

lemma unescape_escaped: "escs_ok xs \<Longrightarrow> unescape (escaped xs) = Inr (meaning xs)"
  by (induction xs) (simp_all add: unescape_item)

section \<open>Where escaped text ends\<close>

lemma end_plain:
  "list_all (\<lambda>b. b \<noteq> 92 \<and> b \<noteq> e) p \<Longrightarrow>
     end_of_unescaped (p @ t) e = map_option (\<lambda>i. length p + i) (end_of_unescaped t e)"
  by (induction p) (cases "end_of_unescaped t e"; simp)+

lemma enc1_bytes: "is_scalar c \<Longrightarrow> c \<noteq> 92 \<Longrightarrow> c \<noteq> unat e \<Longrightarrow> unat e < 128 \<Longrightarrow>
    list_all (\<lambda>b. b \<noteq> 92 \<and> b \<noteq> e) (utf8_enc1 c)"
proof -
  assume a: "is_scalar c" "c \<noteq> 92" "c \<noteq> unat e" "unat e < 128"
  have "unat b \<noteq> unat (92 :: u8) \<and> unat b \<noteq> unat e" if "b \<in> set (utf8_enc1 c)" for b
    using that a by (auto simp: utf8_enc1_def is_scalar_def split: if_splits)
  then show ?thesis unfolding list_all_iff by blast
qed

lemma enc_digits:
  "list_all (\<lambda>c. radix_digit radix c \<noteq> None) ds \<Longrightarrow> e \<in> {34, 93} \<Longrightarrow> list_all (\<lambda>b. b \<noteq> 92 \<and> b \<noteq> e) (utf8_enc ds)"
proof (induction ds)
  case (Cons c ds)
  then have "c \<noteq> 92 \<and> c \<noteq> 34 \<and> c \<noteq> 93 \<and> c < 128" using radix_digit_not_plus [of radix c] by simp
  then have "list_all (\<lambda>b. b \<noteq> 92 \<and> b \<noteq> e) (utf8_enc1 c)"
    using Cons.prems(2) by (intro enc1_bytes) (auto simp: is_scalar_def)
  then show ?case using Cons by simp
qed simp

lemma end_escape:
  assumes "c < 128"
  shows "end_of_unescaped (utf8_enc (92 # c # s) @ t) e = map_option (\<lambda>i. 2 + i) (end_of_unescaped (utf8_enc s @ t) e)"
  using assms by (simp add: utf8_enc1_def byte_def add.commute)

lemma end_item:
  assumes "esc_ok x follow" and "e \<in> {34, 93}" and "x \<noteq> Chr (unat e)"
  shows "end_of_unescaped (utf8_enc (esc_text x) @ t) e =
    map_option (\<lambda>i. length (utf8_enc (esc_text x)) + i) (end_of_unescaped t e)"
proof (cases x)
  case (Chr c)
  then have "list_all (\<lambda>b. b \<noteq> 92 \<and> b \<noteq> e) (utf8_enc1 c)"
    using assms by (intro enc1_bytes) auto
  then show ?thesis using Chr end_plain by simp
next
  case (Letter c)
  then have "c < 128" using assms(1) by (auto simp: escape_letters_eq plain_escape_def split: if_splits)
  then show ?thesis using Letter end_escape [of c "[]" t e] by (simp add: utf8_enc1_def)
next
  case (Hex ds)
  then have d: "list_all (\<lambda>b. b \<noteq> 92 \<and> b \<noteq> e) (utf8_enc ds)"
    using assms enc_digits [of 16 ds e] by (simp add: code_ok_iff)
  have l: "length (utf8_enc (92 # 120 # ds)) = 2 + length (utf8_enc ds)" by (simp add: utf8_enc1_def)
  show ?thesis using Hex end_escape [of 120 ds t e] end_plain [OF d, of t] unfolding Hex esc_text.simps l
    by (cases "end_of_unescaped t e") simp_all
next
  case (Octal ds)
  then obtain c u where ds: "ds = c # u" and c: "list_all (\<lambda>c. radix_digit 8 c \<noteq> None) ds"
    using assms(1) by (cases ds) (auto simp: code_ok_iff)
  then have d: "list_all (\<lambda>b. b \<noteq> 92 \<and> b \<noteq> e) (utf8_enc u)" using assms(2) enc_digits [of 8 u e] by simp
  have 128: "c < 128" using c ds radix_digit_not_plus [of 8 c] by simp
  then have l: "length (utf8_enc (92 # c # u)) = 2 + length (utf8_enc u)" by (simp add: utf8_enc1_def)
  show ?thesis using end_escape [OF 128, of u t e] end_plain [OF d, of t] unfolding Octal ds esc_text.simps l
    by (cases "end_of_unescaped t e") simp_all
qed

definition ends_free :: "u8 \<Rightarrow> esc list \<Rightarrow> bool" where "ends_free e xs \<longleftrightarrow> Chr (unat e) \<notin> set xs"

lemma end_escaped:
  assumes "escs_ok xs" and "e \<in> {34, 93}" and "ends_free e xs"
  shows "end_of_unescaped (utf8_enc (escaped xs) @ t) e =
    map_option (\<lambda>i. length (utf8_enc (escaped xs)) + i) (end_of_unescaped t e)"
  using assms(1,3)
proof (induction xs)
  case Nil
  then show ?case by (simp add: option.map_ident)
next
  case (Cons x xs)
  then have "end_of_unescaped (utf8_enc (escaped xs) @ t) e =
    map_option (\<lambda>i. length (utf8_enc (escaped xs)) + i) (end_of_unescaped t e)"
    by (simp add: ends_free_def)
  moreover have "end_of_unescaped (utf8_enc (esc_text x) @ utf8_enc (escaped xs) @ t) e =
    map_option (\<lambda>i. length (utf8_enc (esc_text x)) + i) (end_of_unescaped (utf8_enc (escaped xs) @ t) e)"
    using Cons.prems assms(2) by (intro end_item) (auto simp: ends_free_def)
  ultimately show ?case by (simp add: option.map_comp o_def add.assoc)
qed

lemma digits_wf: "list_all (\<lambda>c. radix_digit radix c \<noteq> None) ds \<Longrightarrow> wf_str ds \<and> 10 \<notin> set ds"
proof (induction ds)
  case (Cons c ds)
  then have "c < 128" "c \<noteq> 10" using radix_digit_not_plus [of radix c] by auto
  then show ?case using Cons by (simp add: wf_str_def is_scalar_def)
qed (simp add: wf_str_def)

lemma esc_text_wf: "esc_ok x follow \<Longrightarrow> wf_str (esc_text x) \<and> 10 \<notin> set (esc_text x)"
proof (cases x)
  case (Letter e)
  assume "esc_ok x follow"
  then show ?thesis using Letter by (auto simp: escape_letters_eq plain_escape_def wf_str_def is_scalar_def split: if_splits)
next
  case (Hex ds)
  assume "esc_ok x follow"
  then show ?thesis using Hex digits_wf [of 16 ds] by (simp add: code_ok_iff wf_str_def is_scalar_def)
next
  case (Octal ds)
  assume "esc_ok x follow"
  then show ?thesis using Octal digits_wf [of 8 ds] by (simp add: code_ok_iff wf_str_def is_scalar_def)
qed (simp add: wf_str_def)

lemma escaped_wf: "escs_ok xs \<Longrightarrow> wf_str (escaped xs) \<and> 10 \<notin> set (escaped xs)"
proof (induction xs)
  case (Cons x xs)
  then show ?case using esc_text_wf [of x "escaped xs"] by (simp add: wf_str_def)
qed (simp add: wf_str_def)

text \<open>Quoted text behind its opening quote, and a header behind its opening bracket.\<close>

lemma split_quoted_escaped:
  assumes "escs_ok xs" and "ends_free 34 xs"
  shows "split_quoted (utf8_enc (escaped xs) @ 34 # t) = Some (utf8_enc (escaped xs), t)"
  using end_escaped [of xs 34 "34 # t"] assms by (simp add: split_quoted_def)

lemma split_bracket_escaped:
  assumes "escs_ok xs" and "ends_free 93 xs" and "wf_str t"
  shows "split_bracket (escaped xs @ 93 # t) = Some (escaped xs, t)"
proof -
  have "utf8_enc1 93 = [93]" by (simp add: utf8_enc1_def byte_def)
  then show ?thesis
    using end_escaped [of xs 93 "93 # utf8_enc t"] assms escaped_wf [OF assms(1)] utf8_dec_enc
    by (simp add: split_bracket_def)
qed

section \<open>Every readable text is written so\<close>

lemma take_digits_split:
  "take_digits radix mx ds s = (ds', s') \<Longrightarrow> list_all (digit_in radix) ds \<Longrightarrow> length ds \<le> mx \<Longrightarrow>
     ds' @ s' = ds @ s \<and> list_all (digit_in radix) ds' \<and> length ds' \<le> mx \<and>
     (length ds' = mx \<or> s' = [] \<or> \<not> digit_in radix (hd s'))"
  by (induction radix mx ds s rule: take_digits.induct) (auto simp: digit_in_iff split: if_splits)

lemma escape_digits_split:
  assumes "escape_digits it radix mx seed = (Inr u, it')" and "list_all (digit_in radix) (case seed of None \<Rightarrow> [] | Some c \<Rightarrow> [c])"
    and "0 < mx" and "1 < radix" and "radix ^ mx \<le> 2 ^ 32"
  shows "\<exists>ds. code_ok radix mx ds it' \<and> u = number_in radix ds \<and> ds @ it' = (case seed of None \<Rightarrow> [] | Some c \<Rightarrow> [c]) @ it"
proof -
  let ?seed = "case seed of None \<Rightarrow> [] | Some c \<Rightarrow> [c]"
  obtain ds it2 where t: "take_digits radix mx ?seed it = (ds, it2)" by (cases "take_digits radix mx ?seed it")
  have "length ?seed \<le> mx" using assms(3) by (cases seed) simp_all
  note d = take_digits_split [OF t assms(2) this]
  have ne: "ds \<noteq> []" "it' = it2" using assms(1) t by (auto simp: escape_digits_def split: if_splits option.splits)
  have "radix ^ length ds \<le> radix ^ mx" using d assms(4) by (intro power_increasing) simp_all
  then have "radix ^ length ds \<le> 2 ^ 32" using assms(5) by linarith
  then have u: "u32_from_radix radix ds = Some (number_in radix ds)"
    using u32_from_digits [of radix ds] d ne assms(4) radix_value_number [of radix ds] by (simp add: digit_in_iff)
  then have "u = number_in radix ds \<and> is_scalar (number_in radix ds)"
    using assms(1) t ne by (simp add: escape_digits_def split: if_splits)
  then show ?thesis using d ne by (intro exI [of _ ds]) (simp add: code_ok_def)
qed

lemma unescape_written:
  "unescape t = Inr v \<Longrightarrow> wf_str t \<Longrightarrow> 10 \<notin> set t \<Longrightarrow> \<exists>xs. escs_ok xs \<and> escaped xs = t \<and> meaning xs = v"
proof (induction t arbitrary: v rule: measure_induct_rule [of length])
  case (less s)
  have more: "\<exists>xs. escs_ok xs \<and> escaped xs = s \<and> meaning xs = v"
    if x: "esc_ok x t" "esc_text x @ t = s" "v = esc_value x # out" and "unescape t = Inr out"
    for x t out
  proof -
    have "esc_text x \<noteq> []" by (cases x) simp_all
    then have "length t < length s" unfolding x(2) [symmetric] by simp
    moreover have "set t \<subseteq> set s" using x(2) by auto
    then have "wf_str t" "10 \<notin> set t" using less.prems(2,3) wf_str_subset by blast+
    ultimately obtain xs where "escs_ok xs" "escaped xs = t" "meaning xs = out"
      using less.IH [of t out] \<open>unescape t = Inr out\<close> by blast
    then show ?thesis using x by (intro exI [of _ "x # xs"]) simp
  qed
  show ?case
  proof (cases s)
    case Nil
    then show ?thesis using less.prems(1) by (intro exI [of _ "[]"]) simp
  next
    case (Cons c it)
    have wf: "is_scalar c" "c \<noteq> 10" using less.prems Cons by (auto simp: wf_str_def)
    show ?thesis
    proof (cases "c = 92")
      case False
      then obtain out where "unescape it = Inr out" "v = c # out"
        using less.prems(1) Cons by (auto simp: unescape.simps(2) res_bind_def split: sum.splits)
      then show ?thesis using False wf Cons by (intro more [of "Chr c" it out]) simp_all
    next
      case True
      then obtain e it1 where it: "it = e # it1"
        using less.prems(1) Cons by (cases it) (auto simp: unescape.simps(2))
      show ?thesis
      proof (cases "plain_escape e")
        case (Some p)
        then obtain out where "unescape it1 = Inr out" "v = p # out"
          using less.prems(1) True Cons it by (auto simp: unescape.simps(2) res_bind_def split: sum.splits)
        then show ?thesis using True Some Cons it
          by (intro more [of "Letter e" it1 out]) (simp_all add: escape_letters_eq)
      next
        case None
        then obtain radix mx seed where n: "numeric_escape e = Some (radix, mx, seed)"
          using less.prems(1) True Cons it by (auto simp: unescape.simps(2) split: option.splits)
        obtain u it2 out where u: "escape_digits it1 radix mx seed = (Inr u, it2)" "unescape it2 = Inr out" "v = u # out"
          using less.prems(1) True Cons it None n
          by (auto simp: unescape.simps(2) res_bind_def split: sum.splits prod.splits)
        have r: "radix = 16 \<and> mx = 4 \<and> seed = None \<and> e = 120 \<or> radix = 8 \<and> mx = 3 \<and> seed = Some e \<and> 48 \<le> e \<and> e \<le> 55"
          using n by (auto simp: numeric_escape_def split: if_splits)
        then have "\<exists>ds. code_ok radix mx ds it2 \<and> u = number_in radix ds \<and> ds @ it2 = (case seed of None \<Rightarrow> [] | Some c \<Rightarrow> [c]) @ it1"
          by (intro escape_digits_split [OF u(1)]) (auto simp: digit_in_def digit_number_def)
        then obtain ds where ds: "code_ok radix mx ds it2" "u = number_in radix ds"
          "ds @ it2 = (case seed of None \<Rightarrow> [] | Some c \<Rightarrow> [c]) @ it1"
          by blast
        show ?thesis
        proof (cases "radix = 16")
          case 16: True
          then show ?thesis using r ds u True Cons it by (intro more [of "Hex ds" it2 out]) simp_all
        next
          case False
          then show ?thesis using r ds u True Cons it by (intro more [of "Octal ds" it2 out]) simp_all
        qed
      qed
    qed
  qed
qed

end
