(* ===== verification/UserRegFile.thy ===== *)
theory UserRegFile
  imports UserReg
begin

text \<open>
  What the registry reader of theory UserReg gives for whole files: a file written from sections and values,
  in any of wine's spellings, is read as its last assignment, and for any bytes whatever Absent is
  answered only where no assignment can be.
\<close>

section \<open>Registry files as they are written\<close>

text \<open>
  What follows the equals sign: a string with blanks after it, plain or with its type as a hexadecimal number
  in front, or a value of another kind, with or without such a number. Number 1 is the type of plain
  strings, however many zeros it is written with. A line is a header, a value, or anything that opens with neither a bracket nor a quote; it may be
  indented and may end in a carriage return.
\<close>

datatype written = Quoted "esc list" str | TypedString str "esc list" str | Dword str | Binary str | TypedBytes str str

fun written_text :: "written \<Rightarrow> str" where
  "written_text (Quoted xs t) = 34 # escaped xs @ 34 # t"
| "written_text (TypedString ds xs t) = lit ''str('' @ ds @ lit ''):'' @ 34 # escaped xs @ 34 # t"
| "written_text (Dword t) = lit ''dword:'' @ t"
| "written_text (Binary t) = lit ''hex:'' @ t"
| "written_text (TypedBytes ds t) = lit ''hex('' @ ds @ lit ''):'' @ t"

definition line_text_ok :: "str \<Rightarrow> bool" where
  "line_text_ok t \<longleftrightarrow> wf_str t \<and> 10 \<notin> set t \<and> 13 \<notin> set t"

definition blank :: "str \<Rightarrow> bool" where
  "blank t \<longleftrightarrow> list_all (\<lambda>c. ascii_space c \<and> c \<noteq> 10 \<and> c \<noteq> 13) t"

definition string_ok :: "esc list \<Rightarrow> bool" where
  "string_ok xs \<longleftrightarrow> escs_ok xs \<and> ends_free 34 xs \<and> Chr 13 \<notin> set xs"

definition type_ok :: "str \<Rightarrow> bool" where
  "type_ok ds \<longleftrightarrow> ds \<noteq> [] \<and> list_all (digit_in 16) ds \<and> number_in 16 ds < 2 ^ 32"

fun written_ok :: "written \<Rightarrow> bool" where
  "written_ok (Quoted xs t) \<longleftrightarrow> string_ok xs \<and> blank t"
| "written_ok (TypedString ds xs t) \<longleftrightarrow> type_ok ds \<and> string_ok xs \<and> blank t"
| "written_ok (Dword t) \<longleftrightarrow> line_text_ok t"
| "written_ok (Binary t) \<longleftrightarrow> line_text_ok t"
| "written_ok (TypedBytes ds t) \<longleftrightarrow> type_ok ds \<and> line_text_ok t"

definition judged :: "str \<Rightarrow> reg_answer" where
  "judged v =
     (if v = [] then Rejected EmptyPath
      else if 10 \<in> set v \<or> 13 \<in> set v then Rejected LineBreak
      else if list_ex is_control v then Rejected ControlCharacter
      else Found v)"

text \<open>The names Windows gives the types.\<close>

definition windows_type :: "nat \<Rightarrow> str" where
  "windows_type ty =
     (case map_of
        [(1, lit ''REG_SZ''), (2, lit ''REG_EXPAND_SZ''), (3, lit ''REG_BINARY''), (4, lit ''REG_DWORD''),
         (5, lit ''REG_DWORD_BIG_ENDIAN''), (6, lit ''REG_LINK''), (7, lit ''REG_MULTI_SZ''),
         (8, lit ''REG_RESOURCE_LIST''), (11, lit ''REG_QWORD'')] ty of
        Some n \<Rightarrow> n
      | None \<Rightarrow> lit ''registry type '' @ decimal ty)"

lemma reg_type_name_eq: "reg_type_name = windows_type"
  by (rule ext) (simp add: reg_type_name_def windows_type_def del: lit_simps)

fun reading :: "written \<Rightarrow> reg_answer" where
  "reading (Quoted xs t) = judged (meaning xs)"
| "reading (TypedString ds xs t) =
     (if number_in 16 ds = 1 then judged (meaning xs) else Rejected (StoredAs (windows_type (number_in 16 ds))))"
| "reading (Dword t) = Rejected (StoredAs (windows_type 4))"
| "reading (Binary t) = Rejected (StoredAs (windows_type 3))"
| "reading (TypedBytes ds t) = Rejected (StoredAs (windows_type (number_in 16 ds)))"

datatype reg_item = Section "esc list" str | Assign "esc list" str str written | Other str

fun item_text :: "reg_item \<Rightarrow> str" where
  "item_text (Section xs t) = 91 # escaped xs @ 93 # t"
| "item_text (Assign xs a b w) = 34 # escaped xs @ 34 # a @ 61 # b @ written_text w"
| "item_text (Other t) = t"

fun item_ok :: "reg_item \<Rightarrow> bool" where
  "item_ok (Section xs t) \<longleftrightarrow> escs_ok xs \<and> ends_free 93 xs \<and> Chr 13 \<notin> set xs \<and> line_text_ok t"
| "item_ok (Assign xs a b w) \<longleftrightarrow> string_ok xs \<and> blank a \<and> blank b \<and> written_ok w"
| "item_ok (Other t) \<longleftrightarrow> line_text_ok t \<and> (t = [] \<or> \<not> ascii_space (hd t) \<and> hd t \<noteq> 91 \<and> hd t \<noteq> 34)"

type_synonym reg_line = "str \<times> reg_item \<times> bool"

definition line_bytes :: "reg_line \<Rightarrow> bytes" where
  "line_bytes l = (case l of (indent, i, cr) \<Rightarrow> utf8_enc (indent @ item_text i) @ (if cr then [13] else []))"

definition reg_line_ok :: "reg_line \<Rightarrow> bool" where
  "reg_line_ok l = (case l of (indent, i, cr) \<Rightarrow> blank indent \<and> item_ok i)"

text \<open>The line wine requires in front.\<close>

definition first_line :: str where "first_line = lit ''WINE REGISTRY Version 2''"

lemma FILE_HEADER_eq: "FILE_HEADER = first_line"
  by (simp add: FILE_HEADER_def first_line_def)

definition reg_file :: "bool \<Rightarrow> reg_line list \<Rightarrow> bytes" where
  "reg_file cr ls = utf8_enc first_line @ (if cr then [13] else []) @ 10 # concat (map (\<lambda>l. line_bytes l @ [10]) ls)"

text \<open>
  Two paths name the same key when they agree in any case of letters, with one separator at the end of either
  set aside.
\<close>

definition without_separator :: "str \<Rightarrow> str" where
  "without_separator k = (case rev k of c # r \<Rightarrow> if c = 92 then rev r else k | [] \<Rightarrow> [])"

definition same_key :: "str \<Rightarrow> str \<Rightarrow> bool" where
  "same_key h k \<longleftrightarrow> eq_ignore_ascii_case (without_separator h) (without_separator k)"

lemma key_names_match_eq: "key_names_match = same_key"
proof -
  have "strip_backslash k = without_separator k" for k
    by (cases k rule: rev_cases) (simp_all add: strip_backslash_def without_separator_def)
  then show ?thesis by (intro ext) (simp add: key_names_match_def same_key_def)
qed

text \<open>The assignments to the value, in their order, wherever a header in some spelling names the key.\<close>

fun assigned :: "str \<Rightarrow> str \<Rightarrow> bool \<Rightarrow> reg_item list \<Rightarrow> written list" where
  "assigned key_path value_name ours [] = []"
| "assigned key_path value_name ours (Section xs t # is) =
     assigned key_path value_name (same_key (meaning xs) key_path) is"
| "assigned key_path value_name ours (Assign xs a b w # is) =
     (if ours \<and> eq_ignore_ascii_case (meaning xs) value_name then [w] else []) @ assigned key_path value_name ours is"
| "assigned key_path value_name ours (Other t # is) = assigned key_path value_name ours is"

lemma blank_text: "blank t \<Longrightarrow> line_text_ok t"
proof (induction t)
  case (Cons c t)
  then have "ascii_space c" "c \<noteq> 10" "c \<noteq> 13" "line_text_ok t" by (simp_all add: blank_def)
  moreover have "is_scalar c" using \<open>ascii_space c\<close> by (auto simp: ascii_space_def is_scalar_def)
  ultimately show ?case by (simp add: line_text_ok_def wf_str_def)
qed (simp add: line_text_ok_def wf_str_def)

lemma digits_cr: "list_all (\<lambda>c. radix_digit radix c \<noteq> None) ds \<Longrightarrow> 13 \<notin> set ds"
  by (induction ds) (auto simp: radix_digit_def hex_digit_def is_digit_def)

lemma esc_text_cr: "esc_ok x follow \<Longrightarrow> x \<noteq> Chr 13 \<Longrightarrow> 13 \<notin> set (esc_text x)"
proof (cases x)
  case (Letter e)
  assume "esc_ok x follow"
  then show ?thesis using Letter by (auto simp: escape_letters_def)
qed (use digits_cr [of 16] digits_cr [of 8] in \<open>auto simp: code_ok_iff\<close>)

lemma escaped_cr: "escs_ok xs \<Longrightarrow> Chr 13 \<notin> set xs \<Longrightarrow> 13 \<notin> set (escaped xs)"
proof (induction xs)
  case (Cons x xs)
  then show ?case using esc_text_cr [of x "escaped xs"] by auto
qed simp

lemma escaped_text: "escs_ok xs \<Longrightarrow> Chr 13 \<notin> set xs \<Longrightarrow> line_text_ok (escaped xs)"
  using escaped_wf escaped_cr by (simp add: line_text_ok_def)

lemma line_text_simps:
  "line_text_ok []" "line_text_ok (s @ t) \<longleftrightarrow> line_text_ok s \<and> line_text_ok t"
  "line_text_ok (c # t) \<longleftrightarrow> is_scalar c \<and> c \<noteq> 10 \<and> c \<noteq> 13 \<and> line_text_ok t"
  by (auto simp: line_text_ok_def wf_str_def)

lemma scalar_ascii: "c < 128 \<Longrightarrow> is_scalar c"
  by (simp add: is_scalar_def)

lemma lits_text: "line_text_ok (lit ''str('')" "line_text_ok (lit ''):'')" "line_text_ok (lit ''dword:'')"
  "line_text_ok (lit ''hex:'')" "line_text_ok (lit ''hex('')"
  by (simp_all add: line_text_ok_def wf_str_def is_scalar_def)

lemma string_text: "string_ok xs \<Longrightarrow> line_text_ok (escaped xs)"
  by (simp add: string_ok_def escaped_text)

lemma quote_text: "is_scalar 34" "is_scalar 61" "is_scalar 91" "is_scalar 93"
  by (simp_all add: is_scalar_def)

lemma type_text: "type_ok ds \<Longrightarrow> line_text_ok ds"
  using digits_wf [of 16 ds] digits_cr [of 16 ds] by (simp add: type_ok_def line_text_ok_def digit_in_iff)

lemma written_text_ok: "written_ok w \<Longrightarrow> line_text_ok (written_text w)"
  by (cases w) (simp_all add: line_text_simps quote_text string_text blank_text lits_text type_text del: lit_simps)

lemma item_text_ok: "item_ok i \<Longrightarrow> line_text_ok (item_text i)"
  by (cases i) (simp_all add: line_text_simps quote_text string_text escaped_text blank_text written_text_ok)

lemma enc_no_break: "line_text_ok s \<Longrightarrow> 10 \<notin> set (utf8_enc s) \<and> 13 \<notin> set (utf8_enc s)"
  using enc_ne [of s 10] enc_ne [of s 13] by (simp add: line_text_ok_def byte_def)

lemma strip_cr_line: "13 \<notin> set b \<Longrightarrow> strip_cr (b @ (if cr then [13] else [])) = b"
proof -
  assume "13 \<notin> set b"
  then have "b = [] \<or> last b \<noteq> 13" using last_in_set [of b] by metis
  then show ?thesis by (auto simp: strip_cr_def)
qed

lemma enc_blank: "blank t \<Longrightarrow> list_all (\<lambda>b. ascii_space (unat b)) (utf8_enc t)"
  by (induction t) (auto simp: blank_def ascii_space_def utf8_enc1_def)

lemma dropWhile_enc:
  assumes "blank t" and "s = [] \<or> \<not> ascii_space (hd s)" and "wf_str s"
  shows "dropWhile (\<lambda>b. ascii_space (unat b)) (utf8_enc (t @ s)) = utf8_enc s"
proof -
  have "dropWhile (\<lambda>b. ascii_space (unat b)) (utf8_enc s) = utf8_enc s"
  proof (cases s)
    case (Cons c u)
    then have "is_scalar c" "\<not> ascii_space c" using assms(2,3) by (simp_all add: wf_str_def)
    moreover obtain b bs where b: "utf8_enc1 c = b # bs" by (cases "utf8_enc1 c") simp_all
    ultimately have "\<not> ascii_space (unat b)" by (auto simp: utf8_enc1_def ascii_space_def is_scalar_def split: if_splits)
    then show ?thesis using Cons b by simp
  qed simp
  then show ?thesis using enc_blank [OF assms(1)] by (simp add: dropWhile_append2 list_all_iff)
qed

lemma left_margin_line:
  assumes "reg_line_ok (indent, i, cr)"
  shows "left_margin (line_bytes (indent, i, cr)) = utf8_enc (item_text i)"
proof -
  have t: "line_text_ok (indent @ item_text i)" "blank indent"
    using assms item_text_ok blank_text by (auto simp: reg_line_ok_def line_text_simps)
  have "strip_cr (line_bytes (indent, i, cr)) = utf8_enc (indent @ item_text i)"
    using strip_cr_line [of "utf8_enc (indent @ item_text i)" cr] enc_no_break [OF t(1)]
    unfolding line_bytes_def prod.case by blast
  moreover have "item_text i = [] \<or> \<not> ascii_space (hd (item_text i))"
    using assms by (cases i) (auto simp: reg_line_ok_def ascii_space_def)
  ultimately show ?thesis using dropWhile_enc [OF t(2)] t(1) by (simp add: left_margin_def line_text_simps line_text_ok_def)
qed

lemma read_string_escaped:
  assumes "string_ok xs" and "blank t"
  shows "read_string (escaped xs @ 34 # t) = judged (meaning xs)"
proof -
  have "utf8_enc1 34 = [34]" by (simp add: utf8_enc1_def byte_def)
  then have "split_quoted (utf8_enc (escaped xs @ 34 # t)) = Some (utf8_enc (escaped xs), utf8_enc t)"
    using split_quoted_escaped assms(1) by (simp add: string_ok_def)
  then show ?thesis
    using assms enc_blank [OF assms(2)] escaped_wf utf8_dec_enc unescape_escaped
    by (simp add: read_string_def judged_def string_ok_def)
qed

lemma drop_blank: "blank a \<Longrightarrow> s = [] \<or> \<not> ascii_space (hd s) \<Longrightarrow> dropWhile ascii_space (a @ s) = s"
  by (cases s) (auto simp: blank_def list_all_iff dropWhile_append2)

text \<open>A type number is read up to its bracket.\<close>

lemma type_number:
  assumes "type_ok ds"
  shows "split_at_text (lit ''):'') (ds @ lit ''):'' @ t) = Some (ds, t)" and "u32_from_radix 16 ds = Some (number_in 16 ds)"
proof -
  have d: "list_all (digit_in 16) ds" "ds \<noteq> []" "number_in 16 ds < 4294967296" using assms by (simp_all add: type_ok_def)
  have "digit_in 16 c \<Longrightarrow> c \<noteq> 41" for c by (auto simp: digit_in_def)
  then show "split_at_text (lit ''):'') (ds @ lit ''):'' @ t) = Some (ds, t)"
    using d(1) by (induction ds) simp_all
  have "hd ds \<noteq> 43" using d(1,2) by (cases ds) (auto simp: digit_in_def)
  then show "u32_from_radix 16 ds = Some (number_in 16 ds)"
    using d radix_value_number [OF d(1)] by (cases ds) (auto simp: u32_from_radix_def Let_def)
qed

lemma read_written:
  assumes "blank a" and "blank b" and "written_ok w"
  shows "read_assignment (a @ 61 # b @ written_text w) = reading w"
proof -
  have "written_text w = [] \<or> \<not> ascii_space (hd (written_text w))"
    by (cases w) (simp_all add: ascii_space_def)
  then have d: "dropWhile ascii_space (b @ written_text w) = written_text w" using assms(2) drop_blank by blast
  have e: "dropWhile ascii_space (a @ 61 # b @ written_text w) = 61 # b @ written_text w"
    using drop_blank [OF assms(1), of "61 # b @ written_text w"] by (simp add: ascii_space_def)
  note simps = reg_type_name_eq read_assignment_def Let_def starts_with_def
  show ?thesis
  proof (cases w)
    case (TypedString ds xs t)
    then have w: "type_ok ds" "string_ok xs" "blank t" using assms(3) by simp_all
    have "read_typed (ds @ lit ''):'' @ 34 # escaped xs @ 34 # t) = reading w"
      using type_number(1) [OF w(1)] type_number(2) [OF w(1)] read_string_escaped [OF w(2,3)] TypedString
      by (simp add: read_typed_def reg_type_name_eq del: lit_simps)
    then show ?thesis using TypedString d e by (simp add: simps)
  next
    case (TypedBytes ds t)
    then have "read_hex (ds @ lit ''):'' @ t) = reading w"
      using type_number(1) [of ds t] type_number(2) [of ds] assms(3) by (simp add: read_hex_def reg_type_name_eq del: lit_simps)
    then show ?thesis using TypedBytes d e by (simp add: simps)
  qed (use d e assms(3) read_string_escaped in \<open>auto simp: simps\<close>)
qed

section \<open>Reading a file\<close>

lemma enc_head: "c < 128 \<Longrightarrow> utf8_enc (c # s) = byte c # utf8_enc s"
  by (simp add: utf8_enc1_def)

lemma header_names_written:
  assumes "item_ok (Section xs t)"
  shows "header_names (item_text (Section xs t)) key_path = same_key (meaning xs) key_path"
  using assms split_bracket_escaped [of xs t] unescape_escaped
  by (simp add: header_names_def line_text_ok_def key_names_match_eq)

lemma scan_section:
  assumes "reg_line_ok (indent, Section xs t, cr)"
  shows "reg_scan key_path value_name ours found (line_bytes (indent, Section xs t, cr) # raws) =
    reg_scan key_path value_name (same_key (meaning xs) key_path) found raws"
proof -
  let ?s = "escaped xs @ 93 # t"
  have i: "item_ok (Section xs t)" using assms by (simp add: reg_line_ok_def)
  have "wf_str (91 # ?s)" using item_text_ok [OF i] by (simp add: line_text_ok_def)
  then have "utf8_dec (91 # utf8_enc ?s) = Some (91 # ?s)"
    using utf8_dec_enc [of "91 # ?s"] enc_head [of 91 ?s] by (simp add: byte_def)
  moreover have "left_margin (line_bytes (indent, Section xs t, cr)) = 91 # utf8_enc ?s"
    using left_margin_line [OF assms] enc_head [of 91 ?s] by (simp add: byte_def)
  ultimately show ?thesis using header_names_written [OF i, of key_path] by simp
qed

lemma scan_assign:
  assumes "reg_line_ok (indent, Assign xs a b w, cr)"
  shows "reg_scan key_path value_name ours found (line_bytes (indent, Assign xs a b w, cr) # raws) =
    reg_scan key_path value_name ours
      (if ours \<and> eq_ignore_ascii_case (meaning xs) value_name then Some (reading w) else found) raws"
proof -
  let ?v = "a @ 61 # b @ written_text w"
  have i: "string_ok xs" "blank a" "blank b" "written_ok w" using assms by (simp_all add: reg_line_ok_def)
  have w: "line_text_ok ?v" using i by (simp add: line_text_simps blank_text written_text_ok quote_text)
  have m: "left_margin (line_bytes (indent, Assign xs a b w, cr)) = 34 # utf8_enc (escaped xs) @ 34 # utf8_enc ?v"
    using left_margin_line [OF assms] enc_head [of 34 "escaped xs @ 34 # ?v"] enc_head [of 34 ?v] by (simp add: byte_def)
  have s: "split_quoted (utf8_enc (escaped xs) @ 34 # utf8_enc ?v) = Some (utf8_enc (escaped xs), utf8_enc ?v)"
    using i(1) by (simp add: split_quoted_escaped string_ok_def)
  have x: "wf_str (escaped xs)" "unescape (escaped xs) = Inr (meaning xs)"
    using i(1) escaped_wf unescape_escaped by (simp_all add: string_ok_def)
  have "wf_str ?v" using w by (simp add: line_text_ok_def)
  note d = utf8_dec_enc [OF x(1)] utf8_dec_enc [OF this] x(2)
  have r: "read_assignment ?v = reading w" using i(2-4) by (rule read_written)
  show ?thesis unfolding reg_scan.simps(2) Let_def m list.case s option.case prod.case d sum.case r by simp
qed

lemma scan_other:
  assumes "reg_line_ok (indent, Other t, cr)"
  shows "reg_scan key_path value_name ours found (line_bytes (indent, Other t, cr) # raws) =
    reg_scan key_path value_name ours found raws"
proof (cases t)
  case Nil
  then show ?thesis using left_margin_line [OF assms] by simp
next
  case (Cons c u)
  then have c: "is_scalar c" "c \<noteq> 91" "c \<noteq> 34" using assms by (auto simp: reg_line_ok_def line_text_ok_def wf_str_def)
  obtain b bs where b: "utf8_enc1 c = b # bs" by (cases "utf8_enc1 c") simp_all
  then have "b \<noteq> 91" "b \<noteq> 34" using enc1_ne [of c 91] enc1_ne [of c 34] c by (auto simp: byte_def)
  then show ?thesis using left_margin_line [OF assms] Cons b by simp
qed

lemma scan_lines:
  "list_all reg_line_ok ls \<Longrightarrow>
     reg_scan key_path value_name ours found (map line_bytes ls @ [[]]) =
       (case assigned key_path value_name ours (map (\<lambda>(_, i, _). i) ls) of
          [] \<Rightarrow> (case found of None \<Rightarrow> Absent | Some r \<Rightarrow> r)
        | w # ws \<Rightarrow> reading (last (w # ws)))"
proof (induction ls arbitrary: ours found)
  case Nil
  then show ?case by (simp add: left_margin_def strip_cr_def)
next
  case (Cons l ls)
  obtain indent i cr where l: "l = (indent, i, cr)" by (cases l)
  show ?case
  proof (cases i)
    case (Section xs t)
    then show ?thesis using Cons l scan_section by simp
  next
    case (Assign xs a b w)
    then show ?thesis using Cons l scan_assign
      by (simp del: reg_scan.simps split: list.splits)
  next
    case (Other t)
    then show ?thesis using Cons l scan_other by simp
  qed
qed

lemma line_no_break: "reg_line_ok l \<Longrightarrow> list_all (\<lambda>b. b \<noteq> 10) (line_bytes l)"
proof -
  assume l: "reg_line_ok l"
  obtain indent i cr where e: "l = (indent, i, cr)" by (cases l)
  then have "line_text_ok (indent @ item_text i)"
    using l item_text_ok blank_text by (auto simp: reg_line_ok_def line_text_simps)
  then have "10 \<notin> set (utf8_enc (indent @ item_text i))" using enc_no_break by blast
  then show ?thesis unfolding line_bytes_def e list_all_iff by (auto split: if_splits)
qed

lemma split_lines:
  "list_all reg_line_ok ls \<Longrightarrow>
     split_on (\<lambda>b. b = 10) (concat (map (\<lambda>l. line_bytes l @ [10]) ls)) = map line_bytes ls @ [[]]"
  by (induction ls) (simp_all add: split_on_sep line_no_break)

lemma header_plain: "line_text_ok first_line" "hd first_line = 87" "first_line \<noteq> []"
  by (simp_all add: first_line_def line_text_ok_def wf_str_def is_scalar_def)

lemma registry_lines:
  assumes "list_all reg_line_ok ls"
  shows "split_on (\<lambda>b. b = 10) (reg_file cr ls) = (utf8_enc first_line @ (if cr then [13] else [])) # map line_bytes ls @ [[]]"
proof -
  let ?h = "utf8_enc first_line @ (if cr then [13] else [])"
  have "list_all (\<lambda>b. b \<noteq> 10) ?h" using enc_no_break [OF header_plain(1)] by (auto simp: list_all_iff)
  then show ?thesis
    using split_on_sep [of "\<lambda>b. b = 10" ?h 10] split_lines [OF assms] by (simp add: reg_file_def)
qed

lemma registry_reads:
  assumes "list_all reg_line_ok ls"
  shows "reg_lookup (reg_file cr ls) key_path value_name =
    (case assigned key_path value_name False (map (\<lambda>(_, i, _). i) ls) of
       [] \<Rightarrow> Absent
     | w # ws \<Rightarrow> reading (last (w # ws)))"
proof -
  let ?h = "utf8_enc first_line @ (if cr then [13] else [])"
  note s = registry_lines [OF assms, of cr]
  have "strip_cr ?h = utf8_enc first_line" using enc_no_break [OF header_plain(1)] by (intro strip_cr_line) blast
  moreover have "left_margin ?h = utf8_enc first_line"
  proof -
    have "dropWhile (\<lambda>b. ascii_space (unat b)) (utf8_enc ([] @ first_line)) = utf8_enc first_line"
      using header_plain by (intro dropWhile_enc) (simp_all add: blank_def ascii_space_def line_text_ok_def)
    then show ?thesis using \<open>strip_cr ?h = _\<close> by (simp add: left_margin_def)
  qed
  moreover have "utf8_enc first_line = 87 # utf8_enc (tl first_line)"
  proof -
    have h: "first_line = 87 # tl first_line" using header_plain(2,3) by (metis list.collapse)
    have "utf8_enc (87 # tl first_line) = 87 # utf8_enc (tl first_line)"
      using enc_head [of 87 "tl first_line"] by (simp add: byte_def)
    then show ?thesis using h by argo
  qed
  ultimately show ?thesis
    unfolding reg_lookup_def s FILE_HEADER_eq using scan_lines [OF assms, of key_path value_name False None, unfolded option.case] by simp
qed

text \<open>
  C7. What a registry file says is what is read: of a file written with any sections, values and other
  lines, in any of the spellings wine accepts, the answer is the last assignment to the value, in any case
  of letters and with or without a separator at the end of the key: a string, plain or with the number 1 for
  its type, is decoded to its last character; a value of another type, whatever its number and its spelling,
  an empty one and one with control characters are refused, and only a file without any such assignment is
  answered with absent.
\<close>

theorem registry_last_assignment:
  assumes "list_all reg_line_ok ls"
  shows "reg_lookup (reg_file cr ls) key_path value_name =
    (case assigned key_path value_name False (map (\<lambda>(_, i, _). i) ls) of
       [] \<Rightarrow> Absent
     | w # ws \<Rightarrow> reading (last (w # ws)))"
  using assms by (rule registry_reads)

theorem registry_last_assignment_witness:
  "reg_lookup (reg_file True
      [([], Other [], False),
       ([], Section (map Chr (lit ''Software'') @ [Letter 92] @ map Chr (lit ''App'')) [], True),
       ([32], Assign (map Chr (lit ''PATH'')) [] [32] (Quoted (map Chr (lit ''one'')) []), False),
       ([], Assign (map Chr (lit ''Path'')) [] [] (TypedBytes (lit ''b'') (lit ''05,00'')), False),
       ([], Assign (map Chr (lit ''Path'')) [] [] (TypedString (lit ''01'') [Chr 67, Chr 58, Letter 92, Hex (lit ''00fc''), Chr 97] []), False),
       ([], Section (map Chr (lit ''Other'')) (lit '' 17''), False),
       ([], Assign (map Chr (lit ''Path'')) [] [] (TypedString (lit ''2'') (map Chr (lit ''two'')) []), False)])
     (lit ''software'' @ 92 # lit ''app'') (lit ''Path'') = Found [67, 58, 92, 252, 97]"
  (is "reg_lookup (reg_file True ?ls) ?k ?v = _")
proof -
  have "list_all reg_line_ok ?ls"
    by (simp add: reg_line_ok_def line_text_ok_def blank_def ascii_space_def string_ok_def is_scalar_def ends_free_def
      escape_letters_def code_ok_def wf_str_def type_ok_def digit_in_def digit_number_def number_in_def)
  from registry_last_assignment [OF this, of True ?k ?v] show ?thesis
    by (simp add: same_key_def without_separator_def eq_ignore_ascii_case_def ascii_lower_def escape_letters_def
      number_in_def digit_number_def judged_def is_control_def)
qed

section \<open>Absence\<close>

text \<open>
  Lines of any bytes. What they open with, behind the space in front; and the bytes of a name in quotes, which
  has no quote but behind a backslash.
\<close>

definition byte_space :: "u8 \<Rightarrow> bool" where "byte_space b \<longleftrightarrow> b \<in> {9, 12, 13, 32}"

definition opens_with :: "u8 \<Rightarrow> bytes \<Rightarrow> bool" where
  "opens_with b l \<longleftrightarrow> (case dropWhile byte_space l of [] \<Rightarrow> False | c # _ \<Rightarrow> c = b)"

fun quoted_bytes :: "bytes \<Rightarrow> bool" where
  "quoted_bytes [] = True"
| "quoted_bytes (b # bs) =
     (if b = 92 then (case bs of [] \<Rightarrow> False | _ # bs' \<Rightarrow> quoted_bytes bs') else b \<noteq> 34 \<and> quoted_bytes bs)"

text \<open>Where the scan stands behind some lines, and the lines it takes for assignments.\<close>

fun in_section :: "str \<Rightarrow> bool \<Rightarrow> bytes list \<Rightarrow> bool" where
  "in_section key_path ours [] = ours"
| "in_section key_path ours (raw # raws) =
     in_section key_path
       (if starts_with [91] (left_margin raw)
        then (case utf8_dec (left_margin raw) of None \<Rightarrow> False | Some l \<Rightarrow> header_names l key_path) else ours) raws"

definition may_assign :: "str \<Rightarrow> bytes \<Rightarrow> bool" where
  "may_assign value_name raw =
     (case left_margin raw of
        [] \<Rightarrow> False
      | b # after_quote \<Rightarrow> b = 34 \<and>
          (case split_quoted after_quote of
             None \<Rightarrow> False
           | Some (name, _) \<Rightarrow>
               (case utf8_dec name of
                  None \<Rightarrow> True
                | Some t \<Rightarrow> (case unescape t of Inl _ \<Rightarrow> True | Inr n \<Rightarrow> eq_ignore_ascii_case n value_name))))"

lemma read_never_absent: "read_assignment s \<noteq> Absent"
proof -
  have "read_string b \<noteq> Absent" for b
    by (simp add: read_string_def split: option.splits prod.splits sum.splits)
  then show ?thesis
    by (auto simp: read_assignment_def read_typed_def read_hex_def Let_def split: option.splits prod.splits bool.splits)
qed

text \<open>What one line does: it ends the scan with a refusal, or the scan goes on with what was found.\<close>

lemma scan_step:
  "(\<exists>e. reg_scan key_path value_name ours found (raw # raws) = Rejected e) \<or>
   (\<exists>found'. reg_scan key_path value_name ours found (raw # raws) =
        reg_scan key_path value_name (in_section key_path ours [raw]) found' raws \<and>
      (found' = found \<and> \<not> (ours \<and> may_assign value_name raw) \<or> (\<exists>r. found' = Some r \<and> r \<noteq> Absent)))"
proof (cases "left_margin raw")
  case Nil
  then show ?thesis by (intro disjI2 exI [of _ found]) (simp add: starts_with_def may_assign_def)
next
  case (Cons b t)
  show ?thesis
  proof (cases "ours \<and> b = 34")
    case False
    then show ?thesis using Cons by (intro disjI2 exI [of _ found]) (auto simp: starts_with_def may_assign_def)
  next
    case True
    show ?thesis
    proof (cases "split_quoted t")
      case None
      then show ?thesis using Cons True by (intro disjI2 exI [of _ found]) (simp add: starts_with_def may_assign_def)
    next
      case (Some nt)
      obtain n u where nt: "nt = (n, u)" by (cases nt)
      note c = Cons True Some nt
      show ?thesis
      proof (cases "utf8_dec n")
        case None
        then show ?thesis using c by simp
      next
        case (Some m)
        show ?thesis
        proof (cases "unescape m")
          case (Inl e)
          then show ?thesis using c Some by simp
        next
          case (Inr k)
          show ?thesis
          proof (cases "eq_ignore_ascii_case k value_name")
            case False
            then show ?thesis using c Some Inr by (intro disjI2 exI [of _ found]) (simp add: starts_with_def may_assign_def)
          next
            case True
            show ?thesis
            proof (cases "utf8_dec u")
              case None
              then show ?thesis using c Some Inr True by simp
            next
              case (Some v)
              then show ?thesis using c \<open>utf8_dec n = Some m\<close> Inr True read_never_absent [of v]
                by (intro disjI2 exI [of _ "Some (read_assignment v)"]) (simp add: starts_with_def)
            qed
          qed
        qed
      qed
    qed
  qed
qed

lemma scan_found: "reg_scan key_path value_name ours (Some r) raws = Absent \<Longrightarrow> r = Absent"
proof (induction raws arbitrary: ours r)
  case (Cons raw raws)
  show ?case using scan_step [of key_path value_name ours "Some r" raw raws] Cons.prems Cons.IH
    by (metis reg_answer.distinct(3) option.inject)
qed simp

lemma scan_absent_step:
  assumes "reg_scan key_path value_name ours None (raw # raws) = Absent"
  shows "reg_scan key_path value_name (in_section key_path ours [raw]) None raws = Absent \<and>
    \<not> (ours \<and> may_assign value_name raw)"
proof -
  have "\<not> (\<exists>e. reg_scan key_path value_name ours None (raw # raws) = Rejected e)" unfolding assms by simp
  then obtain f where f: "reg_scan key_path value_name (in_section key_path ours [raw]) f raws = Absent"
    "f = None \<and> \<not> (ours \<and> may_assign value_name raw) \<or> (\<exists>r. f = Some r \<and> r \<noteq> Absent)"
    using scan_step [of key_path value_name ours None raw raws] assms by metis
  then have "\<not> (\<exists>r. f = Some r \<and> r \<noteq> Absent)" using scan_found by blast
  with f show ?thesis by blast
qed

lemma scan_absent:
  "reg_scan key_path value_name ours None (ls @ raw # raws) = Absent \<Longrightarrow>
     \<not> (in_section key_path ours ls \<and> may_assign value_name raw)"
proof (induction ls arbitrary: ours)
  case Nil
  then show ?case using scan_absent_step [of key_path value_name ours raw raws] unfolding append.simps in_section.simps by blast
next
  case (Cons l ls)
  then have "reg_scan key_path value_name (in_section key_path ours [l]) None (ls @ raw # raws) = Absent"
    using scan_absent_step [of key_path value_name ours l "ls @ raw # raws"] unfolding append.simps by blast
  then show ?case using Cons.IH by simp
qed

lemma end_of_quoted: "quoted_bytes n \<Longrightarrow> end_of_unescaped (n @ 34 # u) 34 = Some (length n)"
  by (induction n rule: quoted_bytes.induct) (auto split: list.splits)

lemma space_bytes: "b \<noteq> 10 \<Longrightarrow> ascii_space (unat b) \<longleftrightarrow> byte_space b"
proof -
  assume "b \<noteq> 10"
  have "unat b = unat c \<longleftrightarrow> b = c" for c by (metis unsigned_word_eqI)
  from this [of 9] this [of 10] this [of 12] this [of 13] this [of 32] \<open>b \<noteq> 10\<close>
  show ?thesis by (simp add: ascii_space_def byte_space_def)
qed

lemma strip_cr_both: "strip_cr l = a \<Longrightarrow> \<exists>cr. l = a @ (if cr then [13] else [])"
  by (cases l rule: rev_cases) (auto simp: strip_cr_def intro: exI [of _ True] exI [of _ False] split: if_splits)

lemma strip_cr_cons: "l \<noteq> [] \<Longrightarrow> strip_cr (b # l) = b # strip_cr l"
  by (simp add: strip_cr_def)

lemma margin_opens: "10 \<notin> set l \<Longrightarrow> starts_with [91] (left_margin l) \<Longrightarrow> opens_with 91 l"
proof (induction l)
  case (Cons b l)
  have sp: "ascii_space (unat b) \<longleftrightarrow> byte_space b" using Cons.prems(1) by (intro space_bytes) auto
  show ?case
  proof (cases "l = []")
    case True
    then show ?thesis using Cons.prems(2) sp
      by (auto simp: left_margin_def strip_cr_def opens_with_def starts_with_def split: if_splits)
  next
    case False
    then show ?thesis using Cons sp strip_cr_cons [OF False, of b]
      by (auto simp: left_margin_def opens_with_def starts_with_def split: if_splits)
  qed
qed (simp add: left_margin_def strip_cr_def starts_with_def)

lemma margin_quote:
  assumes "list_all byte_space sp"
  shows "\<exists>u'. left_margin (sp @ 34 # n @ 34 # u) = 34 # n @ 34 # u'"
proof -
  have "strip_cr (sp @ 34 # n @ 34 # u) = sp @ 34 # n @ 34 # strip_cr u"
    by (cases u rule: rev_cases) (simp_all add: strip_cr_def butlast_append)
  moreover have "\<forall>b \<in> set sp. ascii_space (unat b)"
    using assms by (auto simp: list_all_iff byte_space_def ascii_space_def)
  ultimately show ?thesis by (simp add: left_margin_def dropWhile_append2 ascii_space_def)
qed

lemma in_section_append: "in_section key_path ours (ls @ ms) = in_section key_path (in_section key_path ours ls) ms"
  by (induction ls arbitrary: ours) simp_all

lemma in_section_stays:
  "list_all (\<lambda>l. 10 \<notin> set l \<and> \<not> opens_with 91 l) ls \<Longrightarrow> in_section key_path ours ls = ours"
  using margin_opens by (induction ls) auto

lemma in_section_header:
  assumes "reg_line_ok (indent, Section xs t, cr)"
  shows "in_section key_path ours [line_bytes (indent, Section xs t, cr)] = same_key (meaning xs) key_path"
proof -
  let ?s = "escaped xs @ 93 # t"
  have i: "item_ok (Section xs t)" using assms by (simp add: reg_line_ok_def)
  have w: "wf_str (91 # ?s)" using item_text_ok [OF i] by (simp add: line_text_ok_def)
  have m: "left_margin (line_bytes (indent, Section xs t, cr)) = utf8_enc (91 # ?s)"
    using left_margin_line [OF assms] by simp
  have "starts_with [91] (utf8_enc (91 # ?s))" using enc_head [of 91 ?s] by (simp add: byte_def starts_with_def)
  then show ?thesis using m header_names_written [OF i, of key_path] utf8_dec_enc [OF w] by simp
qed

text \<open>A line of that form may assign unless its name is another.\<close>

lemma other_name:
  assumes "\<not> may_assign value_name (sp @ 34 # n @ 34 # u)" and "list_all byte_space sp" and "quoted_bytes n" and "10 \<notin> set n"
  shows "\<exists>ys. escs_ok ys \<and> n = utf8_enc (escaped ys) \<and> \<not> eq_ignore_ascii_case (meaning ys) value_name"
proof -
  obtain v where "left_margin (sp @ 34 # n @ 34 # u) = 34 # n @ 34 # v" using margin_quote [OF assms(2)] by blast
  moreover have "split_quoted (n @ 34 # v) = Some (n, v)" using end_of_quoted [OF assms(3)] by (simp add: split_quoted_def)
  ultimately obtain t k where t: "utf8_dec n = Some t" "unescape t = Inr k" "\<not> eq_ignore_ascii_case k value_name"
    using assms(1) by (auto simp: may_assign_def split: option.splits sum.splits)
  have n: "wf_str t" "n = utf8_enc t" using utf8_dec_Some [OF t(1)] by simp_all
  have "10 \<notin> set t"
  proof
    assume "10 \<in> set t"
    then have "10 \<in> set (utf8_enc t)" by (induction t) (auto simp: utf8_enc1_def byte_def)
    then show False using assms(4) n(2) by blast
  qed
  then show ?thesis using unescape_written [OF t(2) n(1)] t(3) n(2) by blast
qed

text \<open>
  C17. Absent is never guessed: whatever bytes the file holds, when the answer is that nothing is
  registered, the first line is the one wine requires; and in every section whose header names the key, in
  whatever spelling and behind whatever space, every line, up to the next header, that opens with a name in
  quotes has a name that can be read to its last character and is not the name of the value.
\<close>

theorem absent_is_certain:
  assumes "reg_lookup b key_path value_name = Absent"
    and "split_on (\<lambda>b. b = 10) b = before @ line_bytes (indent, Section xs t, cr) # between @ (sp @ 34 # n @ 34 # u) # after"
    and "reg_line_ok (indent, Section xs t, cr)" and "same_key (meaning xs) key_path"
    and "list_all (\<lambda>l. \<not> opens_with 91 l) between"
    and "list_all byte_space sp" and "quoted_bytes n"
  shows "(\<exists>cr. hd (split_on (\<lambda>b. b = 10) b) = utf8_enc first_line @ (if cr then [13] else [])) \<and>
    (\<exists>ys. escs_ok ys \<and> n = utf8_enc (escaped ys) \<and> \<not> eq_ignore_ascii_case (meaning ys) value_name)"
proof
  let ?raw = "sp @ 34 # n @ 34 # u" and ?ls = "before @ line_bytes (indent, Section xs t, cr) # between"
  have h: "strip_cr (hd (split_on (\<lambda>b. b = 10) b)) = utf8_enc first_line"
    "reg_scan key_path value_name False None (?ls @ ?raw # after) = Absent"
    using assms(1,2) by (auto simp: reg_lookup_def FILE_HEADER_eq split: if_splits)
  show "\<exists>cr. hd (split_on (\<lambda>b. b = 10) b) = utf8_enc first_line @ (if cr then [13] else [])"
    using h(1) by (rule strip_cr_both)
  have no10: "10 \<notin> set l" if "l \<in> set (split_on (\<lambda>b. b = 10) b)" for l
    using split_on_parts [OF that] by (auto simp: list_all_iff)
  have "10 \<notin> set n" using no10 [of ?raw] unfolding assms(2) by simp
  moreover have "list_all (\<lambda>l. 10 \<notin> set l \<and> \<not> opens_with 91 l) between"
    using no10 assms(5) unfolding assms(2) by (simp add: list_all_iff)
  moreover have "in_section key_path False ?ls"
  proof -
    let ?l = "line_bytes (indent, Section xs t, cr)"
    have "in_section key_path False ?ls = in_section key_path (in_section key_path (in_section key_path False before) [?l]) between"
      using in_section_append [of key_path False before "?l # between"]
        in_section_append [of key_path "in_section key_path False before" "[?l]" between] by (simp only: append.simps)
    then show ?thesis using in_section_header [OF assms(3)] in_section_stays [OF calculation(2)] assms(4) by simp
  qed
  ultimately show "\<exists>ys. escs_ok ys \<and> n = utf8_enc (escaped ys) \<and> \<not> eq_ignore_ascii_case (meaning ys) value_name"
    using scan_absent [of key_path value_name False ?ls ?raw after] h(2) other_name [OF _ assms(6,7)] by blast
qed

text \<open>A file with two sections, the first that of the key, with an indented header, a comment and another value.\<close>

theorem absent_is_certain_witness:
  "hd (split_on (\<lambda>b. b = 10) (reg_file True
      [([32], Section (map Chr (lit ''Soft'')) (lit '' 17''), True),
       ([], Other (lit ''#time=1''), False),
       ([9], Assign (map Chr (lit ''Size'')) [32] [] (Dword (lit ''01'')), False),
       ([], Section (map Chr (lit ''Other'')) [], False),
       ([], Assign (map Chr (lit ''Path'')) [] [] (Quoted (map Chr (lit ''one'')) []), False)])) =
     utf8_enc first_line @ [13] \<and>
   (\<exists>ys. escs_ok ys \<and> utf8_enc (lit ''Size'') = utf8_enc (escaped ys) \<and> \<not> eq_ignore_ascii_case (meaning ys) (lit ''Path''))"
  (is "hd (split_on _ (reg_file True [?h, ?o, ?v, ?s, ?p])) = _ \<and> ?other")
proof -
  let ?ls = "[?h, ?o, ?v, ?s, ?p]"
  have ok: "list_all reg_line_ok ?ls"
    by (simp add: reg_line_ok_def line_text_ok_def blank_def ascii_space_def string_ok_def is_scalar_def ends_free_def wf_str_def)
  have absent: "reg_lookup (reg_file True ?ls) (lit ''soft'') (lit ''Path'') = Absent"
    using registry_reads [OF ok, of True "lit ''soft''" "lit ''Path''"]
    by (simp add: same_key_def without_separator_def eq_ignore_ascii_case_def ascii_lower_def)
  have v: "line_bytes ?v = [9] @ 34 # utf8_enc (lit ''Size'') @ 34 # utf8_enc (lit '' =dword:01'')"
    by (simp add: line_bytes_def utf8_enc1_def byte_def)
  note lines = registry_lines [OF ok, of True]
  then have split: "split_on (\<lambda>b. b = 10) (reg_file True ?ls) =
      [utf8_enc first_line @ [13]] @ line_bytes ?h # [line_bytes ?o] @
        ([9] @ 34 # utf8_enc (lit ''Size'') @ 34 # utf8_enc (lit '' =dword:01'')) # [line_bytes ?s, line_bytes ?p, []]"
    unfolding v [symmetric] by simp
  have "list_all (\<lambda>l. \<not> opens_with 91 l) [line_bytes ?o]"
    by (simp add: line_bytes_def opens_with_def utf8_enc1_def byte_def byte_space_def)
  moreover have "list_all byte_space [9]" "quoted_bytes (utf8_enc (lit ''Size''))"
    by (simp_all add: byte_space_def utf8_enc1_def byte_def)
  moreover have "reg_line_ok ?h" using ok by simp
  moreover have "same_key (meaning (map Chr (lit ''Soft''))) (lit ''soft'')"
    by (simp add: same_key_def without_separator_def eq_ignore_ascii_case_def ascii_lower_def)
  ultimately have "?other" using absent_is_certain [OF absent split] by blast
  then show ?thesis using lines by simp
qed

end
