(* ===== verification/Xml.thy ===== *)
theory Xml
  imports UserReg
begin

text \<open>
  The one-level XML scanner of the game-configuration readers (\<^verbatim>\<open>tobii-gameconf/src/xml.rs\<close>) and the
  reader of attribute lists on top of it (\<^verbatim>\<open>attrs.rs\<close>). The scan moves over the characters of the decoded
  text: what it stops at is ASCII, so a character is entered only at its start. The unread rest
  stands for the index into the text, and the refusals are constructors.
\<close>

section \<open>Answers\<close>

datatype attr_error =
    NoValue
  | NoName
  | NameUnknown str
  | ValueMissing str
  | NotQuoted str
  | ValueOpen str
  | HoldsTag str
  | Twice str

datatype xml_error =
    NotUtf8
  | TextOutside
  | ClosingNeverEnds
  | ClosesOther str str
  | ClosesNothing str
  | ManyRoots
  | NeverClosed str
  | NoElement
  | SkippedNeverEnds str
  | UnknownConstruct
  | DoctypeNeverEnds
  | InternalSubset
  | ForeignEncoding str
  | TagNeverEnds
  | TagName str
  | NamedTagNeverEnds str
  | InTag str attr_error

datatype value_error = AmpersandAlone | UnknownEntity str | ControlInValue

datatype xml_lookup = XAbsent | XText str | XRejected value_error

record element =
  el_name :: str
  el_attrs :: "(str \<times> str) list"

record document =
  doc_root :: element
  doc_children :: "element list"

text \<open>The index of the first character with a property.\<close>

fun find_pos :: "('a \<Rightarrow> bool) \<Rightarrow> 'a list \<Rightarrow> nat option" where
  "find_pos P [] = None"
| "find_pos P (c # s) = (if P c then Some 0 else map_option Suc (find_pos P s))"

section \<open>Values\<close>

definition ascii_hex :: "nat \<Rightarrow> bool" where "ascii_hex c \<longleftrightarrow> hex_digit c \<noteq> None"

definition char_ref :: "str \<Rightarrow> nat option" where
  "char_ref name =
     (case strip_prefix [35] name of
        None \<Rightarrow> None
      | Some digits \<Rightarrow>
          (case (case strip_prefix [120] digits of
               Some hex \<Rightarrow> if list_all ascii_hex hex then u32_from_radix 16 hex else None
             | None \<Rightarrow> if list_all is_digit digits then parse_uint (2 ^ 32) digits else None) of
             Some v \<Rightarrow> if is_scalar v then Some v else None
           | None \<Rightarrow> None))"

definition entity :: "str \<Rightarrow> nat option" where
  "entity name =
     (if name = lit ''amp'' then Some 38
      else if name = lit ''lt'' then Some 60
      else if name = lit ''gt'' then Some 62
      else if name = lit ''quot'' then Some 34
      else if name = lit ''apos'' then Some 39
      else char_ref name)"

lemma split_once_length: "split_once x s = Some (a, b) \<Longrightarrow> length b < length s"
  by (auto simp: split_once_Some)

function decode_refs :: "str \<Rightarrow> (value_error, str) result" where
  "decode_refs s =
     (case split_once 38 s of
        None \<Rightarrow> Inr s
      | Some (plain, after) \<Rightarrow>
          (case split_once 59 after of
             None \<Rightarrow> Inl AmpersandAlone
           | Some (name, t) \<Rightarrow>
               (case entity name of
                  None \<Rightarrow> Inl (UnknownEntity name)
                | Some ch \<Rightarrow> res_bind (decode_refs t) (\<lambda>out. Inr (plain @ ch # out)))))"
  by pat_completeness auto
termination
  by (relation "measure length") (auto dest!: split_once_length)

declare decode_refs.simps [simp del]

definition decode_value :: "str \<Rightarrow> (value_error, str) result" where
  "decode_value raw = res_bind (decode_refs raw) (\<lambda>out. if list_ex is_control out then Inl ControlInValue else Inr out)"

definition attribute :: "element \<Rightarrow> str \<Rightarrow> xml_lookup" where
  "attribute e name =
     (case find (\<lambda>(n, _). n = name) (el_attrs e) of
        None \<Rightarrow> XAbsent
      | Some (_, raw) \<Rightarrow> (case decode_value raw of Inr t \<Rightarrow> XText t | Inl why \<Rightarrow> XRejected why))"

section \<open>Tags\<close>

definition is_alpha :: "nat \<Rightarrow> bool" where
  "is_alpha c \<longleftrightarrow> (65 \<le> c \<and> c \<le> 90) \<or> (97 \<le> c \<and> c \<le> 122)"

definition name_first :: "nat \<Rightarrow> bool" where
  "name_first c \<longleftrightarrow> is_alpha c \<or> c = 95 \<or> c = 58 \<or> 128 \<le> c"

definition name_later :: "nat \<Rightarrow> bool" where
  "name_later c \<longleftrightarrow> name_first c \<or> is_digit c \<or> c = 45 \<or> c = 46"

definition is_name :: "str \<Rightarrow> bool" where
  "is_name s = (case s of [] \<Rightarrow> False | c # t \<Rightarrow> name_first c \<and> list_all name_later t)"

lemma find_pos_length: "find_pos P s = Some n \<Longrightarrow> n < length s"
  by (induction s arbitrary: n) (auto split: if_splits)

lemma dropWhile_length: "length (dropWhile P s) \<le> length s"
  by (rule length_dropWhile_le)

lemma strip_prefix_length: "strip_prefix p s = Some t \<Longrightarrow> length t = length s - length p \<and> length p \<le> length s"
  by (auto simp: strip_prefix_iff)

lemma attribute_shrinks:
  assumes "strip_prefix [61] (dropWhile ascii_space (drop n (dropWhile ascii_space raw))) = Some t"
    and "dropWhile ascii_space t = q # after" and "split_once q after = Some (v, rst)"
  shows "length rst < length raw"
proof -
  have "length rst < length after" using assms(3) by (rule split_once_length)
  moreover have "Suc (length after) \<le> length t" using dropWhile_length [of ascii_space t] assms(2) by simp
  moreover have "length t \<le> length (drop n (dropWhile ascii_space raw))"
    using strip_prefix_length [OF assms(1)] dropWhile_length [of ascii_space "drop n (dropWhile ascii_space raw)"] by linarith
  moreover have "length (drop n (dropWhile ascii_space raw)) \<le> length raw"
    using dropWhile_length [of ascii_space raw] by simp
  ultimately show ?thesis by linarith
qed

function attributes :: "(str \<times> str) list \<Rightarrow> str \<Rightarrow> (attr_error, (str \<times> str) list) result" where
  "attributes out raw0 =
     (let raw = dropWhile ascii_space raw0 in
      if raw = [] then Inr out
      else case find_pos (\<lambda>c. ascii_space c \<or> c = 61) raw of
        None \<Rightarrow> Inl NoValue
      | Some n \<Rightarrow>
          (let name = take n raw in
           if name = [] then Inl NoName
           else if \<not> is_name name then Inl (NameUnknown name)
           else case strip_prefix [61] (dropWhile ascii_space (drop n raw)) of
             None \<Rightarrow> Inl (ValueMissing name)
           | Some t \<Rightarrow>
               (case dropWhile ascii_space t of
                  q # after \<Rightarrow>
                    if q \<noteq> 34 \<and> q \<noteq> 39 then Inl (NotQuoted name)
                    else (case split_once q after of
                        None \<Rightarrow> Inl (ValueOpen name)
                      | Some (value, rst) \<Rightarrow>
                          if 60 \<in> set value then Inl (HoldsTag name)
                          else if list_ex (\<lambda>(n, _). n = name) out then Inl (Twice name)
                          else attributes (out @ [(name, value)]) rst)
                | [] \<Rightarrow> Inl (NotQuoted name))))"
  by pat_completeness auto
termination
  by (relation "measure (length \<circ> snd)") (auto intro: attribute_shrinks)

declare attributes.simps [simp del]

text \<open>The end of a tag, with quoting in mind.\<close>

fun tag_end :: "nat option \<Rightarrow> str \<Rightarrow> nat option" where
  "tag_end quote [] = None"
| "tag_end (Some q) (c # s) = map_option Suc (tag_end (if c = q then None else Some q) s)"
| "tag_end None (c # s) =
     (if c = 34 \<or> c = 39 then map_option Suc (tag_end (Some c) s)
      else if c = 62 then Some 0
      else map_option Suc (tag_end None s))"

definition start_tag :: "str \<Rightarrow> (xml_error, element \<times> bool \<times> nat) result" where
  "start_tag rst =
     (let after = drop 1 rst in
      case find_pos (\<lambda>c. ascii_space c \<or> c = 47 \<or> c = 62) after of
        None \<Rightarrow> Inl TagNeverEnds
      | Some n \<Rightarrow>
          (let name = take n after; body = drop n after in
           if \<not> is_name name then Inl (TagName name)
           else case tag_end None body of
             None \<Rightarrow> Inl (NamedTagNeverEnds name)
           | Some e \<Rightarrow>
               (let inner = take e body;
                    closing = inner \<noteq> [] \<and> last inner = 47 in
                case attributes [] (if closing then butlast inner else inner) of
                  Inl why \<Rightarrow> Inl (InTag name why)
                | Inr as \<Rightarrow> Inr (\<lparr>el_name = name, el_attrs = as\<rparr>, closing, 1 + n + e + 1))))"

section \<open>What is skipped\<close>

definition skip_kinds :: "(str \<times> str) list" where
  "skip_kinds = [(lit ''<?'', lit ''?>''), (lit ''<!--'', lit ''-->''), (lit ''<![CDATA['', lit '']]>'')]"

fun skip_known :: "(str \<times> str) list \<Rightarrow> str \<Rightarrow> (xml_error, nat option) result" where
  "skip_known [] rst = Inr None"
| "skip_known ((opn, cls) # ks) rst =
     (case strip_prefix opn rst of
        Some after \<Rightarrow>
          (case split_at_text cls after of
             None \<Rightarrow> Inl (SkippedNeverEnds opn)
           | Some (body, _) \<Rightarrow> Inr (Some (length opn + length body + length cls)))
      | None \<Rightarrow> skip_known ks rst)"

definition skipped :: "str \<Rightarrow> (xml_error, nat option) result" where
  "skipped rst =
     (case skip_known skip_kinds rst of
        Inl e \<Rightarrow> Inl e
      | Inr (Some n) \<Rightarrow> Inr (Some n)
      | Inr None \<Rightarrow>
          (case strip_prefix (lit ''<!'') rst of
             None \<Rightarrow> Inr None
           | Some after \<Rightarrow>
               if \<not> (case strip_prefix (lit ''DOCTYPE'') after of
                   Some (c # _) \<Rightarrow> ascii_space c \<or> c = 62 | _ \<Rightarrow> False)
               then Inl UnknownConstruct
               else (case split_once 62 after of
                   None \<Rightarrow> Inl DoctypeNeverEnds
                 | Some (inner, _) \<Rightarrow>
                     if 91 \<in> set inner then Inl InternalSubset else Inr (Some (2 + length inner + 1)))))"

definition check_encoding :: "str \<Rightarrow> (xml_error, unit) result" where
  "check_encoding decl =
     (case strip_prefix (lit ''<?xml'') decl of
        None \<Rightarrow> Inr ()
      | Some body \<Rightarrow>
          if \<not> (case body of c # _ \<Rightarrow> ascii_space c | [] \<Rightarrow> False) then Inr ()
          else (case split_at_text (lit ''encoding'') body of
              None \<Rightarrow> Inr ()
            | Some (_, quoted) \<Rightarrow>
                (case find_pos (\<lambda>c. c = 34 \<or> c = 39) quoted of
                   None \<Rightarrow> Inr ()
                 | Some i \<Rightarrow>
                     (let name = takeWhile (\<lambda>c. c \<noteq> 34 \<and> c \<noteq> 39) (drop (i + 1) quoted) in
                      if list_ex (eq_ignore_ascii_case name) [lit ''utf-8'', lit ''utf8'', lit ''us-ascii'', lit ''ascii'']
                      then Inr () else Inl (ForeignEncoding name)))))"

section \<open>The scan\<close>

text \<open>The open elements, innermost first, the document element, its children, and whether it is closed.\<close>

record scan =
  sc_open :: "str list"
  sc_root :: "element option"
  sc_children :: "element list"
  sc_closed :: bool

definition scan_start :: "scan \<Rightarrow> element \<Rightarrow> bool \<Rightarrow> (xml_error, scan) result" where
  "scan_start st e closing =
     (if sc_open st = [] \<and> (sc_root st \<noteq> None \<or> sc_closed st) then Inl ManyRoots
      else let st1 = (case sc_open st of
            [] \<Rightarrow> st\<lparr>sc_root := Some e\<rparr>
          | [_] \<Rightarrow> st\<lparr>sc_children := sc_children st @ [e]\<rparr>
          | _ \<Rightarrow> st) in
      Inr (if \<not> closing then st1\<lparr>sc_open := el_name e # sc_open st1\<rparr>
           else if sc_open st1 = [] then st1\<lparr>sc_closed := True\<rparr>
           else st1))"

definition scan_close :: "scan \<Rightarrow> str \<Rightarrow> (xml_error, scan) result" where
  "scan_close st name =
     (case sc_open st of
        [] \<Rightarrow> Inl (ClosesNothing name)
      | n # ns \<Rightarrow>
          if n \<noteq> name then Inl (ClosesOther name n)
          else Inr (if ns = [] then st\<lparr>sc_open := ns, sc_closed := True\<rparr> else st\<lparr>sc_open := ns\<rparr>))"

lemma skip_known_pos: "\<forall>(p, c) \<in> set ks. p \<noteq> [] \<Longrightarrow> skip_known ks s = Inr (Some n) \<Longrightarrow> 0 < n"
  by (induction ks s rule: skip_known.induct) (auto split: option.splits)

lemma skipped_pos: "skipped s = Inr (Some n) \<Longrightarrow> 0 < n"
  using skip_known_pos [of skip_kinds s n]
  by (auto simp: skipped_def skip_kinds_def split: sum.splits option.splits if_splits list.splits prod.splits)

lemma start_tag_pos: "start_tag s = Inr (e, c, n) \<Longrightarrow> 0 < n"
  by (auto simp: start_tag_def Let_def split: option.splits if_splits sum.splits)

function xml_scan :: "scan \<Rightarrow> str \<Rightarrow> (xml_error, scan) result" where
  "xml_scan st [] = Inr st"
| "xml_scan st (c # s) =
     (if c \<noteq> 60 then
        (if sc_open st = [] \<and> \<not> ascii_space c then Inl TextOutside else xml_scan st s)
      else case skipped (c # s) of
        Inl e \<Rightarrow> Inl e
      | Inr (Some n) \<Rightarrow>
          (case check_encoding (take n (c # s)) of Inl e \<Rightarrow> Inl e | Inr _ \<Rightarrow> xml_scan st (drop n (c # s)))
      | Inr None \<Rightarrow>
          (case strip_prefix (lit ''</'') (c # s) of
             Some after \<Rightarrow>
               (case split_once 62 after of
                  None \<Rightarrow> Inl ClosingNeverEnds
                | Some (inner, t) \<Rightarrow>
                    (case scan_close st (trim_end_matches ascii_space inner) of
                       Inl e \<Rightarrow> Inl e | Inr st' \<Rightarrow> xml_scan st' t))
           | None \<Rightarrow>
               (case start_tag (c # s) of
                  Inl e \<Rightarrow> Inl e
                | Inr (e, closing, n) \<Rightarrow>
                    (case scan_start st e closing of Inl x \<Rightarrow> Inl x | Inr st' \<Rightarrow> xml_scan st' (drop n (c # s))))))"
  by pat_completeness auto
termination
proof (relation "measure (length \<circ> snd)", goal_cases)
  case 1
  then show ?case by simp
qed (auto intro!: diff_less dest!: skipped_pos start_tag_pos split_once_length strip_prefix_length)

declare xml_scan.simps(2) [simp del]

definition scan_new :: scan where
  "scan_new = \<lparr>sc_open = [], sc_root = None, sc_children = [], sc_closed = False\<rparr>"

definition BOM :: bytes where "BOM = [0xef, 0xbb, 0xbf]"

definition xml_parse :: "bytes \<Rightarrow> (xml_error, document) result" where
  "xml_parse bs =
     (case utf8_dec (case strip_prefix BOM bs of Some t \<Rightarrow> t | None \<Rightarrow> bs) of
        None \<Rightarrow> Inl NotUtf8
      | Some text \<Rightarrow>
          (case xml_scan scan_new text of
             Inl e \<Rightarrow> Inl e
           | Inr st \<Rightarrow>
               (case sc_open st of
                  name # _ \<Rightarrow> Inl (NeverClosed name)
                | [] \<Rightarrow>
                    (case sc_root st of
                       None \<Rightarrow> Inl NoElement
                     | Some r \<Rightarrow> Inr \<lparr>doc_root = r, doc_children = sc_children st\<rparr>))))"

section \<open>Attribute lists\<close>

datatype attrs_error =
    NotParsed xml_error
  | OtherRoot str
  | PairUnnamed
  | PairName value_error
  | OtherCase str "str list"
  | NoPairValue str
  | Refused value_error
  | Repeated str nat

datatype attrs_lookup = AAbsent | AText str | ARejected attrs_error

record attributes_file =
  af_version :: attrs_lookup
  af_value :: attrs_lookup

definition ROOT :: str where "ROOT = lit ''Attributes''"
definition PAIR :: str where "PAIR = lit ''Attr''"

definition as_lookup :: "xml_lookup \<Rightarrow> attrs_lookup" where
  "as_lookup l = (case l of XAbsent \<Rightarrow> AAbsent | XText t \<Rightarrow> AText t | XRejected e \<Rightarrow> ARejected (Refused e))"

text \<open>The pairs whose name is the one asked for, and the names that are it in another case.\<close>

fun named_pairs :: "str \<Rightarrow> element list \<Rightarrow> (attrs_error, element list \<times> str list) result" where
  "named_pairs name [] = Inr ([], [])"
| "named_pairs name (e # es) =
     (if el_name e \<noteq> PAIR then named_pairs name es
      else case attribute e (lit ''name'') of
        XAbsent \<Rightarrow> Inl PairUnnamed
      | XRejected why \<Rightarrow> Inl (PairName why)
      | XText n \<Rightarrow>
          res_bind (named_pairs name es) (\<lambda>(exact, other).
            Inr (if n = name then (e # exact, other)
                 else if eq_ignore_ascii_case n name then (exact, n # other)
                 else (exact, other))))"

definition pair_value :: "element list \<Rightarrow> str \<Rightarrow> attrs_lookup" where
  "pair_value es name =
     (case named_pairs name es of
        Inl e \<Rightarrow> ARejected e
      | Inr ([], []) \<Rightarrow> AAbsent
      | Inr ([], spellings) \<Rightarrow> ARejected (OtherCase name spellings)
      | Inr ([one], _) \<Rightarrow>
          (case attribute one (lit ''value'') of XAbsent \<Rightarrow> ARejected (NoPairValue name) | l \<Rightarrow> as_lookup l)
      | Inr (many, _) \<Rightarrow> ARejected (Repeated name (length many)))"

definition attrs_parse :: "bytes \<Rightarrow> str \<Rightarrow> attributes_file" where
  "attrs_parse doc name =
     (case xml_parse doc of
        Inl why \<Rightarrow> \<lparr>af_version = ARejected (NotParsed why), af_value = ARejected (NotParsed why)\<rparr>
      | Inr d \<Rightarrow>
          if el_name (doc_root d) \<noteq> ROOT
          then \<lparr>af_version = as_lookup (attribute (doc_root d) (lit ''Version'')),
                af_value = ARejected (OtherRoot (el_name (doc_root d)))\<rparr>
          else \<lparr>af_version = as_lookup (attribute (doc_root d) (lit ''Version'')),
                af_value = pair_value (doc_children d) name\<rparr>)"

end
