(* ===== verification/XmlDoc.thy ===== *)
theory XmlDoc
  imports Xml
begin

text \<open>
  Documents as they are written, and what the scanner of theory Xml makes of them: elements with any
  nesting, attributes in either quotes, comments, processing instructions, CDATA sections and a document
  type declaration around and between them. The reader of attribute lists gives back every setting.
\<close>

section \<open>First occurrences\<close>

lemma split_at_text_first:
  assumes "\<not> contains p (a @ butlast p)" and "p \<noteq> []"
  shows "split_at_text p (a @ p @ t) = Some (a, t)"
  using assms(1)
proof (induction a)
  case Nil
  then show ?case using assms(2) by (cases p) simp_all
next
  case (Cons c a)
  have "strip_prefix p (c # a @ p @ t) = None"
  proof (rule ccontr)
    assume "strip_prefix p (c # a @ p @ t) \<noteq> None"
    then obtain u where u: "c # a @ p @ t = p @ u" by (auto simp: strip_prefix_iff)
    have "length p \<le> length (c # a @ butlast p)" using assms(2) by simp
    moreover have "c # a @ p @ t = (c # a @ butlast p) @ last p # t" using assms(2) by simp
    ultimately have "take (length p) (c # a @ butlast p) = p" using u
      by (metis append_eq_conv_conj take_append diff_is_0_eq' take0 append_Nil2)
    then have "c # a @ butlast p = p @ drop (length p) (c # a @ butlast p)" by (metis append_take_drop_id)
    then have "contains p (c # a @ butlast p)" unfolding contains_iff by (metis append_Nil)
    then show False using Cons.prems by simp
  qed
  moreover have "\<not> contains p (a @ butlast p)" using Cons.prems by (auto simp: contains_iff) (metis append_Cons)
  ultimately show ?case using Cons.IH by simp
qed

lemma find_pos_append: "list_all (\<lambda>c. \<not> P c) a \<Longrightarrow> P x \<Longrightarrow> find_pos P (a @ x # t) = Some (length a)"
  by (induction a) auto

section \<open>Tags as they are written\<close>

text \<open>An attribute: the space in front, its name, the space around the equals sign, the quote, the raw value.\<close>

type_synonym xattr = "str \<times> str \<times> str \<times> str \<times> nat \<times> str"

definition attr_text :: "xattr \<Rightarrow> str" where
  "attr_text x = (case x of (sp, n, s1, s2, q, v) \<Rightarrow> sp @ n @ s1 @ 61 # s2 @ q # v @ [q])"

definition attr_pair :: "xattr \<Rightarrow> str \<times> str" where
  "attr_pair x = (case x of (sp, n, s1, s2, q, v) \<Rightarrow> (n, v))"

definition spaces :: "str \<Rightarrow> bool" where "spaces s \<longleftrightarrow> list_all ascii_space s"

text \<open>
  A name: letters, digits, the marks XML allows and anything beyond ASCII, with no digit, hyphen or full stop
  in front.
\<close>

definition xml_name :: "str \<Rightarrow> bool" where
  "xml_name n \<longleftrightarrow> n \<noteq> [] \<and>
     (\<forall>c \<in> set n. (65 \<le> c \<and> c \<le> 90) \<or> (97 \<le> c \<and> c \<le> 122) \<or> (48 \<le> c \<and> c \<le> 57) \<or> c \<in> {95, 58, 45, 46} \<or> 128 \<le> c) \<and>
     hd n \<notin> {45, 46} \<and> \<not> (48 \<le> hd n \<and> hd n \<le> 57)"

lemma xml_name_iff: "xml_name n \<longleftrightarrow> is_name n"
  by (cases n) (auto simp: xml_name_def is_name_def name_first_def name_later_def is_alpha_def is_digit_def list_all_iff)

definition attr_ok :: "xattr \<Rightarrow> bool" where
  "attr_ok x = (case x of (sp, n, s1, s2, q, v) \<Rightarrow>
     spaces sp \<and> sp \<noteq> [] \<and> xml_name n \<and> spaces s1 \<and> spaces s2 \<and> (q = 34 \<or> q = 39) \<and> q \<notin> set v \<and> 60 \<notin> set v)"

lemma attr_ok_eq: "attr_ok (sp, n, s1, s2, q, v) \<longleftrightarrow>
    spaces sp \<and> sp \<noteq> [] \<and> is_name n \<and> spaces s1 \<and> spaces s2 \<and> (q = 34 \<or> q = 39) \<and> q \<notin> set v \<and> 60 \<notin> set v"
  by (simp add: attr_ok_def xml_name_iff)

definition attrs_ok :: "xattr list \<Rightarrow> bool" where
  "attrs_ok as \<longleftrightarrow> list_all attr_ok as \<and> distinct (map (fst \<circ> attr_pair) as)"

definition attrs_text :: "xattr list \<Rightarrow> str" where "attrs_text as = concat (map attr_text as)"

lemma name_char: "name_later c \<Longrightarrow> \<not> ascii_space c \<and> c \<noteq> 61 \<and> c \<noteq> 47 \<and> c \<noteq> 62 \<and> c \<noteq> 34 \<and> c \<noteq> 39 \<and> c \<noteq> 60 \<and> c \<noteq> 33 \<and> c \<noteq> 63"
  by (auto simp: name_later_def name_first_def is_alpha_def is_digit_def ascii_space_def)

lemma name_chars: "is_name n \<Longrightarrow> n \<noteq> [] \<and> list_all name_later n"
  by (cases n) (auto simp: is_name_def name_later_def)

lemma name_all: "is_name n \<Longrightarrow> (\<And>c. name_later c \<Longrightarrow> P c) \<Longrightarrow> list_all P n"
  using name_chars [of n] by (auto simp: list_all_iff)

lemma drop_spaces: "spaces a \<Longrightarrow> s = [] \<or> \<not> ascii_space (hd s) \<Longrightarrow> dropWhile ascii_space (a @ s) = s"
  by (cases s) (auto simp: spaces_def list_all_iff dropWhile_append2)

lemma attributes_one:
  assumes "attr_ok x" and "fst (attr_pair x) \<notin> fst ` set out"
  shows "attributes out (attr_text x @ t) = attributes (out @ [attr_pair x]) t"
proof -
  obtain sp n s1 s2 q v where x: "x = (sp, n, s1, s2, q, v)" by (cases x)
  have a: "spaces sp" "is_name n" "spaces s1" "spaces s2" "q = 34 \<or> q = 39" "q \<notin> set v" "60 \<notin> set v"
    using assms(1) by (simp_all add: attr_ok_eq x)
  let ?rest = "s1 @ 61 # s2 @ q # v @ q # t"
  have ne: "n \<noteq> []" "\<not> ascii_space (hd n)" using name_chars [OF a(2)] name_char by (cases n; auto)+
  have raw: "dropWhile ascii_space (attr_text x @ t) = n @ ?rest"
    using drop_spaces [OF a(1), of "n @ ?rest"] ne by (simp add: attr_text_def x)
  have plain: "list_all (\<lambda>c. \<not> (ascii_space c \<or> c = 61)) n" using name_all [OF a(2)] name_char by auto
  have pos: "find_pos (\<lambda>c. ascii_space c \<or> c = 61) (n @ ?rest) = Some (length n)"
  proof (cases s1)
    case Nil
    then show ?thesis using find_pos_append [OF plain, of 61] by simp
  next
    case (Cons c u)
    then show ?thesis using find_pos_append [OF plain, of c] a(3) by (simp add: spaces_def)
  qed
  have eq: "dropWhile ascii_space ?rest = 61 # s2 @ q # v @ q # t"
    using drop_spaces [OF a(3), of "61 # s2 @ q # v @ q # t"] by (simp add: ascii_space_def)
  have qu: "dropWhile ascii_space (s2 @ q # v @ q # t) = q # v @ q # t"
    using drop_spaces [OF a(4), of "q # v @ q # t"] a(5) by (auto simp: ascii_space_def)
  have "\<not> list_ex (\<lambda>(m, _). m = n) out" using assms(2) by (force simp: attr_pair_def x list_ex_iff)
  then show ?thesis
    using raw pos eq qu ne a by (subst attributes.simps) (auto simp: Let_def attr_pair_def x)
qed

lemma attributes_text:
  "list_all attr_ok as \<Longrightarrow> distinct (map fst out @ map (fst \<circ> attr_pair) as) \<Longrightarrow> spaces sp \<Longrightarrow>
     attributes out (attrs_text as @ sp) = Inr (out @ map attr_pair as)"
proof (induction as arbitrary: out)
  case Nil
  then have "dropWhile ascii_space sp = []" by (simp add: spaces_def list_all_iff)
  then show ?case by (simp add: attrs_text_def attributes.simps)
next
  case (Cons x as)
  have "attributes out (attr_text x @ attrs_text as @ sp) = attributes (out @ [attr_pair x]) (attrs_text as @ sp)"
    using Cons.prems by (intro attributes_one) auto
  then show ?case using Cons by (simp add: attrs_text_def)
qed

lemma tag_end_plain: "list_all (\<lambda>c. c \<noteq> 34 \<and> c \<noteq> 39 \<and> c \<noteq> 62) a \<Longrightarrow>
    tag_end None (a @ t) = map_option (\<lambda>i. length a + i) (tag_end None t)"
  by (induction a) (cases "tag_end None t"; simp)+

lemma tag_end_quoted: "q \<notin> set v \<Longrightarrow> tag_end (Some q) (v @ q # t) = map_option (\<lambda>i. length v + 1 + i) (tag_end None t)"
  by (induction v) (cases "tag_end None t"; simp)+

lemma spaces_plain: "spaces s \<Longrightarrow> list_all (\<lambda>c. c \<noteq> 34 \<and> c \<noteq> 39 \<and> c \<noteq> 62) s"
  by (auto simp: spaces_def list_all_iff ascii_space_def)

lemma tag_end_attr:
  assumes "attr_ok x"
  shows "tag_end None (attr_text x @ t) = map_option (\<lambda>i. length (attr_text x) + i) (tag_end None t)"
proof -
  obtain sp n s1 s2 q v where x: "x = (sp, n, s1, s2, q, v)" by (cases x)
  let ?a = "sp @ n @ s1 @ 61 # s2"
  have a: "spaces sp" "is_name n" "spaces s1" "spaces s2" "q = 34 \<or> q = 39" "q \<notin> set v"
    using assms by (simp_all add: attr_ok_eq x)
  have "list_all (\<lambda>c. c \<noteq> 34 \<and> c \<noteq> 39 \<and> c \<noteq> 62) n" using name_all [OF a(2)] name_char by auto
  then have "list_all (\<lambda>c. c \<noteq> 34 \<and> c \<noteq> 39 \<and> c \<noteq> 62) ?a" using a spaces_plain by simp
  note p = tag_end_plain [OF this, of "q # v @ q # t"]
  have "tag_end None (q # v @ q # t) = map_option (\<lambda>i. length v + 2 + i) (tag_end None t)"
    using tag_end_quoted [OF a(6), of t] a(5) by (cases "tag_end None t") auto
  then show ?thesis using p by (cases "tag_end None t") (simp_all add: attr_text_def x)
qed

lemma tag_end_attrs:
  "list_all attr_ok as \<Longrightarrow> tag_end None (attrs_text as @ t) = map_option (\<lambda>i. length (attrs_text as) + i) (tag_end None t)"
proof (induction as)
  case Nil
  then show ?case by (cases "tag_end None t") (simp_all add: attrs_text_def)
next
  case (Cons x as)
  then show ?case using tag_end_attr [of x "attrs_text as @ t"]
    by (cases "tag_end None t") (simp_all add: attrs_text_def)
qed

text \<open>A start tag, closing itself or not.\<close>

definition tag_text :: "str \<Rightarrow> xattr list \<Rightarrow> str \<Rightarrow> bool \<Rightarrow> str" where
  "tag_text n as sp closing = 60 # n @ attrs_text as @ sp @ (if closing then [47, 62] else [62])"

definition tag_ok :: "str \<Rightarrow> xattr list \<Rightarrow> str \<Rightarrow> bool" where
  "tag_ok n as sp \<longleftrightarrow> xml_name n \<and> attrs_ok as \<and> spaces sp"

lemma tag_ok_eq: "tag_ok n as sp \<longleftrightarrow> is_name n \<and> attrs_ok as \<and> spaces sp"
  by (simp add: tag_ok_def xml_name_iff)

definition tag_element :: "str \<Rightarrow> xattr list \<Rightarrow> element" where
  "tag_element n as = \<lparr>el_name = n, el_attrs = map attr_pair as\<rparr>"

lemma last_attrs: "list_all attr_ok as \<Longrightarrow> as \<noteq> [] \<Longrightarrow> last (attrs_text as) \<noteq> 47 \<and> attrs_text as \<noteq> []"
proof (induction as rule: rev_induct)
  case (snoc x as)
  then show ?case by (cases x) (auto simp: attrs_text_def attr_text_def attr_ok_eq)
qed simp

lemma start_tag_text:
  assumes "tag_ok n as sp"
  shows "start_tag (tag_text n as sp closing @ t) =
    Inr (tag_element n as, closing, length (tag_text n as sp closing))"
proof -
  have a: "is_name n" "list_all attr_ok as" "distinct (map (fst \<circ> attr_pair) as)" "spaces sp"
    using assms by (simp_all add: tag_ok_eq attrs_ok_def)
  let ?i = "attrs_text as @ sp @ (if closing then [47] else [])" and ?P = "\<lambda>c. ascii_space c \<or> c = 47 \<or> c = 62"
  let ?body = "?i @ 62 # t"
  have after: "drop 1 (tag_text n as sp closing @ t) = n @ ?body" by (simp add: tag_text_def)
  have plain: "list_all (\<lambda>c. \<not> ?P c) n" using name_all [OF a(1)] name_char by auto
  have pos: "find_pos ?P (n @ ?body) = Some (length n)"
  proof -
    obtain c u where c: "?body = c # u" by (cases ?body) simp_all
    have "?P c"
    proof (cases as)
      case Nil
      then show ?thesis using c a(4) by (cases sp) (auto simp: attrs_text_def spaces_def split: if_splits)
    next
      case (Cons x ys)
      then show ?thesis using c a(2) by (cases x) (auto simp: attrs_text_def attr_text_def attr_ok_eq spaces_def neq_Nil_conv)
    qed
    then show ?thesis using find_pos_append [OF plain, of c u] c by simp
  qed
  have "list_all (\<lambda>c. c \<noteq> 34 \<and> c \<noteq> 39 \<and> c \<noteq> 62) (sp @ (if closing then [47] else []))"
    using spaces_plain [OF a(4)] by simp
  from tag_end_plain [OF this, of "62 # t"] have e: "tag_end None ?body = Some (length ?i)"
    using tag_end_attrs [OF a(2), of "(sp @ (if closing then [47] else [])) @ 62 # t"] by simp
  have cl: "(?i \<noteq> [] \<and> last ?i = 47) = closing"
  proof (cases closing)
    case False
    show ?thesis
    proof (cases "sp = []")
      case True
      then show ?thesis using False last_attrs [OF a(2)] by (cases "as = []") (auto simp: attrs_text_def)
    next
      case False
      then have "last sp \<in> set sp" by simp
      then have "last sp \<noteq> 47" using a(4) by (auto simp: spaces_def list_all_iff ascii_space_def)
      then show ?thesis using \<open>\<not> closing\<close> False by simp
    qed
  qed simp
  have i: "(if closing then butlast ?i else ?i) = attrs_text as @ sp" by (simp add: butlast_append)
  have at: "attributes [] (attrs_text as @ sp) = Inr (map attr_pair as)"
    using attributes_text [OF a(2), of "[]" sp] a(3,4) by simp
  show ?thesis
  proof (cases closing)
    case True
    then show ?thesis using pos e at a(1)
      by (simp add: start_tag_def Let_def tag_element_def tag_text_def butlast_append)
  next
    case False
    then have "attrs_text as @ sp = [] \<or> last (attrs_text as @ sp) \<noteq> 47" using cl by auto
    then show ?thesis using pos e at a(1) False
      by (auto simp add: start_tag_def Let_def tag_element_def tag_text_def)
  qed
qed

section \<open>Documents as they are written\<close>

text \<open>
  Character data, something skipped (a processing instruction, a comment or a CDATA section), a document
  type declaration, or an element with its attributes, the space before the end of its tag, its content or
  none, and the space in its closing tag.
\<close>

datatype skip_kind = Instruction | Comment | Cdata

datatype xnode =
    Chars str
  | Skip skip_kind str
  | Doctype str
  | Elem str "xattr list" str "xnode list option" str

fun marks :: "skip_kind \<Rightarrow> str \<times> str" where
  "marks Instruction = (lit ''<?'', lit ''?>'')"
| "marks Comment = (lit ''<!--'', lit ''-->'')"
| "marks Cdata = (lit ''<![CDATA['', lit '']]>'')"

definition skip_text :: "skip_kind \<Rightarrow> str \<Rightarrow> str" where
  "skip_text k body = fst (marks k) @ body @ snd (marks k)"

fun node_text :: "xnode \<Rightarrow> str" where
  "node_text (Chars s) = s"
| "node_text (Skip k body) = skip_text k body"
| "node_text (Doctype s) = lit ''<!DOCTYPE '' @ s @ [62]"
| "node_text (Elem n as sp None end) = tag_text n as sp True"
| "node_text (Elem n as sp (Some kids) end) = tag_text n as sp False @ concat (map node_text kids) @ 60 # 47 # n @ end @ [62]"

text \<open>
  A declaration may name an encoding in quotes: one of the four names of UTF-8 and ASCII, in any case. The mark
  that ends what is skipped does not come earlier.
\<close>

definition names_utf8 :: "str \<Rightarrow> bool" where
  "names_utf8 body \<longleftrightarrow> (\<exists>a b q e q' c. body = a @ lit ''encoding'' @ b @ q # e @ q' # c \<and>
     \<not> contains (lit ''encoding'') (a @ lit ''encodin'') \<and> {34, 39} \<inter> set (b @ e) = {} \<and> {q, q'} \<subseteq> {34, 39} \<and>
     (\<exists>n \<in> {lit ''utf-8'', lit ''utf8'', lit ''us-ascii'', lit ''ascii''}. eq_ignore_ascii_case e n))"

definition skip_ok :: "skip_kind \<Rightarrow> str \<Rightarrow> bool" where
  "skip_ok k body \<longleftrightarrow> \<not> contains (snd (marks k)) (body @ butlast (snd (marks k))) \<and>
     (k = Instruction \<and> starts_with (lit ''xml'') body \<longrightarrow>
        \<not> contains (lit ''encoding'') (body @ lit ''?>'') \<or> names_utf8 body)"

lemma split_at_text_none: "\<not> contains p s \<Longrightarrow> p \<noteq> [] \<Longrightarrow> split_at_text p s = None"
proof (induction s)
  case (Cons c s)
  have "\<not> contains p s"
  proof
    assume "contains p s"
    then obtain a b where "s = a @ p @ b" by (auto simp: contains_iff)
    then have "c # s = (c # a) @ p @ b" by simp
    with Cons.prems(1) show False unfolding contains_iff by blast
  qed
  moreover have "strip_prefix p (c # s) = None"
  proof (rule ccontr)
    assume "strip_prefix p (c # s) \<noteq> None"
    then obtain t where "c # s = [] @ p @ t" by (auto simp: strip_prefix_iff)
    with Cons.prems(1) show False unfolding contains_iff by blast
  qed
  ultimately show ?case using Cons.IH Cons.prems(2) by simp
qed simp

lemma contains_append: "\<not> contains p (a @ s) \<Longrightarrow> \<not> contains p s"
  unfolding contains_iff by (metis append.assoc)

lemma behind_xml:
  assumes "lit ''xml'' @ r = a @ 101 # w" and "110 = hd w"
  shows "\<exists>a'. a = lit ''xml'' @ a'"
proof -
  consider "a = []" | x where "a = [x]" | x y where "a = [x, y]" | x y z a' where "a = x # y # z # a'"
    by (cases a; cases "tl a"; cases "tl (tl a)") auto
  then show ?thesis using assms by cases simp_all
qed

lemma declared_encoding:
  assumes "names_utf8 (lit ''xml'' @ r)"
  shows "check_encoding (lit ''<?xml'' @ r @ t) = Inr ()"
proof -
  obtain a b q e q' c where r: "lit ''xml'' @ r = a @ lit ''encoding'' @ b @ q # e @ q' # c"
    "\<not> contains (lit ''encoding'') (a @ lit ''encodin'')" "{34, 39} \<inter> set (b @ e) = {}" "{q, q'} \<subseteq> {34, 39}"
    "\<exists>n \<in> {lit ''utf-8'', lit ''utf8'', lit ''us-ascii'', lit ''ascii''}. eq_ignore_ascii_case e n"
    using assms unfolding names_utf8_def by (elim exE conjE) (rule that)
  have "lit ''encoding'' = 101 # 110 # lit ''coding''" by simp
  then have "lit ''xml'' @ r = a @ 101 # (110 # lit ''coding'' @ b @ q # e @ q' # c)" using r(1) by (simp only: append.simps)
  then have "\<exists>a'. a = lit ''xml'' @ a'" by (rule behind_xml) simp
  then obtain a' where a: "a = lit ''xml'' @ a'" by blast
  let ?u = "b @ q # e @ q' # c @ t"
  have body: "r @ t = a' @ lit ''encoding'' @ ?u" using r(1) by (simp add: a)
  have "\<not> contains (lit ''encoding'') (a' @ butlast (lit ''encoding''))" using r(2) contains_append [of _ "lit ''xml''"] by (simp add: a)
  then have sp: "split_at_text (lit ''encoding'') (r @ t) = Some (a', ?u)"
    unfolding body by (rule split_at_text_first) simp
  have fp: "find_pos (\<lambda>c. c = 34 \<or> c = 39) ?u = Some (length b)"
    using r(3,4) by (intro find_pos_append) (auto simp: list_all_iff)
  have tk: "takeWhile (\<lambda>c. c \<noteq> 34 \<and> c \<noteq> 39) (drop (length b + 1) ?u) = e"
    using r(3,4) by (auto simp: takeWhile_append)
  have strip: "strip_prefix (lit ''<?xml'') (lit ''<?xml'' @ r @ t) = Some (r @ t)" by (simp add: strip_prefix_iff del: lit_simps)
  show ?thesis
    using r(5) unfolding check_encoding_def strip option.case sp prod.case fp Let_def tk
    by (auto simp del: lit_simps)
qed

lemma skip_encoding:
  assumes "skip_ok k body"
  shows "check_encoding (skip_text k body) = Inr ()"
proof (cases "k = Instruction \<and> starts_with (lit ''xml'') body")
  case True
  then obtain r where r: "body = lit ''xml'' @ r" by (auto simp: starts_with_iff simp del: lit_simps)
  have t: "skip_text k body = lit ''<?xml'' @ r @ lit ''?>''" using True r by (simp add: skip_text_def)
  consider "\<not> contains (lit ''encoding'') (body @ lit ''?>'')" | "names_utf8 body" using assms True by (auto simp: skip_ok_def simp del: lit_simps)
  then show ?thesis
  proof cases
    case 1
    then have "\<not> contains (lit ''encoding'') (r @ lit ''?>'')" using contains_append [of _ "lit ''xml''" "r @ lit ''?>''"] by (simp add: r del: lit_simps)
    then have "split_at_text (lit ''encoding'') (r @ lit ''?>'') = None" by (rule split_at_text_none) simp
    moreover have "strip_prefix (lit ''<?xml'') (lit ''<?xml'' @ r @ lit ''?>'') = Some (r @ lit ''?>'')" by (simp add: strip_prefix_iff del: lit_simps)
    ultimately show ?thesis unfolding t check_encoding_def by (simp del: lit_simps)
  next
    case 2
    then show ?thesis unfolding t by (intro declared_encoding) (simp only: r)
  qed
next
  case False
  have "strip_prefix (lit ''<?xml'') (skip_text k body) = None"
  proof (cases k)
    case Instruction
    then have "\<not> starts_with (lit ''xml'') body" using False by simp
    then have "strip_prefix (lit ''xml'') (body @ [63, 62]) = None"
      by (cases body; cases "tl body"; cases "tl (tl body)") (auto simp: starts_with_def split: if_splits)
    then show ?thesis using Instruction by (simp add: skip_text_def)
  qed (simp_all add: skip_text_def)
  then show ?thesis by (simp add: check_encoding_def)
qed

fun node_ok :: "xnode \<Rightarrow> bool" where
  "node_ok (Chars s) \<longleftrightarrow> 60 \<notin> set s"
| "node_ok (Skip k body) \<longleftrightarrow> skip_ok k body"
| "node_ok (Doctype s) \<longleftrightarrow> 62 \<notin> set s \<and> 91 \<notin> set s"
| "node_ok (Elem n as sp None end) \<longleftrightarrow> tag_ok n as sp"
| "node_ok (Elem n as sp (Some kids) end) \<longleftrightarrow> tag_ok n as sp \<and> list_all node_ok kids \<and> spaces end"

fun node_elements :: "xnode \<Rightarrow> element list" where
  "node_elements (Elem n as sp kids end) = [tag_element n as]"
| "node_elements x = []"

lemma xml_scan_tag:
  "skipped (60 # s) = Inr None \<Longrightarrow> s = [] \<or> hd s \<noteq> 47 \<Longrightarrow> start_tag (60 # s) = Inr (e, closing, n) \<Longrightarrow>
     xml_scan st (60 # s) = (case scan_start st e closing of Inl x \<Rightarrow> Inl x | Inr st' \<Rightarrow> xml_scan st' (drop n (60 # s)))"
  by (cases s) (simp_all add: xml_scan.simps(2) split: sum.splits)

lemma xml_scan_skip:
  "skipped (c # s) = Inr (Some n) \<Longrightarrow> c = 60 \<Longrightarrow> check_encoding (take n (c # s)) = Inr () \<Longrightarrow>
     xml_scan st (c # s) = xml_scan st (drop n (c # s))"
  by (simp add: xml_scan.simps(2))

lemma not_skipped: "c \<noteq> 63 \<Longrightarrow> c \<noteq> 33 \<Longrightarrow> skipped (60 # c # s) = Inr None"
  by (simp add: skipped_def skip_kinds_def)

lemma scan_tag_text:
  assumes "tag_ok n as sp"
  shows "xml_scan st (tag_text n as sp closing @ t) =
    (case scan_start st (tag_element n as) closing of Inl x \<Rightarrow> Inl x | Inr st' \<Rightarrow> xml_scan st' t)"
proof -
  obtain c u where n: "n = c # u" "name_later c"
    using assms name_chars [of n] by (cases n) (auto simp: tag_ok_eq)
  obtain s where s: "tag_text n as sp closing @ t = 60 # c # s" by (simp add: tag_text_def n)
  have "skipped (60 # c # s) = Inr None" using name_char [OF n(2)] by (intro not_skipped) auto
  moreover have "start_tag (60 # c # s) = Inr (tag_element n as, closing, length (tag_text n as sp closing))"
    using start_tag_text [OF assms, of closing t] s by simp
  ultimately have "xml_scan st (60 # c # s) = (case scan_start st (tag_element n as) closing of
      Inl x \<Rightarrow> Inl x | Inr st' \<Rightarrow> xml_scan st' (drop (length (tag_text n as sp closing)) (60 # c # s)))"
    using name_char [OF n(2)] by (intro xml_scan_tag) simp_all
  moreover have "drop (length (tag_text n as sp closing)) (60 # c # s) = t" unfolding s [symmetric] by simp
  ultimately show ?thesis unfolding s by (simp only:)
qed

lemma scan_close_text:
  assumes "is_name n" and "spaces end"
  shows "xml_scan st (60 # 47 # n @ end @ 62 # t) = (case scan_close st n of Inl e \<Rightarrow> Inl e | Inr st' \<Rightarrow> xml_scan st' t)"
proof -
  have "62 \<notin> set (n @ end)"
    using name_all [OF assms(1), of "\<lambda>c. c \<noteq> 62"] name_char assms(2) by (auto simp: list_all_iff spaces_def ascii_space_def)
  then have s: "split_once 62 ((n @ end) @ 62 # t) = Some (n @ end, t)" by (rule split_once_append)
  have "trim_end_matches ascii_space (n @ end) = n"
  proof -
    have "dropWhile ascii_space (rev end @ rev n) = rev n"
    proof -
      have "rev n = [] \<or> \<not> ascii_space (hd (rev n))"
        using name_all [OF assms(1), of "\<lambda>c. \<not> ascii_space c"] name_char
        by (cases "n = []") (auto simp: list_all_iff hd_rev)
      then show ?thesis using assms(2) by (intro drop_spaces) (simp_all add: spaces_def list_all_iff)
    qed
    then show ?thesis by (simp add: trim_end_matches_def)
  qed
  then show ?thesis using s not_skipped [of 47 "n @ end @ 62 # t"] by (simp add: xml_scan.simps(2))
qed

lemma skip_known_text:
  assumes "\<not> contains (snd (marks k)) (body @ butlast (snd (marks k)))"
  shows "skipped (skip_text k body @ t) = Inr (Some (length (skip_text k body)))"
  using assms split_at_text_first [of "snd (marks k)" body t]
  by (cases k) (simp_all add: skipped_def skip_text_def skip_kinds_def)

lemma scan_skip_text: "skip_ok k body \<Longrightarrow> xml_scan st (skip_text k body @ t) = xml_scan st t"
proof -
  assume a: "skip_ok k body"
  obtain s where s: "skip_text k body @ t = 60 # s" by (cases k) (simp_all add: skip_text_def)
  have "take (length (skip_text k body)) (60 # s) = skip_text k body" "drop (length (skip_text k body)) (60 # s) = t"
    unfolding s [symmetric] by simp_all
  then show ?thesis
    using xml_scan_skip [of 60 s "length (skip_text k body)" st] skip_known_text [of k body t] skip_encoding [OF a] a s
    by (simp add: skip_ok_def)
qed

lemma scan_doctype: "62 \<notin> set s \<Longrightarrow> 91 \<notin> set s \<Longrightarrow> xml_scan st (lit ''<!DOCTYPE '' @ s @ 62 # t) = xml_scan st t"
proof -
  assume a: "62 \<notin> set s" "91 \<notin> set s"
  let ?i = "lit ''DOCTYPE '' @ s" and ?n = "11 + length s"
  have "split_once 62 (?i @ 62 # t) = Some (?i, t)" using a by (intro split_once_append) simp
  then have k: "skipped (lit ''<!'' @ ?i @ 62 # t) = Inr (Some ?n)"
    using a by (simp add: skipped_def skip_kinds_def ascii_space_def)
  have "check_encoding (take (Suc (Suc m)) (60 # 33 # u)) = Inr ()" for m u
    unfolding take_Suc_Cons by (simp add: check_encoding_def)
  from this [of "9 + length s" "?i @ 62 # t"] have "check_encoding (take ?n (lit ''<!'' @ ?i @ 62 # t)) = Inr ()"
    by simp
  moreover have "drop n (a @ b) = b" if "n = length a" for n and a b :: str using that by simp
  note this [of ?n "lit ''<!'' @ ?i @ [62]" t]
  ultimately show ?thesis using k xml_scan_skip [of 60 "33 # ?i @ 62 # t" ?n st] by simp
qed

lemma scan_chars: "60 \<notin> set s \<Longrightarrow> sc_open st \<noteq> [] \<or> spaces s \<Longrightarrow> xml_scan st (s @ t) = xml_scan st t"
  by (induction s) (auto simp: xml_scan.simps(2) spaces_def)

text \<open>Below the first level nothing is recorded, at it the elements are.\<close>

definition recorded :: "scan \<Rightarrow> element list \<Rightarrow> scan" where
  "recorded st es = (if length (sc_open st) = 1 then st\<lparr>sc_children := sc_children st @ es\<rparr> else st)"

lemma recorded_simps:
  "recorded st [] = st" "recorded (recorded st es) fs = recorded st (es @ fs)" "sc_open (recorded st es) = sc_open st"
  by (simp_all add: recorded_def)

lemma scan_node:
  "node_ok x \<Longrightarrow> sc_open st \<noteq> [] \<Longrightarrow> xml_scan st (node_text x @ t) = xml_scan (recorded st (node_elements x)) t"
proof (induction x arbitrary: st t rule: node_text.induct)
  case (1 s)
  then show ?case by (simp add: scan_chars recorded_simps)
next
  case (2 k body)
  then show ?case by (simp add: scan_skip_text recorded_simps)
next
  case (3 s)
  then show ?case using scan_doctype [of s st t] by (simp add: recorded_simps del: lit_simps)
next
  case (4 n as sp "end")
  then show ?case
    by (auto simp: scan_tag_text scan_start_def recorded_def Let_def split: list.splits)
next
  case (5 n as sp kids "end")
  let ?st = "recorded st [tag_element n as]"
  let ?in = "?st\<lparr>sc_open := n # sc_open st\<rparr>"
  have start: "scan_start st (tag_element n as) False = Inr ?in"
    using "5.prems"(2) by (auto simp: scan_start_def recorded_def Let_def tag_element_def split: list.splits)
  have kids: "xml_scan ?in (concat (map node_text ks) @ u) = xml_scan ?in u" if "set ks \<subseteq> set kids" for ks u
    using that
  proof (induction ks)
    case (Cons k ks)
    have "length (sc_open ?in) \<noteq> 1" using "5.prems"(2) by simp
    then have "recorded ?in es = ?in" for es unfolding recorded_def by (simp only: if_False)
    moreover have "node_ok k" "k \<in> set kids" using "5.prems"(1) Cons.prems by (auto simp: list_all_iff)
    ultimately have "xml_scan ?in (node_text k @ concat (map node_text ks) @ u) = xml_scan ?in (concat (map node_text ks) @ u)"
      using "5.IH" [of k ?in "concat (map node_text ks) @ u"] by simp
    then show ?case using Cons by simp
  qed simp
  have "scan_close ?in n = Inr ?st"
    using "5.prems"(2) by (simp add: scan_close_def recorded_def)
  then have "xml_scan ?in (60 # 47 # n @ end @ 62 # t) = xml_scan ?st t"
    using "5.prems"(1) scan_close_text [of n "end" ?in t] by (simp add: tag_ok_eq)
  then show ?case
    using start kids [of kids "60 # 47 # n @ end @ 62 # t"] "5.prems"(1) scan_tag_text [of n as sp st False]
    by simp
qed

lemma scan_nodes:
  "list_all node_ok xs \<Longrightarrow> sc_open st \<noteq> [] \<Longrightarrow>
     xml_scan st (concat (map node_text xs) @ t) = xml_scan (recorded st (concat (map node_elements xs))) t"
  by (induction xs arbitrary: st) (simp_all add: scan_node recorded_simps)

text \<open>A document: what stands around the document element is space or skipped.\<close>

fun around_ok :: "xnode \<Rightarrow> bool" where
  "around_ok (Chars s) \<longleftrightarrow> spaces s"
| "around_ok (Skip k body) \<longleftrightarrow> skip_ok k body"
| "around_ok (Doctype s) \<longleftrightarrow> 62 \<notin> set s \<and> 91 \<notin> set s"
| "around_ok (Elem n as sp kids end) \<longleftrightarrow> False"

lemma scan_around: "list_all around_ok xs \<Longrightarrow> xml_scan st (concat (map node_text xs) @ t) = xml_scan st t"
proof (induction xs)
  case (Cons x xs)
  have "xml_scan st (node_text x @ u) = xml_scan st u" for u
  proof (cases x)
    case (Chars s)
    then have "60 \<notin> set s" using Cons.prems by (auto simp: spaces_def list_all_iff ascii_space_def)
    then show ?thesis using Cons.prems Chars by (simp add: scan_chars)
  next
    case (Doctype s)
    then show ?thesis using Cons.prems scan_doctype [of s st u] by (simp del: lit_simps)
  qed (use Cons.prems scan_skip_text in simp_all)
  then show ?case using Cons by simp
qed simp

definition document_text :: "xnode list \<Rightarrow> xnode \<Rightarrow> xnode list \<Rightarrow> str" where
  "document_text pre x post = concat (map node_text pre) @ node_text x @ concat (map node_text post)"

definition document_bytes :: "bool \<Rightarrow> xnode list \<Rightarrow> xnode \<Rightarrow> xnode list \<Rightarrow> bytes" where
  "document_bytes bom pre x post = (if bom then BOM else []) @ utf8_enc (document_text pre x post)"

fun content :: "xnode \<Rightarrow> xnode list" where
  "content (Elem n as sp (Some kids) end) = kids"
| "content x = []"

lemma scan_root:
  assumes "node_ok x" and "x = Elem n as sp kids end"
  shows "xml_scan scan_new (node_text x @ t) =
    xml_scan \<lparr>sc_open = [], sc_root = Some (tag_element n as), sc_children = concat (map node_elements (content x)),
      sc_closed = True\<rparr> t"
proof (cases kids)
  case None
  then show ?thesis using assms
    by (simp add: scan_tag_text scan_start_def scan_new_def Let_def)
next
  case (Some ks)
  let ?in = "\<lparr>sc_open = [n], sc_root = Some (tag_element n as), sc_children = [], sc_closed = False\<rparr>"
  let ?u = "60 # 47 # n @ end @ 62 # t"
  have a: "tag_ok n as sp" "list_all node_ok ks" "spaces end" using assms Some by simp_all
  have "xml_scan scan_new (node_text x @ t) = xml_scan ?in (concat (map node_text ks) @ ?u)"
    using a assms(2) Some by (simp add: scan_tag_text scan_start_def scan_new_def Let_def tag_element_def)
  also have "\<dots> = xml_scan (recorded ?in (concat (map node_elements ks))) ?u"
    using scan_nodes [OF a(2), of ?in ?u] by simp
  also have "\<dots> = (case scan_close (recorded ?in (concat (map node_elements ks))) n of Inl e \<Rightarrow> Inl e | Inr st' \<Rightarrow> xml_scan st' t)"
    using a by (intro scan_close_text) (simp_all add: tag_ok_eq)
  finally show ?thesis using assms(2) Some by (simp add: recorded_def scan_close_def)
qed

lemma ascii_start: "c < 128 \<Longrightarrow> strip_prefix BOM (utf8_enc (c # s)) = None"
proof -
  assume "c < 128"
  then have "unat (byte c) \<noteq> unat (0xef :: u8)" by simp
  then have "byte c \<noteq> 0xef" by metis
  then show ?thesis using \<open>c < 128\<close> by (simp add: utf8_enc1_def BOM_def)
qed

lemma around_start: "list_all around_ok xs \<Longrightarrow> \<exists>c s. c < 128 \<and> concat (map node_text xs) @ 60 # t = c # s"
proof (induction xs)
  case (Cons x xs)
  then obtain c s where c: "c < 128" "concat (map node_text xs) @ 60 # t = c # s" by auto
  show ?case
  proof (cases x)
    case (Chars u)
    then show ?thesis using c Cons.prems by (cases u) (auto simp: spaces_def ascii_space_def)
  next
    case (Skip k body)
    then show ?thesis by (cases k) (simp_all add: skip_text_def)
  qed (use Cons.prems in simp_all)
qed simp

text \<open>What is read of any document: its element, and the elements directly inside, with their attributes.\<close>

lemma document_read:
  assumes "list_all around_ok pre" and "list_all around_ok post" and "node_ok x" and "x = Elem n as sp kids end"
    and "wf_str (document_text pre x post)"
  shows "xml_parse (document_bytes bom pre x post) =
    Inr \<lparr>doc_root = tag_element n as, doc_children = concat (map node_elements (content x))\<rparr>"
proof -
  obtain t where "node_text x = 60 # t" using assms(4) by (cases kids) (auto simp: tag_text_def)
  then obtain c s where "c < 128" "document_text pre x post = c # s"
    using around_start [OF assms(1), of "t @ concat (map node_text post)"] by (auto simp: document_text_def)
  then have "strip_prefix BOM (utf8_enc (document_text pre x post)) = None" using ascii_start by metis
  then have b: "(case strip_prefix BOM (document_bytes bom pre x post) of Some t \<Rightarrow> t | None \<Rightarrow> document_bytes bom pre x post) =
      utf8_enc (document_text pre x post)"
    by (cases bom) (simp_all add: document_bytes_def)
  have "xml_scan scan_new (document_text pre x post) =
      Inr \<lparr>sc_open = [], sc_root = Some (tag_element n as), sc_children = concat (map node_elements (content x)), sc_closed = True\<rparr>"
    using scan_around [OF assms(1)] scan_root [OF assms(3,4)] scan_around [OF assms(2), of _ "[]"]
    by (simp add: document_text_def)
  then show ?thesis unfolding xml_parse_def b using utf8_dec_enc [OF assms(5)] by simp
qed

end
