(* ===== verification/AttrList.thy ===== *)
theory AttrList
  imports XmlDoc
begin

text \<open>
  What the readers of theory Xml give for whole files: any document is read down to its first level, and
  a file of settings (\<^verbatim>\<open>attrs.rs\<close>) gives back the value of every setting, however its characters are
  written, and a refusal where the file does not decide.
\<close>

section \<open>References\<close>

text \<open>A character as it is, one of the five names, a decimal or a hexadecimal character reference.\<close>

datatype ref = Plain nat | Amp | Lt | Gt | Quot | Apos | Dec str | HexCode str

fun ref_text :: "ref \<Rightarrow> str" where
  "ref_text (Plain c) = [c]"
| "ref_text Amp = lit ''&amp;''"
| "ref_text Lt = lit ''&lt;''"
| "ref_text Gt = lit ''&gt;''"
| "ref_text Quot = lit ''&quot;''"
| "ref_text Apos = lit ''&apos;''"
| "ref_text (Dec ds) = lit ''&#'' @ ds @ [59]"
| "ref_text (HexCode ds) = lit ''&#x'' @ ds @ [59]"

text \<open>The character meant: the marks \<^verbatim>\<open>& < > " '\<close> by name, any other by its number.\<close>

fun ref_value :: "ref \<Rightarrow> nat" where
  "ref_value (Plain c) = c"
| "ref_value Amp = 38"
| "ref_value Lt = 60"
| "ref_value Gt = 62"
| "ref_value Quot = 34"
| "ref_value Apos = 39"
| "ref_value (Dec ds) = number_in 10 ds"
| "ref_value (HexCode ds) = number_in 16 ds"

definition char_ok :: "nat \<Rightarrow> bool" where "char_ok c \<longleftrightarrow> is_scalar c \<and> \<not> is_control c"

fun ref_ok :: "ref \<Rightarrow> bool" where
  "ref_ok (Plain c) \<longleftrightarrow> c \<noteq> 38 \<and> c \<noteq> 60 \<and> char_ok c"
| "ref_ok (Dec ds) \<longleftrightarrow> ds \<noteq> [] \<and> list_all (digit_in 10) ds \<and> char_ok (number_in 10 ds)"
| "ref_ok (HexCode ds) \<longleftrightarrow> ds \<noteq> [] \<and> list_all (digit_in 16) ds \<and> char_ok (number_in 16 ds)"
| "ref_ok _ \<longleftrightarrow> True"

definition refs_text :: "ref list \<Rightarrow> str" where "refs_text rs = concat (map ref_text rs)"

lemma digit_in_ten: "digit_in 10 c \<longleftrightarrow> is_digit c"
  by (auto simp: digit_in_def digit_number_def is_digit_def)

lemma decimal_value: "list_all is_digit ds \<Longrightarrow> digits_value n ds = radix_value 10 n ds"
  by (induction ds arbitrary: n) (auto simp: radix_digit_def hex_digit_def is_digit_def)

lemma scalar_bound: "is_scalar c \<Longrightarrow> c < 2 ^ 32"
  by (auto simp: is_scalar_def)

lemma entity_decimal:
  assumes "ref_ok (Dec ds)"
  shows "entity (35 # ds) = Some (number_in 10 ds)"
proof -
  have d: "list_all (digit_in 10) ds" "list_all is_digit ds" "ds \<noteq> []" using assms by (simp_all add: list_all_iff digit_in_ten)
  then obtain c t where ds: "ds = c # t" "48 \<le> c" "c \<le> 57" by (cases ds) (auto simp: is_digit_def)
  have "digits_value 0 ds = Some (number_in 10 ds)"
    using radix_value_number [OF d(1)] decimal_value [OF d(2)] by simp
  moreover have "is_scalar (number_in 10 ds)" "number_in 10 ds < 4294967296"
    using assms scalar_bound [of "number_in 10 ds"] by (simp_all add: char_ok_def)
  ultimately show ?thesis using ds d(2)
    by (simp add: entity_def char_ref_def parse_uint_def strip_prefix_iff)
qed

lemma entity_hex:
  assumes "ref_ok (HexCode ds)"
  shows "entity (35 # 120 # ds) = Some (number_in 16 ds)"
proof -
  have d: "\<forall>c \<in> set ds. digit_in 16 c" "ds \<noteq> []" using assms by (auto simp: list_all_iff)
  moreover from this have "hd ds \<noteq> 43" by (cases ds) (auto simp: digit_in_def)
  moreover have "radix_value 16 0 ds = Some (number_in 16 ds)"
    using assms radix_value_number [of 16 ds] by simp
  moreover have "is_scalar (number_in 16 ds)" "number_in 16 ds < 4294967296"
    using assms scalar_bound [of "number_in 16 ds"] by (simp_all add: char_ok_def)
  ultimately have "u32_from_radix 16 ds = Some (number_in 16 ds)" "list_all ascii_hex ds" "is_scalar (number_in 16 ds)"
    by (auto simp: u32_from_radix_def list_all_iff ascii_hex_def digit_in_iff radix_digit_def split: list.split option.splits)
  then show ?thesis by (simp add: entity_def char_ref_def)
qed

text \<open>The name between ampersand and semicolon.\<close>

lemma ref_entity:
  assumes "ref_ok r" and "\<not> (\<exists>c. r = Plain c)"
  shows "\<exists>n. entity n = Some (ref_value r) \<and> 59 \<notin> set n \<and> ref_text r = 38 # n @ [59]"
proof (cases r)
  case (Dec ds)
  then have "59 \<notin> set ds" using assms(1) by (auto simp: list_all_iff digit_in_def)
  then show ?thesis using Dec entity_decimal assms(1) by (intro exI [of _ "35 # ds"]) simp
next
  case (HexCode ds)
  then have "59 \<notin> set ds" using assms(1) by (auto simp: list_all_iff digit_in_def)
  then show ?thesis using HexCode entity_hex assms(1) by (intro exI [of _ "35 # 120 # ds"]) simp
next
  case Amp
  then show ?thesis by (intro exI [of _ "lit ''amp''"]) (simp add: entity_def)
next
  case Lt
  then show ?thesis by (intro exI [of _ "lit ''lt''"]) (simp add: entity_def)
next
  case Gt
  then show ?thesis by (intro exI [of _ "lit ''gt''"]) (simp add: entity_def)
next
  case Quot
  then show ?thesis by (intro exI [of _ "lit ''quot''"]) (simp add: entity_def)
next
  case Apos
  then show ?thesis by (intro exI [of _ "lit ''apos''"]) (simp add: entity_def)
qed (use assms(2) in blast)

lemma ref_not_control: "ref_ok r \<Longrightarrow> \<not> is_control (ref_value r)"
  by (cases r) (auto simp: char_ok_def is_control_def)

lemma decode_refs_plain: "c \<noteq> 38 \<Longrightarrow> decode_refs (c # s) = res_bind (decode_refs s) (\<lambda>out. Inr (c # out))"
proof -
  assume "c \<noteq> 38"
  then have "split_once 38 (c # s) = map_option (\<lambda>(a, b). (c # a, b)) (split_once 38 s)"
    by (auto split: option.splits)
  then show ?thesis
    by (cases "split_once 38 s")
      (auto simp: decode_refs.simps [of "c # s"] decode_refs.simps [of s] res_bind_def split: option.splits sum.splits)
qed

lemma decode_refs_entity:
  assumes "entity n = Some c" and "59 \<notin> set n"
  shows "decode_refs (38 # n @ 59 # s) = res_bind (decode_refs s) (\<lambda>out. Inr (c # out))"
proof -
  have "split_once 59 (n @ 59 # s) = Some (n, s)" using assms(2) by (rule split_once_append)
  then show ?thesis using assms(1) by (simp add: decode_refs.simps [of "38 # n @ 59 # s"])
qed

lemma decode_refs_text: "list_all ref_ok rs \<Longrightarrow> decode_refs (refs_text rs) = Inr (map ref_value rs)"
proof (induction rs)
  case Nil
  then show ?case by (simp add: refs_text_def decode_refs.simps)
next
  case (Cons r rs)
  show ?case
  proof (cases "\<exists>c. r = Plain c")
    case True
    then show ?thesis using Cons decode_refs_plain by (auto simp: refs_text_def)
  next
    case False
    then obtain n where "entity n = Some (ref_value r)" "59 \<notin> set n" "ref_text r = 38 # n @ [59]"
      using ref_entity [of r] Cons.prems by auto
    then show ?thesis using Cons decode_refs_entity [of n "ref_value r" "refs_text rs"]
      by (simp add: refs_text_def)
  qed
qed

lemma decode_value_text: "list_all ref_ok rs \<Longrightarrow> decode_value (refs_text rs) = Inr (map ref_value rs)"
proof -
  assume a: "list_all ref_ok rs"
  then have "\<not> list_ex is_control (map ref_value rs)"
    using ref_not_control by (auto simp: list_ex_iff list_all_iff)
  then show ?thesis using decode_refs_text [OF a] by (simp add: decode_value_def)
qed

lemma refs_plain: "list_all ref_ok rs \<Longrightarrow> q = 34 \<or> q = 39 \<Longrightarrow> Plain q \<notin> set rs \<Longrightarrow> q \<notin> set (refs_text rs) \<and> 60 \<notin> set (refs_text rs)"
proof (induction rs)
  case (Cons r rs)
  have "q \<notin> set (ref_text r) \<and> 60 \<notin> set (ref_text r)"
    using Cons.prems by (cases r) (auto simp: list_all_iff digit_in_def)
  then show ?case using Cons by (simp add: refs_text_def)
qed (simp add: refs_text_def)

section \<open>Attributes\<close>

text \<open>
  An attribute as it is written: the space in front, before and behind the equals sign, and the quote; its name;
  its value.
\<close>

type_synonym wattr = "(str \<times> str \<times> str \<times> nat) \<times> str \<times> ref list"

definition raw_attr :: "wattr \<Rightarrow> xattr" where
  "raw_attr w = (case w of ((sp, s1, s2, q), n, rs) \<Rightarrow> (sp, n, s1, s2, q, refs_text rs))"

definition wattr_ok :: "wattr \<Rightarrow> bool" where
  "wattr_ok w = (case w of ((sp, s1, s2, q), n, rs) \<Rightarrow>
     spaces sp \<and> sp \<noteq> [] \<and> spaces s1 \<and> spaces s2 \<and> (q = 34 \<or> q = 39) \<and> xml_name n \<and>
     list_all ref_ok rs \<and> Plain q \<notin> set rs)"

definition wattrs_ok :: "wattr list \<Rightarrow> bool" where
  "wattrs_ok as \<longleftrightarrow> list_all wattr_ok as \<and> distinct (map (fst \<circ> snd) as)"

text \<open>The value of the attribute of a name, where there is one.\<close>

definition attr_value :: "wattr list \<Rightarrow> str \<Rightarrow> str option" where
  "attr_value as n = map_option (map ref_value) (map_of (map snd as) n)"

lemma raw_attrs_ok: "wattrs_ok as \<Longrightarrow> attrs_ok (map raw_attr as)"
proof -
  assume a: "wattrs_ok as"
  have "attr_ok (raw_attr w)" if "w \<in> set as" for w
  proof -
    obtain sp s1 s2 q n rs where w: "w = ((sp, s1, s2, q), n, rs)" by (metis prod.collapse)
    then have "wattr_ok ((sp, s1, s2, q), n, rs)" using a that by (auto simp: wattrs_ok_def list_all_iff)
    then show ?thesis using refs_plain [of rs q] by (simp add: w wattr_ok_def raw_attr_def attr_ok_def)
  qed
  moreover have "(\<lambda>x. fst (attr_pair (raw_attr x))) = (\<lambda>x. fst (snd x))"
    by (rule ext) (simp add: raw_attr_def attr_pair_def split: prod.split)
  ultimately show ?thesis using a by (simp add: attrs_ok_def wattrs_ok_def list_all_iff comp_def)
qed

lemma attribute_written:
  assumes "wattrs_ok as"
  shows "attribute (tag_element m (map raw_attr as)) n = (case attr_value as n of None \<Rightarrow> XAbsent | Some v \<Rightarrow> XText v)"
proof -
  have f: "find (\<lambda>(k, _). k = n) (map (attr_pair \<circ> raw_attr) bs) = map_option (\<lambda>rs. (n, refs_text rs)) (map_of (map snd bs) n)" for bs
    by (induction bs) (auto simp: attr_pair_def raw_attr_def)
  have "list_all ref_ok rs" if "map_of (map snd as) n = Some rs" for rs
  proof -
    have "(n, rs) \<in> set (map snd as)" using that by (rule map_of_SomeD)
    then obtain l where "(l, n, rs) \<in> set as" by auto
    then show ?thesis using assms by (cases l) (auto simp: wattrs_ok_def list_all_iff wattr_ok_def)
  qed
  then show ?thesis
    by (cases "map_of (map snd as) n") (simp_all add: attribute_def tag_element_def f attr_value_def decode_value_text)
qed

section \<open>Files of settings\<close>

text \<open>
  What stands in the document element: settings, each with its attributes, the space before the end of its
  tag, its content or none, and the space in its closing tag; and anything else between them.
\<close>

datatype item =
    Other xnode
  | Setting "wattr list" str "xnode list option" str

fun item_node :: "item \<Rightarrow> xnode" where
  "item_node (Other x) = x"
| "item_node (Setting as sp kids end) = Elem (lit ''Attr'') (map raw_attr as) sp kids end"

fun item_ok :: "item \<Rightarrow> bool" where
  "item_ok (Other x) \<longleftrightarrow> node_ok x \<and> (\<forall>n as sp kids end. x = Elem n as sp kids end \<longrightarrow> n \<noteq> lit ''Attr'')"
| "item_ok (Setting as sp kids end) \<longleftrightarrow> wattrs_ok as \<and> attr_value as (lit ''name'') \<noteq> None \<and> spaces sp \<and> spaces end \<and>
     (case kids of None \<Rightarrow> True | Some ks \<Rightarrow> list_all node_ok ks)"

fun setting_attrs :: "item list \<Rightarrow> wattr list list" where
  "setting_attrs [] = []"
| "setting_attrs (Other x # is) = setting_attrs is"
| "setting_attrs (Setting as sp kids end # is) = as # setting_attrs is"

text \<open>The settings: their names, and their values where they have one.\<close>

definition settings_of :: "item list option \<Rightarrow> (str \<times> str option) list" where
  "settings_of is = map (\<lambda>as. (the (attr_value as (lit ''name'')), attr_value as (lit ''value'')))
     (case is of None \<Rightarrow> [] | Some xs \<Rightarrow> setting_attrs xs)"

definition settings_root :: "wattr list \<Rightarrow> str \<Rightarrow> item list option \<Rightarrow> str \<Rightarrow> xnode" where
  "settings_root as sp is end = Elem (lit ''Attributes'') (map raw_attr as) sp (map_option (map item_node) is) end"

definition settings_ok :: "wattr list \<Rightarrow> str \<Rightarrow> item list option \<Rightarrow> str \<Rightarrow> bool" where
  "settings_ok as sp is end \<longleftrightarrow> wattrs_ok as \<and> spaces sp \<and> spaces end \<and>
     (case is of None \<Rightarrow> True | Some xs \<Rightarrow> list_all item_ok xs)"

text \<open>What the file says of a name.\<close>

definition setting_answer :: "(str \<times> str option) list \<Rightarrow> str \<Rightarrow> attrs_lookup" where
  "setting_answer ss name =
     (case filter (\<lambda>s. fst s = name) ss of
        [] \<Rightarrow>
          (case filter (\<lambda>n. n \<noteq> name \<and> eq_ignore_ascii_case n name) (map fst ss) of
             [] \<Rightarrow> AAbsent
           | ns \<Rightarrow> ARejected (OtherCase name ns))
      | [s] \<Rightarrow> (case snd s of Some v \<Rightarrow> AText v | None \<Rightarrow> ARejected (NoPairValue name))
      | many \<Rightarrow> ARejected (Repeated name (length many)))"

lemma names_ok: "xml_name (lit ''Attr'')" "xml_name (lit ''Attributes'')"
  by (simp_all add: xml_name_def)

lemma item_node_ok: "item_ok i \<Longrightarrow> node_ok (item_node i)"
  using names_ok raw_attrs_ok by (cases i) (auto simp: tag_ok_def simp del: lit_simps split: option.splits)

lemma settings_root_ok: "settings_ok as sp is end \<Longrightarrow> node_ok (settings_root as sp is end)"
  using names_ok raw_attrs_ok item_node_ok
  by (cases "is") (auto simp: settings_ok_def settings_root_def tag_ok_def list_all_iff simp del: lit_simps)

definition pair_element :: "wattr list \<Rightarrow> element" where
  "pair_element as = tag_element PAIR (map raw_attr as)"

lemma named_settings:
  "list_all item_ok is \<Longrightarrow> named_pairs name (concat (map node_elements (map item_node is))) =
     Inr (map pair_element (filter (\<lambda>as. the (attr_value as (lit ''name'')) = name) (setting_attrs is)),
       filter (\<lambda>n. n \<noteq> name \<and> eq_ignore_ascii_case n name) (map (\<lambda>as. the (attr_value as (lit ''name''))) (setting_attrs is)))"
proof (induction "is")
  case (Cons i "is")
  show ?case
  proof (cases i)
    case (Other x)
    then show ?thesis using Cons by (cases x) (auto simp: tag_element_def PAIR_def simp del: lit_simps)
  next
    case (Setting as sp kids e)
    then have "attribute (pair_element as) (lit ''name'') = XText (the (attr_value as (lit ''name'')))"
      using Cons.prems attribute_written [of as PAIR "lit ''name''"] by (auto simp: pair_element_def simp del: lit_simps)
    moreover have "el_name (pair_element as) = PAIR" by (simp add: pair_element_def tag_element_def)
    moreover have "node_elements (item_node i) = [pair_element as]" using Setting by (simp add: pair_element_def PAIR_def)
    ultimately show ?thesis using Cons Setting by (simp del: lit_simps item_node.simps)
  qed
qed simp

lemma pair_value_settings:
  assumes "list_all item_ok is"
  shows "pair_value (concat (map node_elements (map item_node is))) name = setting_answer (settings_of (Some is)) name"
proof -
  let ?n = "\<lambda>as. the (attr_value as (lit ''name''))"
  have names: "map fst (settings_of (Some is)) = map ?n (setting_attrs is)" by (simp add: settings_of_def)
  have sel: "filter (\<lambda>s. fst s = name) (settings_of (Some is)) =
      map (\<lambda>as. (?n as, attr_value as (lit ''value''))) (filter (\<lambda>as. ?n as = name) (setting_attrs is))"
    by (simp add: settings_of_def filter_map comp_def del: lit_simps)
  have "wattrs_ok as" if "as \<in> set (setting_attrs is)" for as
    using assms that by (induction "is" rule: setting_attrs.induct) auto
  then have val: "attribute (pair_element as) (lit ''value'') = (case attr_value as (lit ''value'') of None \<Rightarrow> XAbsent | Some v \<Rightarrow> XText v)"
    if "as \<in> set (filter (\<lambda>as. ?n as = name) (setting_attrs is))" for as
    using that attribute_written by (simp add: pair_element_def)
  show ?thesis
  proof (cases "filter (\<lambda>as. ?n as = name) (setting_attrs is)")
    case Nil
    then show ?thesis
      unfolding pair_value_def named_settings [OF assms] setting_answer_def names sel
      by (simp del: lit_simps split: list.splits)
  next
    case (Cons as more)
    then show ?thesis
      unfolding pair_value_def named_settings [OF assms] setting_answer_def names sel
      using val [of as] by (cases more) (auto simp: as_lookup_def simp del: lit_simps split: option.splits)
  qed
qed

text \<open>
  C10. A file of settings gives back what it says: with or without a byte-order mark, with any space, comments,
  instructions and other elements around and between the settings, any attributes in any order, any space in a
  tag, either quote, and the characters of the values written in any of the ways XML has. The answer for a
  name is the value of the one setting of that name; it is absent only where no setting has the name in
  any case of letters; and where several do, or only some in another case, or the one has no value, it is
  refused. The version is that of the document element, absent where it has none. Every setting has a name.
\<close>

theorem settings_read_back:
  assumes "list_all around_ok pre" and "list_all around_ok post" and "settings_ok as sp is end"
    and "wf_str (document_text pre (settings_root as sp is end) post)"
  shows "attrs_parse (document_bytes bom pre (settings_root as sp is end) post) name =
    \<lparr>af_version = (case attr_value as (lit ''Version'') of None \<Rightarrow> AAbsent | Some v \<Rightarrow> AText v),
     af_value = setting_answer (settings_of is) name\<rparr>"
proof -
  let ?root = "tag_element (lit ''Attributes'') (map raw_attr as)"
  let ?kids = "concat (map node_elements (content (settings_root as sp is end)))"
  have x: "xml_parse (document_bytes bom pre (settings_root as sp is end) post) = Inr \<lparr>doc_root = ?root, doc_children = ?kids\<rparr>"
    using document_read [OF assms(1,2) settings_root_ok [OF assms(3)] settings_root_def assms(4), of bom] by simp
  have root: "attribute ?root (lit ''Version'') = (case attr_value as (lit ''Version'') of None \<Rightarrow> XAbsent | Some v \<Rightarrow> XText v)"
    using assms(3) attribute_written by (simp add: settings_ok_def)
  have kids: "pair_value ?kids name = setting_answer (settings_of is) name"
  proof (cases "is")
    case None
    then show ?thesis by (simp add: settings_root_def settings_of_def setting_answer_def pair_value_def)
  next
    case (Some xs)
    then show ?thesis using assms(3) pair_value_settings [of xs name] by (simp add: settings_ok_def settings_root_def)
  qed
  have "el_name ?root = ROOT" by (simp add: tag_element_def ROOT_def)
  then show ?thesis unfolding attrs_parse_def x using root kids
    by (simp add: as_lookup_def del: lit_simps split: option.splits)
qed

text \<open>
  A file with a byte-order mark, a declaration, single quotes, space around an equals sign, a comment between
  two settings, another element, attributes in either order, and references in a value.
\<close>

theorem settings_read_back_witness:
  "attrs_parse (document_bytes True [Skip Instruction (lit ''xml encoding='' @ 34 # lit ''UTF-8'' @ [34]), Chars [13, 10]]
      (settings_root [(([32], [], [], 39), lit ''Version'', [Plain 51])] [32]
        (Some [Other (Chars [10, 9]),
          Setting [(([32, 10], [32], [9], 39), lit ''name'', map Plain (lit ''Fov'')), (([32], [], [], 34), lit ''value'', [Plain 50])] [] None [],
          Other (Skip Comment (lit '' two <Attr '')),
          Other (Elem (lit ''Note'') [] [] (Some [Chars (lit ''x'')]) [32]),
          Setting [(([9], [], [], 34), lit ''value'', [Amp, Dec (lit ''065''), HexCode (lit ''e9''), Plain 39]),
            (([32], [], [], 34), lit ''name'', map Plain (lit ''Source''))] [32] (Some []) []]) []) [Chars [10]])
    (lit ''Source'') = \<lparr>af_version = AText [51], af_value = AText [38, 65, 233, 39]\<rparr>"
  (is "attrs_parse (document_bytes True ?pre (settings_root ?as [32] ?items []) ?post) _ = _")
proof -
  have enc: "names_utf8 (lit ''xml encoding='' @ 34 # lit ''UTF-8'' @ [34])"
    unfolding names_utf8_def
    by (rule exI [of _ "lit ''xml ''"], rule exI [of _ "[61]"], rule exI [of _ 34], rule exI [of _ "lit ''UTF-8''"],
        rule exI [of _ 34], rule exI [of _ "[]"])
      (simp add: contains_def starts_with_def eq_ignore_ascii_case_def ascii_lower_def)
  have pre: "list_all around_ok ?pre" "list_all around_ok ?post"
    using enc by (simp_all add: skip_ok_def spaces_def ascii_space_def del: append_Cons lit_simps) (simp_all add: contains_def starts_with_def)
  have ok: "settings_ok ?as [32] ?items []"
    by (simp add: settings_ok_def wattrs_ok_def wattr_ok_def attr_value_def spaces_def ascii_space_def xml_name_def char_ok_def
        is_scalar_def is_control_def number_in_def digit_in_def digit_number_def skip_ok_def contains_def starts_with_def tag_ok_def attrs_ok_def)
  have wf: "wf_str (document_text ?pre (settings_root ?as [32] ?items []) ?post)"
    by (simp add: document_text_def settings_root_def tag_text_def attrs_text_def attr_text_def raw_attr_def
        refs_text_def skip_text_def wf_str_def is_scalar_def)
  have "attr_value ?as (lit ''Version'') = Some [51]" by (simp add: attr_value_def)
  moreover have "setting_answer (settings_of ?items) (lit ''Source'') = AText [38, 65, 233, 39]"
    by (simp add: setting_answer_def settings_of_def attr_value_def number_in_def digit_in_def digit_number_def)
  ultimately show ?thesis using settings_read_back [OF pre ok wf, of True "lit ''Source''"] by (simp only: option.case)
qed

end
