(* ===== verification/Steam.thy ===== *)
theory Steam
  imports Downloads
begin

text \<open>
  What Steam has installed (\<^verbatim>\<open>tobii-steam/src/lib.rs\<close>): the libraries its files name, the titles of their
  manifests collapsed into one row per application, the Proton prefixes, and the choice a user's text makes
  among the titles. The disk is a parameter, as is Unicode lower case; a path is its components, which is
  what comparing two paths looks at.
\<close>

section \<open>The disk\<close>

record steam_disk =
  dk_text :: "wpath \<Rightarrow> str option"
  dk_is_dir :: "wpath \<Rightarrow> bool"
  dk_is_file :: "wpath \<Rightarrow> bool"
  dk_canonical :: "wpath \<Rightarrow> wpath option"
  dk_entries :: "wpath \<Rightarrow> (str \<times> wpath) list option"

section \<open>Libraries\<close>

definition STEAM_ROOTS :: "str list" where
  "STEAM_ROOTS = [lit ''.steam/steam'', lit ''.local/share/Steam'', lit ''.steam/root'',
     lit ''.var/app/com.valvesoftware.Steam/data/Steam'']"

text \<open>The value of a line of the key-value format.\<close>

definition vdf_value :: "str \<Rightarrow> str \<Rightarrow> str option" where
  "vdf_value line key =
     (case strip_prefix [34] (trim line) of
        None \<Rightarrow> None
      | Some a \<Rightarrow>
          (case strip_prefix key a of
             None \<Rightarrow> None
           | Some b \<Rightarrow>
               (case strip_prefix [34] b of
                  None \<Rightarrow> None
                | Some t \<Rightarrow> Some (takeWhile (\<lambda>c. c \<noteq> 34) (dropWhile (\<lambda>c. c = 34) (trim t))))))"

text \<open>\<^verbatim>\<open>p.replace\<close> of two backslashes by a slash.\<close>

fun slashes :: "str \<Rightarrow> str" where
  "slashes (a # b # s) = (if a = 92 \<and> b = 92 then 47 # slashes s else a # slashes (b # s))"
| "slashes s = s"

definition push_library :: "steam_disk \<Rightarrow> wpath list \<Rightarrow> wpath \<Rightarrow> bool \<times> wpath list" where
  "push_library dk out path =
     (if \<not> dk_is_dir dk (wjoin path (lit ''steamapps'')) then (False, out)
      else let real = (case dk_canonical dk path of Some r \<Rightarrow> r | None \<Rightarrow> path) in
        (True, if real \<in> set out then out else out @ [real]))"

definition scan_library_line :: "steam_disk \<Rightarrow> str \<Rightarrow> wpath list \<times> wpath list \<Rightarrow> wpath list \<times> wpath list" where
  "scan_library_line dk line st =
     (case (vdf_value line (lit ''path''), st) of
        (None, _) \<Rightarrow> st
      | (Some p, (found, missing)) \<Rightarrow>
          (let path = components (slashes p); (is_library, found') = push_library dk found path in
           (found', if \<not> is_library \<and> path \<notin> set missing then missing @ [path] else missing)))"

definition scan_root :: "steam_disk \<Rightarrow> wpath \<Rightarrow> str \<Rightarrow> wpath list \<times> wpath list \<Rightarrow> wpath list \<times> wpath list" where
  "scan_root dk home name st =
     (let root = wjoin home name;
          text = (case dk_text dk (wjoin root (lit ''steamapps/libraryfolders.vdf'')) of Some t \<Rightarrow> t | None \<Rightarrow> []);
          (found, missing) = fold (scan_library_line dk) (lines text) st
      in (snd (push_library dk found root), missing))"

definition steam_scan :: "steam_disk \<Rightarrow> wpath \<Rightarrow> wpath list \<times> wpath list" where
  "steam_scan dk home = fold (scan_root dk home) STEAM_ROOTS ([], [])"

record steam =
  st_libraries :: "wpath list"
  st_missing :: "wpath list"

definition steam_at :: "steam_disk \<Rightarrow> wpath \<Rightarrow> steam" where
  "steam_at dk home = (case steam_scan dk home of (l, m) \<Rightarrow> \<lparr>st_libraries = l, st_missing = m\<rparr>)"

section \<open>Titles\<close>

record app =
  appid :: str
  app_name :: str
  buildid :: "str option"

definition manifest_field :: "str \<Rightarrow> str \<Rightarrow> str option" where
  "manifest_field text key = (case List.map_filter (\<lambda>l. vdf_value l key) (lines text) of [] \<Rightarrow> None | v # _ \<Rightarrow> Some v)"

definition manifest_app :: "steam_disk \<Rightarrow> str \<times> wpath \<Rightarrow> app option" where
  "manifest_app dk e =
     (case e of (file, path) \<Rightarrow>
        if \<not> starts_with (lit ''appmanifest_'') file \<or> \<not> ends_with (lit ''.acf'') file then None
        else (case dk_text dk path of
            None \<Rightarrow> None
          | Some text \<Rightarrow>
              (case (manifest_field text (lit ''appid''), manifest_field text (lit ''name'')) of
                 (Some i, Some n) \<Rightarrow> Some \<lparr>appid = i, app_name = n, buildid = manifest_field text (lit ''buildid'')\<rparr>
               | _ \<Rightarrow> None)))"

definition library_apps :: "steam_disk \<Rightarrow> wpath \<Rightarrow> app list" where
  "library_apps dk library =
     (case dk_entries dk (wjoin library (lit ''steamapps'')) of
        None \<Rightarrow> []
      | Some es \<Rightarrow> List.map_filter (manifest_app dk) es)"

text \<open>\<^verbatim>\<open>dedup_by\<close>: each element against the last one row, which may take it in.\<close>

fun dedup_into :: "('a \<Rightarrow> 'a \<Rightarrow> 'a option) \<Rightarrow> 'a \<Rightarrow> 'a list \<Rightarrow> 'a list" where
  "dedup_into merge prev [] = [prev]"
| "dedup_into merge prev (x # xs) =
     (case merge x prev of Some k \<Rightarrow> dedup_into merge k xs | None \<Rightarrow> prev # dedup_into merge x xs)"

definition dedup_by :: "('a \<Rightarrow> 'a \<Rightarrow> 'a option) \<Rightarrow> 'a list \<Rightarrow> 'a list" where
  "dedup_by merge xs = (case xs of [] \<Rightarrow> [] | x # ys \<Rightarrow> dedup_into merge x ys)"

definition agreed :: "app \<Rightarrow> app \<Rightarrow> str option" where
  "agreed dropped row = (if buildid dropped \<noteq> buildid row then None else buildid row)"

definition same_row :: "app \<Rightarrow> app \<Rightarrow> app option" where
  "same_row dropped row =
     (if (appid dropped, app_name dropped) \<noteq> (appid row, app_name row) then None
      else Some (row\<lparr>buildid := agreed dropped row\<rparr>))"

definition same_app :: "app \<Rightarrow> app \<Rightarrow> app option" where
  "same_app dropped row =
     (if appid dropped \<noteq> appid row then None
      else Some (row\<lparr>buildid := agreed dropped row, app_name := app_name row @ lit '' / '' @ app_name dropped\<rparr>))"

definition app_key :: "(str \<Rightarrow> str) \<Rightarrow> app \<Rightarrow> str \<times> str \<times> str" where
  "app_key lower a = (appid a, lower (app_name a), app_name a)"

definition apps_in :: "(str \<Rightarrow> str) \<Rightarrow> steam_disk \<Rightarrow> wpath list \<Rightarrow> app list" where
  "apps_in lower dk libraries =
     dedup_by same_app (dedup_by same_row (sort_key (app_key lower) (concat (List.map (library_apps dk) libraries))))"

section \<open>Prefixes\<close>

definition prefix_of :: "str \<Rightarrow> wpath \<Rightarrow> wpath" where
  "prefix_of i library = wjoin (wjoin (wjoin library (lit ''steamapps/compatdata'')) i) (lit ''pfx'')"

definition owns :: "steam_disk \<Rightarrow> str \<Rightarrow> wpath \<Rightarrow> bool" where
  "owns dk i library = dk_is_file dk (wjoin library (lit ''steamapps/appmanifest_'' @ i @ lit ''.acf''))"

text \<open>The index of the library that owns the title first, then the others in their order.\<close>

fun position :: "('a \<Rightarrow> bool) \<Rightarrow> 'a list \<Rightarrow> nat option" where
  "position P [] = None"
| "position P (x # xs) = (if P x then Some 0 else map_option Suc (position P xs))"

definition prefix_candidates :: "steam_disk \<Rightarrow> steam \<Rightarrow> str \<Rightarrow> wpath list" where
  "prefix_candidates dk st i =
     (let ls = st_libraries st; owner = position (owns dk i) ls in
      List.map (\<lambda>n. prefix_of i (ls ! n))
        ((case owner of Some n \<Rightarrow> [n] | None \<Rightarrow> []) @ filter (\<lambda>n. Some n \<noteq> owner) [0..<length ls]))"

definition prefixes :: "steam_disk \<Rightarrow> steam \<Rightarrow> str \<Rightarrow> wpath list" where
  "prefixes dk st i = filter (\<lambda>p. dk_is_dir dk (wjoin p (lit ''drive_c''))) (prefix_candidates dk st i)"

definition steam_prefix :: "steam_disk \<Rightarrow> steam \<Rightarrow> str \<Rightarrow> wpath option" where
  "steam_prefix dk st i = find (\<lambda>p. dk_is_dir dk (wjoin p (lit ''drive_c''))) (prefix_candidates dk st i)"

section \<open>Choosing\<close>

definition TOOL_MARKS :: "str list" where
  "TOOL_MARKS = [lit ''Proton'', lit ''Steam Linux Runtime'', lit ''Steamworks Common Redistributables'', lit ''Steam Runtime'']"

definition looks_like_tool :: "(nat \<Rightarrow> bool) \<Rightarrow> str \<Rightarrow> bool" where
  "looks_like_tool alphanumeric name =
     list_ex (\<lambda>m. case strip_prefix m name of
         None \<Rightarrow> False
       | Some t \<Rightarrow> (case t of [] \<Rightarrow> True | c # _ \<Rightarrow> \<not> alphanumeric c)) TOOL_MARKS"

datatype match = NoMatch | One app | Many "app list"

definition resolve :: "(str \<Rightarrow> str) \<Rightarrow> app list \<Rightarrow> str \<Rightarrow> match" where
  "resolve lower apps wanted =
     (if wanted \<noteq> [] \<and> list_all is_digit wanted then
        (case find (\<lambda>a. appid a = wanted) apps of Some a \<Rightarrow> One a | None \<Rightarrow> NoMatch)
      else let hits = filter (\<lambda>a. contains (lower wanted) (lower (app_name a))) apps in
        (case hits of [] \<Rightarrow> NoMatch | [a] \<Rightarrow> One a | _ \<Rightarrow> Many hits))"

section \<open>Libraries found\<close>

definition scan_ok :: "steam_disk \<Rightarrow> wpath list \<times> wpath list \<Rightarrow> bool" where
  "scan_ok dk st \<longleftrightarrow> distinct (fst st) \<and> distinct (snd st) \<and>
     list_all (\<lambda>p. \<not> dk_is_dir dk (wjoin p (lit ''steamapps''))) (snd st) \<and>
     list_all (\<lambda>r. \<exists>p. dk_is_dir dk (wjoin p (lit ''steamapps'')) \<and>
       r = (case dk_canonical dk p of Some c \<Rightarrow> c | None \<Rightarrow> p)) (fst st)"

lemma push_library_ok:
  "scan_ok dk (found, missing) \<Longrightarrow> scan_ok dk (snd (push_library dk found p), missing)"
  by (auto simp: scan_ok_def push_library_def Let_def)

lemma push_library_refused: "\<not> fst (push_library dk found p) \<Longrightarrow> \<not> dk_is_dir dk (wjoin p (lit ''steamapps''))"
  by (simp add: push_library_def Let_def split: if_splits)

lemma scan_library_line_ok:
  assumes "scan_ok dk st"
  shows "scan_ok dk (scan_library_line dk line st)"
proof -
  obtain found missing where st: "st = (found, missing)" by fastforce
  show ?thesis
  proof (cases "vdf_value line (lit ''path'')")
    case None
    then show ?thesis using assms st by (simp add: scan_library_line_def)
  next
    case (Some p)
    let ?p = "components (slashes p)"
    have "scan_ok dk (snd (push_library dk found ?p), missing)" using assms push_library_ok unfolding st by blast
    moreover have "scan_library_line dk line st = (snd (push_library dk found ?p),
        if \<not> fst (push_library dk found ?p) \<and> ?p \<notin> set missing then missing @ [?p] else missing)"
      using Some by (simp add: scan_library_line_def st Let_def split: prod.splits)
    ultimately show ?thesis using push_library_refused [of dk found ?p]
      by (simp add: scan_ok_def del: lit_simps)
  qed
qed

lemma fold_scan_ok: "(\<And>x st. scan_ok dk st \<Longrightarrow> scan_ok dk (h x st)) \<Longrightarrow> scan_ok dk st \<Longrightarrow> scan_ok dk (fold h xs st)"
  by (induction xs arbitrary: st) simp_all

lemma scan_root_ok: "scan_ok dk st \<Longrightarrow> scan_ok dk (scan_root dk home name st)"
  using fold_scan_ok [of dk "scan_library_line dk" st, OF scan_library_line_ok] push_library_ok
  by (auto simp: scan_root_def Let_def split: prod.split) (metis prod.collapse snd_conv)

text \<open>
  C30. However often the files of Steam name a folder, no library is listed twice, each is the resolved place of
  a folder that had \<^verbatim>\<open>steamapps\<close> in it, and a folder is reported as missing only where it had none.
\<close>

theorem libraries_ok: "scan_ok dk (steam_scan dk home)"
  unfolding steam_scan_def by (rule fold_scan_ok [OF scan_root_ok]) (simp_all add: scan_ok_def)

section \<open>Collapsing runs\<close>

text \<open>
  On a list made of runs, where an element is taken in exactly by one of its own class, \<open>dedup_by\<close> leaves
  one element for each run.
\<close>

definition merge_all :: "('a \<Rightarrow> 'a \<Rightarrow> 'a option) \<Rightarrow> 'a list \<Rightarrow> 'a" where
  "merge_all merge g = foldl (\<lambda>k x. the (merge x k)) (hd g) (tl g)"

lemma dedup_run:
  assumes "\<And>x k. merge x k = None \<longleftrightarrow> cls x \<noteq> cls k" and "\<And>x k y. merge x k = Some y \<Longrightarrow> cls y = cls k"
  shows "\<forall>x \<in> set g. cls x = cls k \<Longrightarrow>
    dedup_into merge k (g @ t) = dedup_into merge (foldl (\<lambda>k x. the (merge x k)) k g) t \<and>
    cls (foldl (\<lambda>k x. the (merge x k)) k g) = cls k"
proof (induction g arbitrary: k)
  case (Cons x g)
  then obtain y where y: "merge x k = Some y" using assms(1) [of x k] by auto
  then have "cls y = cls k" by (rule assms(2))
  then show ?case using Cons y by simp
qed simp

lemma dedup_runs:
  assumes "\<And>x k. merge x k = None \<longleftrightarrow> cls x \<noteq> cls k" and "\<And>x k y. merge x k = Some y \<Longrightarrow> cls y = cls k"
    and "list_all2 (\<lambda>g c. g \<noteq> [] \<and> (\<forall>x \<in> set g. cls x = c)) gs cs" and "distinct cs"
  shows "dedup_by merge (concat gs) = map (merge_all merge) gs"
proof -
  have "dedup_into merge k (g @ concat gs) = foldl (\<lambda>k x. the (merge x k)) k g # map (merge_all merge) gs"
    if "list_all2 (\<lambda>g c. g \<noteq> [] \<and> (\<forall>x \<in> set g. cls x = c)) gs cs" "distinct cs" "cls k \<notin> set cs"
      "\<forall>x \<in> set g. cls x = cls k" for k g gs cs
    using that
  proof (induction gs arbitrary: cs k g)
    case Nil
    then show ?case using dedup_run [of merge cls g k "[]"] assms(1,2) by simp
  next
    case (Cons h gs)
    then obtain c ds where c: "cs = c # ds" "h \<noteq> []" "\<forall>x \<in> set h. cls x = c"
      "list_all2 (\<lambda>g c. g \<noteq> [] \<and> (\<forall>x \<in> set g. cls x = c)) gs ds"
      by (auto simp: list_all2_Cons1)
    obtain x h' where h: "h = x # h'" using c(2) by (cases h) auto
    let ?k = "foldl (\<lambda>k x. the (merge x k)) k g"
    have k: "dedup_into merge k (g @ concat (h # gs)) = dedup_into merge ?k (concat (h # gs))" "cls ?k = cls k"
      using dedup_run [of merge cls g k "concat (h # gs)"] assms(1,2) Cons.prems(4) by blast+
    have "merge x ?k = None" using assms(1) k(2) c Cons.prems(3) h by auto
    moreover have "dedup_into merge x (h' @ concat gs) = foldl (\<lambda>k x. the (merge x k)) x h' # map (merge_all merge) gs"
      using Cons.IH [OF c(4), of x h'] Cons.prems(2) c h by auto
    ultimately show ?case using k(1) h by (simp add: merge_all_def)
  qed
  then show ?thesis using assms(3,4)
    by (cases gs) (auto simp: dedup_by_def list_all2_Cons1 merge_all_def neq_Nil_conv)
qed

text \<open>A list sorted by a key is its runs of equal keys.\<close>

lemma sorted_runs:
  assumes "sorted (map f xs)" and "sorted_wrt (<) ks" and "f ` set xs \<subseteq> set ks"
  shows "concat (map (\<lambda>k. filter (\<lambda>x. f x = k) xs) ks) = xs"
  using assms
proof (induction ks arbitrary: xs)
  case (Cons k ks)
  let ?a = "takeWhile (\<lambda>x. f x = k) xs" and ?b = "dropWhile (\<lambda>x. f x = k) xs"
  have s: "sorted (map f ?b)" using Cons.prems(1) by (metis map_append sorted_append takeWhile_dropWhile_id)
  have ge: "k \<le> f x" if "x \<in> set xs" for x
  proof -
    have "f x \<in> insert k (set ks)" using that Cons.prems(3) by auto
    then show ?thesis using Cons.prems(2) by auto
  qed
  have ne: "f x \<noteq> k" if "x \<in> set ?b" for x
  proof -
    have "?b \<noteq> []" using that by (metis empty_iff list.set(1))
    then obtain y ys where b: "?b = y # ys" by (meson list.exhaust)
    then have "f y \<noteq> k" using hd_dropWhile [of "\<lambda>x. f x = k" xs] by simp
    moreover have "y \<in> set xs" using b by (metis list.set_intros(1) set_dropWhileD)
    ultimately have "k < f y" using ge [of y] by simp
    moreover have "f y \<le> f x" using s that b by auto
    ultimately show ?thesis by simp
  qed
  have a: "filter (\<lambda>x. f x = k) xs = ?a"
  proof -
    have "filter (\<lambda>x. f x = k) ?a = ?a" by (simp add: filter_id_conv) (meson set_takeWhileD)
    moreover have "filter (\<lambda>x. f x = k) ?b = []" unfolding filter_empty_conv using ne by blast
    ultimately have "filter (\<lambda>x. f x = k) (?a @ ?b) = ?a" by (simp only: filter_append append_Nil2)
    then show ?thesis by (simp only: takeWhile_dropWhile_id)
  qed
  have "filter (\<lambda>x. f x = i) xs = filter (\<lambda>x. f x = i) ?b" if "i \<in> set ks" for i
  proof -
    have "i \<noteq> k" using that Cons.prems(2) by auto
    then have "filter (\<lambda>x. f x = i) ?a = []" by (auto simp: filter_empty_conv dest: set_takeWhileD)
    then have "filter (\<lambda>x. f x = i) (?a @ ?b) = filter (\<lambda>x. f x = i) ?b" by (simp only: filter_append append_Nil)
    then show ?thesis by (simp only: takeWhile_dropWhile_id)
  qed
  then have "map (\<lambda>i. filter (\<lambda>x. f x = i) xs) ks = map (\<lambda>i. filter (\<lambda>x. f x = i) ?b) ks" by simp
  moreover have "f ` set ?b \<subseteq> set ks" using ne Cons.prems(3) set_dropWhileD [of _ "\<lambda>x. f x = k" xs] by (metis image_subset_iff insert_iff list.simps(15))
  then have "concat (map (\<lambda>i. filter (\<lambda>x. f x = i) ?b) ks) = ?b" using Cons.IH s Cons.prems(2) by simp
  ultimately have "concat (map (\<lambda>i. filter (\<lambda>x. f x = i) xs) (k # ks)) = ?a @ ?b"
    using a by (simp only: list.map concat.simps)
  then show ?case by (simp only: takeWhile_dropWhile_id)
qed simp

section \<open>One row per application\<close>

text \<open>What the copies of a title agree on.\<close>

definition common :: "'a option list \<Rightarrow> 'a option" where
  "common bs = (if list_all (\<lambda>b. b = hd bs) bs then hd bs else None)"

lemma common_Some: "bs \<noteq> [] \<Longrightarrow> common bs = Some v \<longleftrightarrow> set bs = {Some v}"
  by (cases bs) (auto simp: common_def list_all_iff)

lemma common_map_Some: "xs \<noteq> [] \<Longrightarrow> common (map h xs) = Some v \<longleftrightarrow> (\<forall>x \<in> set xs. h x = Some v)"
  by (cases xs) (auto simp: common_Some)

lemma common_eqI: "set as = set bs \<Longrightarrow> as \<noteq> [] \<Longrightarrow> common as = common bs"
proof -
  assume s: "set as = set bs" "as \<noteq> []"
  then have "bs \<noteq> []" by auto
  then have "common as = Some v \<longleftrightarrow> common bs = Some v" for v using s common_Some by metis
  then show ?thesis by (metis option.exhaust)
qed

fun joined :: "str list \<Rightarrow> str" where
  "joined [] = []"
| "joined [n] = n"
| "joined (n # m # ns) = n @ lit '' / '' @ joined (m # ns)"

definition copies :: "str \<Rightarrow> app list \<Rightarrow> app list" where
  "copies i raw = filter (\<lambda>a. appid a = i) raw"

definition collapsed :: "(str \<Rightarrow> str) \<Rightarrow> app list \<Rightarrow> str \<Rightarrow> app" where
  "collapsed lower raw i = \<lparr>appid = i,
     app_name = joined (sort_key (\<lambda>n. (lower n, n)) (remdups (map app_name (copies i raw)))),
     buildid = common (map buildid (copies i raw))\<rparr>"

lemma merged_builds:
  "foldl (\<lambda>k b. if b \<noteq> k then None else k) b bs = (if list_all (\<lambda>c. c = b) bs then b else None)"
  by (induction bs arbitrary: b) (auto simp: list_all_iff)

lemma merged_rows:
  "list_all (\<lambda>x. appid x = appid k \<and> app_name x = app_name k) g \<Longrightarrow>
     foldl (\<lambda>k x. the (same_row x k)) k g = k\<lparr>buildid := foldl (\<lambda>k b. if b \<noteq> k then None else k) (buildid k) (map buildid g)\<rparr>"
  by (induction g arbitrary: k) (auto simp: same_row_def agreed_def)

lemma merge_rows:
  assumes "g \<noteq> []" and "\<forall>x \<in> set g. app_key lower x = (i, l, n)"
  shows "merge_all same_row g = \<lparr>appid = i, app_name = n, buildid = common (map buildid g)\<rparr>"
proof -
  obtain k h where g: "g = k # h" using assms(1) by (cases g) auto
  then have "list_all (\<lambda>x. appid x = appid k \<and> app_name x = app_name k) h" "appid k = i" "app_name k = n"
    using assms(2) by (auto simp: app_key_def list_all_iff)
  then show ?thesis using g by (simp add: merge_all_def merged_rows merged_builds common_def list_all_iff o_def)
qed

lemma merged_apps:
  "list_all (\<lambda>x. appid x = appid k) g \<Longrightarrow>
     foldl (\<lambda>k x. the (same_app x k)) k g =
       k\<lparr>buildid := foldl (\<lambda>k b. if b \<noteq> k then None else k) (buildid k) (map buildid g),
         app_name := app_name k @ concat (map (\<lambda>x. lit '' / '' @ app_name x) g)\<rparr>"
  by (induction g arbitrary: k) (auto simp: same_app_def agreed_def)

lemma joined_Cons: "joined (n # ns) = n @ concat (map (\<lambda>m. lit '' / '' @ m) ns)"
  by (induction ns arbitrary: n) simp_all

lemma merge_apps:
  assumes "g \<noteq> []" and "\<forall>x \<in> set g. appid x = i"
  shows "merge_all same_app g = \<lparr>appid = i, app_name = joined (map app_name g), buildid = common (map buildid g)\<rparr>"
proof -
  obtain k h where g: "g = k # h" using assms(1) by (cases g) auto
  then have "list_all (\<lambda>x. appid x = appid k) h" "appid k = i" using assms(2) by (auto simp: list_all_iff)
  then show ?thesis using g
    by (simp add: merge_all_def merged_apps merged_builds common_def list_all_iff o_def joined_Cons)
qed

text \<open>The rows after the first collapse, one for each key in use.\<close>

definition row_keys :: "(str \<Rightarrow> str) \<Rightarrow> app list \<Rightarrow> (str \<times> str \<times> str) list" where
  "row_keys lower raw = sorted_list_of_set (app_key lower ` set raw)"

definition row_of :: "(str \<Rightarrow> str) \<Rightarrow> app list \<Rightarrow> str \<times> str \<times> str \<Rightarrow> app" where
  "row_of lower raw k = \<lparr>appid = fst k, app_name = snd (snd k),
     buildid = common (map buildid (filter (\<lambda>a. app_key lower a = k) raw))\<rparr>"

lemma row_keys: "set (row_keys lower raw) = app_key lower ` set raw" "sorted_wrt (<) (row_keys lower raw)"
  by (simp_all add: row_keys_def)

lemma first_collapse:
  "dedup_by same_row (sort_key (app_key lower) raw) = map (row_of lower raw) (row_keys lower raw)"
proof -
  let ?xs = "sort_key (app_key lower) raw" and ?ks = "row_keys lower raw"
  let ?gs = "map (\<lambda>k. filter (\<lambda>x. app_key lower x = k) ?xs) ?ks"
  have xs: "concat ?gs = ?xs" using row_keys [of lower raw] by (intro sorted_runs) simp_all
  have "dedup_by same_row (concat ?gs) = map (merge_all same_row) ?gs"
  proof (rule dedup_runs [where cls = "app_key lower" and cs = ?ks])
    show "same_row x k = None \<longleftrightarrow> app_key lower x \<noteq> app_key lower k" for x k
      by (auto simp: same_row_def app_key_def)
    show "same_row x k = Some y \<Longrightarrow> app_key lower y = app_key lower k" for x k y
      by (auto simp: same_row_def app_key_def split: if_splits)
    show "list_all2 (\<lambda>g c. g \<noteq> [] \<and> (\<forall>x \<in> set g. app_key lower x = c)) ?gs ?ks"
      using row_keys(1) [of lower raw] by (auto simp: list_all2_map1 list_all2_same filter_empty_conv)
    show "distinct ?ks" by (simp add: row_keys_def)
  qed
  also have "\<dots> = map (row_of lower raw) ?ks"
  proof -
    have "merge_all same_row (filter (\<lambda>x. app_key lower x = k) ?xs) = row_of lower raw k" if "k \<in> set ?ks" for k
    proof -
      obtain i l n where k: "k = (i, l, n)" by (cases k)
      have ne: "filter (\<lambda>x. app_key lower x = k) ?xs \<noteq> []" using that row_keys(1) [of lower raw] by (auto simp: filter_empty_conv)
      then have "common (map buildid (filter (\<lambda>x. app_key lower x = k) ?xs)) = common (map buildid (filter (\<lambda>x. app_key lower x = k) raw))"
        by (intro common_eqI) auto
      then show ?thesis using merge_rows [OF ne, of lower i l n] by (simp add: row_of_def k)
    qed
    then show ?thesis by simp
  qed
  finally show ?thesis unfolding xs .
qed

definition app_ids :: "app list \<Rightarrow> str list" where "app_ids raw = sorted_list_of_set (appid ` set raw)"

lemma sorted_names:
  "map (snd \<circ> snd) (filter (\<lambda>k. fst k = i) (row_keys lower raw)) =
     sort_key (\<lambda>n. (lower n, n)) (remdups (map app_name (copies i raw)))"
proof -
  let ?ks = "filter (\<lambda>k. fst k = i) (row_keys lower raw)" and ?f = "\<lambda>n. (lower n, n)"
  let ?ns = "sort_key ?f (remdups (map app_name (copies i raw)))"
  have s: "sorted_wrt (<) ?ks" using row_keys(2) [of lower raw] by (rule sorted_wrt_filter)
  have "map snd ?ks = map ?f (map (snd \<circ> snd) ?ks)" using row_keys(1) [of lower raw] by (auto simp: app_key_def)
  moreover have "sorted_wrt (<) (map snd ?ks)"
    unfolding sorted_wrt_map by (rule sorted_wrt_mono_rel [OF _ s]) (auto simp: less_prod_def)
  ultimately have a: "sorted (map ?f (map (snd \<circ> snd) ?ks))" "distinct (map ?f (map (snd \<circ> snd) ?ks))"
    using strict_sorted_iff [of "map snd ?ks"] by metis+
  have b: "sorted (map ?f ?ns)" "distinct (map ?f ?ns)" by (simp_all add: distinct_map inj_on_def)
  have "set (map (snd \<circ> snd) ?ks) = set ?ns" using row_keys(1) [of lower raw] by (force simp: app_key_def copies_def image_iff)
  then have "set (map ?f (map (snd \<circ> snd) ?ks)) = set (map ?f ?ns)" by (metis set_map)
  then have "map ?f (map (snd \<circ> snd) ?ks) = map ?f ?ns" using a b sorted_distinct_set_unique by blast
  then show ?thesis by (rule map_injective) (simp add: inj_on_def)
qed

lemma second_collapse:
  "dedup_by same_app (map (row_of lower raw) (row_keys lower raw)) = map (collapsed lower raw) (app_ids raw)"
proof -
  let ?xs = "map (row_of lower raw) (row_keys lower raw)" and ?ids = "app_ids raw"
  let ?gs = "map (\<lambda>i. filter (\<lambda>x. appid x = i) ?xs) ?ids"
  have ids: "appid ` set ?xs = appid ` set raw"
    by (simp add: row_keys(1) image_image row_of_def app_key_def)
  have "sorted (map fst (row_keys lower raw))"
    unfolding sorted_wrt_map by (rule sorted_wrt_mono_rel [OF _ row_keys(2)]) (auto simp: less_prod_def)
  then have "sorted (map appid ?xs)" by (simp add: o_def row_of_def)
  then have xs: "concat ?gs = ?xs" using ids by (intro sorted_runs) (simp_all add: app_ids_def)
  have "dedup_by same_app (concat ?gs) = map (merge_all same_app) ?gs"
  proof (rule dedup_runs [where cls = appid and cs = ?ids])
    show "same_app x k = None \<longleftrightarrow> appid x \<noteq> appid k" for x k by (simp add: same_app_def)
    show "same_app x k = Some y \<Longrightarrow> appid y = appid k" for x k y by (auto simp: same_app_def split: if_splits)
    have "\<exists>x \<in> set ?xs. appid x = i" if "i \<in> set ?ids" for i
    proof -
      have "i \<in> appid ` set ?xs" using that ids by (simp add: app_ids_def)
      then show ?thesis by blast
    qed
    then show "list_all2 (\<lambda>g c. g \<noteq> [] \<and> (\<forall>x \<in> set g. appid x = c)) ?gs ?ids"
      by (auto simp: list_all2_map1 list_all2_same filter_empty_conv)
    show "distinct ?ids" by (simp add: app_ids_def)
  qed
  also have "\<dots> = map (collapsed lower raw) ?ids"
  proof -
    have "merge_all same_app (filter (\<lambda>x. appid x = i) ?xs) = collapsed lower raw i" if "i \<in> set ?ids" for i
    proof -
      let ?g = "filter (\<lambda>x. appid x = i) ?xs"
      have g: "?g = map (row_of lower raw) (filter (\<lambda>k. fst k = i) (row_keys lower raw))"
        by (simp add: filter_map o_def row_of_def)
      have "i \<in> appid ` set ?xs" using that ids by (simp add: app_ids_def)
      then have ne: "?g \<noteq> []" by (force simp: filter_empty_conv)
      have "copies i raw \<noteq> []" using that by (auto simp: app_ids_def copies_def filter_empty_conv)
      moreover have "common (map buildid ?g) = common (map buildid (copies i raw))"
      proof -
        let ?of = "\<lambda>k. filter (\<lambda>a. app_key lower a = k) raw"
        have keys: "?of k \<noteq> []" if "k \<in> set (row_keys lower raw)" for k
          using that row_keys(1) [of lower raw] by (auto simp: filter_empty_conv)
        have "common (map buildid ?g) = Some v \<longleftrightarrow> common (map buildid (copies i raw)) = Some v" for v
        proof -
          have "common (map buildid ?g) = Some v \<longleftrightarrow> (\<forall>x \<in> set ?g. buildid x = Some v)"
            using ne by (rule common_map_Some)
          also have "\<dots> \<longleftrightarrow> (\<forall>k \<in> set (row_keys lower raw). fst k = i \<longrightarrow> common (map buildid (?of k)) = Some v)"
            unfolding g by (auto simp: row_of_def)
          also have "\<dots> \<longleftrightarrow> (\<forall>k \<in> set (row_keys lower raw). fst k = i \<longrightarrow> (\<forall>a \<in> set (?of k). buildid a = Some v))"
            by (intro ball_cong refl imp_cong common_map_Some keys)
          also have "\<dots> \<longleftrightarrow> (\<forall>a \<in> set (copies i raw). buildid a = Some v)"
            unfolding row_keys(1) by (auto simp: copies_def app_key_def)
          also have "\<dots> \<longleftrightarrow> common (map buildid (copies i raw)) = Some v"
            using \<open>copies i raw \<noteq> []\<close> by (rule common_map_Some [symmetric])
          finally show ?thesis .
        qed
        then show ?thesis by (metis option.exhaust)
      qed
      moreover have "map app_name ?g = sort_key (\<lambda>n. (lower n, n)) (remdups (map app_name (copies i raw)))"
        using sorted_names [of i lower raw] unfolding g by (simp add: o_def row_of_def)
      ultimately show ?thesis using merge_apps [OF ne, of i] by (simp add: collapsed_def)
    qed
    then show ?thesis by simp
  qed
  finally show ?thesis unfolding xs .
qed

text \<open>
  C13. The list of titles has one row for each application that any library has a manifest of, by its id: the
  name is every distinct name the copies give, in alphabetical order, and the build is the one all copies
  are at, or none. So it does not depend on the order in which the libraries and their entries are read.
\<close>

theorem one_row_per_application:
  "apps_in lower dk libs = map (collapsed lower (concat (map (library_apps dk) libs)))
     (sorted_list_of_set (appid ` set (concat (map (library_apps dk) libs))))"
  unfolding apps_in_def first_collapse second_collapse app_ids_def ..

lemma apps_ids_distinct: "distinct (map appid (apps_in lower dk libs))"
proof -
  have "map appid (map (collapsed lower raw) is) = is" for raw "is" by (simp add: o_def collapsed_def map_idI)
  then show ?thesis
    unfolding apps_in_def first_collapse second_collapse by (simp add: app_ids_def del: map_map)
qed

text \<open>
  C31. A choice never names one application twice: when a text fits several titles of the list they are
  different applications, and a title is picked alone only when no other fits; an application id is
  matched exactly.
\<close>

theorem resolve_unambiguous:
  "case resolve lower (apps_in lower dk libs) wanted of
     NoMatch \<Rightarrow> True
   | One a \<Rightarrow> a \<in> set (apps_in lower dk libs) \<and>
       (if wanted \<noteq> [] \<and> list_all is_digit wanted then appid a = wanted
        else filter (\<lambda>a. contains (lower wanted) (lower (app_name a))) (apps_in lower dk libs) = [a])
   | Many as \<Rightarrow> 2 \<le> length as \<and> distinct (map appid as) \<and> set as \<subseteq> set (apps_in lower dk libs)"
proof -
  let ?l = "apps_in lower dk libs"
  let ?h = "filter (\<lambda>a. contains (lower wanted) (lower (app_name a))) ?l"
  show ?thesis
  proof (cases "wanted \<noteq> [] \<and> list_all is_digit wanted")
    case True
    then show ?thesis
      by (auto simp: resolve_def find_Some_iff split: option.splits)
  next
    case False
    define h where "h = ?h"
    have "distinct (map appid h)" unfolding h_def using apps_ids_distinct by (rule distinct_map_filter)
    moreover have "set h \<subseteq> set ?l" unfolding h_def by auto
    moreover have "resolve lower ?l wanted = (case h of [] \<Rightarrow> NoMatch | [a] \<Rightarrow> One a | _ \<Rightarrow> Many h)"
      unfolding resolve_def Let_def h_def using False by (subst if_not_P) (simp, rule refl)
    ultimately show ?thesis using False unfolding h_def [symmetric]
      by (auto split: list.splits)
  qed
qed

section \<open>Prefixes\<close>

lemma position_Some: "position P xs = Some n \<Longrightarrow> n < length xs \<and> P (xs ! n) \<and> (\<forall>m < n. \<not> P (xs ! m))"
proof (induction xs arbitrary: n)
  case (Cons x xs)
  then show ?case by (cases n) (auto simp: nth_Cons' gr0_conv_Suc less_Suc_eq_0_disj split: if_splits)
qed simp

text \<open>The prefix offered is the first of all that exist, and the owner's where it has one.\<close>

lemma prefix_is_first:
  "steam_prefix dk st i = (case prefixes dk st i of [] \<Rightarrow> None | p # _ \<Rightarrow> Some p)"
proof -
  have "find P xs = (case filter P xs of [] \<Rightarrow> None | p # _ \<Rightarrow> Some p)" for P and xs :: "'a list"
    by (induction xs) auto
  then show ?thesis by (simp add: steam_prefix_def prefixes_def)
qed

lemma prefix_candidates_all: "set (prefix_candidates dk st i) = prefix_of i ` set (st_libraries st)"
proof -
  let ?ls = "st_libraries st" and ?o = "position (owns dk i) (st_libraries st)"
  have "set ((case ?o of Some n \<Rightarrow> [n] | None \<Rightarrow> []) @ filter (\<lambda>n. Some n \<noteq> ?o) [0..<length ?ls]) = {0..<length ?ls}"
    using position_Some [of "owns dk i" ?ls] by (auto split: option.splits)
  moreover have "set ?ls = (!) ?ls ` {0..<length ?ls}" by (metis list.set_map map_nth set_upt)
  ultimately show ?thesis unfolding prefix_candidates_def Let_def by (simp only: set_map image_image)
qed

end
