(* ===== verification/Spec2Isabelle.thy ===== *)
theory Spec2Isabelle
  imports Parser Handshake Gaze Camera IpcServer Transport Connection Release Capture EndToEnd Recap
    UserRegFile AttrList Steam
begin

text \<open>
  A verification library for TobiiLinux, the user-space driver and tools for the Tobii Eye Tracker 5
  (Rust, \<^verbatim>\<open>src/crates\<close>).

  \<^bold>\<open>The program.\<close> The driver speaks a request and notification protocol with the tracker over two USB bulk
  pipes: requests and replies are TTP frames with TLV payloads, a message larger than a transfer is
  continued in further ones, and a session begins with a handshake that authenticates with HMAC-MD5.
  A daemon decodes gaze and hands it to clients over a Unix socket. An updater reads the releases of the
  repository, downloads an archive with curl or wget, checks it, and replaces the installed binaries. A
  capture decoder explains recordings of the USB traffic. The tools for games read wine registries, the
  settings files of games and what Steam has installed. The model is a shallow embedding: functions of
  the sources are functions here, on records and datatypes with the fields and constructors of the
  sources, machine integers are words, errors are the left side of a sum, and strings are lists of Unicode
  scalar values.

  \<^bold>\<open>Theories and sources.\<close>
  \<^item> Prelude: widths, byte strings, endian codecs (locale \<open>fixed_width\<close>), \<open>result\<close>, facts on lists. Text and
    Strings: UTF-8, checked and lossy, and the methods of \<^verbatim>\<open>str\<close>. Float64: \<^verbatim>\<open>f64\<close> as dyadic numbers
    with rounding and saturating casts. Blocks: what the hash functions share. Drain: taking frames off the
    front of a buffer (locale \<open>drainer\<close>).
  \<^item> \<^verbatim>\<open>tobii-protocol\<close>: Tlv (\<^verbatim>\<open>bytes.rs\<close>, \<^verbatim>\<open>error.rs\<close>, \<^verbatim>\<open>tlv.rs\<close>; a reader is a function from
    the cursor to a result and the moved cursor), Framing (\<^verbatim>\<open>frame.rs\<close>), Parser (\<^verbatim>\<open>parser.rs\<close>; the
    state is the accumulator), Commands (\<^verbatim>\<open>commands.rs\<close>, \<^verbatim>\<open>display.rs\<close>, \<^verbatim>\<open>calibration.rs\<close>,
    \<^verbatim>\<open>realm.rs\<close>), Md5 (\<^verbatim>\<open>md5.rs\<close>), Handshake (\<^verbatim>\<open>handshake.rs\<close>; a machine driven by lists of
    events), Gaze (\<^verbatim>\<open>gaze.rs\<close>), Camera (\<^verbatim>\<open>camera.rs\<close>).
  \<^item> \<^verbatim>\<open>tobii-usb\<close>: Transport (\<^verbatim>\<open>transport.rs\<close> and the replay and recording transports of
    \<^verbatim>\<open>capture.rs\<close>), Connection (\<^verbatim>\<open>connection.rs\<close>), Capture (recordings as text).
  \<^item> \<^verbatim>\<open>tobii-ipc\<close>: IpcCodec (\<^verbatim>\<open>lib.rs\<close>, \<^verbatim>\<open>codec.rs\<close>), IpcServer (\<^verbatim>\<open>server.rs\<close>,
    \<^verbatim>\<open>client.rs\<close>, \<^verbatim>\<open>path.rs\<close>).
  \<^item> \<^verbatim>\<open>tobii-update\<close> and \<^verbatim>\<open>tobii-config/src/sha256.rs\<close>: Version, Json and JsonGrammar, Release, Net,
    Sha256, Files (the file system), Swap, Archive, Install, Ownership, Folders, Downloads, Update, EndToEnd
    (all of \<^verbatim>\<open>install.rs\<close> but what is named below).
  \<^item> \<^verbatim>\<open>tobii-recap\<close>: Usbmon (\<^verbatim>\<open>pcap.rs\<close>, \<^verbatim>\<open>usbmon.rs\<close>), OutParser (\<^verbatim>\<open>out_parser.rs\<close>), Recap
    (\<^verbatim>\<open>decode.rs\<close>, \<^verbatim>\<open>catalog.rs\<close>, \<^verbatim>\<open>opnames.rs\<close>).
  \<^item> Tools for games: UserReg and UserRegFile (\<^verbatim>\<open>tobii-config/src/userreg.rs\<close>), Xml, XmlDoc and AttrList
    (\<^verbatim>\<open>tobii-gameconf/src/xml.rs\<close>, \<^verbatim>\<open>attrs.rs\<close>), Steam (\<^verbatim>\<open>tobii-steam/src/lib.rs\<close>).

  \<^bold>\<open>Interfaces.\<close> \<open>fixed_width\<close> (an integer codec) is interpreted on the six codecs of the protocol.
  \<open>field_reader\<close>, \<open>exact_field\<close> and \<open>field_sequence\<close> (a TLV field is read back as it was written, and lists of
  them) on the readers of Tlv, the stream catalog and the gaze row. \<open>drainer\<close> on the inbound and the outbound
  reassembler: chunk boundaries never matter, whatever is decided stays decided. \<open>stream_codec\<close> on the
  message format of the daemon. \<open>receiver\<close>, \<open>transport\<close> and \<open>prompt_transport\<close> are what the connection driver
  relies on, in terms of the transfers still to be delivered and the frames given up to now; they are
  interpreted on the replay transport, the recording wrapper and the USB transport.

  \<^bold>\<open>What the lemmas show.\<close>
  \<^item> Protocol: every field is read back; the reassemblers deliver the same frames for every chunking and
    never hold more than their bound; the streaming hashes equal their standards for every way of cutting
    the message; no run of the handshake authenticates without the answer its realm asks for; a gaze
    sample is the fold of the inventory of the columns, on every payload.
  \<^item> Driver: over every transport that meets the contract a connection sends the frames of the handshake
    in their order, a request takes exactly the reply it waits for and keeps every notification that passes,
    in order, and a connection with a tracker that answers succeeds. Recordings replay what they recorded.
  \<^item> Daemon: messages are read back in any segmentation of the stream, and every queue stays bounded under
    any sequence of polls and broadcasts.
  \<^item> Updater: the JSON reader terminates and reads every text of the grammar; an offered update is newer,
    from the listing, and for this machine; every process started gets a URL of the allowed hosts; at every
    moment, whatever system call fails, an update leaves the binaries all old or all new but for those it
    reports, and new only from an archive whose digest a trusted listing gives; a download folder let
    through is out of every other account's reach.
  \<^item> Capture decoder: the two directions do not influence each other, and a capture file written of a session
    decodes to that session.
  \<^item> Games: a registry, a settings file and the manifests of Steam give back what was written into them, in
    every spelling the formats have; Absent is answered only where nothing can be there.

  \<^bold>\<open>Bounds and fuel.\<close> The JSON reader takes fuel and descends at most 64 containers deep; \<open>2 * length + 2\<close> is
  always enough (\<open>Json.json_terminates\<close>). Loops that read a socket or a pipe are recursive on what is
  left to read. The handshake loop of the driver is bounded by its 400 steps as in the source. The wall
  clock is a parameter of a request: how often its deadline check still succeeds. The searches of the
  file system recurse on the finite tree. The reference XML documents and registries may have any size.

  \<^bold>\<open>Parameters and named hypotheses.\<close> Code that is not of this repository is a parameter: libusb (records of a
  bulk read and a bulk write), the programs curl, wget and tar, the package managers, the runs of the
  binaries, Unicode lower case, and the disk where only its answers matter. Where the file system
  changes (Files) its state is explicit, with inodes for hard links, and an oracle may fail any call; an
  oracle that fails everything from a point on is the process killed there. \<open>tar_ok\<close>: tar writes below
  its target directory only. \<open>net_ok\<close>, \<open>shelf_ok\<close>, \<open>removals_ok\<close>: a download writes its destination only, a
  read gives what a file holds, a removal removes its file only. \<open>unused\<close>: no file carries a scratch name of
  this process yet. Each property with such a hypothesis has a witness in which it holds.

  \<^bold>\<open>Not modelled.\<close> The GTK application, the command line programs, the bridge libraries for Windows games and the
  diagnostics report drive windows, processes and devices and decide little of their own. Head pose
  and output filters compute with \<^verbatim>\<open>f32\<close> and ONNX models. Of \<^verbatim>\<open>install.rs\<close> the wait for a child with
  a time limit, the path of the running program and progress lines are left out; of the others the texts of
  error messages, which appear as constructors, and the opening of files and sockets.
\<close>

end
